(* ===== verification/IvyPrelude.thy ===== *)
theory IvyPrelude
  imports Main
begin

text \<open>
  Prelude of the Ivy-C development: the collections of rewrite rules the component theories
  share, C's fixed-width arithmetic on \<open>nat\<close> and \<open>int\<close> with the wrap-around written out,
  memory blocks as partial maps from offsets to bytes, and the generic list lemmas.
\<close>

named_theorems frame_simps \<open>fields an operation leaves alone\<close>
named_theorems inv_intros \<open>preservation of invariants\<close>

section \<open>Outcomes that C leaves undefined\<close>

text \<open>
  An operation that may run into undefined behaviour returns \<open>Inl\<close> of one of these; the
  state of a defined outcome is \<open>Inr\<close>.
\<close>

datatype ub = UseAfterFree | NullDeref | OutOfBounds | BadShift | Uninitialised | BadFormat

type_synonym 's res = "ub + 's"

definition bindR :: "'s res \<Rightarrow> ('s \<Rightarrow> 't res) \<Rightarrow> 't res" where
  "bindR m f = (case m of Inl e \<Rightarrow> Inl e | Inr s \<Rightarrow> f s)"

lemma bindR_simps [simp]:
  "bindR (Inl e) f = Inl e" "bindR (Inr s) f = f s"
  by (simp_all add: bindR_def)

lemma bindR_eq_Inr: "bindR m f = Inr t \<longleftrightarrow> (\<exists>s. m = Inr s \<and> f s = Inr t)"
  by (cases m) auto

lemma bindR_eq_Inl: "bindR m f = Inl e \<longleftrightarrow> m = Inl e \<or> (\<exists>s. m = Inr s \<and> f s = Inl e)"
  by (cases m) auto

text \<open>Running an operation over a list, stopping at the first undefined step.\<close>

fun foldR :: "('a \<Rightarrow> 's \<Rightarrow> 's res) \<Rightarrow> 'a list \<Rightarrow> 's \<Rightarrow> 's res" where
  "foldR f [] s = Inr s"
| "foldR f (x # xs) s = bindR (f x s) (foldR f xs)"

lemma foldR_append: "foldR f (xs @ ys) s = bindR (foldR f xs s) (foldR f ys)"
proof (induction xs arbitrary: s)
  case (Cons x xs)
  then show ?case by (cases "f x s") auto
qed simp

lemma foldR_invariant:
  assumes "foldR f xs s = Inr t" and "I s"
    and "\<And>x s t. x \<in> set xs \<Longrightarrow> I s \<Longrightarrow> f x s = Inr t \<Longrightarrow> I t"
  shows "I t"
  using assms
proof (induction xs arbitrary: s)
  case (Cons x xs)
  from Cons.prems(1) obtain u where "f x s = Inr u" "foldR f xs u = Inr t"
    by (auto simp: bindR_eq_Inr)
  with Cons show ?case by (metis list.set_intros)
qed simp

section \<open>Machine integers\<close>

text \<open>
  \<open>unsigned int\<close> and \<open>unsigned short\<close> are naturals below the power of two, and \<open>int\<close> is read
  back from its 32-bit two's complement.
\<close>

definition u32 :: "int \<Rightarrow> nat" where
  "u32 x = nat (x mod 2 ^ 32)"

definition u16 :: "int \<Rightarrow> nat" where
  "u16 x = nat (x mod 2 ^ 16)"

definition s32 :: "int \<Rightarrow> int" where
  "s32 x = (x + 2 ^ 31) mod 2 ^ 32 - 2 ^ 31"

definition is_int32 :: "int \<Rightarrow> bool" where
  "is_int32 x \<longleftrightarrow> - (2 ^ 31) \<le> x \<and> x < 2 ^ 31"

lemma u32_id: "0 \<le> x \<Longrightarrow> x < 4294967296 \<Longrightarrow> u32 x = nat x"
  by (simp add: u32_def)

lemma u32_of_nat: "n < 4294967296 \<Longrightarrow> u32 (int n) = n"
  by (simp add: u32_def)

lemma u32_less: "u32 x < 4294967296"
  by (simp add: u32_def nat_less_iff)

lemma s32_id: "is_int32 x \<Longrightarrow> s32 x = x"
  by (simp add: is_int32_def s32_def)

lemma s32_of_nat: "n < 2147483648 \<Longrightarrow> s32 (int n) = int n"
  by (simp add: s32_def)

section \<open>Memory blocks\<close>

text \<open>
  A block obtained from \<open>malloc\<close> is a partial map from offsets to bytes; \<open>None\<close> is a byte
  that was never written (or lies outside the block). Reading one is an error.
\<close>

type_synonym mem = "nat \<Rightarrow> char option"

definition mem_write :: "mem \<Rightarrow> nat \<Rightarrow> string \<Rightarrow> mem" where
  "mem_write m a s = (\<lambda>i. if a \<le> i \<and> i < a + length s then Some (s ! (i - a)) else m i)"

definition defined_on :: "mem \<Rightarrow> nat \<Rightarrow> nat \<Rightarrow> bool" where
  "defined_on m a b \<longleftrightarrow> list_all (\<lambda>i. m i \<noteq> None) [a..<b]"

definition seg :: "mem \<Rightarrow> nat \<Rightarrow> nat \<Rightarrow> string" where
  "seg m a b = map (\<lambda>i. the (m i)) [a..<b]"

definition mem_read :: "mem \<Rightarrow> nat \<Rightarrow> nat \<Rightarrow> string option" where
  "mem_read m a n = (if defined_on m a (a + n) then Some (seg m a (a + n)) else None)"

lemma defined_on_iff: "defined_on m a b \<longleftrightarrow> (\<forall>i. a \<le> i \<longrightarrow> i < b \<longrightarrow> m i \<noteq> None)"
  by (auto simp: defined_on_def list_all_iff)

lemma length_seg [simp]: "length (seg m a b) = b - a"
  by (simp add: seg_def)

lemma seg_empty [simp]: "b \<le> a \<Longrightarrow> seg m a b = []"
  by (simp add: seg_def)

lemma defined_on_empty [simp]: "b \<le> a \<Longrightarrow> defined_on m a b"
  by (simp add: defined_on_iff)

lemma upt_split: "a \<le> b \<Longrightarrow> b \<le> c \<Longrightarrow> [a..<c] = [a..<b] @ [b..<c]"
  using upt_add_eq_append [of a b "c - b"] by simp

lemma seg_split: "a \<le> b \<Longrightarrow> b \<le> c \<Longrightarrow> seg m a c = seg m a b @ seg m b c"
  by (simp add: seg_def upt_split [of a b c])

lemma defined_on_split: "a \<le> b \<Longrightarrow> b \<le> c \<Longrightarrow> defined_on m a c \<longleftrightarrow> defined_on m a b \<and> defined_on m b c"
  unfolding defined_on_iff by (meson le_trans less_le_trans not_le)

lemma defined_on_sub: "defined_on m a b \<Longrightarrow> a \<le> a' \<Longrightarrow> b' \<le> b \<Longrightarrow> defined_on m a' b'"
  by (auto simp: defined_on_iff)

lemma mem_write_empty [simp]: "mem_write m a [] = m"
  by (auto simp: mem_write_def fun_eq_iff)

lemma seg_write_same: "b = a + length s \<Longrightarrow> seg (mem_write m a s) a b = s"
  by (rule nth_equalityI) (simp_all add: seg_def mem_write_def)

lemma seg_write_other: "b \<le> a' \<or> a' + length s \<le> a \<Longrightarrow> seg (mem_write m a' s) a b = seg m a b"
  by (auto simp: seg_def mem_write_def)

lemma defined_write_same: "b \<le> a + length s \<Longrightarrow> defined_on (mem_write m a s) a b"
  by (auto simp: defined_on_iff mem_write_def)

lemma defined_write_mono: "defined_on m a b \<Longrightarrow> defined_on (mem_write m a' s) a b"
  by (auto simp: defined_on_iff mem_write_def)

lemma mem_read_SomeD: "mem_read m a n = Some s \<Longrightarrow> defined_on m a (a + n) \<and> s = seg m a (a + n)"
  by (auto simp: mem_read_def split: if_splits)

lemma mem_read_seg: "defined_on m a b \<Longrightarrow> a + n \<le> b \<Longrightarrow> mem_read m a n = Some (seg m a (a + n))"
  by (auto simp: mem_read_def intro: defined_on_sub)

lemma take_seg: "a + n \<le> b \<Longrightarrow> take n (seg m a b) = seg m a (a + n)"
  by (simp add: seg_def take_map)

lemma drop_seg: "drop n (seg m a b) = seg m (a + n) b"
  by (simp add: seg_def drop_map)

section \<open>Lists\<close>

lemma find_Some_mem: "find P xs = Some x \<Longrightarrow> x \<in> set xs \<and> P x"
  by (auto simp: find_Some_iff)

lemma find_map_inv:
  "(\<And>x. P (f x) = P x) \<Longrightarrow> find P (map f xs) = map_option f (find P xs)"
  by (induction xs) auto

lemma find_filter_other:
  "(\<And>x. P x \<Longrightarrow> Q x) \<Longrightarrow> find P (filter Q xs) = find P xs"
  by (induction xs) auto

lemma sum_list_map_filter_if:
  "sum_list (map (\<lambda>x. if P x then f x else (0::nat)) xs) = sum_list (map f (filter P xs))"
  by (induction xs) auto

end
