(* ===== verification/Posix.thy ===== *)
theory Posix
  imports IvyPrelude
begin

text \<open>
  The operating system as the library sees it: \<open>send\<close> on a non-blocking stream socket.
  What the kernel will answer is a script of outcomes, one per call, so that a theorem for
  every script covers every behaviour of the network. \<open>wire fd\<close> holds the bytes the kernel
  has accepted on a descriptor, in order.
\<close>

datatype send_outcome =
    Sent nat        \<comment> \<open>at most this many bytes are taken\<close>
  | WouldBlock      \<comment> \<open>\<open>-1\<close> with \<open>errno == EWOULDBLOCK\<close>\<close>
  | SendFails       \<comment> \<open>\<open>-1\<close> with another \<open>errno\<close>\<close>

record net =
  script :: "send_outcome list"
  wire :: "nat \<Rightarrow> string"

text \<open>
  \<open>os_send fd data n\<close> is the return value, whether \<open>errno\<close> is \<open>EWOULDBLOCK\<close>, and the network
  afterwards. When the script has run out the kernel takes everything.
\<close>

fun os_send :: "nat \<Rightarrow> string \<Rightarrow> net \<Rightarrow> int \<times> bool \<times> net" where
  "os_send fd data n =
     (case script n of
        [] \<Rightarrow> (int (length data), False, n\<lparr>wire := (wire n)(fd := wire n fd @ data)\<rparr>)
      | Sent k # r \<Rightarrow>
          (int (min k (length data)), False,
           n\<lparr>script := r, wire := (wire n)(fd := wire n fd @ take k data)\<rparr>)
      | WouldBlock # r \<Rightarrow> (-1, True, n\<lparr>script := r\<rparr>)
      | SendFails # r \<Rightarrow> (-1, False, n\<lparr>script := r\<rparr>))"

declare os_send.simps [simp del]

text \<open>Answers of \<open>send\<close> among which there is a \<open>-1\<close>, and a network that will give one.\<close>

definition failing :: "send_outcome list \<Rightarrow> bool" where
  "failing xs \<longleftrightarrow> WouldBlock \<in> set xs \<or> SendFails \<in> set xs"

lemma failing_simps [simp]:
  "\<not> failing []" "failing (x # xs) \<longleftrightarrow> x = WouldBlock \<or> x = SendFails \<or> failing xs"
  "failing (xs @ ys) \<longleftrightarrow> failing xs \<or> failing ys"
  by (auto simp: failing_def)

definition negative_sends :: "net \<Rightarrow> bool" where
  "negative_sends n \<longleftrightarrow> (\<exists>x \<in> set (script n). x = WouldBlock \<or> x = SendFails)"

lemma negative_sends_failing: "negative_sends n \<longleftrightarrow> failing (script n)"
  by (auto simp: negative_sends_def failing_def)

lemma os_send_cases:
  assumes "os_send fd data n = (r, wb, n')"
  obtains (sent) k where "k \<le> length data" "r = int k" "\<not> wb"
      "wire n' = (wire n)(fd := wire n fd @ take k data)" "script n' = tl (script n)"
    | (fails) "r = -1" "wire n' = wire n" "script n \<noteq> []"
      "hd (script n) = (if wb then WouldBlock else SendFails)" "script n' = tl (script n)"
proof (cases "script n")
  case Nil
  then show thesis
    using assms by (intro sent [of "length data"]) (auto simp: os_send.simps)
next
  case (Cons x xs)
  show thesis
  proof (cases x)
    case (Sent k)
    with Cons show thesis
      using assms by (intro sent [of "min k (length data)"])
        (auto simp: os_send.simps min_def)
  next
    case WouldBlock
    with Cons show thesis
      using assms by (intro fails) (auto simp: os_send.simps)
  next
    case SendFails
    with Cons show thesis
      using assms by (intro fails) (auto simp: os_send.simps)
  qed
qed

lemma os_send_script:
  assumes "os_send fd data n = (r, wb, n')"
  shows "\<exists>u. script n = u @ script n' \<and> (failing u \<longleftrightarrow> r = -1)"
  using assms
proof (cases rule: os_send_cases)
  case fails
  then show ?thesis by (intro exI [of _ "[hd (script n)]"]) (cases "script n"; auto split: if_splits)
next
  case (sent k)
  then show ?thesis
    using assms by (intro exI [of _ "take 1 (script n)"])
      (cases "script n"; auto simp: os_send.simps split: send_outcome.splits)
qed

lemma os_send_positive:
  assumes "os_send fd data n = (r, wb, n')" and "\<not> negative_sends n"
  shows "\<exists>k \<le> length data. r = int k \<and> \<not> wb \<and> \<not> negative_sends n' \<and>
           wire n' = (wire n)(fd := wire n fd @ take k data)"
  using assms(1)
proof (cases rule: os_send_cases)
  case (sent k)
  moreover have "\<not> negative_sends n'"
    using assms(2) sent(5) by (cases "script n") (auto simp: negative_sends_def)
  ultimately show ?thesis by blast
next
  case fails
  then show ?thesis
    using assms(2) by (cases "script n") (auto simp: negative_sends_def split: if_splits)
qed

end
