(* ===== verification/IvyFifo.thy ===== *)
theory IvyFifo
  imports Posix
begin

text \<open>
  The circular buffer of \<open>ivyfifo.c\<close>, where messages wait while a peer is congested. The
  three pointers of the C structure are offsets from \<open>buffer\<close>; they are integers because the
  code can move one below the block. An operation returns \<open>None\<close> when it would touch a byte
  outside the block, or one never written, or when its loop does not end.
\<close>

section \<open>The structure and its observers\<close>

definition IVY_FIFO_ALLOC_SIZE :: nat where "IVY_FIFO_ALLOC_SIZE = 262144"

definition IVY_FIFO_MAX_ALLOC_SIZE :: nat where "IVY_FIFO_MAX_ALLOC_SIZE = 32 * 1048576"

record IvyFifoBuffer =
  f_buffer :: mem
  f_end :: nat        \<comment> \<open>\<open>end - buffer\<close>\<close>
  f_rptr :: int
  f_wptr :: int
  f_full :: bool

definition IvyFifoInit :: IvyFifoBuffer where
  "IvyFifoInit = \<lparr>f_buffer = Map.empty, f_end = IVY_FIFO_ALLOC_SIZE,
     f_rptr = 0, f_wptr = 0, f_full = False\<rparr>"

definition IvyFifoNew :: IvyFifoBuffer where
  "IvyFifoNew = IvyFifoInit"

definition IvyFifoSize :: "IvyFifoBuffer \<Rightarrow> nat" where
  "IvyFifoSize f = u32 (int (f_end f))"

definition IvyFifoLength :: "IvyFifoBuffer \<Rightarrow> nat" where
  "IvyFifoLength f =
     (let sz = f_wptr f - f_rptr f
      in u32 (if sz < 0 then sz + int (f_end f) else sz))"

definition IvyFifoAvail :: "IvyFifoBuffer \<Rightarrow> nat" where
  "IvyFifoAvail f = u32 (int (IvyFifoSize f) - int (IvyFifoLength f))"

definition IvyFifoIsFull :: "IvyFifoBuffer \<Rightarrow> bool" where
  "IvyFifoIsFull f = f_full f"

text \<open>The bytes \<open>[off, off + n)\<close> of the block, as \<open>memcpy\<close> and \<open>send\<close> read them, and the same
  bytes overwritten.\<close>

definition fifo_peek :: "IvyFifoBuffer \<Rightarrow> int \<Rightarrow> nat \<Rightarrow> string option" where
  "fifo_peek f off n =
     (if n = 0 then Some []
      else if off < 0 \<or> int (f_end f) < off + int n then None
      else mem_read (f_buffer f) (nat off) n)"

definition fifo_poke :: "IvyFifoBuffer \<Rightarrow> int \<Rightarrow> string \<Rightarrow> IvyFifoBuffer option" where
  "fifo_poke f off s =
     (if s = [] then Some f
      else if off < 0 \<or> int (f_end f) < off + int (length s) then None
      else Some (f\<lparr>f_buffer := mem_write (f_buffer f) (nat off) s\<rparr>))"

section \<open>Operations\<close>

definition IvyFifoDrain :: "IvyFifoBuffer \<Rightarrow> int \<Rightarrow> IvyFifoBuffer" where
  "IvyFifoDrain f n =
     (let r = f_rptr f + n;
          r = (if r \<ge> int (f_end f) then r - int (f_end f) else r)
      in f\<lparr>f_rptr := r, f_full := (if n > 0 then False else f_full f)\<rparr>)"

partial_function (option) fifo_read_loop ::
    "IvyFifoBuffer \<Rightarrow> nat \<Rightarrow> string \<Rightarrow> (string \<times> IvyFifoBuffer) option" where
  "fifo_read_loop f bytesToRead dest =
     (let len = min (u32 (int (f_end f) - f_rptr f)) bytesToRead
      in Option.bind (fifo_peek f (f_rptr f) len) (\<lambda>d.
           let f' = IvyFifoDrain f (s32 (int len)); n = bytesToRead - len
           in if n > 0 then fifo_read_loop f' n (dest @ d) else Some (dest @ d, f')))"

text \<open>The result is the count returned, the bytes copied to \<open>dest\<close> and the buffer after.\<close>

definition IvyFifoGenericRead ::
    "IvyFifoBuffer \<Rightarrow> nat \<Rightarrow> (nat \<times> string \<times> IvyFifoBuffer) option" where
  "IvyFifoGenericRead f buf_size =
     (let n = min buf_size (IvyFifoLength f)
      in map_option (\<lambda>(d, f'). (n, d, f')) (fifo_read_loop f n []))"

definition IvyFifoRead ::
    "IvyFifoBuffer \<Rightarrow> nat \<Rightarrow> (nat \<times> string \<times> IvyFifoBuffer) option" where
  "IvyFifoRead f buf_size = IvyFifoGenericRead f buf_size"

definition alignedNewSize :: "nat \<Rightarrow> nat" where
  "alignedNewSize new_size =
     u32 (int ((new_size div IVY_FIFO_ALLOC_SIZE + 1) * IVY_FIFO_ALLOC_SIZE))"

definition IvyFifoRealloc :: "IvyFifoBuffer \<Rightarrow> nat \<Rightarrow> IvyFifoBuffer option" where
  "IvyFifoRealloc f new_size =
     (let old_size = IvyFifoSize f;
          al = alignedNewSize new_size
      in if al > IVY_FIFO_MAX_ALLOC_SIZE then Some (f\<lparr>f_full := True\<rparr>)
         else if old_size < al then
           (let len = IvyFifoLength f;
                f2 = \<lparr>f_buffer = Map.empty, f_end = al,
                      f_rptr = 0, f_wptr = 0, f_full = False\<rparr>
            in Option.bind (IvyFifoRead f len) (\<lambda>(_, d, _).
               Option.bind (fifo_poke f2 0 d) (\<lambda>f2.
                 Some (f2\<lparr>f_wptr := s32 (int len)\<rparr>))))
         else Some f)"

partial_function (option) fifo_write_loop ::
    "IvyFifoBuffer \<Rightarrow> string \<Rightarrow> IvyFifoBuffer option" where
  "fifo_write_loop f buf =
     (let len = min (u32 (int (f_end f) - f_wptr f)) (length buf)
      in Option.bind (fifo_poke f (f_wptr f) (take len buf)) (\<lambda>f.
           let w = f_wptr f + int len;
               f' = f\<lparr>f_wptr := (if w \<ge> int (f_end f) then 0 else w)\<rparr>;
               rest = drop len buf
           in if rest \<noteq> [] then fifo_write_loop f' rest else Some f'))"

definition IvyFifoWrite :: "IvyFifoBuffer \<Rightarrow> string \<Rightarrow> IvyFifoBuffer option" where
  "IvyFifoWrite f buf =
     Option.bind
       (if length buf \<ge> IvyFifoAvail f
        then IvyFifoRealloc f (u32 (int (length buf) + int (IvyFifoLength f)))
        else Some f)
       (\<lambda>f. if f_full f then Some f else fifo_write_loop f buf)"

text \<open>
  \<open>realLen\<close> is unsigned in the code, so a failed \<open>send\<close> (\<open>-1\<close>) becomes \<open>2 ^ 32 - 1\<close> there and
  is read back as \<open>-1\<close> by the \<open>int\<close> parameter of \<open>IvyFifoDrain\<close>.
\<close>

partial_function (option) IvyFifoSendSocket ::
    "IvyFifoBuffer \<Rightarrow> nat \<Rightarrow> net \<Rightarrow> (nat \<times> IvyFifoBuffer \<times> net) option" where
  "IvyFifoSendSocket f fd n =
     (let maxLen = min (u32 (int (f_end f) - f_rptr f)) (IvyFifoLength f)
      in Option.bind (fifo_peek f (f_rptr f) maxLen) (\<lambda>d.
           let ans = os_send fd d n;
               realLen = u32 (fst ans);
               n' = snd (snd ans);
               f' = IvyFifoDrain f (s32 (int realLen))
           in if IvyFifoLength f' \<noteq> 0 \<and> maxLen = realLen
              then IvyFifoSendSocket f' fd n'
              else Some (IvyFifoLength f', f', n')))"

section \<open>The invariant and the bytes waiting\<close>

definition fifo_len :: "IvyFifoBuffer \<Rightarrow> nat" where
  "fifo_len f =
     (let r = nat (f_rptr f); w = nat (f_wptr f)
      in if r \<le> w then w - r else f_end f - r + w)"

definition fifo_abs :: "IvyFifoBuffer \<Rightarrow> string" where
  "fifo_abs f =
     (let r = nat (f_rptr f); w = nat (f_wptr f)
      in if r \<le> w then seg (f_buffer f) r w
         else seg (f_buffer f) r (f_end f) @ seg (f_buffer f) 0 w)"

text \<open>Both pointers lie in the block and every byte between them has been written.\<close>

definition fifo_inv :: "IvyFifoBuffer \<Rightarrow> bool" where
  "fifo_inv f \<longleftrightarrow>
     f_end f \<le> IVY_FIFO_MAX_ALLOC_SIZE \<and>
     0 \<le> f_rptr f \<and> f_rptr f < int (f_end f) \<and>
     0 \<le> f_wptr f \<and> f_wptr f < int (f_end f) \<and>
     (let r = nat (f_rptr f); w = nat (f_wptr f)
      in if r \<le> w then defined_on (f_buffer f) r w
         else defined_on (f_buffer f) r (f_end f) \<and> defined_on (f_buffer f) 0 w)"

lemmas fifo_size_defs = IVY_FIFO_ALLOC_SIZE_def IVY_FIFO_MAX_ALLOC_SIZE_def

lemma fifo_inv_bounds:
  assumes "fifo_inv f"
  shows "f_end f \<le> 33554432" "0 \<le> f_rptr f" "f_rptr f < int (f_end f)"
    "0 \<le> f_wptr f" "f_wptr f < int (f_end f)"
  using assms by (auto simp: fifo_inv_def fifo_size_defs)

text \<open>Under the invariant the pointers are naturals: the form the proofs below compute with.\<close>

lemma fifo_natE:
  assumes "fifo_inv f"
  obtains r w where "f_rptr f = int r" "f_wptr f = int w" "r < f_end f" "w < f_end f"
    "f_end f \<le> 33554432"
  using fifo_inv_bounds [OF assms] by (metis of_nat_less_iff nonneg_int_cases)

lemma length_fifo_abs [simp]: "length (fifo_abs f) = fifo_len f"
  by (simp add: fifo_abs_def fifo_len_def Let_def)

lemma fifo_abs_NilD: "fifo_abs f = [] \<Longrightarrow> fifo_len f = 0"
  by (metis length_fifo_abs list.size(3))

lemma fifo_len_less: "fifo_inv f \<Longrightarrow> fifo_len f < f_end f"
  by (erule fifo_natE) (auto simp: fifo_len_def)

lemma IvyFifoSize_eq: "fifo_inv f \<Longrightarrow> IvyFifoSize f = f_end f"
  by (erule fifo_natE) (simp add: IvyFifoSize_def u32_of_nat)

lemma IvyFifoLength_eq: "fifo_inv f \<Longrightarrow> IvyFifoLength f = fifo_len f"
  by (erule fifo_natE) (auto simp: IvyFifoLength_def fifo_len_def u32_def Let_def)

lemma IvyFifoAvail_eq: "fifo_inv f \<Longrightarrow> IvyFifoAvail f = f_end f - fifo_len f"
  using fifo_len_less [of f] fifo_inv_bounds [of f]
  by (simp add: IvyFifoAvail_def IvyFifoSize_eq IvyFifoLength_eq u32_def)

lemma fifo_abs_full [simp]: "fifo_abs (f\<lparr>f_full := b\<rparr>) = fifo_abs f"
  by (simp add: fifo_abs_def Let_def)

lemma fifo_inv_full [simp]: "fifo_inv (f\<lparr>f_full := b\<rparr>) = fifo_inv f"
  by (simp add: fifo_inv_def Let_def)

lemma fifo_init: "fifo_inv IvyFifoNew" "fifo_abs IvyFifoNew = []" "\<not> f_full IvyFifoNew"
  by (simp_all add: IvyFifoNew_def IvyFifoInit_def fifo_inv_def fifo_abs_def fifo_size_defs)

section \<open>Taking bytes out\<close>

text \<open>What lies before the end of the block can be read and drained in one piece.\<close>

lemma drain_chunk:
  assumes inv: "fifo_inv f" and k: "k \<le> fifo_len f" "int k \<le> int (f_end f) - f_rptr f"
  shows "fifo_peek f (f_rptr f) k = Some (take k (fifo_abs f))"
    and "fifo_inv (IvyFifoDrain f (int k))"
    and "fifo_abs (IvyFifoDrain f (int k)) = drop k (fifo_abs f)"
    and "fifo_len (IvyFifoDrain f (int k)) = fifo_len f - k"
    and "f_end (IvyFifoDrain f (int k)) = f_end f"
proof -
  from inv obtain r w where rw [simp]: "f_rptr f = int r" "f_wptr f = int w"
    and b: "r < f_end f" "w < f_end f" "f_end f \<le> 33554432" by (rule fifo_natE)
  have def: "if r \<le> w then defined_on (f_buffer f) r w
      else defined_on (f_buffer f) r (f_end f) \<and> defined_on (f_buffer f) 0 w"
    using inv by (simp add: fifo_inv_def)
  have rk: "r + k \<le> f_end f" using k by simp
  show "fifo_peek f (f_rptr f) k = Some (take k (fifo_abs f))"
    using def k rk b
    by (auto simp: fifo_peek_def fifo_abs_def fifo_len_def take_seg mem_read_seg)
  show abs: "fifo_abs (IvyFifoDrain f (int k)) = drop k (fifo_abs f)"
    using k rk b
    by (auto simp: fifo_abs_def fifo_len_def IvyFifoDrain_def Let_def drop_seg nat_int_add)
  then show "fifo_len (IvyFifoDrain f (int k)) = fifo_len f - k"
    by (metis length_drop length_fifo_abs)
  show "fifo_inv (IvyFifoDrain f (int k))"
    using def k rk b
    by (cases "r \<le> w") (auto simp: fifo_inv_def fifo_len_def IvyFifoDrain_def Let_def
        fifo_size_defs nat_int_add intro: defined_on_sub)
  show "f_end (IvyFifoDrain f (int k)) = f_end f"
    by (simp add: IvyFifoDrain_def Let_def)
qed

lemma drain_full: "f_full (IvyFifoDrain f n) \<longleftrightarrow> f_full f \<and> n \<le> 0"
  by (simp add: IvyFifoDrain_def Let_def)

lemma u32_room: "fifo_inv f \<Longrightarrow> u32 (int (f_end f) - f_rptr f) = f_end f - nat (f_rptr f)"
  "fifo_inv f \<Longrightarrow> u32 (int (f_end f) - f_wptr f) = f_end f - nat (f_wptr f)"
  by (erule fifo_natE, simp add: u32_def)+

lemma fifo_read_loop_correct:
  assumes "fifo_inv f" and "n \<le> fifo_len f"
  shows "\<exists>f'. fifo_read_loop f n dest = Some (dest @ take n (fifo_abs f), f') \<and>
           fifo_inv f' \<and> fifo_abs f' = drop n (fifo_abs f) \<and> f_end f' = f_end f"
  using assms
proof (induction n arbitrary: f dest rule: less_induct)
  case (less n)
  define k where "k = min (f_end f - nat (f_rptr f)) n"
  have b: "f_end f \<le> 33554432" "0 \<le> f_rptr f" "f_rptr f < int (f_end f)"
    using fifo_inv_bounds [OF less.prems(1)] by auto
  have k: "k \<le> fifo_len f" "int k \<le> int (f_end f) - f_rptr f" "s32 (int k) = int k"
    using less.prems b by (auto simp: k_def s32_of_nat)
  note chunk = drain_chunk [OF less.prems(1) k(1,2)]
  have step: "fifo_read_loop f n dest =
      (let f' = IvyFifoDrain f (int k); d = take k (fifo_abs f)
       in if n - k > 0 then fifo_read_loop f' (n - k) (dest @ d) else Some (dest @ d, f'))"
    using chunk(1) k(3) by (subst fifo_read_loop.simps)
      (simp add: u32_room(1) [OF less.prems(1)] Let_def flip: k_def)
  show ?case
  proof (cases "n - k > 0")
    case True
    then have "0 < k" using b by (auto simp: k_def min_def split: if_splits)
    with True less.IH [of "n - k" "IvyFifoDrain f (int k)" "dest @ take k (fifo_abs f)"]
      less.prems chunk k
    obtain f' where "fifo_read_loop f n dest =
        Some ((dest @ take k (fifo_abs f)) @ take (n - k) (drop k (fifo_abs f)), f')"
      and "fifo_inv f'" "fifo_abs f' = drop (n - k) (drop k (fifo_abs f))" "f_end f' = f_end f"
      using step by (force simp: Let_def)
    moreover have "k + (n - k) = n" using True by simp
    ultimately show ?thesis
      by (metis append.assoc take_add drop_drop add.commute)
  next
    case False
    then have "k = n" by (simp add: k_def)
    with step chunk show ?thesis by (simp add: Let_def)
  qed
qed

text \<open>A read returns the oldest bytes, as many as are there, and leaves the rest.\<close>

lemma IvyFifoRead_correct:
  assumes "fifo_inv f"
  shows "\<exists>f'. IvyFifoRead f n = Some (min n (fifo_len f), take n (fifo_abs f), f') \<and>
           fifo_inv f' \<and> fifo_abs f' = drop n (fifo_abs f)"
proof -
  let ?n = "min n (fifo_len f)"
  have "take ?n (fifo_abs f) = take n (fifo_abs f)" "drop ?n (fifo_abs f) = drop n (fifo_abs f)"
    by (simp_all add: min_def)
  with fifo_read_loop_correct [OF assms, of ?n "[]"] show ?thesis
    by (auto simp: IvyFifoRead_def IvyFifoGenericRead_def IvyFifoLength_eq [OF assms])
qed

section \<open>Putting bytes in\<close>

text \<open>Advancing the write pointer past a chunk, back to the start at the end of the block.\<close>

definition bump_wptr :: "IvyFifoBuffer \<Rightarrow> nat \<Rightarrow> IvyFifoBuffer" where
  "bump_wptr f k =
     (let w = f_wptr f + int k in f\<lparr>f_wptr := (if w \<ge> int (f_end f) then 0 else w)\<rparr>)"

lemma bump_wptr_frame [frame_simps, simp]:
  "f_end (bump_wptr f k) = f_end f" "f_full (bump_wptr f k) = f_full f"
  "f_rptr (bump_wptr f k) = f_rptr f" "f_buffer (bump_wptr f k) = f_buffer f"
  by (simp_all add: bump_wptr_def Let_def)

lemma poke_chunk:
  assumes inv: "fifo_inv f" and s: "int (length s) \<le> int (f_end f) - f_wptr f"
    and room: "fifo_len f + length s < f_end f"
  shows "\<exists>g. fifo_poke f (f_wptr f) s = Some g \<and> f_wptr g = f_wptr f \<and>
           fifo_inv (bump_wptr g (length s)) \<and>
           fifo_abs (bump_wptr g (length s)) = fifo_abs f @ s \<and>
           f_end (bump_wptr g (length s)) = f_end f \<and>
           f_full (bump_wptr g (length s)) = f_full f"
proof -
  from inv obtain r w where rw [simp]: "f_rptr f = int r" "f_wptr f = int w"
    and b: "r < f_end f" "w < f_end f" "f_end f \<le> 33554432" by (rule fifo_natE)
  have wk: "w + length s \<le> f_end f" using s by simp
  define m where "m = mem_write (f_buffer f) w s"
  have poke: "fifo_poke f (f_wptr f) s = Some (f\<lparr>f_buffer := m\<rparr>)"
    using wk by (auto simp: fifo_poke_def m_def)
  have kept: "seg m a b = seg (f_buffer f) a b" if "b \<le> w \<or> w + length s \<le> a" for a b
    using that by (simp add: m_def seg_write_other)
  have new: "seg m w (w + length s) = s" by (simp add: m_def seg_write_same)
  have def: "defined_on m w (w + length s)"
    by (simp add: m_def defined_write_same)
  have mono: "defined_on (f_buffer f) a b \<Longrightarrow> defined_on m a b" for a b
    by (simp add: m_def defined_write_mono)
  let ?h = "bump_wptr (f\<lparr>f_buffer := m\<rparr>) (length s)"
  show ?thesis
  proof (cases "r \<le> w")
    case True
    have room': "w - r + length s < f_end f" using room True by (simp add: fifo_len_def)
    have whole: "seg m r (w + length s) = seg (f_buffer f) r w @ s"
      using seg_split [of r w "w + length s" m] True kept [of w r] new by simp
    have defw: "defined_on m r (w + length s)"
      using inv True mono def defined_on_split [of r w "w + length s" m]
      by (auto simp: fifo_inv_def)
    show ?thesis
    proof (cases "w + length s = f_end f")
      case True
      then have "0 < r" using room' b by linarith
      then have "fifo_inv ?h" "fifo_abs ?h = fifo_abs f @ s"
        using True b whole defw \<open>r \<le> w\<close>
        by (auto simp: bump_wptr_def fifo_inv_def fifo_abs_def fifo_size_defs Let_def)
      with poke show ?thesis by simp
    next
      case False
      with wk have "int w + int (length s) < int (f_end f)" by simp
      then have "fifo_inv ?h" "fifo_abs ?h = fifo_abs f @ s"
        using b whole defw \<open>r \<le> w\<close>
        by (auto simp: bump_wptr_def fifo_inv_def fifo_abs_def fifo_size_defs Let_def nat_int_add)
      with poke show ?thesis by simp
    qed
  next
    case False
    have r: "w + length s < r" using room False b by (auto simp: fifo_len_def)
    have whole: "seg m 0 (w + length s) = seg (f_buffer f) 0 w @ s"
      using seg_split [of 0 w "w + length s" m] kept [of w 0] new by simp
    have upper: "seg m r (f_end f) = seg (f_buffer f) r (f_end f)"
      using kept r by simp
    have defw: "defined_on m 0 (w + length s)" "defined_on m r (f_end f)"
      using inv False mono def defined_on_split [of 0 w "w + length s" m]
      by (auto simp: fifo_inv_def)
    have "int w + int (length s) < int (f_end f)" using r b by simp
    then have "fifo_inv ?h" "fifo_abs ?h = fifo_abs f @ s"
      using b whole upper defw r False
      by (auto simp: bump_wptr_def fifo_inv_def fifo_abs_def fifo_size_defs Let_def nat_int_add)
    with poke show ?thesis by simp
  qed
qed

lemma fifo_write_loop_correct:
  assumes "fifo_inv f" and "fifo_len f + length buf < f_end f"
  shows "\<exists>f'. fifo_write_loop f buf = Some f' \<and> fifo_inv f' \<and>
           fifo_abs f' = fifo_abs f @ buf \<and> f_full f' = f_full f \<and> f_end f' = f_end f"
  using assms
proof (induction "length buf" arbitrary: f buf rule: less_induct)
  case less
  define k where "k = min (f_end f - nat (f_wptr f)) (length buf)"
  have b: "0 \<le> f_wptr f" "f_wptr f < int (f_end f)"
    using fifo_inv_bounds [OF less.prems(1)] by auto
  have k: "length (take k buf) = k" "k \<le> length buf" "int k \<le> int (f_end f) - f_wptr f"
    using b by (auto simp: k_def)
  obtain g where g: "fifo_poke f (f_wptr f) (take k buf) = Some g" "f_wptr g = f_wptr f"
    and h: "fifo_inv (bump_wptr g k)" "fifo_abs (bump_wptr g k) = fifo_abs f @ take k buf"
      "f_end (bump_wptr g k) = f_end f" "f_full (bump_wptr g k) = f_full f"
    using poke_chunk [OF less.prems(1), of "take k buf"] k less.prems(2)
    by (metis add_less_cancel_left le_less_trans add_le_cancel_left length_take min.cobounded1)
  have step: "fifo_write_loop f buf =
      (if drop k buf \<noteq> [] then fifo_write_loop (bump_wptr g k) (drop k buf)
       else Some (bump_wptr g k))"
    using g(1) by (subst fifo_write_loop.simps)
      (simp add: u32_room(2) [OF less.prems(1)] bump_wptr_def Let_def flip: k_def)
  show ?case
  proof (cases "drop k buf = []")
    case True
    with step h show ?thesis by simp
  next
    case False
    then have "0 < k" using b by (auto simp: k_def min_def split: if_splits)
    then have "length (drop k buf) < length buf"
      using False by (cases buf) auto
    moreover have "fifo_len (bump_wptr g k) + length (drop k buf) < f_end (bump_wptr g k)"
      using arg_cong [OF h(2), of length] h(3) less.prems(2) k(1) by auto
    ultimately show ?thesis
      using less.hyps [of "drop k buf" "bump_wptr g k"] h step False by (auto simp: append.assoc)
  qed
qed

lemma alignedNewSize_bounds:
  assumes "n < 4000000000"
  shows "n < alignedNewSize n"
    and "alignedNewSize n > IVY_FIFO_MAX_ALLOC_SIZE \<longleftrightarrow> n \<ge> IVY_FIFO_MAX_ALLOC_SIZE"
proof -
  define q where "q = n div 262144"
  have q: "q * 262144 \<le> n" "n < (q + 1) * 262144" unfolding q_def by simp_all
  have "alignedNewSize n = u32 (int ((q + 1) * 262144))"
    by (simp only: alignedNewSize_def q_def IVY_FIFO_ALLOC_SIZE_def)
  also have "\<dots> = (q + 1) * 262144" using q(1) assms by (intro u32_of_nat) simp
  finally have al: "alignedNewSize n = (q + 1) * 262144" .
  with q show "n < alignedNewSize n" by simp
  show "alignedNewSize n > IVY_FIFO_MAX_ALLOC_SIZE \<longleftrightarrow> n \<ge> IVY_FIFO_MAX_ALLOC_SIZE"
  proof (cases "128 \<le> q")
    case True
    with q show ?thesis unfolding al fifo_size_defs by simp
  next
    case False
    then have "(q + 1) * 262144 \<le> 33554432" by simp
    with q(2) show ?thesis unfolding al fifo_size_defs by linarith
  qed
qed

text \<open>
  Reallocation keeps the waiting bytes. It either marks the buffer full, when the aligned size
  would pass the maximum, or leaves room for more than \<open>new_size\<close> bytes.
\<close>

lemma IvyFifoRealloc_correct:
  assumes inv: "fifo_inv f" and n: "n < 4000000000" "fifo_len f \<le> n"
  shows "if n \<ge> IVY_FIFO_MAX_ALLOC_SIZE then IvyFifoRealloc f n = Some (f\<lparr>f_full := True\<rparr>)
         else \<exists>g. IvyFifoRealloc f n = Some g \<and> fifo_inv g \<and> fifo_abs g = fifo_abs f \<and>
                n < f_end g \<and> (f_end f \<le> n \<longrightarrow> \<not> f_full g) \<and> (f_full g \<longrightarrow> f_full f)"
proof -
  define al where "al = alignedNewSize n"
  note al = alignedNewSize_bounds [OF n(1), folded al_def]
  have len: "fifo_len f < 33554432" using fifo_len_less [OF inv] fifo_inv_bounds [OF inv] by simp
  show ?thesis
  proof (cases "n \<ge> IVY_FIFO_MAX_ALLOC_SIZE")
    case True
    with al(2) show ?thesis by (simp add: IvyFifoRealloc_def Let_def flip: al_def)
  next
    case False
    show ?thesis
    proof (cases "f_end f < al")
      case True
      obtain f' where rd: "IvyFifoRead f (fifo_len f) = Some (fifo_len f, fifo_abs f, f')"
        using IvyFifoRead_correct [OF inv, of "fifo_len f"] by auto
      let ?m = "mem_write Map.empty 0 (fifo_abs f)"
      let ?g = "\<lparr>f_buffer = ?m, f_end = al, f_rptr = 0, f_wptr = int (fifo_len f), f_full = False\<rparr>"
      have fits: "fifo_len f < al" using fifo_len_less [OF inv] True by simp
      have "IvyFifoRealloc f n = Some ?g"
        using False al(2) True rd len fits
        by (cases "fifo_abs f = []") (auto dest: fifo_abs_NilD simp: IvyFifoRealloc_def IvyFifoSize_eq [OF inv]
            IvyFifoLength_eq [OF inv] fifo_poke_def s32_of_nat Let_def simp flip: al_def)
      moreover have "fifo_inv ?g" "fifo_abs ?g = fifo_abs f"
        using al(2) False fits
        by (auto simp: fifo_inv_def fifo_abs_def [of ?g] defined_write_same seg_write_same)
      ultimately show ?thesis using False al(1) by auto
    next
      case no_grow: False
      then have "IvyFifoRealloc f n = Some f"
        using False al(2)
        by (simp add: IvyFifoRealloc_def IvyFifoSize_eq [OF inv] Let_def flip: al_def)
      with no_grow False al(1) inv show ?thesis by auto
    qed
  qed
qed

text \<open>
  A write is all or nothing: the bytes are appended, or the buffer is marked full and keeps
  what it had.
\<close>

lemma IvyFifoWrite_correct:
  assumes inv: "fifo_inv f" and s: "length s < 2147483648"
  shows "\<exists>g. IvyFifoWrite f s = Some g \<and> fifo_inv g \<and>
           fifo_abs g = (if f_full g then fifo_abs f else fifo_abs f @ s) \<and>
           (\<not> f_full f \<longrightarrow> (f_full g \<longleftrightarrow> IVY_FIFO_MAX_ALLOC_SIZE \<le> fifo_len f + length s))"
proof -
  have len: "fifo_len f < f_end f" "f_end f \<le> IVY_FIFO_MAX_ALLOC_SIZE"
    using fifo_len_less [OF inv] inv by (auto simp: fifo_inv_def)
  let ?n = "length s + fifo_len f"
  have n: "u32 (int (length s) + int (fifo_len f)) = ?n" "?n < 4000000000"
    using s len by (simp_all add: u32_def fifo_size_defs)
  have avail: "length s \<ge> IvyFifoAvail f \<longleftrightarrow> f_end f \<le> ?n"
    using len by (auto simp: IvyFifoAvail_eq [OF inv])
  define step where "step h = (if f_full h then Some h else fifo_write_loop h s)" for h
  have finish: "\<exists>g. step h = Some g \<and> fifo_inv g \<and>
      fifo_abs g = (if f_full g then fifo_abs f else fifo_abs f @ s) \<and> f_full g = f_full h"
    if "fifo_inv h" "fifo_abs h = fifo_abs f" "?n < f_end h" for h
  proof (cases "f_full h")
    case True
    with that show ?thesis by (simp add: step_def)
  next
    case False
    have "fifo_len h = fifo_len f" using that(2) by (metis length_fifo_abs)
    with fifo_write_loop_correct [OF that(1), of s] that False show ?thesis
      by (auto simp: step_def add.commute)
  qed
  have W: "IvyFifoWrite f s =
      Option.bind (if f_end f \<le> ?n then IvyFifoRealloc f ?n else Some f) step"
    unfolding IvyFifoWrite_def IvyFifoLength_eq [OF inv] n(1) avail step_def ..
  show ?thesis
  proof (cases "f_end f \<le> ?n")
    case False
    then have "\<not> IVY_FIFO_MAX_ALLOC_SIZE \<le> fifo_len f + length s" using len(2) by linarith
    moreover obtain g where "step f = Some g" "fifo_inv g" "f_full g = f_full f"
      "fifo_abs g = (if f_full g then fifo_abs f else fifo_abs f @ s)"
      using finish [OF inv refl] False by auto
    ultimately show ?thesis using False W by (intro exI [of _ g]) simp
  next
    case True
    note re = IvyFifoRealloc_correct [OF inv n(2)]
    show ?thesis
    proof (cases "?n \<ge> IVY_FIFO_MAX_ALLOC_SIZE")
      case big: True
      then show ?thesis using W True re inv by (auto simp: step_def add.commute)
    next
      case False
      with re True obtain h where "IvyFifoRealloc f ?n = Some h" "fifo_inv h"
        "fifo_abs h = fifo_abs f" "?n < f_end h" "\<not> f_full h" by auto
      moreover from this(2-5) obtain g where "step h = Some g" "fifo_inv g" "\<not> f_full g"
        "fifo_abs g = (if f_full g then fifo_abs f else fifo_abs f @ s)"
        using finish [of h] by auto
      ultimately show ?thesis using W True False
        by (intro exI [of _ g]) (simp add: add.commute)
    qed
  qed
qed

section \<open>Emptying the buffer into a socket\<close>

text \<open>
  The loop ends; the bytes that reach the wire are the oldest ones that waited, in order. \<open>used\<close>
  are the answers of \<open>send\<close> it consumed: without a \<open>-1\<close> among them the buffer holds the bytes
  that are left; with one, which is the last, the read pointer is one byte too low.
\<close>

lemma IvyFifoSendSocket_run:
  assumes "fifo_inv f"
  shows "\<exists>used k g n'. script n = used @ script n' \<and> k \<le> fifo_len f \<and> fifo_inv g \<and>
           fifo_abs g = drop k (fifo_abs f) \<and> wire n' = (wire n)(fd := wire n fd @ take k (fifo_abs f)) \<and>
           IvyFifoSendSocket f fd n =
             Some (if failing used then (IvyFifoLength (IvyFifoDrain g (-1)), IvyFifoDrain g (-1), n')
                   else (fifo_len g, g, n'))"
  using assms
proof (induction "fifo_len f" arbitrary: f n rule: less_induct)
  case less
  note inv = less.prems(1)
  define m where "m = min (f_end f - nat (f_rptr f)) (fifo_len f)"
  have b: "f_end f \<le> 33554432" "0 \<le> f_rptr f" "f_rptr f < int (f_end f)"
    using fifo_inv_bounds [OF inv] by auto
  have m: "m \<le> fifo_len f" "int m \<le> int (f_end f) - f_rptr f"
    using b by (auto simp: m_def)
  obtain ans wb n1 where ans: "os_send fd (take m (fifo_abs f)) n = (ans, wb, n1)"
    by (metis prod_cases3)
  note step = IvyFifoSendSocket.simps [of f fd n, unfolded u32_room(1) [OF inv] IvyFifoLength_eq [OF inv],
      folded m_def, unfolded drain_chunk(1) [OF inv m] Let_def Option.bind.bind_lunit ans fst_conv snd_conv]
  from ans show ?case
  proof (cases rule: os_send_cases)
    case fails
    have "m \<noteq> 2 ^ 32 - 1" using m b fifo_len_less [OF inv] by simp
    moreover have "u32 (-1) = 2 ^ 32 - 1" "s32 (int (2 ^ 32 - 1)) = -1" by (simp_all add: u32_def s32_def)
    ultimately have "IvyFifoSendSocket f fd n = Some (IvyFifoLength (IvyFifoDrain f (-1)), IvyFifoDrain f (-1), n1)"
      using step fails(1) by simp
    moreover have "script n = [hd (script n)] @ script n1" "failing [hd (script n)]"
      using fails(3-5) by (cases "script n"; simp split: if_splits)+
    moreover have "wire n1 = (wire n)(fd := wire n fd @ take 0 (fifo_abs f))" using fails(2) by simp
    ultimately show ?thesis using inv
      by (intro exI [of _ "[hd (script n)]"] exI [of _ 0] exI [of _ f] exI [of _ n1]) simp
  next
    case (sent k)
    then have k: "k \<le> m" using m(1) by simp
    have k': "k \<le> fifo_len f" "int k \<le> int (f_end f) - f_rptr f" "u32 ans = k" "s32 (int k) = int k"
      using k m b sent(2) by (auto simp: u32_of_nat s32_of_nat)
    note drain = drain_chunk [OF inv k'(1,2)]
    let ?f = "IvyFifoDrain f (int k)"
    obtain u where u: "script n = u @ script n1" "\<not> failing u"
      using os_send_script [OF ans] sent(2) by auto
    have wire1: "wire n1 = (wire n)(fd := wire n fd @ take k (fifo_abs f))"
      using sent(4) k by (simp add: min_absorb1)
    show ?thesis
    proof (cases "fifo_len ?f \<noteq> 0 \<and> m = k")
      case False
      then have "IvyFifoSendSocket f fd n = Some (fifo_len ?f, ?f, n1)"
        using step by (auto simp: k'(3,4) IvyFifoLength_eq [OF drain(2)])
      with drain wire1 k'(1) u show ?thesis
        by (intro exI [of _ u] exI [of _ k] exI [of _ ?f] exI [of _ n1]) simp
    next
      case True
      then have "0 < k" using b drain(4) by (auto simp: m_def min_def split: if_splits)
      then have "fifo_len ?f < fifo_len f" using k'(1) drain(4) by simp
      from less.hyps [OF this drain(2), of n1] obtain v j g n' where
        r: "script n1 = v @ script n'" "j \<le> fifo_len ?f" "fifo_inv g" "fifo_abs g = drop j (fifo_abs ?f)"
          "wire n' = (wire n1)(fd := wire n1 fd @ take j (fifo_abs ?f))"
          "IvyFifoSendSocket ?f fd n1 = Some (if failing v
             then (IvyFifoLength (IvyFifoDrain g (-1)), IvyFifoDrain g (-1), n') else (fifo_len g, g, n'))" by blast
      have "IvyFifoSendSocket f fd n = IvyFifoSendSocket ?f fd n1"
        using step True by (simp add: k'(3,4) IvyFifoLength_eq [OF drain(2)])
      with r drain wire1 k'(1) u show ?thesis
        by (intro exI [of _ "u @ v"] exI [of _ "k + j"] exI [of _ g] exI [of _ n'])
          (simp add: take_add [of k j] add.commute [of j k])
    qed
  qed
qed

lemma IvyFifoSendSocket_correct:
  assumes "fifo_inv f" and "\<not> negative_sends n"
  shows "\<exists>k f' n'. IvyFifoSendSocket f fd n = Some (fifo_len f', f', n') \<and> k \<le> fifo_len f \<and>
           fifo_inv f' \<and> fifo_abs f' = drop k (fifo_abs f) \<and> \<not> negative_sends n' \<and>
           wire n' = (wire n)(fd := wire n fd @ take k (fifo_abs f))"
proof -
  from IvyFifoSendSocket_run [OF assms(1), of n fd] obtain used k g n' where
    r: "script n = used @ script n'" "k \<le> fifo_len f" "fifo_inv g" "fifo_abs g = drop k (fifo_abs f)"
      "wire n' = (wire n)(fd := wire n fd @ take k (fifo_abs f))"
      "IvyFifoSendSocket f fd n = Some (if failing used
         then (IvyFifoLength (IvyFifoDrain g (-1)), IvyFifoDrain g (-1), n') else (fifo_len g, g, n'))" by blast
  from assms(2) r(1) have "\<not> failing used" "\<not> negative_sends n'" by (simp_all add: negative_sends_failing)
  with r show ?thesis by auto
qed

section \<open>The interface the socket layer relies on\<close>

text \<open>
  A byte queue in front of a socket: writing appends all of the bytes or rejects all of them,
  and flushing moves a prefix to the wire. The lemmas of the locale are all the socket layer
  uses: the stream of a descriptor (what is on the wire, then what waits) only grows, and
  grows by what was accepted.
\<close>

locale byte_queue =
  fixes inv :: "'q \<Rightarrow> bool"
    and bytes :: "'q \<Rightarrow> string"
    and rejects :: "'q \<Rightarrow> bool"
    and enq :: "'q \<Rightarrow> string \<Rightarrow> 'q option"
    and flush :: "'q \<Rightarrow> nat \<Rightarrow> net \<Rightarrow> (nat \<times> 'q \<times> net) option"
  assumes enq_law: "inv q \<Longrightarrow> length s < 2147483648 \<Longrightarrow>
      \<exists>g. enq q s = Some g \<and> inv g \<and> bytes g = (if rejects g then bytes q else bytes q @ s)"
    and flush_law: "inv q \<Longrightarrow> \<not> negative_sends n \<Longrightarrow>
      \<exists>k g n'. flush q fd n = Some (length (bytes g), g, n') \<and> inv g \<and>
        bytes g = drop k (bytes q) \<and> \<not> negative_sends n' \<and>
        wire n' = (wire n)(fd := wire n fd @ take k (bytes q))"
begin

lemma enq_total: "inv q \<Longrightarrow> length s < 2147483648 \<Longrightarrow> enq q s \<noteq> None"
  using enq_law by fastforce

lemma enq_inv: "enq q s = Some g \<Longrightarrow> inv q \<Longrightarrow> length s < 2147483648 \<Longrightarrow> inv g"
  using enq_law by fastforce

lemma enq_stream:
  "enq q s = Some g \<Longrightarrow> inv q \<Longrightarrow> length s < 2147483648 \<Longrightarrow>
     w @ bytes g = w @ bytes q @ (if rejects g then [] else s)"
  using enq_law by fastforce

lemma flush_total: "inv q \<Longrightarrow> \<not> negative_sends n \<Longrightarrow> flush q fd n \<noteq> None"
  using flush_law [of q n fd] by auto

lemma flush_stream:
  assumes "flush q fd n = Some (c, g, n')" and "inv q" and "\<not> negative_sends n"
  shows "inv g" "c = length (bytes g)" "\<not> negative_sends n'"
    "wire n' fd @ bytes g = wire n fd @ bytes q" "fd' \<noteq> fd \<Longrightarrow> wire n' fd' = wire n fd'"
  using flush_law [OF assms(2,3), of fd] assms(1) by auto

end

interpretation fq: byte_queue fifo_inv fifo_abs f_full IvyFifoWrite IvyFifoSendSocket
proof unfold_locales
  fix q s assume "fifo_inv q" "length (s :: string) < 2147483648"
  from IvyFifoWrite_correct [OF this]
  show "\<exists>g. IvyFifoWrite q s = Some g \<and> fifo_inv g \<and>
      fifo_abs g = (if f_full g then fifo_abs q else fifo_abs q @ s)" by blast
next
  fix q n fd assume "fifo_inv q" "\<not> negative_sends n"
  from IvyFifoSendSocket_correct [OF this, of fd]
  show "\<exists>k g n'. IvyFifoSendSocket q fd n = Some (length (fifo_abs g), g, n') \<and> fifo_inv g \<and>
      fifo_abs g = drop k (fifo_abs q) \<and> \<not> negative_sends n' \<and>
      wire n' = (wire n)(fd := wire n fd @ take k (fifo_abs q))" by auto
qed

section \<open>Properties\<close>

text \<open>
  C26: a write to the FIFO always returns; it appends the whole message or rejects it whole and
  keeps what was waiting, and a buffer that is not full rejects exactly the messages that
  would bring it to the 32 MiB limit. The invariant is kept.
\<close>
theorem fifo_write_all_or_nothing:
  assumes "fifo_inv f" and "length s < 2147483648"
  shows "\<exists>g. IvyFifoWrite f s = Some g \<and> fifo_inv g \<and>
           fifo_abs g = (if IvyFifoIsFull g then fifo_abs f else fifo_abs f @ s) \<and>
           (IvyFifoIsFull f \<or>
            IvyFifoIsFull g = (IVY_FIFO_MAX_ALLOC_SIZE \<le> length (fifo_abs f) + length s))"
proof -
  from IvyFifoWrite_correct [OF assms] obtain g where "IvyFifoWrite f s = Some g" "fifo_inv g"
    "fifo_abs g = (if f_full g then fifo_abs f else fifo_abs f @ s)"
    "\<not> f_full f \<longrightarrow> (f_full g \<longleftrightarrow> IVY_FIFO_MAX_ALLOC_SIZE \<le> fifo_len f + length s)" by blast
  then show ?thesis unfolding IvyFifoIsFull_def length_fifo_abs by blast
qed

theorem fifo_write_all_or_nothing_witness:
  "\<exists>g. IvyFifoWrite IvyFifoNew ''abc'' = Some g \<and> fifo_inv g \<and> fifo_abs g = ''abc''"
proof -
  have "length ''abc'' < 2147483648" by simp
  from fifo_write_all_or_nothing [OF fifo_init(1) this]
  obtain g where "IvyFifoWrite IvyFifoNew ''abc'' = Some g" "fifo_inv g"
    "fifo_abs g = (if IvyFifoIsFull g then fifo_abs IvyFifoNew else fifo_abs IvyFifoNew @ ''abc'')"
    "IvyFifoIsFull g = (IVY_FIFO_MAX_ALLOC_SIZE \<le> length (fifo_abs IvyFifoNew) + length ''abc'')"
    using fifo_init(3) by (auto simp only: IvyFifoIsFull_def)
  then show ?thesis using fifo_init(2) by (simp add: fifo_size_defs)
qed

text \<open>
  Reading \<open>n\<close> bytes returns the oldest bytes, in order and as many as wait up to \<open>n\<close>, and
  leaves exactly the others; the loop of \<open>IvyFifoGenericRead\<close> ends and never reads outside the
  block or a byte that was not written.
\<close>
theorem fifo_read_takes_oldest:
  assumes "fifo_inv f"
  shows "\<exists>f'. IvyFifoRead f n = Some (min n (IvyFifoLength f), take n (fifo_abs f), f') \<and>
           fifo_inv f' \<and> fifo_abs f' = drop n (fifo_abs f)"
  using IvyFifoRead_correct [OF assms, of n] by (simp add: IvyFifoLength_eq [OF assms])

definition fifo_wrapped :: IvyFifoBuffer where
  "fifo_wrapped = \<lparr>f_buffer = [3 \<mapsto> CHR ''a'', 0 \<mapsto> CHR ''b''], f_end = 4,
     f_rptr = 3, f_wptr = 1, f_full = False\<rparr>"

lemma fifo_wrapped: "fifo_inv fifo_wrapped" "fifo_abs fifo_wrapped = ''ab''"
  by (simp_all add: fifo_wrapped_def fifo_inv_def fifo_abs_def fifo_size_defs defined_on_def
      seg_def upt_rec)

theorem fifo_read_takes_oldest_witness:
  "\<exists>f'. IvyFifoRead fifo_wrapped 1 = Some (1, ''a'', f') \<and> fifo_inv f' \<and> fifo_abs f' = ''b''"
  using fifo_read_takes_oldest [OF fifo_wrapped(1), of 1] IvyFifoLength_eq [OF fifo_wrapped(1)]
    length_fifo_abs [of fifo_wrapped]
  by (simp add: fifo_wrapped(2))

text \<open>
  C27: emptying the FIFO into a socket, whatever \<open>send\<close> answers: the loop ends, what it put on the
  wire is the oldest part of what waited, in order, and other descriptors are not touched. When no
  \<open>send\<close> of this call answered \<open>-1\<close>, what still waits is exactly the rest, and the count returned is
  its length: nothing is lost, repeated or reordered. When one did (the socket congested again, or
  failed), the bytes on the wire are still right, but the read pointer is left one byte below the
  rest, as the code drains the answer without looking at it.
\<close>
theorem fifo_send_preserves_stream:
  assumes "fifo_inv f"
  shows "\<exists>used k g n'. script n = used @ script n' \<and> fifo_inv g \<and> k \<le> length (fifo_abs f) \<and>
           wire n' fd = wire n fd @ take k (fifo_abs f) \<and> fifo_abs g = drop k (fifo_abs f) \<and>
           (\<forall>fd'. fd' = fd \<or> wire n' fd' = wire n fd') \<and>
           IvyFifoSendSocket f fd n =
             Some (if WouldBlock \<in> set used \<or> SendFails \<in> set used
                   then (IvyFifoLength (g\<lparr>f_rptr := f_rptr g - 1\<rparr>), g\<lparr>f_rptr := f_rptr g - 1\<rparr>, n')
                   else (length (fifo_abs g), g, n'))"
proof -
  from IvyFifoSendSocket_run [OF assms, of n fd] obtain used k g n' where
    r: "script n = used @ script n'" "k \<le> fifo_len f" "fifo_inv g" "fifo_abs g = drop k (fifo_abs f)"
      "wire n' = (wire n)(fd := wire n fd @ take k (fifo_abs f))"
      "IvyFifoSendSocket f fd n = Some (if failing used
         then (IvyFifoLength (IvyFifoDrain g (-1)), IvyFifoDrain g (-1), n') else (fifo_len g, g, n'))" by blast
  have "IvyFifoDrain g (-1) = g\<lparr>f_rptr := f_rptr g - 1\<rparr>"
    using fifo_inv_bounds [OF r(3)] by (simp add: IvyFifoDrain_def)
  moreover have "fifo_len g = fifo_len f - k" using arg_cong [OF r(4), of length] by simp
  ultimately show ?thesis using r
    by (intro exI [of _ used] exI [of _ k] exI [of _ g] exI [of _ n']) (simp add: failing_def)
qed

theorem fifo_send_preserves_stream_witness:
  "\<exists>k g n'. wire n' 7 = take k ''ab'' \<and> fifo_abs g = drop k ''ab'' \<and>
     IvyFifoSendSocket fifo_wrapped 7 \<lparr>script = [Sent 1, Sent 0], wire = (\<lambda>_. [])\<rparr> = Some (length (fifo_abs g), g, n')"
proof -
  let ?n = "\<lparr>script = [Sent 1, Sent 0], wire = (\<lambda>_. [])\<rparr>"
  have script: "script ?n = [Sent 1, Sent 0]" "wire ?n 7 = []" by simp_all
  from fifo_send_preserves_stream [OF fifo_wrapped(1), of ?n 7, unfolded fifo_wrapped(2) script append_Nil]
  obtain used k g n' where r: "[Sent 1, Sent 0] = used @ script n'" "wire n' 7 = take k ''ab''"
    "fifo_abs g = drop k ''ab''"
    "IvyFifoSendSocket fifo_wrapped 7 ?n = Some (if WouldBlock \<in> set used \<or> SendFails \<in> set used
      then (IvyFifoLength (g\<lparr>f_rptr := f_rptr g - 1\<rparr>), g\<lparr>f_rptr := f_rptr g - 1\<rparr>, n')
      else (length (fifo_abs g), g, n'))" by blast
  have "set used \<subseteq> {Sent 1, Sent 0}" using arg_cong [OF r(1), of set] by auto
  then have no: "\<not> (WouldBlock \<in> set used \<or> SendFails \<in> set used)" by auto
  show ?thesis by (intro exI conjI) (rule r(2), rule r(3), rule r(4) [unfolded if_not_P [OF no]])
qed

text \<open>
  A failed \<open>send\<close> in \<open>IvyFifoSendSocket\<close> is not checked. When the waiting bytes wrap around
  the end of the block and the second \<open>send\<close> of the loop fails, the read pointer is moved one
  byte before the block, and every later attempt to empty the FIFO reads outside the block.
\<close>
theorem fifo_failed_send_underruns:
  assumes inv: "fifo_inv f" and w: "0 < f_wptr f" "f_wptr f < f_rptr f"
    and script: "script n = Sent k # x # rest" "f_end f - nat (f_rptr f) \<le> k"
      "x = WouldBlock \<or> x = SendFails"
  shows "\<exists>c f' n'. IvyFifoSendSocket f fd n = Some (c, f', n') \<and> f_rptr f' = -1 \<and>
           \<not> fifo_inv f' \<and> (\<forall>m. IvyFifoSendSocket f' fd m = None)"
proof -
  from inv obtain r v where rw: "f_rptr f = int r" "f_wptr f = int v"
    and b: "r < f_end f" "v < f_end f" "f_end f \<le> 33554432" by (rule fifo_natE)
  let ?m = "f_end f - r"
  have len: "fifo_len f = ?m + v" "0 < v" "v < r" using w b rw by (auto simp: fifo_len_def)
  define g where "g = IvyFifoDrain f (int ?m)"
  let ?d = "take ?m (fifo_abs f)"
  have m: "?m \<le> fifo_len f" "int ?m \<le> int (f_end f) - f_rptr f" using len b rw by auto
  note chunk = drain_chunk [OF inv m, folded g_def]
  have g: "g = f\<lparr>f_rptr := 0, f_full := False\<rparr>"
    using b rw len by (auto simp: g_def IvyFifoDrain_def Let_def)
  define n1 where "n1 = n\<lparr>script := x # rest, wire := (wire n)(fd := wire n fd @ ?d)\<rparr>"
  have ans1: "os_send fd ?d n = (int ?m, False, n1)"
    using script m(1) rw by (auto simp: os_send.simps n1_def min_def)
  have room: "u32 (int (f_end f) - f_rptr f) = ?m" "min ?m (fifo_len f) = ?m"
    "u32 (int ?m) = ?m" "s32 (int ?m) = int ?m"
    using u32_room(1) [OF inv] rw len b u32_of_nat [of ?m] s32_of_nat [of ?m] by auto
  have g_len: "IvyFifoLength g = v" "fifo_len g = v"
    using chunk(4) len IvyFifoLength_eq [OF chunk(2)] b by auto
  have "IvyFifoSendSocket f fd n = IvyFifoSendSocket g fd n1"
    by (subst IvyFifoSendSocket.simps) (simp only: room IvyFifoLength_eq [OF inv] chunk(1)
      Option.bind.bind_lunit ans1 Let_def fst_conv snd_conv g_len len(2) simp_thms if_True
      neq0_conv flip: g_def)
  moreover define f' where "f' = f\<lparr>f_rptr := -1, f_full := False\<rparr>"
  have peek: "fifo_peek g 0 v = Some (take v (fifo_abs g))"
    using drain_chunk(1) [OF chunk(2), of v] g_len len b by (simp add: g)
  have ans2: "os_send fd e n1 = (-1, x = WouldBlock, n1\<lparr>script := rest\<rparr>)" for e
    using script(3) by (auto simp: os_send.simps n1_def)
  have minus: "u32 (-1) = 4294967295" "s32 (int 4294967295) = -1"
    by (simp_all add: u32_def s32_def)
  have g_room: "min (u32 (int (f_end g) - 0)) v = v" "f_rptr g = 0"
    using b len by (auto simp: g u32_of_nat)
  have back1: "IvyFifoDrain g (-1) = f'" "IvyFifoLength f' = v + 1"
    using b(2,3) rw(2) u32_of_nat [of "v + 1"]
    by (simp_all add: g f'_def IvyFifoDrain_def IvyFifoLength_def Let_def add.commute)
  have "IvyFifoSendSocket g fd n1 = Some (v + 1, f', n1\<lparr>script := rest\<rparr>)"
    using b len(3) by (subst IvyFifoSendSocket.simps)
      (simp only: g_len g_room peek ans2 minus back1 Option.bind.bind_lunit Let_def
        fst_conv snd_conv, simp)
  moreover have "min (u32 (int (f_end f') - f_rptr f')) (v + 1) = v + 1"
    using b len(3) u32_of_nat [of "f_end f + 1"] by (simp add: f'_def add.commute)
  then have "IvyFifoSendSocket f' fd j = None" for j
    by (subst IvyFifoSendSocket.simps)
      (simp only: back1(2) Let_def, simp add: fifo_peek_def f'_def)
  ultimately show ?thesis by (auto simp: f'_def fifo_inv_def)
qed

theorem fifo_failed_send_underruns_witness:
  "\<exists>c f' n'. IvyFifoSendSocket fifo_wrapped 7 \<lparr>script = [Sent 1, WouldBlock], wire = (\<lambda>_. [])\<rparr> =
     Some (c, f', n') \<and> f_rptr f' = -1"
proof -
  let ?n = "\<lparr>script = [Sent 1, WouldBlock], wire = (\<lambda>_. [])\<rparr>"
  have "0 < f_wptr fifo_wrapped" "f_wptr fifo_wrapped < f_rptr fifo_wrapped"
    "f_end fifo_wrapped - nat (f_rptr fifo_wrapped) \<le> 1"
    by (simp_all add: fifo_wrapped_def)
  from fifo_failed_send_underruns [OF fifo_wrapped(1) this(1,2) _ this(3), of ?n WouldBlock "[]" 7]
  show ?thesis by auto
qed

end
