(* ===== verification/IvyBuffer.thy ===== *)
theory IvyBuffer
  imports IvyPrelude
begin

text \<open>
  The growing text buffer of \<open>ivybuffer.c\<close>. The arguments of \<open>make_message\<close> after formatting
  are one string \<open>txt\<close>: \<open>vsnprintf\<close> returns its length and stores as much of it as fits.
\<close>

definition IVY_BUFFER_SIZE :: nat where "IVY_BUFFER_SIZE = 4096"

text \<open>\<open>b_data\<close> is \<open>NULL\<close> or the string in \<open>data\<close> up to its terminating NUL.\<close>

record IvyBuffer =
  b_data :: "string option"
  b_size :: nat
  b_offset :: nat

definition empty_buffer :: IvyBuffer where
  "empty_buffer = \<lparr>b_data = None, b_size = 0, b_offset = 0\<rparr>"

text \<open>\<open>vsnprintf (data + offset, avail, ...)\<close>: the stored text is cut to leave room for the NUL.\<close>

definition vsnprintf :: "IvyBuffer \<Rightarrow> string \<Rightarrow> int \<times> IvyBuffer" where
  "vsnprintf b txt =
     (let avail = b_size b - b_offset b; d = the (b_data b)
      in (int (length txt),
          if avail = 0 then b
          else b\<lparr>b_data := Some (take (b_offset b) d @ take (avail - 1) txt)\<rparr>))"

function make_message_loop :: "IvyBuffer \<Rightarrow> string \<Rightarrow> int \<times> IvyBuffer" where
  "make_message_loop b txt =
     (let (n, b') = vsnprintf b txt
      in if n > -1 \<and> n < int (b_size b) - int (b_offset b)
         then (n, b'\<lparr>b_offset := b_offset b + nat n\<rparr>)
         else make_message_loop (b'\<lparr>b_size := b_offset b + nat n + 1\<rparr>) txt)"
  by pat_completeness auto
termination
  by (relation "measure (\<lambda>(b, txt). if length txt < b_size b - b_offset b then 0 else 1)")
    (auto simp: vsnprintf_def Let_def split: if_splits)

declare make_message_loop.simps [simp del]

definition make_message :: "IvyBuffer \<Rightarrow> string \<Rightarrow> int \<times> IvyBuffer" where
  "make_message b txt =
     (let b' = (if b_size b = 0 \<or> b_data b = None
                then b\<lparr>b_size := IVY_BUFFER_SIZE, b_offset := 0, b_data := Some []\<rparr> else b)
      in make_message_loop b' txt)"

definition make_message_var :: "IvyBuffer \<Rightarrow> string \<Rightarrow> int \<times> IvyBuffer" where
  "make_message_var b txt = make_message b txt"

definition buffer_inv :: "IvyBuffer \<Rightarrow> bool" where
  "buffer_inv b \<longleftrightarrow> b_data b = None \<or>
     (\<exists>d. b_data b = Some d \<and> b_offset b \<le> length d \<and> length d < b_size b)"

text \<open>What the caller reads: the text up to the offset.\<close>

definition buffer_text :: "IvyBuffer \<Rightarrow> string" where
  "buffer_text b = take (b_offset b) (case b_data b of None \<Rightarrow> [] | Some d \<Rightarrow> d)"

lemma make_message_loop_eq:
  assumes "b_data b = Some d" and "b_offset b \<le> length d"
  shows "\<exists>z. make_message_loop b txt =
           (int (length txt), \<lparr>b_data = Some (take (b_offset b) d @ txt), b_size = z,
              b_offset = b_offset b + length txt\<rparr>) \<and> b_offset b + length txt < z"
proof (cases "length txt < b_size b - b_offset b")
  case True
  then show ?thesis
    using assms by (subst make_message_loop.simps, cases b) (auto simp: vsnprintf_def Let_def)
next
  case False
  let ?b = "(snd (vsnprintf b txt))\<lparr>b_size := Suc (b_offset b + length txt)\<rparr>"
  have "make_message_loop b txt = make_message_loop ?b txt"
    using False by (subst make_message_loop.simps) (auto simp: vsnprintf_def Let_def)
  also have "\<dots> = (int (length txt), \<lparr>b_data = Some (take (b_offset b) d @ txt),
      b_size = Suc (b_offset b + length txt), b_offset = b_offset b + length txt\<rparr>)"
    using assms by (subst make_message_loop.simps)
      (auto simp: vsnprintf_def Let_def min_absorb1)
  finally show ?thesis by auto
qed

text \<open>
  Whatever its size, the text is appended whole at the offset: the buffer grows when it has to,
  on the second attempt at the latest.
\<close>

lemma make_message_correct:
  assumes "buffer_inv b"
  shows "\<exists>b'. make_message b txt = (int (length txt), b') \<and> buffer_inv b' \<and>
           b_data b' = Some (buffer_text b' ) \<and>
           buffer_text b' = (if b_data b = None \<or> b_size b = 0 then [] else buffer_text b) @ txt"
proof -
  define c where "c = (if b_size b = 0 \<or> b_data b = None
      then b\<lparr>b_size := IVY_BUFFER_SIZE, b_offset := 0, b_data := Some []\<rparr> else b)"
  have c: "\<exists>d. b_data c = Some d \<and> b_offset c \<le> length d"
    using assms by (auto simp: c_def buffer_inv_def)
  then obtain d where d: "b_data c = Some d" "b_offset c \<le> length d" by blast
  obtain z where z: "make_message_loop c txt = (int (length txt),
      \<lparr>b_data = Some (take (b_offset c) d @ txt), b_size = z, b_offset = b_offset c + length txt\<rparr>)"
    "b_offset c + length txt < z"
    using make_message_loop_eq [OF d, of "txt"] by auto
  define old where "old = take (b_offset c) d"
  have old: "old = (if b_data b = None \<or> b_size b = 0 then [] else buffer_text b)"
    and len: "length old = b_offset c"
    using d by (auto simp: c_def buffer_text_def old_def split: if_splits)
  let ?b = "\<lparr>b_data = Some (old @ txt), b_size = z, b_offset = b_offset c + length txt\<rparr>"
  have "make_message b txt = (int (length txt), ?b)"
    using z(1) by (simp add: make_message_def old_def flip: c_def)
  moreover have "buffer_inv ?b" "b_data ?b = Some (buffer_text ?b)" "buffer_text ?b = old @ txt"
    using z(2) len by (simp_all add: buffer_inv_def buffer_text_def)
  ultimately show ?thesis unfolding old [symmetric] by blast
qed

text \<open>The text a buffer holds, none when it was never used.\<close>

definition held :: "IvyBuffer \<Rightarrow> string" where
  "held b = (if b_data b = None \<or> b_size b = 0 then [] else buffer_text b)"

lemma appended_pieces:
  assumes "buffer_inv b"
  shows "buffer_inv (fold (\<lambda>p b. snd (make_message_var b p)) pieces b) \<and>
         held (fold (\<lambda>p b. snd (make_message_var b p)) pieces b) = held b @ concat pieces"
  using assms
proof (induction pieces arbitrary: b)
  case (Cons p pieces)
  from make_message_correct [OF Cons.prems, of p] obtain b' where
    b': "make_message b p = (int (length p), b')" "buffer_inv b'" "b_data b' = Some (buffer_text b')"
      "buffer_text b' = held b @ p" by (auto simp: held_def)
  then have "b_size b' \<noteq> 0" by (auto simp: buffer_inv_def)
  with b' have "held b' = held b @ p" by (simp add: held_def)
  with Cons.IH [OF b'(2)] b'(1) show ?case by (simp add: make_message_var_def)
qed simp

text \<open>
  C35: the retry loop of \<open>make_message\<close> always ends: whatever the size of the buffer, a text is
  formatted again at most once, in a block of the size it needs. Texts appended one after the
  other are the buffer's contents in order, none of them cut, and the terminating NUL fits.
\<close>
theorem formatting_ends_with_the_whole_text:
  assumes "buffer_inv b"
  shows "\<exists>b'. fold (\<lambda>p b. snd (make_message_var b p)) pieces b = b' \<and> held b' = held b @ concat pieces \<and>
           (b_data b' = None \<or> length (the (b_data b')) < b_size b')"
  using appended_pieces [OF assms, of pieces] by (auto simp: buffer_inv_def)

theorem formatting_ends_with_the_whole_text_witness:
  "held (fold (\<lambda>p b. snd (make_message_var b p)) [replicate 4095 CHR ''x'', ''yz''] empty_buffer) =
     replicate 4095 CHR ''x'' @ ''yz''"
proof -
  have "buffer_inv empty_buffer" "held empty_buffer = []"
    by (simp_all add: buffer_inv_def empty_buffer_def held_def)
  from formatting_ends_with_the_whole_text [OF this(1), of "[replicate 4095 CHR ''x'', ''yz'']"] this(2)
  show ?thesis by (simp del: replicate.simps fold_simps)
qed

end
