(* ===== verification/IvyList.thy ===== *)
theory IvyList
  imports IvyPrelude
begin

text \<open>
  The intrusive linked lists of \<open>list.h\<close>. The macros are modelled on an explicit heap: a node
  is an address with a payload and a \<open>next\<close> pointer, \<open>0\<close> is \<open>NULL\<close>, and a free address has no
  node, so that following a dangling pointer is \<open>None\<close>. The refinement lemmas show that the
  macros implement the list operations the component theories use. The last section is the
  traversal \<open>IVY_LIST_EACH_SAFE\<close> with an arbitrary body, on lists of addresses.
\<close>

section \<open>The macros on a heap\<close>

type_synonym 'v heap = "nat \<Rightarrow> ('v \<times> nat) option"

fun list_at :: "'v heap \<Rightarrow> nat \<Rightarrow> nat list \<Rightarrow> bool" where
  "list_at h p [] = (p = 0)"
| "list_at h p (a # as) =
     (p = a \<and> a \<noteq> 0 \<and> (case h a of None \<Rightarrow> False | Some (v, n) \<Rightarrow> list_at h n as))"

text \<open>\<open>IVY_LIST_ITER (list, p, cond)\<close>: advance while the condition holds.\<close>

partial_function (option) IVY_LIST_ITER ::
    "'v heap \<Rightarrow> nat \<Rightarrow> (nat \<Rightarrow> 'v \<Rightarrow> nat \<Rightarrow> bool) \<Rightarrow> nat option" where
  "IVY_LIST_ITER h p cond =
     (if p = 0 then Some 0
      else Option.bind (h p) (\<lambda>vn.
        if cond p (fst vn) (snd vn) then IVY_LIST_ITER h (snd vn) cond else Some p))"

text \<open>\<open>IVY_LIST_REMOVE (list, p)\<close>: the new heap, the new head and what is left in \<open>p\<close>.\<close>

definition IVY_LIST_REMOVE :: "'v heap \<Rightarrow> nat \<Rightarrow> nat \<Rightarrow> ('v heap \<times> nat \<times> nat) option" where
  "IVY_LIST_REMOVE h list p =
     (if list = p then Option.bind (h p) (\<lambda>(v, n). Some (h(p := None), n, p))
      else Option.bind (IVY_LIST_ITER h list (\<lambda>_ _ n. n \<noteq> p)) (\<lambda>q.
        if q = 0 then Some (h, list, 0)
        else Option.bind (h p) (\<lambda>(_, suiv).
             Option.bind (h q) (\<lambda>(v, _). Some ((h(q \<mapsto> (v, suiv)))(p := None), list, q)))))"

text \<open>\<open>IVY_LIST_ADD_START\<close> \dots \<open>IVY_LIST_ADD_END\<close>: \<open>a\<close> is the address \<open>malloc\<close> returned.\<close>

definition IVY_LIST_ADD :: "'v heap \<Rightarrow> nat \<Rightarrow> nat \<Rightarrow> 'v \<Rightarrow> 'v heap \<times> nat" where
  "IVY_LIST_ADD h list a v = (h(a \<mapsto> (v, list)), a)"

partial_function (option) IVY_LIST_EMPTY :: "'v heap \<Rightarrow> nat \<Rightarrow> 'v heap option" where
  "IVY_LIST_EMPTY h list =
     (if list = 0 then Some h
      else Option.bind (h list) (\<lambda>vn. IVY_LIST_EMPTY (h(list := None)) (snd vn)))"

text \<open>
  The loop the code writes most: \<open>IVY_LIST_EACH_SAFE (list, p, next)\<close> whose body removes \<open>p\<close>
  when a test holds.
\<close>

partial_function (option) each_safe_remove ::
    "'v heap \<Rightarrow> nat \<Rightarrow> nat \<Rightarrow> ('v \<Rightarrow> bool) \<Rightarrow> ('v heap \<times> nat) option" where
  "each_safe_remove h list p P =
     (if p = 0 then Some (h, list)
      else Option.bind (h p) (\<lambda>vn.
        if P (fst vn)
        then Option.bind (IVY_LIST_REMOVE h list p) (\<lambda>r.
               each_safe_remove (fst r) (fst (snd r)) (snd vn) P)
        else each_safe_remove h list (snd vn) P))"

definition payload :: "'v heap \<Rightarrow> nat \<Rightarrow> 'v" where
  "payload h a = fst (the (h a))"

section \<open>Refinement to lists\<close>

lemma list_at_frame:
  "(\<And>a. a \<in> set as \<Longrightarrow> h' a = h a) \<Longrightarrow> list_at h' p as = list_at h p as"
  by (induction as arbitrary: p) (auto split: option.splits)

lemma list_at_frameI:
  "list_at h p as \<Longrightarrow> \<forall>a \<in> set as. h' a = h a \<Longrightarrow> list_at h' p as"
  using list_at_frame by metis

lemma list_at_ConsE:
  assumes "list_at h p (a # as)"
  obtains v n where "p = a" "a \<noteq> 0" "h a = Some (v, n)" "list_at h n as"
  using assms by (auto split: option.splits)

lemma list_at_alloc: "list_at h p as \<Longrightarrow> a \<in> set as \<Longrightarrow> h a \<noteq> None \<and> a \<noteq> 0"
  by (induction as arbitrary: p) (auto split: option.splits)

text \<open>A chain of next pointers that ends in \<open>NULL\<close> cannot visit a node twice.\<close>

lemma list_at_det: "list_at h p as \<Longrightarrow> list_at h p bs \<Longrightarrow> as = bs"
proof (induction as arbitrary: p bs)
  case Nil
  then show ?case by (cases bs) auto
next
  case (Cons a as)
  then show ?case by (cases bs) (auto split: option.splits)
qed

lemma list_at_suffix: "list_at h p (as @ b # bs) \<Longrightarrow> list_at h b (b # bs)"
proof (induction as arbitrary: p)
  case (Cons a as)
  then show ?case by (metis append_Cons list_at_ConsE)
qed (auto split: option.splits)

lemma list_at_distinct: "list_at h p as \<Longrightarrow> distinct as"
proof (induction as arbitrary: p)
  case (Cons a as)
  then obtain v n where a: "h a = Some (v, n)" "list_at h n as" "list_at h a (a # as)"
    by (auto split: option.splits)
  have "a \<notin> set as"
  proof
    assume "a \<in> set as"
    then obtain xs ys where as: "as = xs @ a # ys" by (auto simp: in_set_conv_decomp)
    with a(2) have "list_at h a (a # ys)" by (metis list_at_suffix)
    with a(3) have "a # as = a # ys" by (rule list_at_det)
    with as show False by (metis append_Cons length_append list.inject not_add_less2
        add_Suc_right le_add2 length_Cons not_less_eq_eq)
  qed
  with Cons.IH a show ?case by simp
qed simp

lemma IVY_LIST_ADD_refines:
  assumes "list_at h p as" and "h a = None" and "a \<noteq> 0"
  shows "list_at (fst (IVY_LIST_ADD h p a v)) (snd (IVY_LIST_ADD h p a v)) (a # as)"
    and "payload (fst (IVY_LIST_ADD h p a v)) a = v"
proof -
  have "a \<notin> set as" using list_at_alloc [OF assms(1), of a] assms(2) by blast
  with assms(1) have "list_at (h(a \<mapsto> (v, p))) p as"
    by (intro list_at_frameI [OF assms(1)]) auto
  then show "list_at (fst (IVY_LIST_ADD h p a v)) (snd (IVY_LIST_ADD h p a v)) (a # as)"
    using assms(3) by (simp add: IVY_LIST_ADD_def)
qed (simp add: IVY_LIST_ADD_def payload_def)

lemma IVY_LIST_ITER_refines:
  assumes "list_at h p as"
  shows "IVY_LIST_ITER h p (\<lambda>_ v _. c v) =
           Some (case find (\<lambda>a. \<not> c (payload h a)) as of None \<Rightarrow> 0 | Some a \<Rightarrow> a)"
  using assms
proof (induction as arbitrary: p)
  case Nil
  then show ?case by (subst IVY_LIST_ITER.simps) simp
next
  case (Cons a as)
  then show ?case by (subst IVY_LIST_ITER.simps)
      (auto simp: payload_def split: option.splits)
qed

text \<open>The search for the predecessor of a node of the list.\<close>

lemma iter_pred:
  assumes "list_at h p (as @ b # c # bs)"
  shows "IVY_LIST_ITER h p (\<lambda>_ _ n. n \<noteq> c) = Some b"
  using assms
proof (induction as arbitrary: p)
  case Nil
  then show ?case by (subst IVY_LIST_ITER.simps) (auto split: option.splits)
next
  case (Cons a as)
  from list_at_distinct [OF Cons.prems] have d: "distinct (a # as @ b # c # bs)" by simp
  from Cons.prems obtain v n where a: "h a = Some (v, n)" "list_at h n (as @ b # c # bs)" "p = a" "a \<noteq> 0"
    by (auto split: option.splits)
  then have "n = (as @ [b]) ! 0" by (cases as) auto
  with d have "n \<noteq> c" by (cases as) auto
  with a Cons.IH show ?case by (subst IVY_LIST_ITER.simps) simp
qed

lemma list_at_relink:
  assumes "list_at h p (as @ b # c # bs)" and "h b = Some (v, c)" and "h c = Some (w, m)"
  shows "list_at ((h(b \<mapsto> (v, m)))(c := None)) p (as @ b # bs)"
  using assms(1)
proof (induction as arbitrary: p)
  case Nil
  from list_at_distinct [OF Nil] have "b \<notin> set bs" "c \<notin> set bs" and "b \<noteq> c" by auto
  moreover have "list_at h m bs" using Nil assms by simp
  ultimately have "list_at ((h(b \<mapsto> (v, m)))(c := None)) m bs"
    by (elim list_at_frameI) auto
  with Nil assms \<open>b \<noteq> c\<close> show ?case by (simp add: fun_upd_def)
next
  case (Cons a as)
  from list_at_distinct [OF Cons.prems] have "a \<noteq> b" "a \<noteq> c" by auto
  with Cons show ?case by (auto split: option.splits)
qed

lemma list_at_next:
  "list_at h p (as @ b # c # bs) \<Longrightarrow> \<exists>v w m. h b = Some (v, c) \<and> h c = Some (w, m)"
  by (induction as arbitrary: p) (auto split: option.splits)

lemma IVY_LIST_REMOVE_refines:
  assumes "list_at h p as" and "a \<in> set as"
  shows "\<exists>h' p' q. IVY_LIST_REMOVE h p a = Some (h', p', q) \<and> list_at h' p' (remove1 a as) \<and>
           h' a = None \<and> (\<forall>b. b = a \<or> (h' b = None \<longleftrightarrow> h b = None) \<and> payload h' b = payload h b) \<and>
           (\<forall>b. b \<in> set as \<or> h' b = h b)"
proof -
  from assms(2) obtain xs ys where as: "as = xs @ a # ys" "a \<notin> set xs"
    by (meson split_list_first)
  show ?thesis
  proof (cases xs rule: rev_cases)
    case Nil
    with as assms obtain v n where a: "h a = Some (v, n)" "list_at h n ys" "p = a"
      by (auto split: option.splits)
    from list_at_distinct [OF assms(1)] as Nil have "a \<notin> set ys" by simp
    with a(2) have "list_at (h(a := None)) n ys" by (elim list_at_frameI) auto
    with a as Nil show ?thesis
      by (auto simp: IVY_LIST_REMOVE_def payload_def)
  next
    case (snoc zs b)
    with as have l: "list_at h p (zs @ b # a # ys)" using assms(1) by simp
    from list_at_next [OF l] obtain v w m where b: "h b = Some (v, a)" "h a = Some (w, m)" by blast
    have "p \<noteq> a" "b \<noteq> 0" "a \<noteq> b"
      using l as snoc list_at_distinct [OF l] list_at_alloc [OF l] by (cases zs; auto)+
    then have rm: "IVY_LIST_REMOVE h p a = Some ((h(b \<mapsto> (v, m)))(a := None), p, b)"
      using iter_pred [OF l] b by (simp add: IVY_LIST_REMOVE_def)
    have "remove1 a as = zs @ b # ys" using as snoc \<open>a \<noteq> b\<close> by (simp add: remove1_append)
    with rm list_at_relink [OF l b] as snoc b \<open>a \<noteq> b\<close> show ?thesis
      by (auto simp: payload_def)
  qed
qed

lemma IVY_LIST_EMPTY_refines:
  "list_at h p as \<Longrightarrow> IVY_LIST_EMPTY h p = Some (\<lambda>a. if a \<in> set as then None else h a)"
proof (induction as arbitrary: h p)
  case Nil
  then show ?case by (subst IVY_LIST_EMPTY.simps) simp
next
  case (Cons a as)
  then obtain v n where a: "h a = Some (v, n)" "list_at h n as" "p = a" "a \<noteq> 0"
    by (auto split: option.splits)
  from list_at_distinct [OF Cons.prems] have "a \<notin> set as" by simp
  with a(2) have "list_at (h(a := None)) n as" by (elim list_at_frameI) auto
  note Cons.IH [OF this]
  also have "(\<lambda>b. if b \<in> set as then None else (h(a := None)) b) =
      (\<lambda>b. if b \<in> set (a # as) then None else h b)" by auto
  finally have "IVY_LIST_EMPTY (h(a := None)) n =
      Some (\<lambda>b. if b \<in> set (a # as) then None else h b)" .
  with a show ?case by (subst IVY_LIST_EMPTY.simps) simp
qed

text \<open>The removing loop implements \<open>filter\<close>; the payloads of the nodes that stay do not change.\<close>

lemma each_safe_remove_refines:
  assumes "list_at h p (xs @ ys)" and "q = (case ys of [] \<Rightarrow> 0 | y # _ \<Rightarrow> y)"
  shows "\<exists>h' p'. each_safe_remove h p q P = Some (h', p') \<and>
           list_at h' p' (xs @ filter (\<lambda>a. \<not> P (payload h a)) ys) \<and>
           (\<forall>a \<in> set (xs @ filter (\<lambda>a. \<not> P (payload h a)) ys). payload h' a = payload h a)"
  using assms
proof (induction ys arbitrary: h p q xs)
  case Nil
  then show ?case by (subst each_safe_remove.simps) simp
next
  case (Cons y ys)
  let ?n = "case ys of [] \<Rightarrow> 0 | z # _ \<Rightarrow> z"
  from Cons.prems(2) have q [simp]: "q = y" by simp
  from list_at_suffix [OF Cons.prems(1)] obtain v n where y: "y \<noteq> 0" "h y = Some (v, n)"
    "list_at h n ys" by (auto split: option.splits)
  then have n: "n = ?n" by (cases ys) auto
  have d: "distinct (xs @ y # ys)" using list_at_distinct [OF Cons.prems(1)] .
  show ?case
  proof (cases "P v")
    case True
    obtain h1 p1 r where rm: "IVY_LIST_REMOVE h p y = Some (h1, p1, r)"
      and l1: "list_at h1 p1 (remove1 y (xs @ y # ys))"
      and pay: "\<forall>b. b = y \<or> payload h1 b = payload h b"
      using IVY_LIST_REMOVE_refines [OF Cons.prems(1), of y] by auto
    have "remove1 y (xs @ y # ys) = xs @ ys" using d by (simp add: remove1_append)
    with l1 Cons.IH [of h1 p1 xs n] n obtain h' p'
      where IH: "each_safe_remove h1 p1 n P = Some (h', p')"
        "list_at h' p' (xs @ filter (\<lambda>a. \<not> P (payload h1 a)) ys)"
        "\<forall>a \<in> set (xs @ filter (\<lambda>a. \<not> P (payload h1 a)) ys). payload h' a = payload h1 a"
      by auto
    have "filter (\<lambda>a. \<not> P (payload h1 a)) ys = filter (\<lambda>a. \<not> P (payload h a)) ys"
      using pay d by (intro filter_cong) auto
    moreover have "each_safe_remove h p q P = Some (h', p')"
      using y True rm IH(1) by (subst each_safe_remove.simps) simp
    moreover have "filter (\<lambda>a. \<not> P (payload h a)) (y # ys) = filter (\<lambda>a. \<not> P (payload h a)) ys"
      using y True by (simp add: payload_def)
    moreover have "payload h1 a = payload h a" if "a \<in> set (xs @ ys)" for a
      using pay d that by auto
    ultimately show ?thesis using IH(2,3)
      by (intro exI [of _ h'] exI [of _ p'] conjI ballI) (simp_all only:, auto)
  next
    case False
    have "payload h y = v" using y by (simp add: payload_def)
    with False y n Cons.IH [of h p "xs @ [y]" n] Cons.prems show ?thesis
      by (subst each_safe_remove.simps) simp
  qed
qed

section \<open>Traversal with an arbitrary body\<close>

text \<open>
  \<open>IVY_LIST_EACH_SAFE\<close> saves the successor of the current node before it runs the body. On a
  list known by the addresses of its nodes (\<open>lst s\<close> reads it from the state), the nodes still
  to visit are those after the cursor that were alive when the cursor was reached, and the
  loop fails if the saved one has been freed by the body. Nodes the body puts at the front are
  not visited.
\<close>

function each_safe :: "('s \<Rightarrow> nat list) \<Rightarrow> (nat \<Rightarrow> 's \<Rightarrow> 's res) \<Rightarrow> nat list \<Rightarrow> 's \<Rightarrow> 's res" where
  "each_safe lst body [] s = Inr s"
| "each_safe lst body (p # rest) s =
     (if p \<notin> set (lst s) then Inl UseAfterFree
      else case body p s of Inl e \<Rightarrow> Inl e
           | Inr t \<Rightarrow> each_safe lst body (filter (\<lambda>x. x \<in> set (lst s)) rest) t)"
  by pat_completeness auto
termination
  by (relation "measure (\<lambda>(_, _, xs, _). length xs)") (auto simp: le_imp_less_Suc)

text \<open>\<open>IVY_LIST_EACH_SAFE (list, p, next) body\<close> from the head.\<close>

definition IVY_LIST_EACH_SAFE :: "('s \<Rightarrow> nat list) \<Rightarrow> (nat \<Rightarrow> 's \<Rightarrow> 's res) \<Rightarrow> 's \<Rightarrow> 's res" where
  "IVY_LIST_EACH_SAFE lst body s = each_safe lst body (lst s) s"

text \<open>
  When the body frees no node but the current one, nothing dangles and the loop is a run of
  the body over the list as it was at the start.
\<close>

lemma each_safe_foldR:
  assumes "distinct xs" and "set xs \<subseteq> set (lst s)"
    and "\<And>p s t. body p s = Inr t \<Longrightarrow> set (lst s) - {p} \<subseteq> set (lst t)"
  shows "each_safe lst body xs s = foldR body xs s"
  using assms(1,2)
proof (induction xs arbitrary: s)
  case (Cons p xs)
  then have f: "filter (\<lambda>x. x \<in> set (lst s)) xs = xs" by (auto simp: filter_id_conv)
  show ?case
  proof (cases "body p s")
    case (Inr t)
    then have "set xs \<subseteq> set (lst t)" using Cons.prems assms(3) [OF Inr] by auto
    with Inr Cons f show ?thesis by simp
  qed (use Cons.prems in simp)
qed simp

lemma each_safe_invariant:
  assumes "each_safe lst body xs s = Inr t" and "I s"
    and "\<And>p s t. I s \<Longrightarrow> body p s = Inr t \<Longrightarrow> I t"
  shows "I t"
  using assms
proof (induction lst body xs s rule: each_safe.induct)
  case (2 lst body p rest s)
  from 2(2) obtain u where u: "p \<in> set (lst s)" "body p s = Inr u"
    "each_safe lst body (filter (\<lambda>x. x \<in> set (lst s)) rest) u = Inr t"
    by (auto split: if_splits sum.splits)
  have "I u" by (rule 2(4) [OF 2(3) u(2)])
  then show ?case using 2(1) [OF _ u(2) u(3)] 2(4) u(1) by blast
qed simp

end
