(* ===== verification/IvyLoop.thy ===== *)
theory IvyLoop
  imports IvyList
begin

text \<open>
  The select-based main loop of \<open>ivyloop.c\<close>: the list of channels, the two descriptor sets, and
  the deferred deletion. A channel's \<open>data\<close> is of any type; its handlers are arguments of the
  traversals, and a handler may be \<open>NULL\<close>. The loop's statics are one record inside a larger
  program state \<open>'s\<close>, which the handlers transform: \<open>get\<close> reads it and \<open>upd\<close> updates it.
\<close>

section \<open>State and channel operations\<close>

record 'd channel =
  ch_ptr :: nat            \<comment> \<open>the address of the node, the \<open>Channel\<close> handle\<close>
  ch_fd :: nat
  ch_data :: 'd
  ch_tobedeleted :: bool
  ch_delete :: bool        \<comment> \<open>\<open>handle_delete != NULL\<close>\<close>
  ch_read :: bool
  ch_write :: bool

record 'd loop =
  channels_list :: "'d channel list"
  open_fds :: "nat set"
  wrdy_fds :: "nat set"
  highestFd :: nat
  MainLoop :: bool
  channel_initialized :: bool

definition find_channel :: "nat \<Rightarrow> 'd loop \<Rightarrow> 'd channel option" where
  "find_channel p l = find (\<lambda>c. ch_ptr c = p) (channels_list l)"

definition IvyChannelInit :: "'d loop \<Rightarrow> 'd loop" where
  "IvyChannelInit l =
     (let l = l\<lparr>MainLoop := True\<rparr>
      in if channel_initialized l then l
         else l\<lparr>open_fds := {}, wrdy_fds := {}, channel_initialized := True\<rparr>)"

definition IvyChannelStop :: "'d loop \<Rightarrow> 'd loop" where
  "IvyChannelStop l = l\<lparr>MainLoop := False\<rparr>"

text \<open>\<open>p\<close> is the address of the new node; the three flags say which handlers are given.\<close>

definition IvyChannelAdd ::
    "nat \<Rightarrow> nat \<Rightarrow> 'd \<Rightarrow> bool \<Rightarrow> bool \<Rightarrow> bool \<Rightarrow> 'd loop \<Rightarrow> 'd loop" where
  "IvyChannelAdd p fd data hdel hrd hwr l =
     l\<lparr>channels_list := \<lparr>ch_ptr = p, ch_fd = fd, ch_data = data, ch_tobedeleted = False,
           ch_delete = hdel, ch_read = hrd, ch_write = hwr\<rparr> # channels_list l,
       highestFd := (if fd \<ge> highestFd l then fd + 1 else highestFd l),
       open_fds := insert fd (open_fds l)\<rparr>"

definition IvyChannelRemove :: "nat \<Rightarrow> 'd loop \<Rightarrow> 'd loop res" where
  "IvyChannelRemove p l =
     (case find_channel p l of None \<Rightarrow> Inl UseAfterFree
      | Some _ \<Rightarrow> Inr (l\<lparr>channels_list :=
          map (\<lambda>c. if ch_ptr c = p then c\<lparr>ch_tobedeleted := True\<rparr> else c) (channels_list l)\<rparr>))"

definition IvyChannelAddWritableEvent :: "nat \<Rightarrow> 'd loop \<Rightarrow> 'd loop res" where
  "IvyChannelAddWritableEvent p l =
     (case find_channel p l of None \<Rightarrow> Inl UseAfterFree
      | Some c \<Rightarrow> Inr (l\<lparr>highestFd := (if ch_fd c \<ge> highestFd l then ch_fd c + 1 else highestFd l),
                         wrdy_fds := insert (ch_fd c) (wrdy_fds l)\<rparr>))"

definition IvyChannelClearWritableEvent :: "nat \<Rightarrow> 'd loop \<Rightarrow> 'd loop res" where
  "IvyChannelClearWritableEvent p l =
     (case find_channel p l of None \<Rightarrow> Inl UseAfterFree
      | Some c \<Rightarrow> Inr (l\<lparr>wrdy_fds := wrdy_fds l - {ch_fd c}\<rparr>))"

section \<open>Deletion and dispatch\<close>

type_synonym ('d, 's) get = "'s \<Rightarrow> 'd loop"
type_synonym ('d, 's) upd = "('d loop \<Rightarrow> 'd loop) \<Rightarrow> 's \<Rightarrow> 's"

definition unlink_channel :: "'d channel \<Rightarrow> 'd loop \<Rightarrow> 'd loop" where
  "unlink_channel c l =
     l\<lparr>open_fds := open_fds l - {ch_fd c}, wrdy_fds := wrdy_fds l - {ch_fd c},
       channels_list := filter (\<lambda>c'. ch_ptr c' \<noteq> ch_ptr c) (channels_list l)\<rparr>"

definition IvyChannelDelete ::
    "('d, 's) upd \<Rightarrow> ('d \<Rightarrow> 's \<Rightarrow> 's res) \<Rightarrow> 'd channel \<Rightarrow> 's \<Rightarrow> 's res" where
  "IvyChannelDelete upd hdel c s =
     bindR (if ch_delete c then hdel (ch_data c) s else Inr s)
       (\<lambda>s. Inr (upd (unlink_channel c) s))"

definition channel_ptrs :: "('d, 's) get \<Rightarrow> 's \<Rightarrow> nat list" where
  "channel_ptrs get s = map ch_ptr (channels_list (get s))"

text \<open>The node under the cursor, for the bodies of the four traversals below.\<close>

definition with_channel ::
    "('d, 's) get \<Rightarrow> ('d channel \<Rightarrow> 's \<Rightarrow> 's res) \<Rightarrow> nat \<Rightarrow> 's \<Rightarrow> 's res" where
  "with_channel get body p s =
     (case find_channel p (get s) of None \<Rightarrow> Inl UseAfterFree | Some c \<Rightarrow> body c s)"

definition ChannelDefferedDelete ::
    "('d, 's) get \<Rightarrow> ('d, 's) upd \<Rightarrow> ('d \<Rightarrow> 's \<Rightarrow> 's res) \<Rightarrow> 's \<Rightarrow> 's res" where
  "ChannelDefferedDelete get upd hdel =
     IVY_LIST_EACH_SAFE (channel_ptrs get) (with_channel get (\<lambda>c s.
       if ch_tobedeleted c then IvyChannelDelete upd hdel c s else Inr s))"

definition call_handler :: "bool \<Rightarrow> 's res \<Rightarrow> 's res" where
  "call_handler present r = (if present then r else Inl NullDeref)"

definition IvyChannelHandleWrite ::
    "('d, 's) get \<Rightarrow> (nat \<Rightarrow> nat \<Rightarrow> 'd \<Rightarrow> 's \<Rightarrow> 's res) \<Rightarrow> nat set \<Rightarrow> 's \<Rightarrow> 's res" where
  "IvyChannelHandleWrite get hwr current =
     IVY_LIST_EACH_SAFE (channel_ptrs get) (with_channel get (\<lambda>c s.
       if ch_fd c \<in> current
       then call_handler (ch_write c) (hwr (ch_ptr c) (ch_fd c) (ch_data c) s) else Inr s))"

definition IvyChannelHandleRead ::
    "('d, 's) get \<Rightarrow> (nat \<Rightarrow> nat \<Rightarrow> 'd \<Rightarrow> 's \<Rightarrow> 's res) \<Rightarrow> nat set \<Rightarrow> 's \<Rightarrow> 's res" where
  "IvyChannelHandleRead get hrd current =
     IVY_LIST_EACH_SAFE (channel_ptrs get) (with_channel get (\<lambda>c s.
       if ch_fd c \<in> current
       then call_handler (ch_read c) (hrd (ch_ptr c) (ch_fd c) (ch_data c) s) else Inr s))"

definition IvyChannelHandleExcpt ::
    "('d, 's) get \<Rightarrow> ('d \<Rightarrow> 's \<Rightarrow> 's res) \<Rightarrow> nat set \<Rightarrow> 's \<Rightarrow> 's res" where
  "IvyChannelHandleExcpt get hdel current =
     IVY_LIST_EACH_SAFE (channel_ptrs get) (with_channel get (\<lambda>c s.
       if ch_fd c \<in> current \<and> ch_delete c then hdel (ch_data c) s else Inr s))"

section \<open>The main loop\<close>

text \<open>
  What one call of \<open>select\<close> answers: the count, whether \<open>errno\<close> is \<open>EINTR\<close>, and the
  descriptors it leaves in the three sets it was given.
\<close>

record sel =
  sel_ready :: int
  sel_eintr :: bool
  sel_rd :: "nat set"
  sel_wr :: "nat set"
  sel_ex :: "nat set"

text \<open>
  The handlers of the channels, the hooks around \<open>select\<close>, \<open>TimerGetSmallestTimeout\<close>, which sets the
  timeout of \<open>select\<close>, and \<open>TimerScan\<close>.
\<close>

record ('d, 's) handlers =
  h_delete :: "'d \<Rightarrow> 's \<Rightarrow> 's res"
  h_read :: "nat \<Rightarrow> nat \<Rightarrow> 'd \<Rightarrow> 's \<Rightarrow> 's res"
  h_write :: "nat \<Rightarrow> nat \<Rightarrow> 'd \<Rightarrow> 's \<Rightarrow> 's res"
  h_before :: "'s \<Rightarrow> 's res"
  h_timeout :: "'s \<Rightarrow> 's"
  h_after :: "'s \<Rightarrow> 's res"
  h_timers :: "'s \<Rightarrow> 's res"

definition dispatch ::
    "('d, 's) get \<Rightarrow> ('d, 's) handlers \<Rightarrow> nat set \<Rightarrow> nat set \<Rightarrow> nat set \<Rightarrow> 's \<Rightarrow> 's res" where
  "dispatch get h rd wr ex s =
     bindR (IvyChannelHandleExcpt get (h_delete h) ex s) (\<lambda>s.
     bindR (IvyChannelHandleRead get (h_read h) rd s) (\<lambda>s.
       IvyChannelHandleWrite get (h_write h) wr s))"

text \<open>
  One turn of \<open>IvyMainLoop\<close>. The boolean is false when the loop returns on a \<open>select\<close> error.
\<close>

definition IvyMainLoop_turn ::
    "('d, 's) get \<Rightarrow> ('d, 's) upd \<Rightarrow> ('d, 's) handlers \<Rightarrow> sel \<Rightarrow> 's \<Rightarrow> (bool \<times> 's) res" where
  "IvyMainLoop_turn get upd h r s =
     bindR (ChannelDefferedDelete get upd (h_delete h) s) (\<lambda>s.
     bindR (h_before h s) (\<lambda>s.
       (let l = get s; rd = open_fds l \<inter> sel_rd r; wr = wrdy_fds l \<inter> sel_wr r;
            ex = open_fds l \<inter> sel_ex r
        in bindR (h_after h (h_timeout h s)) (\<lambda>s.
           if sel_ready r < 0 \<and> \<not> sel_eintr r then Inr (False, s)
           else bindR (h_timers h s) (\<lambda>s.
             if sel_ready r > 0 then bindR (dispatch get h rd wr ex s) (\<lambda>s. Inr (True, s))
             else Inr (True, s))))))"

text \<open>The loop over the answers of successive \<open>select\<close> calls; after the last it blocks.\<close>

fun IvyMainLoop ::
    "('d, 's) get \<Rightarrow> ('d, 's) upd \<Rightarrow> ('d, 's) handlers \<Rightarrow> sel list \<Rightarrow> 's \<Rightarrow> 's res" where
  "IvyMainLoop get upd h [] s = Inr s"
| "IvyMainLoop get upd h (r # rs) s =
     (if \<not> MainLoop (get s) then Inr s
      else bindR (IvyMainLoop_turn get upd h r s) (\<lambda>(go, s).
        if go then IvyMainLoop get upd h rs s else Inr s))"

definition IvyIdle ::
    "('d, 's) get \<Rightarrow> ('d, 's) upd \<Rightarrow> ('d, 's) handlers \<Rightarrow> sel \<Rightarrow> 's \<Rightarrow> 's res" where
  "IvyIdle get upd h r s =
     bindR (ChannelDefferedDelete get upd (h_delete h) s) (\<lambda>s.
       (let l = get s
        in if sel_ready r < 0 \<and> \<not> sel_eintr r then Inr s
           else if sel_ready r > 0
           then dispatch get h (open_fds l \<inter> sel_rd r) (wrdy_fds l \<inter> sel_wr r)
                  (open_fds l \<inter> sel_ex r) s
           else Inr s))"

section \<open>The invariant of the channel table\<close>

text \<open>
  Handles and descriptors are unique, the descriptors \<open>select\<close> watches for reading are exactly
  those of the channels, those watched for writing are among them, and \<open>highestFd\<close> is above
  them all.
\<close>

definition loop_inv :: "'d loop \<Rightarrow> bool" where
  "loop_inv l \<longleftrightarrow>
     distinct (map ch_ptr (channels_list l)) \<and> distinct (map ch_fd (channels_list l)) \<and>
     open_fds l = ch_fd ` set (channels_list l) \<and>
     wrdy_fds l \<subseteq> ch_fd ` set (channels_list l) \<and>
     (\<forall>c \<in> set (channels_list l). ch_fd c < highestFd l)"

lemma find_channel_Some:
  "find_channel p l = Some c \<Longrightarrow> c \<in> set (channels_list l) \<and> ch_ptr c = p"
  unfolding find_channel_def by (auto dest: find_Some_mem)

lemma find_channel_None: "find_channel p l = None \<longleftrightarrow> p \<notin> ch_ptr ` set (channels_list l)"
  by (auto simp: find_channel_def find_None_iff)

lemma find_channel_unique:
  assumes "distinct (map ch_ptr (channels_list l))" and "c \<in> set (channels_list l)"
  shows "find_channel (ch_ptr c) l = Some c"
proof (cases "find_channel (ch_ptr c) l")
  case None
  with assms show ?thesis by (auto simp: find_channel_None)
next
  case (Some d)
  with find_channel_Some [OF this] assms show ?thesis
    by (metis distinct_map inj_onD)
qed

lemma loop_inv_Init [inv_intros]:
  "channel_initialized l \<Longrightarrow> loop_inv l \<Longrightarrow> loop_inv (IvyChannelInit l)"
  "channels_list l = [] \<Longrightarrow> \<not> channel_initialized l \<Longrightarrow> loop_inv (IvyChannelInit l)"
  by (simp_all add: IvyChannelInit_def loop_inv_def)

lemma loop_inv_Stop [inv_intros]: "loop_inv l \<Longrightarrow> loop_inv (IvyChannelStop l)"
  by (simp add: IvyChannelStop_def loop_inv_def)

lemma loop_inv_Add [inv_intros]:
  "loop_inv l \<Longrightarrow> p \<notin> ch_ptr ` set (channels_list l) \<Longrightarrow> fd \<notin> open_fds l \<Longrightarrow>
     loop_inv (IvyChannelAdd p fd d b1 b2 b3 l)"
  by (auto simp: IvyChannelAdd_def loop_inv_def less_Suc_eq_le)

lemma map_mark:
  "map ch_ptr (map (\<lambda>c. if ch_ptr c = p then c\<lparr>ch_tobedeleted := True\<rparr> else c) cs) = map ch_ptr cs"
  "map ch_fd (map (\<lambda>c. if ch_ptr c = p then c\<lparr>ch_tobedeleted := True\<rparr> else c) cs) = map ch_fd cs"
  by (induction cs) auto

lemma loop_inv_maps:
  "loop_inv l \<Longrightarrow> map ch_ptr cs = map ch_ptr (channels_list l) \<Longrightarrow>
     map ch_fd cs = map ch_fd (channels_list l) \<Longrightarrow> loop_inv (l\<lparr>channels_list := cs\<rparr>)"
proof -
  assume a: "loop_inv l" "map ch_ptr cs = map ch_ptr (channels_list l)"
    "map ch_fd cs = map ch_fd (channels_list l)"
  then have "ch_fd ` set cs = ch_fd ` set (channels_list l)" by (metis list.set_map)
  with a show ?thesis by (simp add: loop_inv_def) (metis image_iff)
qed

lemma loop_inv_Remove [inv_intros]:
  "loop_inv l \<Longrightarrow> IvyChannelRemove p l = Inr l' \<Longrightarrow> loop_inv l'"
  using loop_inv_maps [of l] map_mark by (auto simp: IvyChannelRemove_def split: option.splits)

lemma loop_inv_AddWritable [inv_intros]:
  "loop_inv l \<Longrightarrow> IvyChannelAddWritableEvent p l = Inr l' \<Longrightarrow> loop_inv l'"
  using find_channel_Some [of p l]
  by (fastforce simp: IvyChannelAddWritableEvent_def loop_inv_def split: option.splits)

lemma loop_inv_ClearWritable [inv_intros]:
  "loop_inv l \<Longrightarrow> IvyChannelClearWritableEvent p l = Inr l' \<Longrightarrow> loop_inv l'"
  by (auto simp: IvyChannelClearWritableEvent_def loop_inv_def split: option.splits)

lemma distinct_map_fst_filter:
  "distinct (map f xs) \<Longrightarrow> distinct (map f (filter P xs))"
  by (metis distinct_map distinct_filter filter_is_subset inj_on_subset)

lemma loop_inv_unlink [inv_intros]:
  assumes "loop_inv l" and "c \<in> set (channels_list l)"
  shows "loop_inv (unlink_channel c l)"
proof -
  have d: "distinct (map ch_ptr (channels_list l))" "distinct (map ch_fd (channels_list l))"
    using assms by (auto simp: loop_inv_def)
  have "ch_ptr c' = ch_ptr c \<longleftrightarrow> ch_fd c' = ch_fd c" if "c' \<in> set (channels_list l)" for c'
    using d assms(2) that by (metis distinct_map inj_onD)
  then have "ch_fd ` set (channels_list l) - {ch_fd c} =
      ch_fd ` {c' \<in> set (channels_list l). ch_ptr c' \<noteq> ch_ptr c}" by auto
  then show ?thesis
    using assms d by (auto simp: unlink_channel_def loop_inv_def distinct_map_fst_filter)
qed

section \<open>Deferred deletion\<close>

text \<open>
  The loop relies on its accessors, and on the delete handlers leaving the channel table alone.
\<close>

locale loop_client =
  fixes get :: "'s \<Rightarrow> 'd loop"
    and upd :: "('d loop \<Rightarrow> 'd loop) \<Rightarrow> 's \<Rightarrow> 's"
    and hdel :: "'d \<Rightarrow> 's \<Rightarrow> 's res"
  assumes get_upd: "get (upd f s) = f (get s)"
    and hdel_get: "hdel d s = Inr t \<Longrightarrow> get t = get s"
begin

abbreviation del_body :: "nat \<Rightarrow> 's \<Rightarrow> 's res" where
  "del_body \<equiv> with_channel get (\<lambda>c s.
     if ch_tobedeleted c then IvyChannelDelete upd hdel c s else Inr s)"

lemma Delete_get: "IvyChannelDelete upd hdel c s = Inr t \<Longrightarrow> get t = unlink_channel c (get s)"
  by (auto simp: IvyChannelDelete_def bindR_eq_Inr get_upd split: if_splits dest: hdel_get)

lemma del_body_keeps:
  "del_body p s = Inr t \<Longrightarrow> set (channel_ptrs get s) - {p} \<subseteq> set (channel_ptrs get t)"
  by (auto simp: with_channel_def channel_ptrs_def unlink_channel_def
      split: option.splits if_splits dest!: Delete_get find_channel_Some)

lemma del_body_foldR:
  assumes "distinct (map ch_ptr cs)" and "\<forall>c \<in> set cs. find_channel (ch_ptr c) (get s) = Some c"
  shows "foldR del_body (map ch_ptr cs) s =
           foldR (IvyChannelDelete upd hdel) (filter ch_tobedeleted cs) s"
  using assms
proof (induction cs arbitrary: s)
  case (Cons c cs)
  have c: "find_channel (ch_ptr c) (get s) = Some c" using Cons.prems by simp
  show ?case
  proof (cases "ch_tobedeleted c")
    case False
    with Cons c show ?thesis by (simp add: with_channel_def)
  next
    case del: True
    show ?thesis
    proof (cases "IvyChannelDelete upd hdel c s")
      case (Inr t)
      have "find_channel (ch_ptr d) (get t) = Some d" if "d \<in> set cs" for d
      proof -
        have "ch_ptr d \<in> ch_ptr ` set cs" using that by simp
        with Cons.prems(1) have "ch_ptr d \<noteq> ch_ptr c" by auto
        then have "find_channel (ch_ptr d) (get t) = find_channel (ch_ptr d) (get s)"
          unfolding Delete_get [OF Inr] find_channel_def unlink_channel_def
          by (auto intro: find_filter_other)
        with that Cons.prems(2) show ?thesis by simp
      qed
      with Inr del c Cons show ?thesis by (simp add: with_channel_def)
    qed (use del c in \<open>simp add: with_channel_def\<close>)
  qed
qed simp

text \<open>The traversal deletes the channels marked when it starts, each once, in list order.\<close>

lemma deferred_delete_foldR:
  assumes "loop_inv (get s)"
  shows "ChannelDefferedDelete get upd hdel s =
           foldR (IvyChannelDelete upd hdel) (filter ch_tobedeleted (channels_list (get s))) s"
proof -
  have d: "distinct (map ch_ptr (channels_list (get s)))" using assms by (simp add: loop_inv_def)
  have "ChannelDefferedDelete get upd hdel s = foldR del_body (channel_ptrs get s) s"
    unfolding ChannelDefferedDelete_def IVY_LIST_EACH_SAFE_def
    using d del_body_keeps by (intro each_safe_foldR) (auto simp: channel_ptrs_def)
  also have "\<dots> = foldR (IvyChannelDelete upd hdel) (filter ch_tobedeleted (channels_list (get s))) s"
    unfolding channel_ptrs_def using d find_channel_unique by (intro del_body_foldR) auto
  finally show ?thesis .
qed

lemma foldR_Delete_get:
  "foldR (IvyChannelDelete upd hdel) cs s = Inr t \<Longrightarrow> get t = fold unlink_channel cs (get s)"
  by (induction cs arbitrary: s) (auto simp: bindR_eq_Inr dest: Delete_get)

end

lemma fold_unlink:
  "channels_list (fold unlink_channel cs l) =
     filter (\<lambda>c. ch_ptr c \<notin> ch_ptr ` set cs) (channels_list l)"
  "open_fds (fold unlink_channel cs l) = open_fds l - ch_fd ` set cs"
  "wrdy_fds (fold unlink_channel cs l) = wrdy_fds l - ch_fd ` set cs"
  by (induction cs arbitrary: l) (auto simp: unlink_channel_def intro: filter_cong)

lemma loop_inv_fold_unlink:
  "loop_inv l \<Longrightarrow> set cs \<subseteq> set (channels_list l) \<Longrightarrow> distinct (map ch_ptr cs) \<Longrightarrow>
     loop_inv (fold unlink_channel cs l)"
proof (induction cs arbitrary: l)
  case (Cons c cs)
  have "set cs \<subseteq> set (channels_list (unlink_channel c l))"
    using Cons.prems by (auto simp: unlink_channel_def) (metis image_eqI)
  with Cons show ?case by (simp add: loop_inv_unlink)
qed simp

context loop_client
begin

text \<open>What is left is exactly what was not marked, in the same order, and the table is well formed.\<close>

lemma deferred_delete_get:
  assumes "loop_inv (get s)" and "ChannelDefferedDelete get upd hdel s = Inr t"
  shows "channels_list (get t) = filter (\<lambda>c. \<not> ch_tobedeleted c) (channels_list (get s))"
    and "loop_inv (get t)"
proof -
  let ?del = "filter ch_tobedeleted (channels_list (get s))"
  have t: "get t = fold unlink_channel ?del (get s)"
    using assms foldR_Delete_get deferred_delete_foldR by metis
  have d: "distinct (map ch_ptr (channels_list (get s)))" using assms(1) by (simp add: loop_inv_def)
  have "c \<in> set (channels_list (get s)) \<Longrightarrow> ch_ptr c \<in> ch_ptr ` set ?del \<longleftrightarrow> ch_tobedeleted c" for c
    using d by (auto simp: distinct_map inj_on_def)
  then show "channels_list (get t) = filter (\<lambda>c. \<not> ch_tobedeleted c) (channels_list (get s))"
    unfolding t fold_unlink by (intro filter_cong) auto
  show "loop_inv (get t)"
    unfolding t using assms(1) d by (intro loop_inv_fold_unlink) (auto simp: distinct_map_fst_filter)
qed

end

section \<open>What the handlers keep, the loop keeps\<close>

text \<open>
  The contract of the handlers of a program that lives on the loop: each keeps the property
  \<open>I\<close> of the state, and so does every change of the loop's own statics.
\<close>

locale handler_contract =
  fixes get :: "'s \<Rightarrow> 'd loop"
    and upd :: "('d loop \<Rightarrow> 'd loop) \<Rightarrow> 's \<Rightarrow> 's"
    and h :: "('d, 's) handlers"
    and I :: "'s \<Rightarrow> bool"
  assumes upd_keeps: "I s \<Longrightarrow> I (upd f s)"
    and delete_keeps: "h_delete h d s = Inr t \<Longrightarrow> I s \<Longrightarrow> I t"
    and read_keeps: "h_read h p fd d s = Inr t \<Longrightarrow> I s \<Longrightarrow> I t"
    and write_keeps: "h_write h p fd d s = Inr t \<Longrightarrow> I s \<Longrightarrow> I t"
    and before_keeps: "h_before h s = Inr t \<Longrightarrow> I s \<Longrightarrow> I t"
    and timeout_keeps: "I s \<Longrightarrow> I (h_timeout h s)"
    and after_keeps: "h_after h s = Inr t \<Longrightarrow> I s \<Longrightarrow> I t"
    and timers_keeps: "h_timers h s = Inr t \<Longrightarrow> I s \<Longrightarrow> I t"
begin

lemma each_channel_keeps:
  assumes "IVY_LIST_EACH_SAFE (channel_ptrs get) (with_channel get body) s = Inr t" and "I s"
    and "\<And>c s t. body c s = Inr t \<Longrightarrow> I s \<Longrightarrow> I t"
  shows "I t"
  using assms(1) unfolding IVY_LIST_EACH_SAFE_def
  by (rule each_safe_invariant [where I = I])
    (use assms(2,3) in \<open>auto simp: with_channel_def split: option.splits\<close>)

lemma deferred_delete_keeps: "ChannelDefferedDelete get upd (h_delete h) s = Inr t \<Longrightarrow> I s \<Longrightarrow> I t"
  unfolding ChannelDefferedDelete_def
  by (erule each_channel_keeps)
    (auto simp: IvyChannelDelete_def bindR_eq_Inr split: if_splits intro: upd_keeps dest: delete_keeps)

lemma dispatch_keeps: "dispatch get h rd wr ex s = Inr t \<Longrightarrow> I s \<Longrightarrow> I t"
  unfolding dispatch_def bindR_eq_Inr IvyChannelHandleExcpt_def IvyChannelHandleRead_def
    IvyChannelHandleWrite_def
  by (auto simp: call_handler_def split: if_splits elim!: each_channel_keeps
      dest: delete_keeps read_keeps write_keeps)

lemma turn_keeps: "IvyMainLoop_turn get upd h r s = Inr (go, t) \<Longrightarrow> I s \<Longrightarrow> I t"
  by (auto simp: IvyMainLoop_turn_def bindR_eq_Inr Let_def split: if_splits
      dest!: deferred_delete_keeps before_keeps after_keeps timers_keeps dispatch_keeps intro: timeout_keeps)

lemma main_loop_keeps: "IvyMainLoop get upd h rs s = Inr t \<Longrightarrow> I s \<Longrightarrow> I t"
proof (induction rs arbitrary: s)
  case (Cons r rs)
  then show ?case
    by (auto simp: bindR_eq_Inr split: if_splits dest: turn_keeps)
qed simp

end

end
