(* ===== verification/IvySocket.thy ===== *)
theory IvySocket
  imports IvyFifo IvyBuffer IvyLoop
begin

text \<open>
  The sockets of \<open>ivysocket.c\<close>: connected clients with their reception buffer and, while they are
  congested, their emission FIFO; the listening server; the UDP supervision socket. The state
  is a record that the core extends with its own statics, so that a callback of the core is a
  function on the whole state. A \<open>Client\<close> or \<open>Server\<close> handle is the address of its node, \<open>0\<close> is
  \<open>NULL\<close> and a freed address has no node. \<open>fresh\<close> is the next address \<open>malloc\<close> returns. What the
  kernel answers is in the state as scripts: \<open>net\<close> for \<open>send\<close>, \<open>arrivals\<close> for \<open>recvfrom\<close>,
  \<open>accepts\<close> and \<open>connects\<close> for new connections.
\<close>

section \<open>Addresses\<close>

datatype family = AF_UNSPEC | AF_INET | AF_INET6

text \<open>\<open>sa_port\<close> is the 16-bit field as the host (little endian) reads it.\<close>

record sockaddr =
  sa_family :: family
  sa_ip :: nat
  sa_port :: nat

definition htons :: "nat \<Rightarrow> nat" where
  "htons p = (p mod 256) * 256 + p div 256 mod 256"

definition ntohs :: "nat \<Rightarrow> nat" where
  "ntohs p = htons p"

definition no_addr :: sockaddr where
  "no_addr = \<lparr>sa_family = AF_UNSPEC, sa_ip = 0, sa_port = 0\<rparr>"

section \<open>State\<close>

datatype SendState = SendOk | SendStillCongestion | SendStateChangeToCongestion
  | SendStateChangeToDecongestion | SendStateFifoFull | SendError | SendParamError

text \<open>The functions the core registers as \<open>SocketInterpretation\<close>.\<close>

datatype interp_fun = InterpReceive | InterpBroadcastReceive

record sock =
  sk_fd :: nat
  sk_channel :: nat
  sk_uuid :: string
  sk_ipv6 :: bool
  sk_from :: sockaddr
  sk_from_len :: nat
  sk_interpretation :: interp_fun
  sk_handle_delete :: bool          \<comment> \<open>\<open>handle_delete != NULL\<close>\<close>
  sk_handle_decongestion :: bool
  sk_terminator :: char
  sk_buffer_size :: nat
  sk_buffer :: string               \<comment> \<open>the bytes from \<open>buffer\<close> to \<open>ptr\<close>\<close>
  sk_ifb :: "IvyFifoBuffer option"
  sk_data :: nat
  sk_local :: sockaddr              \<comment> \<open>what \<open>getsockname\<close> answers\<close>

record server =
  sv_fd :: nat
  sv_channel :: nat
  sv_port :: nat
  sv_ipv6 :: bool

datatype chan_data = ClientData nat | ServerData nat

text \<open>
  The next answer of \<open>recvfrom\<close>: bytes of a stream, of which the call takes as many as it asked
  for, a datagram with its sender, the end of the stream, or a failure.
\<close>

datatype recv = Stream string | Datagram string sockaddr | EndOfStream | RecvFails

record datagram =
  dg_fd :: nat
  dg_host :: nat
  dg_port :: nat
  dg_text :: string

record sockst =
  lp :: "chan_data loop"
  net :: net
  arrivals :: "nat \<Rightarrow> recv list"
  accepts :: "(nat \<times> sockaddr \<times> sockaddr) option list"   \<comment> \<open>descriptor, peer, local name\<close>
  connects :: "(nat \<times> sockaddr) option list"                \<comment> \<open>descriptor, local name\<close>
  gethost :: "sockaddr \<Rightarrow> string option"                     \<comment> \<open>\<open>getnameinfo\<close>\<close>
  socks :: "nat \<Rightarrow> sock option"
  clients_list :: "nat list"
  servers :: "nat \<Rightarrow> server option"
  servers_list :: "nat list"
  fresh :: nat
  closed_fds :: "nat list"
  datagrams :: "datagram list"
  members :: "(nat \<times> nat) list"                             \<comment> \<open>multicast groups joined\<close>
  dialled :: "sockaddr list"                               \<comment> \<open>addresses given to \<open>connect\<close>\<close>

definition deref :: "nat \<Rightarrow> (sock \<Rightarrow> 't res) \<Rightarrow> 'z sockst_scheme \<Rightarrow> 't res" where
  "deref c f s =
     (if c = 0 then Inl NullDeref
      else case socks s c of None \<Rightarrow> Inl UseAfterFree | Some k \<Rightarrow> f k)"

definition set_sock :: "nat \<Rightarrow> sock \<Rightarrow> 'z sockst_scheme \<Rightarrow> 'z sockst_scheme" where
  "set_sock c k s = s\<lparr>socks := (socks s)(c \<mapsto> k)\<rparr>"

definition on_loop ::
    "(chan_data loop \<Rightarrow> chan_data loop res) \<Rightarrow> 'z sockst_scheme \<Rightarrow> 'z sockst_scheme res" where
  "on_loop f s = bindR (f (lp s)) (\<lambda>l. Inr (s\<lparr>lp := l\<rparr>))"

section \<open>Sending\<close>

definition fifo_put :: "IvyFifoBuffer \<Rightarrow> string \<Rightarrow> IvyFifoBuffer res" where
  "fifo_put f bytes = (case IvyFifoWrite f bytes of None \<Rightarrow> Inl OutOfBounds | Some g \<Rightarrow> Inr g)"

text \<open>The bytes the kernel did not take go to a new FIFO, and \<open>select\<close> watches for room.\<close>

definition congest ::
    "nat \<Rightarrow> string \<Rightarrow> 'z sockst_scheme \<Rightarrow> (SendState \<times> 'z sockst_scheme) res" where
  "congest c bytes s =
     deref c (\<lambda>k. bindR (fifo_put IvyFifoNew bytes) (\<lambda>g.
       bindR (on_loop (IvyChannelAddWritableEvent (sk_channel k))
               (set_sock c (k\<lparr>sk_ifb := Some g\<rparr>) s)) (\<lambda>s.
         Inr (SendStateChangeToCongestion, s)))) s"

definition BufferizedSocketSendRaw ::
    "nat \<Rightarrow> string \<Rightarrow> 'z sockst_scheme \<Rightarrow> (SendState \<times> 'z sockst_scheme) res" where
  "BufferizedSocketSendRaw c bytes s =
     deref c (\<lambda>k.
       case sk_ifb k of
         Some f \<Rightarrow> bindR (fifo_put f bytes) (\<lambda>g.
           Inr (if IvyFifoIsFull g then SendStateFifoFull else SendStillCongestion,
                set_sock c (k\<lparr>sk_ifb := Some g\<rparr>) s))
       | None \<Rightarrow>
           let (reallySent, wouldblock, n) = os_send (sk_fd k) bytes (net s);
               s = s\<lparr>net := n\<rparr>
           in if reallySent = int (length bytes) then Inr (SendOk, s)
              else if reallySent = -1
              then if wouldblock then congest c bytes s else Inr (SendError, s)
              else congest c (drop (nat reallySent) bytes) s) s"

definition SocketSendRaw ::
    "nat \<Rightarrow> string \<Rightarrow> 'z sockst_scheme \<Rightarrow> (SendState \<times> 'z sockst_scheme) res" where
  "SocketSendRaw c bytes s =
     (if c = 0 then Inr (SendParamError, s) else BufferizedSocketSendRaw c bytes s)"

definition SocketSendRawWithId ::
    "nat \<Rightarrow> string \<Rightarrow> string \<Rightarrow> 'z sockst_scheme \<Rightarrow> (SendState \<times> 'z sockst_scheme) res" where
  "SocketSendRawWithId c ident bytes s =
     bindR (BufferizedSocketSendRaw c ident s) (\<lambda>(s1, s).
     bindR (BufferizedSocketSendRaw c bytes s) (\<lambda>(s2, s).
       Inr (if s1 = SendStateChangeToCongestion then s1 else s2, s)))"

text \<open>
  A message formatted into a static buffer whose offset has been reset, as the length and the
  data passed on; \<open>make_message_correct\<close> makes it independent of the buffer.
\<close>

definition formatted :: "string \<Rightarrow> string" where
  "formatted txt =
     (let (len, b) = make_message empty_buffer txt
      in take (nat len) (case b_data b of None \<Rightarrow> [] | Some d \<Rightarrow> d))"

definition SocketSend ::
    "nat \<Rightarrow> string \<Rightarrow> 'z sockst_scheme \<Rightarrow> (SendState \<times> 'z sockst_scheme) res" where
  "SocketSend c txt s = SocketSendRaw c (formatted txt) s"

text \<open>
  \<open>SocketBroadcast\<close> formats at the offset its static buffer was left at, and sends the first
  \<open>len\<close> bytes of the data.
\<close>

definition SocketBroadcast ::
    "string \<Rightarrow> IvyBuffer \<Rightarrow> 'z sockst_scheme \<Rightarrow> (IvyBuffer \<times> 'z sockst_scheme) res" where
  "SocketBroadcast txt buffer s =
     (let (len, buffer) = make_message buffer txt;
          bytes = take (nat len) (case b_data buffer of None \<Rightarrow> [] | Some d \<Rightarrow> d)
      in bindR (foldR (\<lambda>c s. bindR (SocketSendRaw c bytes s) (\<lambda>(_, s). Inr s)) (clients_list s) s)
           (\<lambda>s. Inr (buffer, s)))"

section \<open>Events on a socket\<close>

definition HandleCongestionWrite ::
    "(nat \<Rightarrow> nat \<Rightarrow> 'z sockst_scheme \<Rightarrow> 'z sockst_scheme res) \<Rightarrow> nat \<Rightarrow> nat \<Rightarrow> nat \<Rightarrow>
     'z sockst_scheme \<Rightarrow> 'z sockst_scheme res" where
  "HandleCongestionWrite decongestion channel fd c s =
     deref c (\<lambda>k. case sk_ifb k of None \<Rightarrow> Inl NullDeref
       | Some f \<Rightarrow>
          (case IvyFifoSendSocket f fd (net s) of None \<Rightarrow> Inl OutOfBounds
           | Some (count, g, n) \<Rightarrow>
              if count = 0
              then bindR (on_loop (IvyChannelClearWritableEvent channel)
                           (set_sock c (k\<lparr>sk_ifb := None\<rparr>) (s\<lparr>net := n\<rparr>))) (\<lambda>s.
                     if sk_handle_decongestion k then decongestion c (sk_data k) s else Inr s)
              else Inr (set_sock c (k\<lparr>sk_ifb := Some g\<rparr>) (s\<lparr>net := n\<rparr>)))) s"

text \<open>\<open>recvfrom (fd, _, n)\<close>: the bytes or \<open>None\<close> for an error, and the sender of a datagram.\<close>

definition os_recvfrom ::
    "nat \<Rightarrow> nat \<Rightarrow> 'z sockst_scheme \<Rightarrow> string option \<times> sockaddr option \<times> 'z sockst_scheme" where
  "os_recvfrom fd n s =
     (case arrivals s fd of
        [] \<Rightarrow> (None, None, s)
      | r # rs \<Rightarrow>
          (case r of
             RecvFails \<Rightarrow> (None, None, s\<lparr>arrivals := (arrivals s)(fd := rs)\<rparr>)
           | EndOfStream \<Rightarrow> (Some [], None, s\<lparr>arrivals := (arrivals s)(fd := rs)\<rparr>)
           | Datagram bs a \<Rightarrow> (Some (take n bs), Some a, s\<lparr>arrivals := (arrivals s)(fd := rs)\<rparr>)
           | Stream bs \<Rightarrow> (Some (take n bs), None,
               s\<lparr>arrivals := (arrivals s)(fd :=
                   (if length bs \<le> n then rs else Stream (drop n bs) # rs))\<rparr>)))"

text \<open>The complete lines of a buffer, without their terminator, and what is left over.\<close>

fun split_lines :: "char \<Rightarrow> string \<Rightarrow> string list \<times> string" where
  "split_lines t [] = ([], [])"
| "split_lines t (c # cs) =
     (let (ls, rest) = split_lines t cs
      in if c = t then ([] # ls, rest)
         else case ls of [] \<Rightarrow> ([], c # rest) | l # ls' \<Rightarrow> ((c # l) # ls', rest))"

text \<open>The C string in a block of bytes.\<close>

definition c_string :: "string \<Rightarrow> string" where
  "c_string bs = takeWhile (\<lambda>c. c \<noteq> CHR 0x00) bs"

type_synonym 'z interp =
  "nat \<Rightarrow> interp_fun \<Rightarrow> nat \<Rightarrow> string \<Rightarrow> 'z sockst_scheme \<Rightarrow> 'z sockst_scheme res"

definition interpret_line ::
    "'z interp \<Rightarrow> nat \<Rightarrow> string \<Rightarrow> 'z sockst_scheme \<Rightarrow> 'z sockst_scheme res" where
  "interpret_line interp c line s =
     deref c (\<lambda>k. interp c (sk_interpretation k) (sk_data k) (c_string line) s) s"

text \<open>The buffer doubles when it is full; \<open>room\<close> is what the call can read.\<close>

definition grow_buffer :: "sock \<Rightarrow> sock" where
  "grow_buffer k =
     (if sk_buffer_size k - length (sk_buffer k) = 0
      then k\<lparr>sk_buffer_size := sk_buffer_size k * 2\<rparr> else k)"

definition room :: "sock \<Rightarrow> nat" where
  "room k = sk_buffer_size (grow_buffer k) - length (sk_buffer k)"

definition set_from :: "sockaddr option \<Rightarrow> sock \<Rightarrow> sock" where
  "set_from from k =
     (case from of None \<Rightarrow> k\<lparr>sk_from_len := 0\<rparr> | Some a \<Rightarrow> k\<lparr>sk_from := a, sk_from_len := 16\<rparr>)"

text \<open>The complete lines are interpreted one by one, then the rest goes to the front.\<close>

definition handle_lines ::
    "'z interp \<Rightarrow> nat \<Rightarrow> string list \<Rightarrow> string \<Rightarrow> 'z sockst_scheme \<Rightarrow> 'z sockst_scheme res" where
  "handle_lines interp c lines rest s =
     bindR (foldR (interpret_line interp c) lines s) (\<lambda>s.
       deref c (\<lambda>k. Inr (set_sock c (k\<lparr>sk_buffer := rest\<rparr>) s)) s)"

definition HandleSocket ::
    "'z interp \<Rightarrow> nat \<Rightarrow> nat \<Rightarrow> 'z sockst_scheme \<Rightarrow> 'z sockst_scheme res" where
  "HandleSocket interp fd c s =
     deref c (\<lambda>k.
       case os_recvfrom fd (room k) s of (nb, from, s) \<Rightarrow>
         let k = set_from from (grow_buffer k)
         in if nb = None \<or> nb = Some []
            then on_loop (IvyChannelRemove (sk_channel k)) (set_sock c k s)
            else let text = sk_buffer k @ the nb;
                     (lines, rest) = split_lines (sk_terminator k) text
                 in handle_lines interp c lines rest (set_sock c (k\<lparr>sk_buffer := text\<rparr>) s)) s"

definition new_sock :: "nat \<Rightarrow> nat \<Rightarrow> bool \<Rightarrow> sockaddr \<Rightarrow> sockaddr \<Rightarrow> nat \<Rightarrow> interp_fun \<Rightarrow> bool \<Rightarrow>
    nat \<Rightarrow> string \<Rightarrow> sock" where
  "new_sock fd channel v6 from local from_len interp handlers data uuid =
     \<lparr>sk_fd = fd, sk_channel = channel, sk_uuid = uuid, sk_ipv6 = v6, sk_from = from,
      sk_from_len = from_len, sk_interpretation = interp, sk_handle_delete = handlers,
      sk_handle_decongestion = handlers, sk_terminator = CHR 0x0A,
      sk_buffer_size = IVY_BUFFER_SIZE, sk_buffer = [], sk_ifb = None, sk_data = data,
      sk_local = local\<rparr>"

text \<open>A new descriptor starts with nothing on its wire.\<close>

definition fresh_wire :: "nat \<Rightarrow> 'z sockst_scheme \<Rightarrow> 'z sockst_scheme" where
  "fresh_wire fd s = s\<lparr>net := (net s)\<lparr>wire := (wire (net s))(fd := [])\<rparr>\<rparr>"

text \<open>The node and the channel of a new client; the node is not linked yet.\<close>

definition alloc_client :: "(nat \<Rightarrow> sock) \<Rightarrow> nat \<Rightarrow> 'z sockst_scheme \<Rightarrow> 'z sockst_scheme" where
  "alloc_client mk fd s =
     (let c = fresh s
      in s\<lparr>fresh := c + 2, socks := (socks s)(c \<mapsto> mk (c + 1)),
           lp := IvyChannelAdd (c + 1) fd (ClientData c) True True True (lp s)\<rparr>)"

definition link_client :: "nat \<Rightarrow> 'z sockst_scheme \<Rightarrow> 'z sockst_scheme" where
  "link_client c s = s\<lparr>clients_list := c # clients_list s\<rparr>"

definition HandleServer ::
    "(nat \<Rightarrow> 'z sockst_scheme \<Rightarrow> (nat \<times> 'z sockst_scheme) res) \<Rightarrow> nat \<Rightarrow>
     'z sockst_scheme \<Rightarrow> 'z sockst_scheme res" where
  "HandleServer create sv s =
     (case servers s sv of None \<Rightarrow> Inl UseAfterFree
      | Some server \<Rightarrow>
         (case accepts s of
            [] \<Rightarrow> Inr s
          | None # r \<Rightarrow> Inr (s\<lparr>accepts := r\<rparr>)
          | Some (ns, remote, local) # r \<Rightarrow>
              let c = fresh s;
                  s = alloc_client (\<lambda>ch. new_sock ns ch (sv_ipv6 server) remote local 16
                        InterpReceive True 0 ''init by HandleServer'') ns
                        (fresh_wire ns (s\<lparr>accepts := r\<rparr>))
              in bindR (create c s) (\<lambda>(data, s).
                 deref c (\<lambda>k. Inr (link_client c (set_sock c (k\<lparr>sk_data := data\<rparr>) s))) s)))"

section \<open>Opening and closing\<close>

definition SocketConnectAddr ::
    "bool \<Rightarrow> sockaddr \<Rightarrow> nat \<Rightarrow> nat \<Rightarrow> interp_fun \<Rightarrow> 'z sockst_scheme \<Rightarrow> nat \<times> 'z sockst_scheme" where
  "SocketConnectAddr v6 addr port data interp s =
     (let remote = \<lparr>sa_family = (if v6 then AF_INET6 else AF_INET), sa_ip = sa_ip addr,
                    sa_port = htons port\<rparr>
      in case connects s of
        [] \<Rightarrow> (0, s)
      | None # r \<Rightarrow> (0, s\<lparr>connects := r, dialled := remote # dialled s\<rparr>)
      | Some (handle, local) # r \<Rightarrow>
          let c = fresh s
          in (c, link_client c (alloc_client (\<lambda>ch. new_sock handle ch v6 no_addr local 0 interp True
                   data ''init by SocketConnectAddr'') handle
                   (fresh_wire handle (s\<lparr>connects := r, dialled := remote # dialled s\<rparr>)))))"

text \<open>\<open>handle\<close> is the bound datagram socket, or \<open>None\<close> when one of the system calls failed.\<close>

definition SocketBroadcastCreate ::
    "bool \<Rightarrow> (nat \<times> sockaddr) option \<Rightarrow> nat \<Rightarrow> 'z sockst_scheme \<Rightarrow> nat \<times> 'z sockst_scheme" where
  "SocketBroadcastCreate v6 handle data s =
     (case handle of None \<Rightarrow> (0, s)
      | Some (h, local) \<Rightarrow>
          let c = fresh s
          in (c, link_client c (alloc_client (\<lambda>ch. (new_sock h ch v6 no_addr local 0
                   InterpBroadcastReceive False data ''init by SocketBroadcastCreate'')) h s)))"

text \<open>The process exits when the listening socket cannot be made, so the descriptor is given.\<close>

definition SocketServer ::
    "bool \<Rightarrow> nat \<Rightarrow> sockaddr \<Rightarrow> 'z sockst_scheme \<Rightarrow> nat \<times> 'z sockst_scheme" where
  "SocketServer v6 fd local s =
     (let sv = fresh s
      in (sv, s\<lparr>fresh := sv + 2,
            servers := (servers s)(sv \<mapsto> \<lparr>sv_fd = fd, sv_channel = sv + 1,
              sv_port = ntohs (sa_port local), sv_ipv6 = v6\<rparr>),
            lp := IvyChannelAdd (sv + 1) fd (ServerData sv) True True False (lp s),
            servers_list := sv # servers_list s\<rparr>))"

definition SocketServerGetPort :: "nat \<Rightarrow> 'z sockst_scheme \<Rightarrow> nat res" where
  "SocketServerGetPort sv s =
     (if sv = 0 then Inr 0
      else case servers s sv of None \<Rightarrow> Inl UseAfterFree | Some v \<Rightarrow> Inr (sv_port v))"

definition SocketServerClose :: "nat \<Rightarrow> 'z sockst_scheme \<Rightarrow> 'z sockst_scheme res" where
  "SocketServerClose sv s =
     (if sv = 0 then Inr s
      else case servers s sv of None \<Rightarrow> Inl UseAfterFree
           | Some v \<Rightarrow> on_loop (IvyChannelRemove (sv_channel v)) s)"

definition SocketClose :: "nat \<Rightarrow> 'z sockst_scheme \<Rightarrow> 'z sockst_scheme res" where
  "SocketClose c s =
     (if c = 0 then Inr s else deref c (\<lambda>k. on_loop (IvyChannelRemove (sk_channel k)) s) s)"

definition unlink_client :: "nat \<Rightarrow> 'z sockst_scheme \<Rightarrow> 'z sockst_scheme" where
  "unlink_client c s =
     (if c \<in> set (clients_list s)
      then s\<lparr>clients_list := remove1 c (clients_list s), socks := (socks s)(c := None)\<rparr> else s)"

definition DeleteSocket ::
    "(nat \<Rightarrow> nat \<Rightarrow> 'z sockst_scheme \<Rightarrow> 'z sockst_scheme res) \<Rightarrow> nat \<Rightarrow>
     'z sockst_scheme \<Rightarrow> 'z sockst_scheme res" where
  "DeleteSocket handle_delete c s =
     deref c (\<lambda>k.
       bindR (if sk_handle_delete k then handle_delete c (sk_data k) s else Inr s) (\<lambda>s.
       deref c (\<lambda>k. Inr (unlink_client c
         (set_sock c (k\<lparr>sk_ifb := None\<rparr>) (s\<lparr>closed_fds := sk_fd k # closed_fds s\<rparr>)))) s)) s"

definition DeleteServerSocket :: "nat \<Rightarrow> 'z sockst_scheme \<Rightarrow> 'z sockst_scheme res" where
  "DeleteServerSocket sv s =
     (case servers s sv of None \<Rightarrow> Inl UseAfterFree
      | Some v \<Rightarrow> Inr (s\<lparr>closed_fds := sv_fd v # closed_fds s,
          servers_list := remove1 sv (servers_list s), servers := (servers s)(sv := None)\<rparr>))"

definition SocketInit :: "'z sockst_scheme \<Rightarrow> 'z sockst_scheme" where
  "SocketInit s = s\<lparr>lp := IvyChannelInit (lp s)\<rparr>"

section \<open>Queries\<close>

definition SocketGetLocalPort :: "nat \<Rightarrow> 'z sockst_scheme \<Rightarrow> nat res" where
  "SocketGetLocalPort c s =
     (if c = 0 then Inr 0 else deref c (\<lambda>k. Inr (ntohs (sa_port (sk_local k)))) s)"

definition SocketGetRemotePort :: "nat \<Rightarrow> 'z sockst_scheme \<Rightarrow> nat res" where
  "SocketGetRemotePort c s =
     (if c = 0 then Inr 0 else deref c (\<lambda>k. Inr (sa_port (sk_from k))) s)"

text \<open>The address itself; \<open>None\<close> is the null pointer.\<close>

definition SocketGetRemoteAddr :: "nat \<Rightarrow> 'z sockst_scheme \<Rightarrow> sockaddr option res" where
  "SocketGetRemoteAddr c s = (if c = 0 then Inr None else deref c (\<lambda>k. Inr (Some (sk_from k))) s)"

text \<open>
  The host name and the port; \<open>None\<close> for a null client, whose output arguments are untouched,
  and a port that is not set when the name cannot be resolved.
\<close>

definition SocketGetRemoteHost :: "nat \<Rightarrow> 'z sockst_scheme \<Rightarrow> (string \<times> nat option) option res" where
  "SocketGetRemoteHost c s =
     (if c = 0 then Inr None
      else deref c (\<lambda>k.
        if sk_from_len k = 0 then Inr (Some (''unknown'', Some 0))
        else case gethost s (sk_from k) of
               None \<Rightarrow> Inr (Some (''unknown'', None))
             | Some host \<Rightarrow> Inr (Some (host, Some (ntohs (sa_port (sk_from k)))))) s)"

definition SocketSetData :: "nat \<Rightarrow> nat \<Rightarrow> 'z sockst_scheme \<Rightarrow> 'z sockst_scheme res" where
  "SocketSetData c data s =
     (if c = 0 then Inr s else deref c (\<lambda>k. Inr (set_sock c (k\<lparr>sk_data := data\<rparr>) s)) s)"

definition SocketGetData :: "nat \<Rightarrow> 'z sockst_scheme \<Rightarrow> nat res" where
  "SocketGetData c s = (if c = 0 then Inr 0 else deref c (\<lambda>k. Inr (sk_data k)) s)"

text \<open>\<open>strncpy\<close> into 128 bytes.\<close>

definition SocketSetUuid :: "nat \<Rightarrow> string \<Rightarrow> 'z sockst_scheme \<Rightarrow> 'z sockst_scheme res" where
  "SocketSetUuid c uuid s = deref c (\<lambda>k. Inr (set_sock c (k\<lparr>sk_uuid := take 128 uuid\<rparr>) s)) s"

definition SocketGetUuid :: "nat \<Rightarrow> 'z sockst_scheme \<Rightarrow> string res" where
  "SocketGetUuid c s = deref c (\<lambda>k. Inr (sk_uuid k)) s"

text \<open>Whether \<open>SocketCmpUuid\<close> answers \<open>0\<close>.\<close>

definition SocketCmpUuid :: "nat \<Rightarrow> nat \<Rightarrow> 'z sockst_scheme \<Rightarrow> bool res" where
  "SocketCmpUuid c1 c2 s =
     deref c1 (\<lambda>k1. deref c2 (\<lambda>k2. Inr (take 128 (sk_uuid k1) = take 128 (sk_uuid k2))) s) s"

definition SocketSendBroadcast ::
    "nat \<Rightarrow> nat \<Rightarrow> nat \<Rightarrow> string \<Rightarrow> 'z sockst_scheme \<Rightarrow> 'z sockst_scheme res" where
  "SocketSendBroadcast c host port txt s =
     (if c = 0 then Inr s
      else deref c (\<lambda>k. Inr (s\<lparr>datagrams := datagrams s @
        [\<lparr>dg_fd = sk_fd k, dg_host = host, dg_port = port, dg_text = formatted txt\<rparr>]\<rparr>)) s)"

text \<open>\<open>joined\<close> and \<open>ttl_set\<close>: the two \<open>setsockopt\<close> calls succeed.\<close>

definition SocketAddMember ::
    "bool \<Rightarrow> bool \<Rightarrow> nat \<Rightarrow> nat \<Rightarrow> 'z sockst_scheme \<Rightarrow> (bool \<times> 'z sockst_scheme) res" where
  "SocketAddMember joined ttl_set c host s =
     deref c (\<lambda>k. Inr (joined \<and> ttl_set,
       if joined then s\<lparr>members := (sk_fd k, host) # members s\<rparr> else s)) s"

definition SocketSendBroadcast6 ::
    "nat \<Rightarrow> nat \<Rightarrow> nat \<Rightarrow> string \<Rightarrow> 'z sockst_scheme \<Rightarrow> 'z sockst_scheme res" where
  "SocketSendBroadcast6 c host port txt s =
     (if c = 0 then Inr s
      else deref c (\<lambda>k. Inr (s\<lparr>datagrams := datagrams s @
        [\<lparr>dg_fd = sk_fd k, dg_host = host, dg_port = port, dg_text = formatted txt\<rparr>]\<rparr>)) s)"

definition SocketAddMember6 ::
    "bool \<Rightarrow> nat \<Rightarrow> nat \<Rightarrow> 'z sockst_scheme \<Rightarrow> (bool \<times> 'z sockst_scheme) res" where
  "SocketAddMember6 joined c host s =
     deref c (\<lambda>k. Inr (joined, if joined then s\<lparr>members := (sk_fd k, host) # members s\<rparr> else s)) s"

text \<open>
  \<open>SocketWaitForReply\<close>: \<open>answers\<close> are what \<open>select\<close> and \<open>recv\<close> give in turn, \<open>got\<close> is what the
  caller's buffer of \<open>bufsize\<close> bytes holds. The result is the C return value and the line.
\<close>

datatype wait_answer = SelectFails | SelectTimeout | RecvError | RecvClosed | RecvBytes string

fun SocketWaitForReply ::
    "char \<Rightarrow> nat \<Rightarrow> wait_answer list \<Rightarrow> string \<Rightarrow> (int \<times> string) res option" where
  "SocketWaitForReply term bufsize [] got =
     (if length got = bufsize then Some (Inr (-1, got)) else None)"
| "SocketWaitForReply term bufsize (a # answers) got =
     (if length got = bufsize then Some (Inr (-1, got))
      else case a of
        SelectFails \<Rightarrow> Some (Inr (-1, got))
      | SelectTimeout \<Rightarrow> Some (Inr (-2, got))
      | RecvError \<Rightarrow> Some (Inr (-1, got))
      | RecvClosed \<Rightarrow> Some (Inr (0, got))
      | RecvBytes bs \<Rightarrow>
          let got = got @ take (bufsize - length got) bs
          in if length got \<ge> bufsize then Some (Inl OutOfBounds)    \<comment> \<open>\<open>*ptr = 0\<close> past the end\<close>
             else if term \<in> set (c_string got)
             then let line = takeWhile (\<lambda>c. c \<noteq> term) got in Some (Inr (int (length line), line))
             else SocketWaitForReply term bufsize answers got)"

section \<open>The stream of a socket\<close>

text \<open>
  The bytes a peer will read, in order: those the kernel has taken, then those that wait in the
  emission FIFO.
\<close>

definition pending :: "sock \<Rightarrow> string" where
  "pending k = (case sk_ifb k of None \<Rightarrow> [] | Some f \<Rightarrow> fifo_abs f)"

definition stream :: "nat \<Rightarrow> 'z sockst_scheme \<Rightarrow> string" where
  "stream c s =
     (case socks s c of None \<Rightarrow> [] | Some k \<Rightarrow> wire (net s) (sk_fd k) @ pending k)"

text \<open>
  Every client has its channel, the only one with its descriptor; the loop watches for room on
  exactly the clients that are congested; the reception buffer is within its bounds.
\<close>

definition sock_ok :: "chan_data loop \<Rightarrow> nat \<Rightarrow> sock \<Rightarrow> bool" where
  "sock_ok l c k \<longleftrightarrow>
     (\<exists>ch \<in> set (channels_list l). ch_ptr ch = sk_channel k \<and> ch_fd ch = sk_fd k \<and>
        ch_data ch = ClientData c) \<and>
     (sk_fd k \<in> wrdy_fds l \<longleftrightarrow> sk_ifb k \<noteq> None) \<and>
     (case sk_ifb k of None \<Rightarrow> True | Some f \<Rightarrow> fifo_inv f) \<and>
     length (sk_buffer k) \<le> sk_buffer_size k \<and> 0 < sk_buffer_size k"

definition sock_inv :: "'z sockst_scheme \<Rightarrow> bool" where
  "sock_inv s \<longleftrightarrow> loop_inv (lp s) \<and> socks s 0 = None \<and>
     (\<forall>c k. socks s c = Some k \<longrightarrow> sock_ok (lp s) c k)"

lemma formatted_eq [simp]: "formatted txt = txt"
proof -
  have "buffer_inv empty_buffer" by (simp add: buffer_inv_def empty_buffer_def)
  from make_message_correct [OF this, of "txt"] obtain b where
    "make_message empty_buffer txt = (int (length txt), b)" "b_data b = Some txt"
    by (auto simp: empty_buffer_def)
  then show ?thesis by (simp add: formatted_def)
qed

lemma sock_invD:
  "sock_inv s \<Longrightarrow> socks s c = Some k \<Longrightarrow> sock_ok (lp s) c k \<and> c \<noteq> 0"
  by (auto simp: sock_inv_def intro: ccontr)

lemma deref_simp [simp]: "socks s c = Some k \<Longrightarrow> c \<noteq> 0 \<Longrightarrow> deref c f s = f k"
  by (simp add: deref_def)

lemma deref_eq_Inr: "deref c f s = Inr t \<longleftrightarrow> c \<noteq> 0 \<and> (\<exists>k. socks s c = Some k \<and> f k = Inr t)"
  by (auto simp: deref_def split: option.splits)

lemma set_sock_socks [simp]: "socks (set_sock c k s) = (socks s)(c \<mapsto> k)"
  by (simp add: set_sock_def)

lemma set_sock_frame [simp]: "lp (set_sock c k s) = lp s" "net (set_sock c k s) = net s"
  by (simp_all add: set_sock_def)

text \<open>Two clients never share a descriptor.\<close>

lemma sock_inv_fd:
  assumes "sock_inv s" and "socks s c = Some k" and "socks s c' = Some k'" and "c' \<noteq> c"
  shows "sk_fd k' \<noteq> sk_fd k"
proof
  assume fd: "sk_fd k' = sk_fd k"
  from sock_invD [OF assms(1,2)] obtain ch where ch: "ch \<in> set (channels_list (lp s))"
    "ch_fd ch = sk_fd k" "ch_data ch = ClientData c" by (auto simp: sock_ok_def)
  from sock_invD [OF assms(1,3)] obtain ch' where ch': "ch' \<in> set (channels_list (lp s))"
    "ch_fd ch' = sk_fd k'" "ch_data ch' = ClientData c'" by (auto simp: sock_ok_def)
  have "distinct (map ch_fd (channels_list (lp s)))"
    using assms(1) by (simp add: sock_inv_def loop_inv_def)
  with ch ch' have "ch = ch'" using fd by (metis distinct_map inj_onD)
  with ch ch' assms(4) show False by simp
qed

text \<open>What a send may change: the FIFO of the client, the network, the descriptors watched.\<close>

definition send_frame :: "'z sockst_scheme \<Rightarrow> 'z sockst_scheme \<Rightarrow> bool" where
  "send_frame s s' \<longleftrightarrow>
     (\<exists>l n k. s' = s\<lparr>lp := l, net := n, socks := k\<rparr>) \<and>
     channels_list (lp s') = channels_list (lp s) \<and> MainLoop (lp s') = MainLoop (lp s) \<and>
     (\<forall>c. map_option (sk_ifb_update (\<lambda>_. None)) (socks s' c) =
          map_option (sk_ifb_update (\<lambda>_. None)) (socks s c))"

lemma send_frame_refl [simp]: "send_frame s s"
  unfolding send_frame_def by (cases s) auto

lemma send_frame_trans:
  assumes "send_frame s t" and "send_frame t u"
  shows "send_frame s u"
proof -
  from assms obtain l n k l' n' k' where "t = s\<lparr>lp := l, net := n, socks := k\<rparr>"
    "u = t\<lparr>lp := l', net := n', socks := k'\<rparr>" by (auto simp: send_frame_def)
  then have "u = s\<lparr>lp := l', net := n', socks := k'\<rparr>" by simp
  with assms show ?thesis unfolding send_frame_def by metis
qed

lemma send_frame_dom: "send_frame s s' \<Longrightarrow> socks s' c = None \<longleftrightarrow> socks s c = None"
  by (auto simp: send_frame_def dest!: spec [of _ c])

section \<open>Correctness of sending\<close>

lemma sock_inv_update:
  assumes "sock_inv s" and "socks s c = Some k" and "loop_inv l"
    and "channels_list l = channels_list (lp s)"
    and "wrdy_fds l = (if x = None then wrdy_fds (lp s) - {sk_fd k} else insert (sk_fd k) (wrdy_fds (lp s)))"
    and "case x of None \<Rightarrow> True | Some f \<Rightarrow> fifo_inv f"
  shows "sock_inv (s\<lparr>lp := l, net := n, socks := (socks s)(c \<mapsto> k\<lparr>sk_ifb := x\<rparr>)\<rparr>)"
proof -
  have "sock_ok l c (k\<lparr>sk_ifb := x\<rparr>)"
    using sock_invD [OF assms(1,2)] assms(4-6) by (auto simp: sock_ok_def)
  moreover have "sock_ok l c' k'" if k': "socks s c' = Some k'" "c' \<noteq> c" for c' k'
    using sock_invD [OF assms(1) k'(1)] sock_inv_fd [OF assms(1,2) k'] assms(4,5)
    by (auto simp: sock_ok_def)
  ultimately show ?thesis
    using assms(1,3) sock_invD [OF assms(1,2)] by (auto simp: sock_inv_def)
qed

lemma on_loop_AddWritable:
  assumes "sock_inv s" and "socks s c = Some k"
  shows "\<exists>l. IvyChannelAddWritableEvent (sk_channel k) (lp s) = Inr l \<and> loop_inv l \<and>
           channels_list l = channels_list (lp s) \<and> MainLoop l = MainLoop (lp s) \<and>
           wrdy_fds l = insert (sk_fd k) (wrdy_fds (lp s))"
proof -
  from sock_invD [OF assms] obtain ch where ch: "ch \<in> set (channels_list (lp s))"
    "ch_ptr ch = sk_channel k" "ch_fd ch = sk_fd k" by (auto simp: sock_ok_def)
  have li: "loop_inv (lp s)" using assms(1) by (simp add: sock_inv_def)
  with ch have "find_channel (sk_channel k) (lp s) = Some ch"
    using find_channel_unique [of "lp s" ch] by (auto simp: loop_inv_def)
  then obtain l where l: "IvyChannelAddWritableEvent (sk_channel k) (lp s) = Inr l"
    "channels_list l = channels_list (lp s)" "MainLoop l = MainLoop (lp s)"
    "wrdy_fds l = insert (sk_fd k) (wrdy_fds (lp s))"
    using ch by (simp add: IvyChannelAddWritableEvent_def)
  with loop_inv_AddWritable [OF li l(1)] show ?thesis by blast
qed

lemma on_loop_ClearWritable:
  assumes "sock_inv s" and "socks s c = Some k"
  shows "\<exists>l. IvyChannelClearWritableEvent (sk_channel k) (lp s) = Inr l \<and> loop_inv l \<and>
           channels_list l = channels_list (lp s) \<and> MainLoop l = MainLoop (lp s) \<and>
           wrdy_fds l = wrdy_fds (lp s) - {sk_fd k}"
proof -
  from sock_invD [OF assms] obtain ch where ch: "ch \<in> set (channels_list (lp s))"
    "ch_ptr ch = sk_channel k" "ch_fd ch = sk_fd k" by (auto simp: sock_ok_def)
  have li: "loop_inv (lp s)" using assms(1) by (simp add: sock_inv_def)
  with ch have "find_channel (sk_channel k) (lp s) = Some ch"
    using find_channel_unique [of "lp s" ch] by (auto simp: loop_inv_def)
  then obtain l where l: "IvyChannelClearWritableEvent (sk_channel k) (lp s) = Inr l"
    "channels_list l = channels_list (lp s)" "MainLoop l = MainLoop (lp s)"
    "wrdy_fds l = wrdy_fds (lp s) - {sk_fd k}"
    using ch by (simp add: IvyChannelClearWritableEvent_def)
  with loop_inv_ClearWritable [OF li l(1)] show ?thesis by blast
qed

text \<open>The room a send needs so that nothing is dropped: \<open>n\<close> more bytes.\<close>

definition roomy :: "nat \<Rightarrow> nat \<Rightarrow> 'z sockst_scheme \<Rightarrow> bool" where
  "roomy c n s =
     (case socks s c of None \<Rightarrow> True
      | Some k \<Rightarrow> (case sk_ifb k of None \<Rightarrow> n < IVY_FIFO_MAX_ALLOC_SIZE
          | Some f \<Rightarrow> \<not> IvyFifoIsFull f \<and> length (fifo_abs f) + n < IVY_FIFO_MAX_ALLOC_SIZE))"

definition appended :: "SendState \<Rightarrow> string \<Rightarrow> string" where
  "appended st bytes = (if st = SendStateFifoFull \<or> st = SendError then [] else bytes)"

text \<open>What a send of \<open>bytes\<close> to \<open>c\<close> does, for every answer of the network.\<close>

definition sent_ok :: "nat \<Rightarrow> string \<Rightarrow> 'z sockst_scheme \<Rightarrow> SendState \<Rightarrow> 'z sockst_scheme \<Rightarrow> bool" where
  "sent_ok c bytes s st s' \<longleftrightarrow>
     sock_inv s' \<and> send_frame s s' \<and> stream c s' = stream c s @ appended st bytes \<and>
     (\<forall>c'. c' = c \<or> (stream c' s' = stream c' s \<and> socks s' c' = socks s c')) \<and>
     set (script (net s')) \<subseteq> set (script (net s)) \<and>
     (SendFails \<in> set (script (net s)) \<or> st \<noteq> SendError) \<and>
     (\<forall>n. roomy c (length bytes + n) s \<longrightarrow> st \<noteq> SendStateFifoFull \<and> roomy c n s')"

lemma stream_simp [simp]:
  "stream c (s\<lparr>lp := l, net := n, socks := m\<rparr>) =
     (case m c of None \<Rightarrow> [] | Some k \<Rightarrow> wire n (sk_fd k) @ pending k)"
  by (simp add: stream_def split: option.split)

lemma fifo_put_ok:
  assumes "fifo_inv f" and "length bytes < IVY_FIFO_MAX_ALLOC_SIZE"
  shows "\<exists>g. fifo_put f bytes = Inr g \<and> fifo_inv g \<and>
           fifo_abs g = (if IvyFifoIsFull g then fifo_abs f else fifo_abs f @ bytes) \<and>
           (IvyFifoIsFull f \<or>
            IvyFifoIsFull g = (IVY_FIFO_MAX_ALLOC_SIZE \<le> length (fifo_abs f) + length bytes))"
proof -
  have "length bytes < 2147483648" using assms(2) by (simp add: fifo_size_defs)
  from IvyFifoWrite_correct [OF assms(1) this] obtain g where "IvyFifoWrite f bytes = Some g"
    "fifo_inv g" "fifo_abs g = (if f_full g then fifo_abs f else fifo_abs f @ bytes)"
    "\<not> f_full f \<longrightarrow> (f_full g \<longleftrightarrow> IVY_FIFO_MAX_ALLOC_SIZE \<le> fifo_len f + length bytes)" by blast
  then show ?thesis by (intro exI [of _ g]) (simp add: fifo_put_def IvyFifoIsFull_def, blast)
qed

lemma congest_ok:
  assumes "sock_inv s" and "socks s c = Some k" and "sk_ifb k = None"
    and "length bytes < IVY_FIFO_MAX_ALLOC_SIZE"
  shows "\<exists>g l. congest c bytes s = Inr (SendStateChangeToCongestion,
             s\<lparr>lp := l, net := net s, socks := (socks s)(c \<mapsto> k\<lparr>sk_ifb := Some g\<rparr>)\<rparr>) \<and>
           fifo_abs g = bytes \<and> \<not> IvyFifoIsFull g \<and>
           channels_list l = channels_list (lp s) \<and> MainLoop l = MainLoop (lp s) \<and>
           sock_inv (s\<lparr>lp := l, net := net s, socks := (socks s)(c \<mapsto> k\<lparr>sk_ifb := Some g\<rparr>)\<rparr>)"
proof -
  from fifo_put_ok [OF fifo_init(1) assms(4)] fifo_init(2,3) assms(4)
  obtain g where g: "fifo_put IvyFifoNew bytes = Inr g" "fifo_inv g" "fifo_abs g = bytes"
    "\<not> IvyFifoIsFull g" by (auto simp: IvyFifoIsFull_def)
  from on_loop_AddWritable [OF assms(1,2)] obtain l where
    l: "IvyChannelAddWritableEvent (sk_channel k) (lp s) = Inr l" "loop_inv l"
      "channels_list l = channels_list (lp s)" "MainLoop l = MainLoop (lp s)"
      "wrdy_fds l = insert (sk_fd k) (wrdy_fds (lp s))" by blast
  have "sock_inv (s\<lparr>lp := l, net := net s, socks := (socks s)(c \<mapsto> k\<lparr>sk_ifb := Some g\<rparr>)\<rparr>)"
    using l g(2) by (intro sock_inv_update [OF assms(1,2)]) simp_all
  moreover have "congest c bytes s = Inr (SendStateChangeToCongestion,
      s\<lparr>lp := l, net := net s, socks := (socks s)(c \<mapsto> k\<lparr>sk_ifb := Some g\<rparr>)\<rparr>)"
    using assms(2) sock_invD [OF assms(1,2)] l(1) g(1)
    by (cases s) (simp add: congest_def on_loop_def set_sock_def)
  ultimately show ?thesis using g l by blast
qed

lemma sent_okI:
  assumes "sock_inv s" and "socks s c = Some k"
    and "s' = s\<lparr>lp := l, net := n, socks := (socks s)(c \<mapsto> k\<lparr>sk_ifb := x\<rparr>)\<rparr>" and "sock_inv s'"
    and "channels_list l = channels_list (lp s)" and "MainLoop l = MainLoop (lp s)"
    and "\<And>fd. fd \<noteq> sk_fd k \<Longrightarrow> wire n fd = wire (net s) fd"
    and "wire n (sk_fd k) @ (case x of None \<Rightarrow> [] | Some f \<Rightarrow> fifo_abs f) =
           stream c s @ appended st bytes"
    and "set (script n) \<subseteq> set (script (net s))" and "SendFails \<in> set (script (net s)) \<or> st \<noteq> SendError"
    and "\<And>m. roomy c (length bytes + m) s \<Longrightarrow> st \<noteq> SendStateFifoFull \<and> roomy c m s'"
  shows "sent_ok c bytes s st s'"
proof -
  have "send_frame s s'"
    using assms(2,3,5,6) unfolding send_frame_def by auto
  moreover have "stream c s' = stream c s @ appended st bytes"
    using assms(3,8) by (simp add: pending_def)
  moreover have "stream c' s' = stream c' s \<and> socks s' c' = socks s c'" if "c' \<noteq> c" for c'
    using that assms(3,7) sock_inv_fd [OF assms(1,2), of c']
    by (auto simp: stream_def pending_def split: option.splits)
  ultimately show ?thesis
    using assms(3,4,9-11) by (auto simp: sent_ok_def)
qed

lemma same_sock:
  "socks s c = Some k \<Longrightarrow> sk_ifb k = x \<Longrightarrow>
     s\<lparr>net := n\<rparr> = s\<lparr>lp := lp s, net := n, socks := (socks s)(c \<mapsto> k\<lparr>sk_ifb := x\<rparr>)\<rparr>"
  by (cases s, cases k) (auto simp: fun_upd_idem)

lemma sock_inv_net [simp]: "sock_inv (s\<lparr>net := n\<rparr>) = sock_inv s"
  by (simp add: sock_inv_def)

lemma send_congested:
  assumes "sock_inv s" and k: "socks s c = Some k" and f: "sk_ifb k = Some f"
    and "length bytes < IVY_FIFO_MAX_ALLOC_SIZE"
  shows "\<exists>st s'. BufferizedSocketSendRaw c bytes s = Inr (st, s') \<and> sent_ok c bytes s st s'"
proof -
  note ok = sock_invD [OF assms(1) k]
  then have "fifo_inv f" using f by (simp add: sock_ok_def)
  from fifo_put_ok [OF this assms(4)] obtain g where g: "fifo_put f bytes = Inr g" "fifo_inv g"
    "fifo_abs g = (if IvyFifoIsFull g then fifo_abs f else fifo_abs f @ bytes)"
    "IvyFifoIsFull f \<or>
       IvyFifoIsFull g = (IVY_FIFO_MAX_ALLOC_SIZE \<le> length (fifo_abs f) + length bytes)" by blast
  let ?st = "if IvyFifoIsFull g then SendStateFifoFull else SendStillCongestion"
  define s' where "s' = s\<lparr>lp := lp s, net := net s, socks := (socks s)(c \<mapsto> k\<lparr>sk_ifb := Some g\<rparr>)\<rparr>"
  have "BufferizedSocketSendRaw c bytes s = Inr (?st, s')"
    using k ok f g(1) by (cases s) (simp add: BufferizedSocketSendRaw_def set_sock_def s'_def)
  moreover have "sock_inv s'"
    unfolding s'_def using ok g(2) assms(1) f
    by (intro sock_inv_update [OF assms(1) k]) (auto simp: sock_inv_def sock_ok_def)
  then have "sent_ok c bytes s ?st s'"
  proof (rule sent_okI [OF assms(1) k s'_def])
    show "wire (net s) (sk_fd k) @ (case Some g of None \<Rightarrow> [] | Some x \<Rightarrow> fifo_abs x) =
        stream c s @ appended ?st bytes"
      using k f g(3) by (simp add: stream_def pending_def appended_def)
    show "roomy c (length bytes + m) s \<Longrightarrow> ?st \<noteq> SendStateFifoFull \<and> roomy c m s'" for m
      using k f g(3,4) by (auto simp: roomy_def s'_def split: if_splits)
  qed simp_all
  ultimately show ?thesis by blast
qed

lemma send_direct:
  assumes "sock_inv s" and k: "socks s c = Some k" and f: "sk_ifb k = None"
    and "length bytes < IVY_FIFO_MAX_ALLOC_SIZE"
  shows "\<exists>st s'. BufferizedSocketSendRaw c bytes s = Inr (st, s') \<and> sent_ok c bytes s st s'"
proof -
  note ok = sock_invD [OF assms(1) k]
  obtain r wb n where send: "os_send (sk_fd k) bytes (net s) = (r, wb, n)" by (metis prod_cases3)
  have str: "stream c s = wire (net s) (sk_fd k)" using k f by (simp add: stream_def pending_def)
  have run: "BufferizedSocketSendRaw c bytes s =
      (if r = int (length bytes) then Inr (SendOk, s\<lparr>net := n\<rparr>)
       else if r = -1 then if wb then congest c bytes (s\<lparr>net := n\<rparr>) else Inr (SendError, s\<lparr>net := n\<rparr>)
       else congest c (drop (nat r) bytes) (s\<lparr>net := n\<rparr>))"
    using k ok f send by (simp add: BufferizedSocketSendRaw_def)
  note upd = same_sock [OF k f, of n]
  have plain: "sent_ok c bytes s st (s\<lparr>net := n\<rparr>)"
    if "wire n = (wire (net s))(sk_fd k := wire (net s) (sk_fd k) @ appended st bytes)"
      "set (script n) \<subseteq> set (script (net s))" "SendFails \<in> set (script (net s)) \<or> st \<noteq> SendError"
      "st \<noteq> SendStateFifoFull" for st
  proof (rule sent_okI [OF assms(1) k upd])
    show "roomy c (length bytes + m) s \<Longrightarrow> st \<noteq> SendStateFifoFull \<and> roomy c m (s\<lparr>net := n\<rparr>)" for m
      using k f that(4) by (simp add: roomy_def)
  qed (use that str assms(1) in auto)
  have cong: "\<exists>s'. congest c (drop i bytes) (s\<lparr>net := n\<rparr>) = Inr (SendStateChangeToCongestion, s') \<and>
      sent_ok c bytes s SendStateChangeToCongestion s'"
    if "wire n = (wire (net s))(sk_fd k := wire (net s) (sk_fd k) @ take i bytes)"
      "set (script n) \<subseteq> set (script (net s))" for i
  proof -
    have "sock_inv (s\<lparr>net := n\<rparr>)" "socks (s\<lparr>net := n\<rparr>) c = Some k"
      "length (drop i bytes) < IVY_FIFO_MAX_ALLOC_SIZE" using assms by simp_all
    from congest_ok [OF this(1,2) f this(3)] obtain g l where g: "fifo_abs g = drop i bytes"
      "\<not> IvyFifoIsFull g" "channels_list l = channels_list (lp s)" "MainLoop l = MainLoop (lp s)"
      and c: "congest c (drop i bytes) (s\<lparr>net := n\<rparr>) = Inr (SendStateChangeToCongestion,
        s\<lparr>lp := l, net := n, socks := (socks s)(c \<mapsto> k\<lparr>sk_ifb := Some g\<rparr>)\<rparr>)"
      and inv: "sock_inv (s\<lparr>lp := l, net := n, socks := (socks s)(c \<mapsto> k\<lparr>sk_ifb := Some g\<rparr>)\<rparr>)"
      by auto
    have "sent_ok c bytes s SendStateChangeToCongestion
        (s\<lparr>lp := l, net := n, socks := (socks s)(c \<mapsto> k\<lparr>sk_ifb := Some g\<rparr>)\<rparr>)"
    proof (rule sent_okI [OF assms(1) k refl inv])
      show "wire n (sk_fd k) @ (case Some g of None \<Rightarrow> [] | Some x \<Rightarrow> fifo_abs x) =
          stream c s @ appended SendStateChangeToCongestion bytes"
        using that(1) str g(1) by (simp add: appended_def)
      show "roomy c (length bytes + m) s \<Longrightarrow> SendStateChangeToCongestion \<noteq> SendStateFifoFull \<and>
          roomy c m (s\<lparr>lp := l, net := n, socks := (socks s)(c \<mapsto> k\<lparr>sk_ifb := Some g\<rparr>)\<rparr>)" for m
        using k f g by (simp add: roomy_def)
    qed (use that g in auto)
    with c show ?thesis by blast
  qed
  show ?thesis
    using send
  proof (cases rule: os_send_cases)
    case (sent i)
    have sub: "set (script n) \<subseteq> set (script (net s))"
      using sent(5) by (cases "script (net s)") auto
    show ?thesis
    proof (cases "i = length bytes")
      case True
      with sent plain [of SendOk] sub run show ?thesis by (auto simp: appended_def)
    next
      case False
      with sent cong [of i] sub run show ?thesis by auto
    qed
  next
    case fails
    have sub: "set (script n) \<subseteq> set (script (net s))"
      using fails(5) by (cases "script (net s)") auto
    show ?thesis
    proof (cases wb)
      case True
      with fails cong [of 0] sub run show ?thesis by auto
    next
      case False
      then have "SendFails \<in> set (script (net s))"
        using fails(3,4) by (cases "script (net s)") auto
      with False fails plain [of SendError] sub run show ?thesis by (auto simp: appended_def)
    qed
  qed
qed

lemma BufferizedSocketSendRaw_ok:
  assumes "sock_inv s" and "socks s c = Some k" and "length bytes < IVY_FIFO_MAX_ALLOC_SIZE"
  shows "\<exists>st s'. BufferizedSocketSendRaw c bytes s = Inr (st, s') \<and> sent_ok c bytes s st s'"
  using send_direct [OF assms(1,2) _ assms(3)] send_congested [OF assms(1,2) _ assms(3)]
  by (cases "sk_ifb k") auto

section \<open>Emptying the FIFO\<close>

lemma HandleCongestionWrite_run:
  assumes "sock_inv s" and k: "socks s c = Some k" and f: "sk_ifb k = Some f"
  shows "\<exists>used j g s'. script (net s) = used @ script (net s') \<and> j \<le> length (fifo_abs f) \<and> fifo_inv g \<and>
           fifo_abs g = drop j (fifo_abs f) \<and>
           wire (net s') (sk_fd k) = wire (net s) (sk_fd k) @ take j (fifo_abs f) \<and>
           (\<forall>c'. c' = c \<or> stream c' s' = stream c' s) \<and>
           HandleCongestionWrite dec (sk_channel k) (sk_fd k) c s =
             (if sk_ifb (the (socks s' c)) = None \<and> sk_handle_decongestion k
              then dec c (sk_data k) s' else Inr s') \<and>
           (if failing used
            then sk_ifb (the (socks s' c)) =
              (if IvyFifoLength (g\<lparr>f_rptr := f_rptr g - 1\<rparr>) = 0 then None else Some (g\<lparr>f_rptr := f_rptr g - 1\<rparr>))
            else sock_inv s' \<and> stream c s' = stream c s \<and>
              sk_ifb (the (socks s' c)) = (if j = length (fifo_abs f) then None else Some g))"
proof -
  note ok = sock_invD [OF assms(1) k]
  then have inv: "fifo_inv f" using f by (simp add: sock_ok_def)
  from IvyFifoSendSocket_run [OF inv, of "net s" "sk_fd k"] obtain used j g n where
    r: "script (net s) = used @ script n" "j \<le> fifo_len f" "fifo_inv g" "fifo_abs g = drop j (fifo_abs f)"
      "wire n = (wire (net s))(sk_fd k := wire (net s) (sk_fd k) @ take j (fifo_abs f))"
      "IvyFifoSendSocket f (sk_fd k) (net s) = Some (if failing used
         then (IvyFifoLength (IvyFifoDrain g (-1)), IvyFifoDrain g (-1), n) else (fifo_len g, g, n))" by blast
  have below: "IvyFifoDrain g (-1) = g\<lparr>f_rptr := f_rptr g - 1\<rparr>"
    using fifo_inv_bounds [OF r(3)] by (simp add: IvyFifoDrain_def)
  define h where "h = (if failing used then g\<lparr>f_rptr := f_rptr g - 1\<rparr> else g)"
  have fl: "IvyFifoSendSocket f (sk_fd k) (net s) = Some (IvyFifoLength h, h, n)"
    using r(6) by (simp add: h_def below IvyFifoLength_eq [OF r(3)])
  have len: "fifo_len g = length (fifo_abs f) - j" using arg_cong [OF r(4), of length] by simp
  define x where "x = (if IvyFifoLength h = 0 then None else Some h)"
  from on_loop_ClearWritable [OF assms(1) k] obtain l where
    l: "IvyChannelClearWritableEvent (sk_channel k) (lp s) = Inr l" "loop_inv l"
      "channels_list l = channels_list (lp s)" "wrdy_fds l = wrdy_fds (lp s) - {sk_fd k}" by blast
  define s' where "s' = s\<lparr>lp := if x = None then l else lp s, net := n, socks := (socks s)(c \<mapsto> k\<lparr>sk_ifb := x\<rparr>)\<rparr>"
  have run: "HandleCongestionWrite dec (sk_channel k) (sk_fd k) c s =
      (if x = None \<and> sk_handle_decongestion k then dec c (sk_data k) s' else Inr s')"
    using k ok f fl l(1)
    by (cases s) (simp add: HandleCongestionWrite_def on_loop_def set_sock_def s'_def x_def)
  have str: "stream c' s' = stream c' s" if "c' \<noteq> c" for c'
    using that sock_inv_fd [OF assms(1) k, of c'] r(5)
    by (auto simp: s'_def stream_def pending_def split: option.splits)
  have fields: "net s' = n" "sk_ifb (the (socks s' c)) = x" by (simp_all add: s'_def)
  have good: "sock_inv s' \<and> stream c s' = stream c s \<and> x = (if j = length (fifo_abs f) then None else Some g)"
    if "\<not> failing used"
  proof -
    have x: "x = (if j = length (fifo_abs f) then None else Some g)"
      using that len r(2) by (auto simp: x_def h_def IvyFifoLength_eq [OF r(3)])
    have "sock_inv s'" unfolding s'_def
    proof (rule sock_inv_update [OF assms(1) k])
      show "case x of None \<Rightarrow> True | Some f \<Rightarrow> fifo_inv f" using x r(3) by simp
      show "wrdy_fds (if x = None then l else lp s) =
          (if x = None then wrdy_fds (lp s) - {sk_fd k} else insert (sk_fd k) (wrdy_fds (lp s)))"
        using ok f l(4) by (auto simp: sock_ok_def)
    qed (use l assms(1) in \<open>auto simp: sock_inv_def\<close>)
    moreover have "stream c s' = stream c s"
      using k f r(4,5) by (simp add: s'_def x stream_def pending_def)
    ultimately show ?thesis using x by blast
  qed
  show ?thesis
  proof (intro exI conjI)
    show "script (net s) = used @ script (net s')" using r(1) fields by simp
    show "j \<le> length (fifo_abs f)" using r(2) by simp
    show "wire (net s') (sk_fd k) = wire (net s) (sk_fd k) @ take j (fifo_abs f)" using r(5) fields by simp
    show "if failing used
            then sk_ifb (the (socks s' c)) =
              (if IvyFifoLength (g\<lparr>f_rptr := f_rptr g - 1\<rparr>) = 0 then None else Some (g\<lparr>f_rptr := f_rptr g - 1\<rparr>))
            else sock_inv s' \<and> stream c s' = stream c s \<and>
              sk_ifb (the (socks s' c)) = (if j = length (fifo_abs f) then None else Some g)"
      using good fields by (simp add: x_def h_def)
  qed (use r(3,4) str run fields in auto)
qed

section \<open>Lines\<close>

lemma split_lines_append:
  "split_lines t (xs @ ys) =
     (fst (split_lines t xs) @ fst (split_lines t (snd (split_lines t xs) @ ys)),
      snd (split_lines t (snd (split_lines t xs) @ ys)))"
proof (induction xs)
  case (Cons x xs)
  obtain l r where xs: "split_lines t xs = (l, r)" by fastforce
  obtain l' r' where ys: "split_lines t (r @ ys) = (l', r')" by fastforce
  from Cons xs ys show ?case by (auto split: list.splits)
qed simp

lemma split_lines_none: "t \<notin> set xs \<Longrightarrow> split_lines t xs = ([], xs)"
  by (induction xs) auto

lemma split_lines_line:
  "t \<notin> set l \<Longrightarrow> split_lines t (l @ t # rest) =
     (l # fst (split_lines t rest), snd (split_lines t rest))"
  by (induction l) (auto split: prod.splits)

lemma split_lines_concat:
  "\<forall>l \<in> set ls. t \<notin> set l \<Longrightarrow> split_lines t (concat (map (\<lambda>l. l @ [t]) ls)) = (ls, [])"
  by (induction ls) (auto simp: split_lines_line)

lemma split_lines_rest: "t \<notin> set (snd (split_lines t xs))"
  by (induction xs) (auto split: prod.splits list.splits)

lemma length_split_rest: "length (snd (split_lines t xs)) \<le> length xs"
  by (induction xs) (auto split: prod.splits list.splits)

section \<open>Reading\<close>

text \<open>
  What the interpretation of a line may do to the sockets: it keeps the reception side of the
  clients and what has not been read yet. Addresses from \<open>fresh\<close> on are not in use.
\<close>

definition sk_view :: "sock \<Rightarrow> sock" where
  "sk_view k = k\<lparr>sk_ifb := None, sk_data := 0, sk_uuid := []\<rparr>"

lemma sk_view_simps [simp]:
  "sk_fd (sk_view k) = sk_fd k" "sk_channel (sk_view k) = sk_channel k"
  "sk_buffer (sk_view k) = sk_buffer k" "sk_buffer_size (sk_view k) = sk_buffer_size k"
  "sk_terminator (sk_view k) = sk_terminator k"
  "sk_interpretation (sk_view k) = sk_interpretation k"
  by (simp_all add: sk_view_def)

lemma sk_viewD:
  assumes "sk_view k' = sk_view k"
  shows "sk_fd k' = sk_fd k" "sk_buffer k' = sk_buffer k" "sk_buffer_size k' = sk_buffer_size k"
    "sk_terminator k' = sk_terminator k" "sk_interpretation k' = sk_interpretation k"
    "sk_channel k' = sk_channel k"
  using assms by (metis sk_view_simps)+

definition fresh_ok :: "'z sockst_scheme \<Rightarrow> bool" where
  "fresh_ok s \<longleftrightarrow> 0 < fresh s \<and> (\<forall>a \<ge> fresh s. socks s a = None)"

definition keeps :: "'z sockst_scheme \<Rightarrow> 'z sockst_scheme \<Rightarrow> bool" where
  "keeps s t \<longleftrightarrow> arrivals t = arrivals s \<and>
     (fresh_ok s \<longrightarrow> fresh_ok t \<and>
       (\<forall>c k. socks s c = Some k \<longrightarrow> (\<exists>k'. socks t c = Some k' \<and> sk_view k' = sk_view k)))"

lemma keeps_refl [simp, intro]: "keeps s s"
  by (simp add: keeps_def)

lemma keeps_trans: "keeps s t \<Longrightarrow> keeps t u \<Longrightarrow> keeps s u"
  unfolding keeps_def by metis

lemma keeps_same:
  "arrivals t = arrivals s \<Longrightarrow> socks t = socks s \<Longrightarrow> fresh s \<le> fresh t \<Longrightarrow> keeps s t"
  by (auto simp: keeps_def fresh_ok_def)

lemma keepsD:
  "keeps s t \<Longrightarrow> fresh_ok s \<Longrightarrow> socks s c = Some k \<Longrightarrow>
     fresh_ok t \<and> arrivals t = arrivals s \<and> (\<exists>k'. socks t c = Some k' \<and> sk_view k' = sk_view k)"
  by (simp add: keeps_def)

lemma keeps_send_frame: "send_frame s t \<Longrightarrow> keeps s t"
proof -
  assume f: "send_frame s t"
  then have e: "arrivals t = arrivals s" "fresh t = fresh s" by (auto simp: send_frame_def)
  have "\<exists>k'. socks t c = Some k' \<and> sk_view k' = sk_view k" if "socks s c = Some k" for c k
  proof -
    from f that have "map_option (sk_ifb_update (\<lambda>_. None)) (socks t c) =
        Some (k\<lparr>sk_ifb := None\<rparr>)" unfolding send_frame_def by (metis option.map(2))
    then obtain k' where "socks t c = Some k'" "k'\<lparr>sk_ifb := None\<rparr> = k\<lparr>sk_ifb := None\<rparr>" by auto
    then show ?thesis by (metis sk_view_def)
  qed
  with e send_frame_dom [OF f] show ?thesis by (auto simp: keeps_def fresh_ok_def)
qed

lemma on_loop_keeps: "on_loop f s = Inr t \<Longrightarrow> keeps s t"
  by (auto simp: on_loop_def bindR_eq_Inr intro!: keeps_same)

lemma keeps_set_sock:
  "socks s c = Some k \<Longrightarrow> sk_view k' = sk_view k \<Longrightarrow> keeps s (set_sock c k' s)"
  by (auto simp: keeps_def fresh_ok_def set_sock_def)

lemma congest_frame: "congest c bytes s = Inr (st, t) \<Longrightarrow> send_frame s t"
  unfolding send_frame_def congest_def
  by (cases s) (auto simp: deref_eq_Inr bindR_eq_Inr on_loop_def set_sock_def
      IvyChannelAddWritableEvent_def split: option.splits)

lemma Buffered_frame: "BufferizedSocketSendRaw c bytes s = Inr (st, t) \<Longrightarrow> send_frame s t"
proof -
  assume a: "BufferizedSocketSendRaw c bytes s = Inr (st, t)"
  then obtain k where k: "c \<noteq> 0" "socks s c = Some k"
    by (auto simp: BufferizedSocketSendRaw_def deref_eq_Inr)
  have net: "send_frame s (s\<lparr>net := n\<rparr>)" for n
    unfolding send_frame_def by (cases s) auto
  show ?thesis
  proof (cases "sk_ifb k")
    case (Some f)
    with a k obtain g where "t = set_sock c (k\<lparr>sk_ifb := Some g\<rparr>) s"
      by (auto simp: BufferizedSocketSendRaw_def bindR_eq_Inr)
    with k show ?thesis unfolding send_frame_def by (cases s) (auto simp: set_sock_def)
  next
    case None
    obtain r wb n where send: "os_send (sk_fd k) bytes (net s) = (r, wb, n)" by (metis prod_cases3)
    with a k None have "t = s\<lparr>net := n\<rparr> \<or> (\<exists>b. congest c b (s\<lparr>net := n\<rparr>) = Inr (st, t))"
      by (auto simp: BufferizedSocketSendRaw_def Let_def split: if_splits)
    with net congest_frame send_frame_trans show ?thesis by metis
  qed
qed

lemma Raw_frame: "SocketSendRaw c bytes s = Inr (st, t) \<Longrightarrow> send_frame s t"
  by (auto simp: SocketSendRaw_def split: if_splits dest: Buffered_frame)

lemma Id_frame: "SocketSendRawWithId c i bytes s = Inr (st, t) \<Longrightarrow> send_frame s t"
  by (auto simp: SocketSendRawWithId_def bindR_eq_Inr dest!: Buffered_frame intro: send_frame_trans)

lemma SocketClose_keeps: "SocketClose c s = Inr t \<Longrightarrow> keeps s t"
  by (auto simp: SocketClose_def deref_eq_Inr split: if_splits dest: on_loop_keeps)

lemma SocketServerClose_keeps: "SocketServerClose c s = Inr t \<Longrightarrow> keeps s t"
  by (auto simp: SocketServerClose_def split: if_splits option.splits dest: on_loop_keeps)

lemma SocketSetData_keeps: "SocketSetData c d s = Inr t \<Longrightarrow> keeps s t"
  by (auto simp: SocketSetData_def deref_eq_Inr sk_view_def split: if_splits intro!: keeps_set_sock)

lemma SocketSetUuid_keeps: "SocketSetUuid c d s = Inr t \<Longrightarrow> keeps s t"
  by (auto simp: SocketSetUuid_def deref_eq_Inr sk_view_def split: if_splits intro!: keeps_set_sock)

lemma SocketConnectAddr_keeps: "SocketConnectAddr v6 a p d f s = (c, t) \<Longrightarrow> keeps s t"
  by (auto simp: SocketConnectAddr_def keeps_def fresh_ok_def alloc_client_def link_client_def
      fresh_wire_def Let_def split: list.splits option.splits)

text \<open>The bytes still to come on a descriptor that has only stream data.\<close>

definition stream_only :: "recv list \<Rightarrow> bool" where
  "stream_only rs \<longleftrightarrow> list_all (\<lambda>r. case r of Stream bs \<Rightarrow> bs \<noteq> [] | _ \<Rightarrow> False) rs"

definition incoming :: "recv list \<Rightarrow> string" where
  "incoming rs = concat (map (\<lambda>r. case r of Stream bs \<Rightarrow> bs | _ \<Rightarrow> []) rs)"

text \<open>The bytes one call of \<open>HandleSocket\<close> reads, and the lines it has then.\<close>

definition chunk :: "sock \<Rightarrow> recv list \<Rightarrow> string" where
  "chunk k rs = (case rs of Stream bs # _ \<Rightarrow> take (room k) bs | _ \<Rightarrow> [])"

definition call_lines :: "nat \<Rightarrow> 'z sockst_scheme \<Rightarrow> string list" where
  "call_lines c s =
     (case socks s c of None \<Rightarrow> []
      | Some k \<Rightarrow> fst (split_lines (sk_terminator k)
                  (sk_buffer k @ chunk k (arrivals s (sk_fd k)))))"

text \<open>
  Successive calls of \<open>HandleSocket\<close> on a client, with the lines they hand to the
  interpretation function.
\<close>

inductive reads :: "'z interp \<Rightarrow> nat \<Rightarrow> 'z sockst_scheme \<Rightarrow> string list \<Rightarrow> 'z sockst_scheme \<Rightarrow> bool"
  for interp c where
    reads_done: "reads interp c s [] s"
  | reads_more: "socks s c = Some k \<Longrightarrow> arrivals s (sk_fd k) \<noteq> [] \<Longrightarrow>
      HandleSocket interp (sk_fd k) c s = Inr t \<Longrightarrow> reads interp c t ls u \<Longrightarrow>
      reads interp c s (call_lines c s @ ls) u"

definition recv_ok :: "nat \<Rightarrow> 'z sockst_scheme \<Rightarrow> bool" where
  "recv_ok c s \<longleftrightarrow> c \<noteq> 0 \<and> fresh_ok s \<and>
     (case socks s c of None \<Rightarrow> False
      | Some k \<Rightarrow> length (sk_buffer k) \<le> sk_buffer_size k \<and> 0 < sk_buffer_size k \<and>
          sk_terminator k = CHR 0x0A \<and> stream_only (arrivals s (sk_fd k)))"

text \<open>
  What reception alone may change: what is still to come, and the buffer of the client.
  \<open>interpreted\<close>: the state \<open>t\<close> comes from \<open>s\<close> by the interpretation of the lines, one after the
  other, with nothing but reception before, between and after them.
\<close>

definition received :: "nat \<Rightarrow> 'z sockst_scheme \<Rightarrow> 'z sockst_scheme \<Rightarrow> bool" where
  "received c s t \<longleftrightarrow> (\<exists>a b n l. t = s\<lparr>arrivals := a, socks := (socks s)(c :=
     map_option (\<lambda>k. k\<lparr>sk_buffer := b, sk_buffer_size := n, sk_from_len := l\<rparr>) (socks s c))\<rparr>)"

fun interpreted ::
    "'z interp \<Rightarrow> nat \<Rightarrow> string list \<Rightarrow> 'z sockst_scheme \<Rightarrow> 'z sockst_scheme \<Rightarrow> bool" where
  "interpreted interp c [] s t = received c s t"
| "interpreted interp c (l # ls) s t = (\<exists>u v k. received c s u \<and> socks u c = Some k \<and>
     interp c (sk_interpretation k) (sk_data k) (c_string l) u = Inr v \<and> interpreted interp c ls v t)"

lemma received_refl: "received c s s"
proof (cases "socks s c")
  case None
  then have "s = s\<lparr>arrivals := arrivals s, socks := (socks s)(c :=
      map_option (\<lambda>k. k\<lparr>sk_buffer := [], sk_buffer_size := 0, sk_from_len := 0\<rparr>) (socks s c))\<rparr>"
    by (simp add: fun_upd_idem)
  then show ?thesis unfolding received_def by blast
next
  case (Some k)
  then have "s = s\<lparr>arrivals := arrivals s, socks := (socks s)(c := map_option
      (\<lambda>k'. k'\<lparr>sk_buffer := sk_buffer k, sk_buffer_size := sk_buffer_size k, sk_from_len := sk_from_len k\<rparr>) (socks s c))\<rparr>"
    by (simp add: fun_upd_idem)
  then show ?thesis unfolding received_def by blast
qed

lemma received_trans: "received c s t \<Longrightarrow> received c t u \<Longrightarrow> received c s u"
  by (fastforce simp: received_def option.map_comp comp_def)

lemma received_sock:
  assumes "socks s c = Some k"
  shows "received c s (set_sock c (k\<lparr>sk_buffer := b, sk_buffer_size := n, sk_from_len := l\<rparr>) (s\<lparr>arrivals := a\<rparr>))"
  using assms unfolding received_def set_sock_def
  by (intro exI [of _ a] exI [of _ b] exI [of _ n] exI [of _ l]) simp

lemma received_rest:
  assumes "socks s c = Some k"
  shows "received c s (set_sock c (k\<lparr>sk_buffer := b\<rparr>) s)"
  using received_sock [OF assms, where b = b and n = "sk_buffer_size k" and l = "sk_from_len k" and a = "arrivals s"] by simp

lemma interpreted_received: "received c s u \<Longrightarrow> interpreted interp c ls u t \<Longrightarrow> interpreted interp c ls s t"
  by (cases ls) (auto intro: received_trans)

lemma interpreted_append:
  "interpreted interp c ls s u \<Longrightarrow> interpreted interp c ms u t \<Longrightarrow> interpreted interp c (ls @ ms) s t"
  by (induction ls arbitrary: s) (auto intro: interpreted_received)

lemma foldR_interpreted:
  "foldR (interpret_line interp c) ls s = Inr t \<Longrightarrow> c \<noteq> 0 \<Longrightarrow> interpreted interp c ls s t"
proof (induction ls arbitrary: s)
  case Nil
  then show ?case by (simp add: received_refl)
next
  case (Cons l ls)
  then obtain u where u: "interpret_line interp c l s = Inr u" "foldR (interpret_line interp c) ls u = Inr t"
    by (auto simp: bindR_eq_Inr)
  from u(1) obtain k where "socks s c = Some k"
    "interp c (sk_interpretation k) (sk_data k) (c_string l) s = Inr u"
    by (auto simp: interpret_line_def deref_eq_Inr)
  with received_refl [of c s] Cons.IH [OF u(2) Cons.prems(2)] show ?case
    unfolding interpreted.simps by blast
qed

lemma handle_lines_interpreted:
  assumes "handle_lines interp c ls rest s = Inr t" and "c \<noteq> 0"
  shows "interpreted interp c ls s t"
proof -
  from assms obtain u k where u: "foldR (interpret_line interp c) ls s = Inr u" "socks u c = Some k"
    "t = set_sock c (k\<lparr>sk_buffer := rest\<rparr>) u" by (auto simp: handle_lines_def bindR_eq_Inr deref_eq_Inr)
  have "interpreted interp c (ls @ []) s t"
    using received_rest [OF u(2)] u(3) by (intro interpreted_append [OF foldR_interpreted [OF u(1) assms(2)]]) simp
  then show ?thesis by simp
qed

text \<open>
  The interface of an interpretation function: it leaves the reception side alone.
\<close>

locale line_client =
  fixes interp :: "nat \<Rightarrow> interp_fun \<Rightarrow> nat \<Rightarrow> string \<Rightarrow> 'z sockst_scheme \<Rightarrow> 'z sockst_scheme res"
  assumes interp_keeps: "interp c f d l s = Inr t \<Longrightarrow> keeps s t"
begin

lemma interpret_line_keeps: "interpret_line interp c l s = Inr t \<Longrightarrow> keeps s t"
  by (auto simp: interpret_line_def deref_eq_Inr dest: interp_keeps)

lemma lines_keep: "foldR (interpret_line interp c) ls s = Inr t \<Longrightarrow> keeps s t"
  by (erule foldR_invariant [where I = "keeps s"]) (auto dest: interpret_line_keeps keeps_trans)

lemma handle_lines_keeps:
  assumes "handle_lines interp c lines rest s = Inr t" and "recv_ok c s" and "socks s c = Some k"
    and "length rest \<le> sk_buffer_size k"
  shows "\<exists>k'. socks t c = Some k' \<and> sk_view k' = (sk_view k)\<lparr>sk_buffer := rest\<rparr>"
    and "recv_ok c t" and "arrivals t = arrivals s"
proof -
  from assms(1) obtain u k2 where u: "foldR (interpret_line interp c) lines s = Inr u" "c \<noteq> 0"
    "socks u c = Some k2" "t = set_sock c (k2\<lparr>sk_buffer := rest\<rparr>) u"
    by (auto simp: handle_lines_def bindR_eq_Inr deref_eq_Inr)
  have "fresh_ok s" using assms(2) by (simp add: recv_ok_def)
  from keepsD [OF lines_keep [OF u(1)] this assms(3)] u(3) have v: "sk_view k2 = sk_view k"
    "arrivals u = arrivals s" "fresh_ok u" by auto
  note eqs = sk_viewD [OF v(1)]
  from v(1) have "sk_view (k2\<lparr>sk_buffer := rest\<rparr>) = (sk_view k)\<lparr>sk_buffer := rest\<rparr>"
    unfolding sk_view_def by (cases k2, cases k) auto
  with u(4) show "\<exists>k'. socks t c = Some k' \<and> sk_view k' = (sk_view k)\<lparr>sk_buffer := rest\<rparr>" by simp
  have ar: "arrivals t = arrivals s" using u(4) v(2) by (simp add: set_sock_def)
  then show "arrivals t = arrivals s" .
  show "recv_ok c t"
    using assms(2-4) u v eqs ar by (auto simp: recv_ok_def fresh_ok_def set_sock_def)
qed

text \<open>One call: what it reads, and the state in which the lines are interpreted.\<close>

lemma HandleSocket_stream:
  assumes "recv_ok c s" and k: "socks s c = Some k" and "arrivals s (sk_fd k) \<noteq> []"
    and text_def: "text = sk_buffer k @ chunk k (arrivals s (sk_fd k))"
  shows "\<exists>k1 a. HandleSocket interp (sk_fd k) c s =
        handle_lines interp c (call_lines c s) (snd (split_lines (sk_terminator k) text))
          (set_sock c k1 (s\<lparr>arrivals := a\<rparr>)) \<and>
      k1 = (grow_buffer k)\<lparr>sk_from_len := 0, sk_buffer := text\<rparr> \<and>
      chunk k (arrivals s (sk_fd k)) \<noteq> [] \<and>
      incoming (arrivals s (sk_fd k)) = chunk k (arrivals s (sk_fd k)) @ incoming (a (sk_fd k)) \<and>
      recv_ok c (set_sock c k1 (s\<lparr>arrivals := a\<rparr>)) \<and> length text \<le> sk_buffer_size k1"
proof -
  from assms obtain bs rs where a: "arrivals s (sk_fd k) = Stream bs # rs" "bs \<noteq> []" "stream_only rs"
    by (cases "arrivals s (sk_fd k)") (auto simp: recv_ok_def stream_only_def split: recv.splits)
  from assms have c: "c \<noteq> 0" and sz: "length (sk_buffer k) \<le> sk_buffer_size k" "0 < sk_buffer_size k"
    by (auto simp: recv_ok_def)
  define ar where "ar = (arrivals s)(sk_fd k :=
      (if length bs \<le> room k then rs else Stream (drop (room k) bs) # rs))"
  have room: "0 < room k" "length (sk_buffer k) + room k \<le> sk_buffer_size (grow_buffer k)"
    using sz by (auto simp: room_def grow_buffer_def)
  have ch: "chunk k (arrivals s (sk_fd k)) = take (room k) bs" using a(1) by (simp add: chunk_def)
  have ne: "take (room k) bs \<noteq> []" using a(2) room(1) by simp
  have rcv: "os_recvfrom (sk_fd k) (room k) s = (Some (take (room k) bs), None, s\<lparr>arrivals := ar\<rparr>)"
    using a(1) by (simp add: os_recvfrom_def ar_def)
  define k1 where "k1 = (grow_buffer k)\<lparr>sk_from_len := 0, sk_buffer := text\<rparr>"
  have g: "sk_terminator (grow_buffer k) = sk_terminator k" "sk_buffer (grow_buffer k) = sk_buffer k"
    "sk_fd (grow_buffer k) = sk_fd k" by (simp_all add: grow_buffer_def)
  have "HandleSocket interp (sk_fd k) c s =
      handle_lines interp c (call_lines c s) (snd (split_lines (sk_terminator k) text))
        (set_sock c k1 (s\<lparr>arrivals := ar\<rparr>))"
    using k c ne by (simp add: HandleSocket_def rcv set_from_def g call_lines_def k1_def text_def ch
        split_beta Let_def)
  moreover have "incoming (arrivals s (sk_fd k)) = take (room k) bs @ incoming (ar (sk_fd k))"
    using a(1) by (simp add: incoming_def ar_def)
  moreover have "length text \<le> sk_buffer_size k1"
    using room(2) by (simp add: text_def ch k1_def)
  moreover have "recv_ok c (set_sock c k1 (s\<lparr>arrivals := ar\<rparr>))"
    using assms(1) k a room g calculation(3)
    by (auto simp: recv_ok_def fresh_ok_def set_sock_def k1_def ar_def stream_only_def)
  ultimately show ?thesis using ne k1_def unfolding ch by blast
qed

text \<open>
  However the bytes were cut into chunks, and whatever the size of the buffer: the lines handed
  to the interpretation function are those of what was read, and the rest stays in the buffer.
\<close>

lemma reads_lines:
  assumes "reads interp c s ls t" and "recv_ok c s" and "socks s c = Some k"
  shows "recv_ok c t \<and> (\<exists>k' got. socks t c = Some k' \<and> sk_fd k' = sk_fd k \<and>
     incoming (arrivals s (sk_fd k)) = got @ incoming (arrivals t (sk_fd k)) \<and>
     split_lines (CHR 0x0A) (sk_buffer k @ got) =
       (ls @ fst (split_lines (CHR 0x0A) (sk_buffer k')), snd (split_lines (CHR 0x0A) (sk_buffer k'))) \<and>
     (CHR 0x0A \<notin> set (sk_buffer k) \<longrightarrow> CHR 0x0A \<notin> set (sk_buffer k')))"
  using assms
proof (induction arbitrary: k rule: reads.induct)
  case (reads_done s)
  then show ?case by (auto intro!: exI [of _ "[]"])
next
  case (reads_more s k1 t ls u)
  then have [simp]: "k1 = k" by simp
  let ?ch = "chunk k (arrivals s (sk_fd k))"
  let ?text = "sk_buffer k @ ?ch"
  have trm: "sk_terminator k = CHR 0x0A" using reads_more.prems by (simp add: recv_ok_def)
  obtain kk a where h: "HandleSocket interp (sk_fd k) c s =
        handle_lines interp c (call_lines c s) (snd (split_lines (sk_terminator k) ?text))
          (set_sock c kk (s\<lparr>arrivals := a\<rparr>))"
      "kk = (grow_buffer k)\<lparr>sk_from_len := 0, sk_buffer := ?text\<rparr>"
      "incoming (arrivals s (sk_fd k)) = ?ch @ incoming (a (sk_fd k))"
      "recv_ok c (set_sock c kk (s\<lparr>arrivals := a\<rparr>))" "length ?text \<le> sk_buffer_size kk"
    using HandleSocket_stream [OF reads_more.prems(1,2) _ refl] reads_more.hyps(2) by auto
  have "length (snd (split_lines (sk_terminator k) ?text)) \<le> sk_buffer_size kk"
    using length_split_rest le_trans h(5) by blast
  note fin = handle_lines_keeps [OF reads_more.hyps(3) [unfolded \<open>k1 = k\<close> h(1)] h(4) _ this]
  from fin obtain k' where k': "socks t c = Some k'"
      "sk_view k' = (sk_view kk)\<lparr>sk_buffer := snd (split_lines (sk_terminator k) ?text)\<rparr>"
      "recv_ok c t" "arrivals t = a" by (auto simp: set_sock_def)
  from arg_cong [OF k'(2), of sk_buffer] arg_cong [OF k'(2), of sk_fd]
  have buf: "sk_buffer k' = snd (split_lines (CHR 0x0A) ?text)" "sk_fd k' = sk_fd k"
    by (simp_all add: h(2) trm grow_buffer_def)
  from reads_more.IH [OF k'(3,1)] buf(2) obtain k2 got where IH: "recv_ok c u" "socks u c = Some k2"
    "sk_fd k2 = sk_fd k" "incoming (a (sk_fd k)) = got @ incoming (arrivals u (sk_fd k))"
    "split_lines (CHR 0x0A) (sk_buffer k' @ got) =
       (ls @ fst (split_lines (CHR 0x0A) (sk_buffer k2)), snd (split_lines (CHR 0x0A) (sk_buffer k2)))"
    "CHR 0x0A \<notin> set (sk_buffer k2)"
    using k'(4) buf(1) split_lines_rest [of "CHR 0x0A" ?text] by auto
  have "call_lines c s = fst (split_lines (CHR 0x0A) ?text)"
    using reads_more.prems(2) trm by (simp add: call_lines_def)
  then have "split_lines (CHR 0x0A) (sk_buffer k @ ?ch @ got) =
      ((call_lines c s @ ls) @ fst (split_lines (CHR 0x0A) (sk_buffer k2)),
       snd (split_lines (CHR 0x0A) (sk_buffer k2)))"
    using split_lines_append [of _ ?text got] IH(5) buf(1) by simp
  with IH h(3) show ?case by (intro conjI exI [of _ k2] exI [of _ "?ch @ got"]) auto
qed

lemma reads_interpreted:
  assumes "reads interp c s ls t" and "recv_ok c s"
  shows "interpreted interp c ls s t"
  using assms
proof (induction rule: reads.induct)
  case (reads_done s)
  then show ?case by (simp add: received_refl)
next
  case (reads_more s k t ls u)
  let ?text = "sk_buffer k @ chunk k (arrivals s (sk_fd k))"
  obtain k1 a where h: "HandleSocket interp (sk_fd k) c s =
        handle_lines interp c (call_lines c s) (snd (split_lines (sk_terminator k) ?text))
          (set_sock c k1 (s\<lparr>arrivals := a\<rparr>))"
      "k1 = (grow_buffer k)\<lparr>sk_from_len := 0, sk_buffer := ?text\<rparr>"
    using HandleSocket_stream [OF reads_more.prems reads_more.hyps(1,2) refl] by blast
  have c: "c \<noteq> 0" using reads_more.prems by (simp add: recv_ok_def)
  have "k1 = k\<lparr>sk_buffer := ?text, sk_buffer_size := sk_buffer_size (grow_buffer k), sk_from_len := 0\<rparr>"
    by (simp add: h(2) grow_buffer_def)
  then have "received c s (set_sock c k1 (s\<lparr>arrivals := a\<rparr>))" using received_sock [OF reads_more.hyps(1)] by simp
  then have "interpreted interp c (call_lines c s) s t"
    using handle_lines_interpreted [OF reads_more.hyps(3) [unfolded h(1)] c] by (rule interpreted_received)
  moreover have "recv_ok c t"
    using reads_lines [OF reads.reads_more [OF reads_more.hyps(1-3) reads_done] reads_more.prems reads_more.hyps(1)] by simp
  ultimately show ?case using reads_more.IH interpreted_append by blast
qed

end

section \<open>Properties\<close>

text \<open>A state with one client, node 1 on descriptor 7, for the examples.\<close>

definition demo_channel :: "nat \<Rightarrow> nat \<Rightarrow> chan_data \<Rightarrow> chan_data channel" where
  "demo_channel p fd d = \<lparr>ch_ptr = p, ch_fd = fd, ch_data = d, ch_tobedeleted = False,
     ch_delete = True, ch_read = True, ch_write = True\<rparr>"

definition demo_sock :: "IvyFifoBuffer option \<Rightarrow> sock" where
  "demo_sock x = (new_sock 7 2 False no_addr no_addr 0 InterpReceive True 5 ''uuid'')\<lparr>sk_ifb := x\<rparr>"

definition demo :: "send_outcome list \<Rightarrow> IvyFifoBuffer option \<Rightarrow> sockst" where
  "demo sc x =
     \<lparr>lp = \<lparr>channels_list = [demo_channel 2 7 (ClientData 1)], open_fds = {7},
        wrdy_fds = (if x = None then {} else {7}), highestFd = 8, MainLoop = True,
        channel_initialized = True\<rparr>,
      net = \<lparr>script = sc, wire = (\<lambda>_. [])\<rparr>, arrivals = (\<lambda>_. []), accepts = [], connects = [],
      gethost = (\<lambda>_. None), socks = [1 \<mapsto> demo_sock x], clients_list = [1],
      servers = Map.empty, servers_list = [], fresh = 10, closed_fds = [], datagrams = [],
      members = [], dialled = []\<rparr>"

lemma demo_inv: "(case x of None \<Rightarrow> True | Some f \<Rightarrow> fifo_inv f) \<Longrightarrow> sock_inv (demo sc x)"
  by (auto simp: sock_inv_def sock_ok_def loop_inv_def demo_def demo_sock_def demo_channel_def
      new_sock_def IVY_BUFFER_SIZE_def)

lemma demo_socks: "socks (demo sc x) 1 = Some (demo_sock x)"
  by (simp add: demo_def)

text \<open>
  C19: sending to a client, for every answer of the kernel and whether or not the client is
  congested: the call returns, what the peer will read is extended by the whole message or, when
  the FIFO is full or the kernel reports an error, not at all, and the state returned says
  which; the streams of the other clients do not change, and the invariant (the loop watches for
  room on exactly the congested clients, the FIFOs are well formed) is kept.
\<close>
theorem send_extends_stream:
  assumes "sock_inv s" and "socks s c = Some k" and "length bytes < IVY_FIFO_MAX_ALLOC_SIZE"
  shows "\<exists>st s'. SocketSendRaw c bytes s = Inr (st, s') \<and> sock_inv s' \<and>
           stream c s' = stream c s @
             (if st = SendStateFifoFull \<or> st = SendError then [] else bytes) \<and>
           (\<forall>c'. c' = c \<or> stream c' s' = stream c' s) \<and>
           (SendFails \<in> set (script (net s)) \<or> st \<noteq> SendError)"
proof -
  have raw: "SocketSendRaw c bytes s = BufferizedSocketSendRaw c bytes s"
    using sock_invD [OF assms(1,2)] by (simp add: SocketSendRaw_def)
  from BufferizedSocketSendRaw_ok [OF assms] show ?thesis
    unfolding raw sent_ok_def appended_def by blast
qed

theorem send_extends_stream_witness:
  "\<exists>st s'. SocketSendRaw 1 ''hello'' (demo [Sent 2] None) = Inr (st, s') \<and> sock_inv s' \<and>
     (st = SendStateFifoFull \<or> stream 1 s' = ''hello'')"
proof -
  have len: "length ''hello'' < IVY_FIFO_MAX_ALLOC_SIZE" by (simp add: fifo_size_defs)
  have inv: "sock_inv (demo [Sent 2] None)" by (rule demo_inv) simp
  from send_extends_stream [OF inv demo_socks len]
  obtain st s' where "SocketSendRaw 1 ''hello'' (demo [Sent 2] None) = Inr (st, s')" "sock_inv s'"
    "stream 1 s' = stream 1 (demo [Sent 2] None) @
       (if st = SendStateFifoFull \<or> st = SendError then [] else ''hello'')"
    "st \<noteq> SendError" by (auto simp: demo_def)
  moreover have "stream 1 (demo [Sent 2] None) = []"
    by (simp add: stream_def demo_def demo_sock_def pending_def new_sock_def)
  ultimately show ?thesis by auto
qed

text \<open>
  C20: when the loop reports room on a congested client, the oldest of the waiting bytes move to
  the wire, in order, and other clients are not touched. If no \<open>send\<close> of this call answered \<open>-1\<close>, no
  byte is lost, repeated or reordered, the rest keeps waiting, and the congestion ends, with the
  callback, exactly when there is no rest. If one did (the socket is congested again, or failed), the
  FIFO that is kept reads from one byte before the rest, and when that byte closes the circle the
  rest is thrown away and the congestion taken for ended.
\<close>
theorem decongestion_drains_in_order:
  assumes "sock_inv s" and "socks s c = Some k" and "sk_ifb k = Some f"
  shows "\<exists>used j g s'. script (net s) = used @ script (net s') \<and> j \<le> length (fifo_abs f) \<and> fifo_inv g \<and>
           fifo_abs g = drop j (fifo_abs f) \<and>
           wire (net s') (sk_fd k) = wire (net s) (sk_fd k) @ take j (fifo_abs f) \<and>
           (\<forall>c'. c' = c \<or> stream c' s' = stream c' s) \<and>
           HandleCongestionWrite dec (sk_channel k) (sk_fd k) c s =
             (if sk_ifb (the (socks s' c)) = None \<and> sk_handle_decongestion k
              then dec c (sk_data k) s' else Inr s') \<and>
           (if WouldBlock \<in> set used \<or> SendFails \<in> set used
            then sk_ifb (the (socks s' c)) =
              (if IvyFifoLength (g\<lparr>f_rptr := f_rptr g - 1\<rparr>) = 0 then None else Some (g\<lparr>f_rptr := f_rptr g - 1\<rparr>))
            else sock_inv s' \<and> stream c s' = stream c s \<and>
              sk_ifb (the (socks s' c)) = (if j = length (fifo_abs f) then None else Some g))"
  using HandleCongestionWrite_run [OF assms, of dec] unfolding failing_def .

theorem decongestion_drains_in_order_witness:
  "\<exists>s'. HandleCongestionWrite (\<lambda>_ _. Inr) 2 7 1 (demo [Sent 1, Sent 1] (Some fifo_wrapped)) = Inr s' \<and>
     sock_inv s' \<and> stream 1 s' = ''ab''"
proof -
  let ?s = "demo [Sent 1, Sent 1] (Some fifo_wrapped)"
  have inv: "sock_inv ?s"
    using fifo_wrapped by (intro demo_inv) simp
  have k: "sk_ifb (demo_sock (Some fifo_wrapped)) = Some fifo_wrapped"
    "sk_channel (demo_sock (Some fifo_wrapped)) = 2" "sk_fd (demo_sock (Some fifo_wrapped)) = 7"
    by (simp_all add: demo_sock_def new_sock_def)
  have str: "stream 1 ?s = ''ab''" and sc: "script (net ?s) = [Sent 1, Sent 1]"
    using fifo_wrapped by (simp_all add: stream_def demo_def demo_sock_def pending_def new_sock_def)
  from decongestion_drains_in_order [OF inv demo_socks k(1), of "\<lambda>_ _. Inr", unfolded k(2,3) sc str if_cancel]
  obtain used s' where r: "[Sent 1, Sent 1] = used @ script (net s')"
    "HandleCongestionWrite (\<lambda>_ _. Inr) 2 7 1 ?s = Inr s'"
    "\<not> (WouldBlock \<in> set used \<or> SendFails \<in> set used) \<Longrightarrow> sock_inv s' \<and> stream 1 s' = ''ab''" by (auto split: if_splits)
  have "set used \<subseteq> {Sent 1}" using arg_cong [OF r(1), of set] by auto
  with r(2,3) show ?thesis by blast
qed

text \<open>
  \<open>SocketSendRawWithId\<close> sends the header of a message and its body as two writes. When the
  header still fits in the FIFO of a congested client and the body does not, the header is kept
  and the body dropped: the peer will read the header glued to the next message.
\<close>
theorem full_fifo_tears_message:
  assumes "sock_inv s" and "socks s c = Some k" and "sk_ifb k = Some f" and "\<not> IvyFifoIsFull f"
    and "length (fifo_abs f) + length ident < IVY_FIFO_MAX_ALLOC_SIZE"
    and "IVY_FIFO_MAX_ALLOC_SIZE \<le> length (fifo_abs f) + length ident + length bytes"
    and "length bytes < IVY_FIFO_MAX_ALLOC_SIZE"
  shows "\<exists>s'. SocketSendRawWithId c ident bytes s = Inr (SendStateFifoFull, s') \<and>
           stream c s' = stream c s @ ident"
proof -
  have c: "c \<noteq> 0" using sock_invD [OF assms(1,2)] by simp
  have "fifo_inv f" using sock_invD [OF assms(1,2)] assms(3) by (simp add: sock_ok_def)
  from fifo_put_ok [OF this] assms(4,5) obtain g where g: "fifo_put f ident = Inr g" "fifo_inv g"
    "fifo_abs g = fifo_abs f @ ident" "\<not> IvyFifoIsFull g" by force
  define s1 where "s1 = set_sock c (k\<lparr>sk_ifb := Some g\<rparr>) s"
  have 1: "BufferizedSocketSendRaw c ident s = Inr (SendStillCongestion, s1)"
    using assms(2,3) c g by (simp add: BufferizedSocketSendRaw_def s1_def)
  from fifo_put_ok [OF g(2) assms(7)] assms(6) g(3,4) obtain h where
    h: "fifo_put g bytes = Inr h" "fifo_abs h = fifo_abs g" "IvyFifoIsFull h" by auto
  define s2 where "s2 = set_sock c (k\<lparr>sk_ifb := Some h\<rparr>) s1"
  have 2: "BufferizedSocketSendRaw c bytes s1 = Inr (SendStateFifoFull, s2)"
    using c h by (simp add: BufferizedSocketSendRaw_def s1_def s2_def)
  have "stream c s2 = stream c s @ ident"
    using assms(2,3) h(2) g(3) by (simp add: s2_def s1_def stream_def pending_def set_sock_def)
  with 1 2 show ?thesis by (simp add: SocketSendRawWithId_def)
qed

theorem full_fifo_tears_message_witness:
  "\<exists>s'. SocketSendRawWithId 1 ''2 1'' (replicate 33554430 CHR ''x'') (demo [] (Some fifo_wrapped)) =
      Inr (SendStateFifoFull, s') \<and> stream 1 s' = ''ab2 1''"
proof -
  have inv: "sock_inv (demo [] (Some fifo_wrapped))"
    using fifo_wrapped by (intro demo_inv) simp
  have k: "sk_ifb (demo_sock (Some fifo_wrapped)) = Some fifo_wrapped"
    by (simp add: demo_sock_def)
  have full: "\<not> IvyFifoIsFull fifo_wrapped"
    by (simp add: fifo_wrapped_def IvyFifoIsFull_def)
  have "stream 1 (demo [] (Some fifo_wrapped)) = ''ab''"
    using fifo_wrapped by (simp add: stream_def demo_def demo_sock_def pending_def new_sock_def)
  with full_fifo_tears_message [OF inv demo_socks k full, of "''2 1''" "replicate 33554430 CHR ''x''"]
  show ?thesis by (simp add: fifo_wrapped(2) fifo_size_defs del: length_fifo_abs)
qed

text \<open>
  \<open>SocketGetRemotePort\<close> does not convert the port from network order, as
  \<open>SocketGetLocalPort\<close> and \<open>SocketGetRemoteHost\<close> do: on a little-endian host it answers the
  port of the peer only when both bytes of the port are equal.
\<close>
theorem remote_port_is_swapped:
  assumes "socks s c = Some k" and "c \<noteq> 0" and "sa_port (sk_from k) = htons p" and "p < 65536"
    and "sk_from_len k \<noteq> 0" and "gethost s (sk_from k) = Some host"
  shows "SocketGetRemoteHost c s = Inr (Some (host, Some p)) \<and>
         (SocketGetRemotePort c s = Inr p \<longleftrightarrow> p div 256 = p mod 256)"
proof -
  obtain h l where hl: "p div 256 = h" "p mod 256 = l" by blast
  have p: "p = h * 256 + l" using hl div_mult_mod_eq [of p 256] by simp
  have l: "l < 256" using hl(2) by auto
  have h: "h < 256" using p assms(4) by simp
  have "htons p = l * 256 + h" using h hl by (simp add: htons_def)
  moreover have "htons (l * 256 + h) = p" using h l p by (simp add: htons_def)
  moreover have "l * 256 + h = p \<longleftrightarrow> h = l" using p l h by auto
  ultimately show ?thesis
    using assms(1-3,5,6) hl by (simp add: SocketGetRemoteHost_def SocketGetRemotePort_def ntohs_def)
qed

theorem remote_port_is_swapped_witness:
  "let a = no_addr\<lparr>sa_port := htons 2010\<rparr>;
       s = (demo [] None)\<lparr>gethost := (\<lambda>_. Some ''peer''),
              socks := [1 \<mapsto> (demo_sock None)\<lparr>sk_from := a, sk_from_len := 16\<rparr>]\<rparr>
   in SocketGetRemoteHost 1 s = Inr (Some (''peer'', Some 2010)) \<and> SocketGetRemotePort 1 s \<noteq> Inr 2010"
  using remote_port_is_swapped [where c = 1 and p = 2010 and host = "''peer''"
      and k = "(demo_sock None)\<lparr>sk_from := no_addr\<lparr>sa_port := htons 2010\<rparr>, sk_from_len := 16\<rparr>"
      and s = "(demo [] None)\<lparr>gethost := (\<lambda>_. Some ''peer''),
         socks := [1 \<mapsto> (demo_sock None)\<lparr>sk_from := no_addr\<lparr>sa_port := htons 2010\<rparr>, sk_from_len := 16\<rparr>]\<rparr>"]
  by (simp add: Let_def)

end
