(* ===== verification/IvyTimer.thy ===== *)
theory IvyTimer
  imports IvyList
begin

text \<open>
  The timers of \<open>timer.c\<close>. The time is in milliseconds, an \<open>unsigned long\<close> of 64 bits; what
  \<open>currentTime\<close> answers is an argument of the operations that call it. The callbacks of the
  timers are one function of the program state that contains the timers' statics (\<open>get\<close> and
  \<open>upd\<close> as in the main loop), so that a callback may add, change or remove timers.
\<close>

section \<open>State\<close>

definition u64 :: "int \<Rightarrow> nat" where
  "u64 x = nat (x mod 2 ^ 64)"

definition TIMER_LOOP :: int where "TIMER_LOOP = -1"

definition BIGVALUE :: nat where "BIGVALUE = 2147483647"

definition MILLISEC :: nat where "MILLISEC = 1000"

record timer =
  tm_ptr :: nat
  tm_repeat :: int
  tm_period :: nat
  tm_when :: nat
  tm_mark2Remove :: bool

record timer_state =
  timers :: "timer list"
  timeoutptr :: bool         \<comment> \<open>\<open>timeoutptr != NULL\<close>\<close>
  tv_sec :: nat              \<comment> \<open>\<open>selectTimeout\<close>\<close>
  tv_usec :: nat
  nextTimeout :: nat

definition timer_init :: timer_state where
  "timer_init = \<lparr>timers = [], timeoutptr = False, tv_sec = BIGVALUE, tv_usec = 0,
     nextTimeout = BIGVALUE\<rparr>"

definition find_timer :: "nat \<Rightarrow> timer_state \<Rightarrow> timer option" where
  "find_timer p s = find (\<lambda>t. tm_ptr t = p) (timers s)"

section \<open>Operations\<close>

definition SetNewTimeout :: "nat \<Rightarrow> nat \<Rightarrow> timer_state \<Rightarrow> timer_state" where
  "SetNewTimeout current when s =
     (let ltime = (if when \<le> current then 0 else when - current);
          sec = ltime div MILLISEC
      in s\<lparr>nextTimeout := when, tv_sec := sec, tv_usec := (ltime - sec * MILLISEC) * MILLISEC,
           timeoutptr := True\<rparr>)"

fun earliest :: "nat \<Rightarrow> timer list \<Rightarrow> nat" where
  "earliest m [] = m"
| "earliest m (t # ts) =
     earliest (if \<not> tm_mark2Remove t \<and> tm_when t < m then tm_when t else m) ts"

definition AdjTimeout :: "nat \<Rightarrow> timer_state \<Rightarrow> timer_state" where
  "AdjTimeout current s =
     (case timers s of
        [] \<Rightarrow> s\<lparr>timeoutptr := False\<rparr>
      | t # ts \<Rightarrow> SetNewTimeout current (earliest (tm_when t) (t # ts)) s)"

text \<open>\<open>p\<close> is the address of the new node, \<open>cb\<close> whether a callback is given.\<close>

definition TimerRepeatAfter ::
    "nat \<Rightarrow> int \<Rightarrow> int \<Rightarrow> bool \<Rightarrow> nat \<Rightarrow> timer_state \<Rightarrow> nat \<times> timer_state" where
  "TimerRepeatAfter p count ltime cb stamp s =
     (if \<not> cb then (0, s)
      else let t = \<lparr>tm_ptr = p, tm_repeat = count, tm_period = u64 ltime,
                    tm_when = u64 (int stamp + ltime), tm_mark2Remove = False\<rparr>;
               s = (if tm_when t < nextTimeout s \<or> \<not> timeoutptr s
                    then SetNewTimeout stamp (tm_when t) s else s)
           in (p, s\<lparr>timers := t # timers s\<rparr>))"

definition upd_timer :: "nat \<Rightarrow> (timer \<Rightarrow> timer) \<Rightarrow> timer list \<Rightarrow> timer list" where
  "upd_timer p f = map (\<lambda>t. if tm_ptr t = p then f t else t)"

definition TimerRemove :: "nat \<Rightarrow> nat \<Rightarrow> timer_state \<Rightarrow> timer_state res" where
  "TimerRemove p stamp s =
     (if p = 0 then Inr s
      else case find_timer p s of None \<Rightarrow> Inl UseAfterFree
      | Some t \<Rightarrow> if tm_mark2Remove t then Inr s
          else Inr (AdjTimeout stamp
            (s\<lparr>timers := upd_timer p (\<lambda>t. t\<lparr>tm_mark2Remove := True\<rparr>) (timers s)\<rparr>)))"

definition TimerModify :: "nat \<Rightarrow> int \<Rightarrow> nat \<Rightarrow> timer_state \<Rightarrow> timer_state res" where
  "TimerModify p ltime stamp s =
     (if p = 0 then Inr s
      else case find_timer p s of None \<Rightarrow> Inl UseAfterFree
      | Some t \<Rightarrow> if tm_mark2Remove t then Inr s
          else Inr (AdjTimeout stamp (s\<lparr>timers := upd_timer p
            (\<lambda>t. t\<lparr>tm_period := u64 ltime, tm_when := u64 (int stamp + ltime)\<rparr>) (timers s)\<rparr>)))"

definition TimerGetSmallestTimeout :: "nat \<Rightarrow> timer_state \<Rightarrow> timer_state" where
  "TimerGetSmallestTimeout stamp s = AdjTimeout stamp s"

text \<open>The first loop of \<open>TimerScan\<close>: the callbacks of the timers that are due.\<close>

definition timer_ptrs :: "('s \<Rightarrow> timer_state) \<Rightarrow> 's \<Rightarrow> nat list" where
  "timer_ptrs get s = map tm_ptr (timers (get s))"

definition due :: "nat \<Rightarrow> timer \<Rightarrow> bool" where
  "due stamp t \<longleftrightarrow> tm_when t \<le> stamp \<and> \<not> tm_mark2Remove t"

definition fire_due ::
    "('s \<Rightarrow> timer_state) \<Rightarrow> (nat \<Rightarrow> nat \<Rightarrow> 's \<Rightarrow> 's res) \<Rightarrow> nat \<Rightarrow> nat \<Rightarrow> 's \<Rightarrow> 's res" where
  "fire_due get cb stamp p s =
     (case find_timer p (get s) of None \<Rightarrow> Inl UseAfterFree
      | Some t \<Rightarrow> if due stamp t then cb p (stamp - tm_when t) s else Inr s)"

text \<open>The second loop: removed and exhausted timers are unlinked, the others rearmed.\<close>

definition rearm :: "nat \<Rightarrow> timer \<Rightarrow> timer option" where
  "rearm stamp t =
     (if tm_mark2Remove t then None
      else if tm_when t \<le> stamp then
        (if tm_repeat t = TIMER_LOOP
         then Some (t\<lparr>tm_when := u64 (int stamp + int (tm_period t))\<rparr>)
         else let r = s32 (tm_repeat t - 1)
              in if r \<noteq> 0
                 then Some (t\<lparr>tm_repeat := r, tm_when := u64 (int stamp + int (tm_period t))\<rparr>)
                 else None)
      else Some t)"

definition TimerScan ::
    "('s \<Rightarrow> timer_state) \<Rightarrow> ((timer_state \<Rightarrow> timer_state) \<Rightarrow> 's \<Rightarrow> 's) \<Rightarrow>
     (nat \<Rightarrow> nat \<Rightarrow> 's \<Rightarrow> 's res) \<Rightarrow> nat \<Rightarrow> 's \<Rightarrow> 's res" where
  "TimerScan get upd cb stamp s =
     bindR (IVY_LIST_EACH_SAFE (timer_ptrs get) (fire_due get cb stamp) s)
       (\<lambda>s. Inr (upd (\<lambda>ts. ts\<lparr>timers := List.map_filter (rearm stamp) (timers ts)\<rparr>) s))"

section \<open>The next timeout\<close>

lemma earliest_le: "earliest m ts \<le> m"
  by (induction ts arbitrary: m) (auto intro: le_trans less_imp_le)

lemma earliest_le_mem: "t \<in> set ts \<Longrightarrow> \<not> tm_mark2Remove t \<Longrightarrow> earliest m ts \<le> tm_when t"
proof (induction ts arbitrary: m)
  case (Cons u ts)
  show ?case
  proof (cases "t = u")
    case True
    with Cons.prems show ?thesis
      using earliest_le [of "if tm_when t < m then tm_when t else m" ts] by auto
  next
    case False
    with Cons show ?thesis by simp
  qed
qed simp

lemma SetNewTimeout_wait:
  "tv_sec (SetNewTimeout c w s) * 1000000 + tv_usec (SetNewTimeout c w s) = (w - c) * 1000"
  "tv_usec (SetNewTimeout c w s) < 1000000"
proof -
  have "x div 1000 * 1000000 + (x - x div 1000 * 1000) * 1000 = x * 1000"
    "(x - x div 1000 * 1000) * 1000 < 1000000" for x :: nat
    using div_mult_mod_eq [of x 1000] mod_less_divisor [of 1000 x] by linarith+
  then show "tv_sec (SetNewTimeout c w s) * 1000000 + tv_usec (SetNewTimeout c w s) = (w - c) * 1000"
    "tv_usec (SetNewTimeout c w s) < 1000000"
    by (simp_all add: SetNewTimeout_def Let_def MILLISEC_def)
qed

lemma SetNewTimeout_frame [frame_simps]:
  "timers (SetNewTimeout c w s) = timers s" "timeoutptr (SetNewTimeout c w s)"
  "nextTimeout (SetNewTimeout c w s) = w"
  by (simp_all add: SetNewTimeout_def Let_def)

lemma AdjTimeout_timers [frame_simps]: "timers (AdjTimeout c s) = timers s"
  by (simp add: AdjTimeout_def frame_simps split: list.splits)

section \<open>Scanning\<close>

lemma find_timer_unique:
  assumes "distinct (map tm_ptr (timers s))" and "t \<in> set (timers s)"
  shows "find_timer (tm_ptr t) s = Some t"
proof (cases "find_timer (tm_ptr t) s")
  case None
  with assms show ?thesis by (auto simp: find_timer_def find_None_iff)
next
  case (Some u)
  then have "u \<in> set (timers s)" "tm_ptr u = tm_ptr t"
    unfolding find_timer_def by (auto dest: find_Some_mem)
  with assms Some show ?thesis by (metis distinct_map inj_onD)
qed

text \<open>
  The interface of a program whose callbacks leave the timers alone: the library's own
  callbacks, as opposed to callbacks that rearm or add timers.
\<close>

locale timer_client =
  fixes get :: "'s \<Rightarrow> timer_state"
    and upd :: "(timer_state \<Rightarrow> timer_state) \<Rightarrow> 's \<Rightarrow> 's"
    and cb :: "nat \<Rightarrow> nat \<Rightarrow> 's \<Rightarrow> 's res"
  assumes get_upd: "get (upd f s) = f (get s)"
    and cb_get: "cb p d s = Inr t \<Longrightarrow> get t = get s"
begin

lemma fire_due_get: "fire_due get cb stamp p s = Inr t \<Longrightarrow> get t = get s"
  by (auto simp: fire_due_def split: option.splits if_splits dest: cb_get)

lemma fire_foldR:
  assumes "\<forall>t \<in> set ts. find_timer (tm_ptr t) (get s) = Some t"
  shows "foldR (fire_due get cb stamp) (map tm_ptr ts) s =
           foldR (\<lambda>t. cb (tm_ptr t) (stamp - tm_when t)) (filter (due stamp) ts) s"
  using assms
proof (induction ts arbitrary: s)
  case (Cons t ts)
  then have t: "find_timer (tm_ptr t) (get s) = Some t" by simp
  show ?case
  proof (cases "due stamp t")
    case True
    show ?thesis
    proof (cases "cb (tm_ptr t) (stamp - tm_when t) s")
      case (Inr u)
      with Cons cb_get [OF Inr] True t show ?thesis by (simp add: fire_due_def)
    qed (use True t in \<open>simp add: fire_due_def\<close>)
  qed (use Cons t in \<open>simp add: fire_due_def\<close>)
qed simp

lemma TimerScan_foldR:
  assumes "distinct (map tm_ptr (timers (get s)))"
  shows "TimerScan get upd cb stamp s =
     bindR (foldR (\<lambda>t. cb (tm_ptr t) (stamp - tm_when t)) (filter (due stamp) (timers (get s))) s)
       (\<lambda>s. Inr (upd (\<lambda>ts. ts\<lparr>timers := List.map_filter (rearm stamp) (timers ts)\<rparr>) s))"
proof -
  have found: "find_timer (tm_ptr t) (get s) = Some t" if "t \<in> set (timers (get s))" for t
    using assms that by (rule find_timer_unique)
  have "IVY_LIST_EACH_SAFE (timer_ptrs get) (fire_due get cb stamp) s =
      foldR (fire_due get cb stamp) (timer_ptrs get s) s"
    unfolding IVY_LIST_EACH_SAFE_def using assms
    by (intro each_safe_foldR) (auto simp: timer_ptrs_def dest!: fire_due_get)
  also have "\<dots> = foldR (\<lambda>t. cb (tm_ptr t) (stamp - tm_when t)) (filter (due stamp) (timers (get s))) s"
    unfolding timer_ptrs_def using found by (intro fire_foldR) auto
  finally show ?thesis by (simp add: TimerScan_def)
qed

lemma TimerScan_timers:
  assumes "distinct (map tm_ptr (timers (get s)))" and "TimerScan get upd cb stamp s = Inr t"
  shows "timers (get t) = List.map_filter (rearm stamp) (timers (get s))"
proof -
  from assms obtain u where u: "foldR (\<lambda>t. cb (tm_ptr t) (stamp - tm_when t))
      (filter (due stamp) (timers (get s))) s = Inr u"
    and t: "t = upd (\<lambda>ts. ts\<lparr>timers := List.map_filter (rearm stamp) (timers ts)\<rparr>) u"
    by (auto simp: TimerScan_foldR bindR_eq_Inr)
  have "get u = get s"
    by (rule foldR_invariant [OF u, where I = "\<lambda>x. get x = get s"]) (auto dest: cb_get)
  then show ?thesis by (simp add: t get_upd)
qed

end

section \<open>The life of a timer\<close>

text \<open>What the scans at the given times make of one timer.\<close>

fun scans :: "nat list \<Rightarrow> timer \<Rightarrow> timer option" where
  "scans [] t = Some t"
| "scans (n # ns) t = (case rearm n t of None \<Rightarrow> None | Some u \<Rightarrow> scans ns u)"

text \<open>Every scan finds the timer due: each is a period or more after the one before.\<close>

fun spaced :: "nat \<Rightarrow> nat \<Rightarrow> nat list \<Rightarrow> bool" where
  "spaced when period [] = True"
| "spaced when period (n # ns) =
     (when \<le> n \<and> n + period < 18446744073709551616 \<and> spaced (n + period) period ns)"

lemma u64_of_nat: "n < 18446744073709551616 \<Longrightarrow> u64 (int n) = n"
  by (simp add: u64_def)

lemma rearm_counted:
  assumes "due n t" and "n + tm_period t < 18446744073709551616"
    and "0 < tm_repeat t" and "is_int32 (tm_repeat t)"
  shows "rearm n t = (if tm_repeat t = 1 then None
           else Some (t\<lparr>tm_repeat := tm_repeat t - 1, tm_when := n + tm_period t\<rparr>))"
proof -
  have "s32 (tm_repeat t - 1) = tm_repeat t - 1"
    using assms(3,4) by (intro s32_id) (auto simp: is_int32_def)
  moreover have "u64 (int n + int (tm_period t)) = n + tm_period t"
    using u64_of_nat [OF assms(2)] by simp
  ultimately show ?thesis
    using assms(1,3) by (auto simp: rearm_def due_def TIMER_LOOP_def)
qed

lemma rearm_loop:
  assumes "due n t" and "n + tm_period t < 18446744073709551616" and "tm_repeat t = TIMER_LOOP"
  shows "rearm n t = Some (t\<lparr>tm_when := n + tm_period t\<rparr>)"
  using assms u64_of_nat [OF assms(2)] by (simp add: rearm_def due_def)

lemma scans_counted:
  assumes "\<not> tm_mark2Remove t" and "spaced (tm_when t) (tm_period t) ns" and "ns \<noteq> []"
    and "is_int32 (tm_repeat t)"
  shows "0 < tm_repeat t \<Longrightarrow> int (length ns) < tm_repeat t \<Longrightarrow>
           scans ns t = Some (t\<lparr>tm_repeat := tm_repeat t - int (length ns),
                               tm_when := last ns + tm_period t\<rparr>)"
    and "0 < tm_repeat t \<Longrightarrow> int (length ns) = tm_repeat t \<Longrightarrow> scans ns t = None"
    and "tm_repeat t = TIMER_LOOP \<Longrightarrow> scans ns t = Some (t\<lparr>tm_when := last ns + tm_period t\<rparr>)"
  using assms
proof (induction ns arbitrary: t)
  case (Cons n ns)
  {
    case 1
    then have d: "due n t" "n + tm_period t < 18446744073709551616" by (auto simp: due_def)
    let ?u = "t\<lparr>tm_repeat := tm_repeat t - 1, tm_when := n + tm_period t\<rparr>"
    from rearm_counted [OF d] 1 have "rearm n t = Some ?u" by auto
    moreover have "ns \<noteq> [] \<Longrightarrow> scans ns ?u = Some (?u\<lparr>tm_repeat := tm_repeat ?u - int (length ns),
        tm_when := last ns + tm_period ?u\<rparr>)"
      using 1 by (intro Cons.IH(1)) (auto simp: is_int32_def)
    ultimately show ?case by (cases "ns = []") (auto simp: algebra_simps)
  next
    case 2
    then have d: "due n t" "n + tm_period t < 18446744073709551616" by (auto simp: due_def)
    let ?u = "t\<lparr>tm_repeat := tm_repeat t - 1, tm_when := n + tm_period t\<rparr>"
    from rearm_counted [OF d] 2 have "rearm n t = (if tm_repeat t = 1 then None else Some ?u)" by auto
    moreover have "ns \<noteq> [] \<Longrightarrow> scans ns ?u = None"
      using 2 by (intro Cons.IH(2)) (cases ns; auto simp: is_int32_def)+
    ultimately show ?case using 2 by (cases "ns = []") auto
  next
    case 3
    then have d: "due n t" "n + tm_period t < 18446744073709551616" by (auto simp: due_def)
    let ?u = "t\<lparr>tm_when := n + tm_period t\<rparr>"
    from rearm_loop [OF d] 3 have "rearm n t = Some ?u" by auto
    moreover have "ns \<noteq> [] \<Longrightarrow> scans ns ?u = Some (?u\<lparr>tm_when := last ns + tm_period ?u\<rparr>)"
      using 3 by (intro Cons.IH(3)) auto
    ultimately show ?case by (cases "ns = []") auto
  }
qed auto

section \<open>Properties\<close>

text \<open>
  C32: after the timeout of \<open>select\<close> has been adjusted, it ends at the latest when the first
  timer that is not removed is due, and the microseconds are a valid fraction of a second.
\<close>
theorem select_wakes_for_every_timer:
  assumes "t \<in> set (timers s)" and "\<not> tm_mark2Remove t" and "s' = AdjTimeout now s"
  shows "timeoutptr s' \<and> tv_usec s' < 1000000 \<and>
           tv_sec s' * 1000000 + tv_usec s' \<le> (tm_when t - now) * 1000"
proof -
  obtain u us where ts: "timers s = u # us" using assms(1) by (cases "timers s") auto
  let ?e = "earliest (tm_when u) (u # us)"
  have "s' = SetNewTimeout now ?e s" using assms(3) by (simp only: ts AdjTimeout_def list.case)
  moreover have "?e \<le> tm_when t" using assms(1,2) ts earliest_le_mem by metis
  ultimately show ?thesis
    by (simp only: SetNewTimeout_wait SetNewTimeout_frame) (simp add: diff_le_mono)
qed

definition two_timers :: timer_state where
  "two_timers = timer_init\<lparr>timers :=
     [\<lparr>tm_ptr = 2, tm_repeat = 1, tm_period = 500, tm_when = 4000, tm_mark2Remove = True\<rparr>,
      \<lparr>tm_ptr = 1, tm_repeat = 3, tm_period = 1500, tm_when = 5500, tm_mark2Remove = False\<rparr>]\<rparr>"

theorem select_wakes_for_every_timer_witness:
  "timeoutptr (AdjTimeout 3000 two_timers) \<and>
   tv_sec (AdjTimeout 3000 two_timers) * 1000000 + tv_usec (AdjTimeout 3000 two_timers) \<le> 2500000"
  using select_wakes_for_every_timer [of "timers two_timers ! 1" two_timers _ 3000]
  by (simp add: two_timers_def)

text \<open>
  A timer created with a count of \<open>k > 0\<close> survives its first \<open>k - 1\<close> expiries, rearmed each
  time one period after the scan that found it due, and is unlinked by the \<open>k\<close>-th; one created
  with \<open>TIMER_LOOP\<close> survives them all.
\<close>
theorem timer_expires_count_times:
  assumes "\<not> tm_mark2Remove t" and "spaced (tm_when t) (tm_period t) ns" and "ns \<noteq> []"
    and "is_int32 (tm_repeat t)" and "tm_repeat t = TIMER_LOOP \<or>
      0 < tm_repeat t \<and> int (length ns) \<le> tm_repeat t"
  shows "scans ns t =
     (if tm_repeat t = TIMER_LOOP then Some (t\<lparr>tm_when := last ns + tm_period t\<rparr>)
      else if int (length ns) = tm_repeat t then None
      else Some (t\<lparr>tm_repeat := tm_repeat t - int (length ns),
                   tm_when := last ns + tm_period t\<rparr>))"
  using scans_counted [OF assms(1-4)] assms(5) by auto

theorem timer_expires_count_times_witness:
  "scans [5600, 8000, 9500] (timers two_timers ! 1) = None"
  using timer_expires_count_times [of "timers two_timers ! 1" "[5600, 8000, 9500]"]
  by (simp add: two_timers_def is_int32_def TIMER_LOOP_def)

text \<open>
  A timer created with a count of \<open>0\<close>, which asks for no tick, never ends: its first expiry
  turns the count into \<open>-1\<close>, which is \<open>TIMER_LOOP\<close>.
\<close>
theorem timer_count_zero_loops:
  assumes "due n t" and "tm_repeat t = 0"
  shows "\<exists>u. rearm n t = Some u \<and> tm_repeat u = TIMER_LOOP \<and> tm_period u = tm_period t"
proof -
  have "s32 (- 1) = -1" by (simp add: s32_def)
  with assms show ?thesis by (simp add: rearm_def due_def TIMER_LOOP_def Let_def)
qed

theorem timer_count_zero_loops_witness:
  "\<exists>u. rearm 5500 ((timers two_timers ! 1)\<lparr>tm_repeat := 0\<rparr>) = Some u \<and> tm_repeat u = TIMER_LOOP"
  using timer_count_zero_loops [of 5500 "(timers two_timers ! 1)\<lparr>tm_repeat := 0\<rparr>"]
  by (auto simp: two_timers_def due_def)

end
