(* ===== verification/CText.thy ===== *)
theory CText
  imports IvyPrelude
begin

text \<open>
  The text routines of the C library the code calls: \<open>printf ("%d")\<close>, \<open>sscanf ("%d")\<close>,
  \<open>strstr\<close>, \<open>atoi\<close>, \<open>strncmp (...) == 0\<close>. A C string is the list of its bytes without the
  terminating NUL.
\<close>

section \<open>Characters\<close>

definition is_digit :: "char \<Rightarrow> bool" where
  "is_digit c \<longleftrightarrow> 48 \<le> (of_char c :: nat) \<and> (of_char c :: nat) \<le> 57"

definition is_space :: "char \<Rightarrow> bool" where
  "is_space c \<longleftrightarrow> c = CHR '' '' \<or> (9 \<le> (of_char c :: nat) \<and> (of_char c :: nat) \<le> 13)"

definition digit_val :: "char \<Rightarrow> nat" where
  "digit_val c = of_char c - 48"

definition digit_char :: "nat \<Rightarrow> char" where
  "digit_char d = char_of (48 + d)"

lemma of_char_digit_char [simp]: "d < 10 \<Longrightarrow> (of_char (digit_char d) :: nat) = 48 + d"
  by (simp add: digit_char_def)

lemma digit_char_props [simp]:
  assumes "d < 10"
  shows "is_digit (digit_char d)" "digit_val (digit_char d) = d" "\<not> is_space (digit_char d)"
    "digit_char d \<noteq> CHR ''-''" "digit_char d \<noteq> CHR ''+''"
proof -
  have n: "(of_char (digit_char d) :: nat) = 48 + d" using assms by simp
  show "is_digit (digit_char d)" "digit_val (digit_char d) = d"
    using n assms by (simp_all add: is_digit_def digit_val_def)
  have "digit_char d \<noteq> c" if "(of_char c :: nat) < 48" for c
    using that n by force
  then show "\<not> is_space (digit_char d)" "digit_char d \<noteq> CHR ''-''" "digit_char d \<noteq> CHR ''+''"
    using n assms by (auto simp: is_space_def)
qed

section \<open>printf of an integer\<close>

fun show_nat :: "nat \<Rightarrow> string" where
  "show_nat n = (if n < 10 then [digit_char n] else show_nat (n div 10) @ [digit_char (n mod 10)])"

declare show_nat.simps [simp del]

definition show_int :: "int \<Rightarrow> string" where
  "show_int i = (if i < 0 then CHR ''-'' # show_nat (nat (- i)) else show_nat (nat i))"

lemma show_nat_digits: "\<forall>c \<in> set (show_nat n). is_digit c"
proof (induction n rule: show_nat.induct)
  case (1 n)
  then show ?case by (subst show_nat.simps) auto
qed

lemma show_nat_nonempty [simp]: "show_nat n \<noteq> []"
  by (subst show_nat.simps) simp

lemma length_show_nat: "n < 10 ^ k \<Longrightarrow> 0 < k \<Longrightarrow> length (show_nat n) \<le> k"
proof (induction k arbitrary: n)
  case (Suc k)
  show ?case
  proof (cases "n < 10")
    case True
    then show ?thesis by (subst show_nat.simps) simp
  next
    case False
    with Suc.prems have "n div 10 < 10 ^ k" "0 < k" by (auto intro: Nat.gr0I)
    with Suc.IH False show ?thesis by (subst show_nat.simps) simp
  qed
qed simp

lemma length_show_int: "is_int32 i \<Longrightarrow> length (show_int i) \<le> 11"
  using length_show_nat [of "nat (- i)" 10] length_show_nat [of "nat i" 10]
  by (auto simp: show_int_def is_int32_def nat_less_iff intro: le_SucI)

text \<open>Every character of a printed integer is a digit or the sign.\<close>

lemma show_int_chars: "c \<in> set (show_int i) \<Longrightarrow> is_digit c \<or> c = CHR ''-''"
  using show_nat_digits by (auto simp: show_int_def split: if_splits)

section \<open>sscanf of an integer\<close>

definition digits_val :: "string \<Rightarrow> nat" where
  "digits_val = foldl (\<lambda>a c. 10 * a + digit_val c) 0"

text \<open>\<open>strtol\<close> saturates at the ends of \<open>long\<close>, and the result is stored in an \<open>int\<close>.\<close>

definition clip_long :: "int \<Rightarrow> int" where
  "clip_long x = max (- (2 ^ 63)) (min (2 ^ 63 - 1) x)"

definition scan_sign :: "string \<Rightarrow> bool \<times> string" where
  "scan_sign s = (case s of
      c # r \<Rightarrow> if c = CHR ''-'' then (True, r) else if c = CHR ''+'' then (False, r) else (False, s)
    | [] \<Rightarrow> (False, s))"

text \<open>One \<open>%d\<close> conversion: the value and the rest of the input, or failure.\<close>

definition scan_d :: "string \<Rightarrow> (int \<times> string) option" where
  "scan_d s =
     (let (neg, t) = scan_sign (dropWhile is_space s);
          ds = takeWhile is_digit t;
          v = int (digits_val ds)
      in if ds = [] then None
         else Some (s32 (clip_long (if neg then - v else v)), dropWhile is_digit t))"

text \<open>\<open>sscanf (line, "%d %d", ...) == 2\<close>.\<close>

definition scan_d_d :: "string \<Rightarrow> (int \<times> int) option" where
  "scan_d_d s = Option.bind (scan_d s) (\<lambda>(k, r). map_option (\<lambda>(i, _). (k, i)) (scan_d r))"

definition atoi :: "string \<Rightarrow> int" where
  "atoi s = (case scan_d s of None \<Rightarrow> 0 | Some (v, _) \<Rightarrow> v)"

lemma digits_val_snoc: "digits_val (xs @ [c]) = 10 * digits_val xs + digit_val c"
  by (simp add: digits_val_def)

lemma digits_val_show_nat [simp]: "digits_val (show_nat n) = n"
proof (induction n rule: show_nat.induct)
  case (1 n)
  show ?case
  proof (cases "n < 10")
    case True
    then show ?thesis by (subst show_nat.simps) (simp add: digits_val_def)
  next
    case False
    with 1 show ?thesis by (subst show_nat.simps) (simp add: digits_val_snoc)
  qed
qed

lemma takeWhile_digits:
  assumes "\<forall>c \<in> set ds. is_digit c" and "rest = [] \<or> \<not> is_digit (hd rest)"
  shows "takeWhile is_digit (ds @ rest) = ds" "dropWhile is_digit (ds @ rest) = rest"
  using assms by (cases rest; auto simp: takeWhile_append dropWhile_append)+

lemma show_nat_start:
  "\<exists>c ds. show_nat n = c # ds \<and> \<not> is_space c \<and> c \<noteq> CHR ''-'' \<and> c \<noteq> CHR ''+''"
proof (induction n rule: show_nat.induct)
  case (1 n)
  then show ?case by (subst show_nat.simps) auto
qed

lemma scan_sign_show_int:
  "scan_sign (dropWhile is_space (show_int i @ r)) = (i < 0, show_nat (nat \<bar>i\<bar>) @ r)"
  using show_nat_start [of "nat i"]
  by (auto simp: show_int_def scan_sign_def is_space_def)

lemma clip_long_id: "is_int32 i \<Longrightarrow> clip_long i = i"
  by (simp add: is_int32_def clip_long_def)

text \<open>Scanning what was printed gives it back.\<close>

lemma scan_d_show_int:
  assumes "is_int32 i" and "rest = [] \<or> \<not> is_digit (hd rest)"
  shows "scan_d (show_int i @ rest) = Some (i, rest)"
  using takeWhile_digits [OF show_nat_digits assms(2)] assms(1)
  by (auto simp: scan_d_def scan_sign_show_int clip_long_id s32_id Let_def)

lemma scan_d_space: "scan_d (CHR '' '' # s) = scan_d s"
  by (simp add: scan_d_def is_space_def)

section \<open>Searching and comparing\<close>

text \<open>\<open>strstr (s, pat)\<close>: the rest of \<open>s\<close> from the first occurrence on.\<close>

fun strstr :: "string \<Rightarrow> string \<Rightarrow> string option" where
  "strstr [] pat = (if pat = [] then Some [] else None)"
| "strstr (c # s) pat = (if take (length pat) (c # s) = pat then Some (c # s) else strstr s pat)"

text \<open>\<open>strrchr (s, c)\<close> as the bytes before the last occurrence and those after it.\<close>

definition strrchr :: "string \<Rightarrow> char \<Rightarrow> (string \<times> string) option" where
  "strrchr s c =
     (if c \<in> set s
      then Some (rev (tl (dropWhile (\<lambda>x. x \<noteq> c) (rev s))), rev (takeWhile (\<lambda>x. x \<noteq> c) (rev s)))
      else None)"

text \<open>\<open>strncmp (a, b, n) == 0\<close>.\<close>

definition strn_eq :: "string \<Rightarrow> string \<Rightarrow> nat \<Rightarrow> bool" where
  "strn_eq a b n \<longleftrightarrow> take n a = take n b"

lemma strstr_char:
  "strstr s [c] = (if c \<in> set s then Some (dropWhile (\<lambda>x. x \<noteq> c) s) else None)"
  by (induction s) auto

lemma strstr_char_skip: "c \<notin> set xs \<Longrightarrow> strstr (xs @ c # ys) [c] = Some (c # ys)"
  by (induction xs) auto

end
