(* ===== verification/IvyBind.thy ===== *)
theory IvyBind
  imports CText
begin

text \<open>
  Bindings and the subscription filter of \<open>ivybind.c\<close> (the PCRE build). The regular expression
  library is a parameter: \<open>rx_compile\<close> is \<open>None\<close> when PCRE accepts a pattern and otherwise the
  error offset and message, \<open>rx_exec\<close> is what \<open>pcre_exec\<close> returns for a compiled pattern and a
  subject, with the pairs it leaves in the output vector. A compiled pattern is known by its
  source, and the \<open>NULL\<close> binding is \<open>None\<close>.
\<close>

section \<open>Bindings\<close>

record regex_engine =
  rx_compile :: "string \<Rightarrow> (int \<times> string) option"
  rx_exec :: "string \<Rightarrow> string \<Rightarrow> int \<times> (int \<times> int) list"

record binding =
  bd_regexp :: string
  bd_nb_match :: int
  bd_ovector :: "(int \<times> int) list"

text \<open>The binding, or the offset and the message of the error.\<close>

definition IvyBindingCompile :: "regex_engine \<Rightarrow> string \<Rightarrow> (int \<times> string) + binding" where
  "IvyBindingCompile rx expression =
     (case rx_compile rx expression of
        None \<Rightarrow> Inr \<lparr>bd_regexp = expression, bd_nb_match = 0, bd_ovector = []\<rparr>
      | Some err \<Rightarrow> Inl err)"

definition IvyBindingExec ::
    "regex_engine \<Rightarrow> binding option \<Rightarrow> string \<Rightarrow> int \<times> binding option" where
  "IvyBindingExec rx bind message =
     (case bind of None \<Rightarrow> (0, None)
      | Some b \<Rightarrow>
          let (nb_match, ov) = rx_exec rx (bd_regexp b) message
          in if nb_match < 1 then (0, Some (b\<lparr>bd_ovector := ov\<rparr>))
             else (nb_match, Some (b\<lparr>bd_ovector := ov, bd_nb_match := nb_match\<rparr>)))"

text \<open>
  The length of a captured group and its offset in the message. Reading past the output vector
  is undefined.
\<close>

definition IvyBindingMatch :: "binding option \<Rightarrow> nat \<Rightarrow> (int \<times> int) res" where
  "IvyBindingMatch bind argnum =
     (case bind of None \<Rightarrow> Inl NullDeref
      | Some b \<Rightarrow> if argnum < length (bd_ovector b)
          then let (so, eo) = bd_ovector b ! argnum in Inr (eo - so, so)
          else Inl OutOfBounds)"

text \<open>
  \<open>printf ("%.*s", arglen, message + off)\<close>: a negative precision prints the whole string and a
  precision of 0 reads nothing.
\<close>

definition printf_arg :: "string \<Rightarrow> int \<times> int \<Rightarrow> string res" where
  "printf_arg message p =
     (let (arglen, off) = p
      in if arglen = 0 then Inr []
         else if off < 0 \<or> int (length message) < off then Inl OutOfBounds
         else if arglen < 0 then Inr (drop (nat off) message)
         else Inr (take (nat arglen) (drop (nat off) message)))"

section \<open>The filter\<close>

record filter_state =
  messages_classes :: "string list"
  token_extract :: "binding option"

definition no_filter :: filter_state where
  "no_filter = \<lparr>messages_classes = [], token_extract = None\<rparr>"

definition TOKEN_REGEXP :: string where
  "TOKEN_REGEXP = ''^'' @ [CHR 0x5C] @ ''^([a-zA-Z_0-9-]+).*''"

definition IvyBindingAddFilter :: "regex_engine \<Rightarrow> string option \<Rightarrow> filter_state \<Rightarrow> filter_state" where
  "IvyBindingAddFilter rx arg f =
     (let f = (case arg of None \<Rightarrow> f
               | Some w \<Rightarrow> f\<lparr>messages_classes := w # messages_classes f\<rparr>)
      in if token_extract f = None
         then f\<lparr>token_extract := (case IvyBindingCompile rx TOKEN_REGEXP of
                   Inl _ \<Rightarrow> None | Inr b \<Rightarrow> Some b)\<rparr>
         else f)"

definition IvyBindingSetFilter :: "regex_engine \<Rightarrow> string list \<Rightarrow> filter_state \<Rightarrow> filter_state" where
  "IvyBindingSetFilter rx argv f = fold (\<lambda>a. IvyBindingAddFilter rx (Some a)) argv f"

definition IvyBindingRemoveFilter :: "string \<Rightarrow> filter_state \<Rightarrow> filter_state" where
  "IvyBindingRemoveFilter arg f =
     f\<lparr>messages_classes := filter (\<lambda>w. w \<noteq> arg) (messages_classes f)\<rparr>"

definition IvyBindingFilter :: "regex_engine \<Rightarrow> filter_state \<Rightarrow> string \<Rightarrow> bool res" where
  "IvyBindingFilter rx f expression =
     (if take 1 expression = ''^'' \<and> messages_classes f \<noteq> []
      then let (err, tok) = IvyBindingExec rx (token_extract f) expression
           in if err < 1 then Inr True
              else bindR (IvyBindingMatch tok 1) (\<lambda>(tokenlen, off).
                   Inr (find (\<lambda>w. strn_eq w (drop (nat off) expression) (nat tokenlen))
                          (messages_classes f) \<noteq> None))
      else Inr True)"

text \<open>Whether the warning about a missing keyword is printed.\<close>

definition IvyBindindFilterCheck :: "filter_state \<Rightarrow> string \<Rightarrow> bool" where
  "IvyBindindFilterCheck f message \<longleftrightarrow>
     find (\<lambda>w. w = message) (messages_classes f) = None"

definition IvyBindingTerminate :: "filter_state \<Rightarrow> filter_state" where
  "IvyBindingTerminate f = f\<lparr>messages_classes := []\<rparr>"

section \<open>What PCRE answers for the token pattern\<close>

definition is_word :: "char \<Rightarrow> bool" where
  "is_word c \<longleftrightarrow> c \<in> set ''abcdefghijklmnopqrstuvwxyzABCDEFGHIJKLMNOPQRSTUVWXYZ_0123456789-''"

text \<open>
  The documented answer: no match unless a caret is followed by a word character; otherwise the
  match extends to the end of the line and group 1 is the longest run of word characters.
\<close>

definition token_match :: "string \<Rightarrow> int \<times> (int \<times> int) list" where
  "token_match e =
     (case e of [] \<Rightarrow> (-1, [])
      | c # r \<Rightarrow>
          if c = CHR ''^'' \<and> takeWhile is_word r \<noteq> []
          then (2, [(0, int (length (takeWhile (\<lambda>x. x \<noteq> CHR 0x0A) e))),
                    (1, 1 + int (length (takeWhile is_word r)))])
          else (-1, []))"

lemma find_eq_Some_iff: "(\<exists>y. find P xs = Some y) \<longleftrightarrow> (\<exists>x \<in> set xs. P x)"
  by (induction xs) auto

lemma strn_eq_prefix: "strn_eq w (kw @ rest) (length kw) \<longleftrightarrow> (\<exists>more. w = kw @ more)"
proof
  assume "strn_eq w (kw @ rest) (length kw)"
  then have "w = kw @ drop (length kw) w"
    unfolding strn_eq_def by (metis append_take_drop_id append_eq_conv_conj)
  then show "\<exists>more. w = kw @ more" by blast
qed (auto simp: strn_eq_def)

lemma AddFilter_token:
  "rx_compile rx TOKEN_REGEXP = None \<Longrightarrow> token_extract f = None \<or>
     (\<exists>b. token_extract f = Some b \<and> bd_regexp b = TOKEN_REGEXP) \<Longrightarrow>
   \<exists>b. token_extract (IvyBindingAddFilter rx a f) = Some b \<and> bd_regexp b = TOKEN_REGEXP"
  by (auto simp: IvyBindingAddFilter_def IvyBindingCompile_def Let_def split: option.splits)

lemma AddFilter_classes:
  "messages_classes (IvyBindingAddFilter rx (Some a) f) = a # messages_classes f"
  by (auto simp: IvyBindingAddFilter_def Let_def)

lemma SetFilter_inv:
  assumes "rx_compile rx TOKEN_REGEXP = None"
    and "token_extract f = None \<or> (\<exists>b. token_extract f = Some b \<and> bd_regexp b = TOKEN_REGEXP)"
  shows "messages_classes (IvyBindingSetFilter rx argv f) = rev argv @ messages_classes f \<and>
     (argv = [] \<or>
      (\<exists>b. token_extract (IvyBindingSetFilter rx argv f) = Some b \<and> bd_regexp b = TOKEN_REGEXP))"
  using assms(2) unfolding IvyBindingSetFilter_def
proof (induction argv arbitrary: f)
  case (Cons a argv)
  from AddFilter_token [OF assms(1) Cons.prems, of "Some a"]
  obtain b where b: "token_extract (IvyBindingAddFilter rx (Some a) f) = Some b"
    "bd_regexp b = TOKEN_REGEXP" by blast
  with Cons.IH [of "IvyBindingAddFilter rx (Some a) f"] show ?case
    by (cases argv) (auto simp: AddFilter_classes)
qed simp

section \<open>Properties\<close>

text \<open>
  What \<open>IvyBindingSetFilter\<close> installs decides a subscription: a pattern that starts with a
  caret and a keyword is accepted exactly when the keyword is one of the classes of messages
  the application says it sends, or the beginning of one.
\<close>
theorem filter_decides_by_keyword:
  assumes "rx_compile rx TOKEN_REGEXP = None" and "\<forall>e. rx_exec rx TOKEN_REGEXP e = token_match e"
    and "argv \<noteq> []" and "kw \<noteq> []" and "\<forall>c \<in> set kw. is_word c"
    and "rest = [] \<or> \<not> is_word (hd rest)"
  shows "IvyBindingFilter rx (IvyBindingSetFilter rx argv no_filter) (CHR ''^'' # kw @ rest) =
           Inr (\<exists>w \<in> set argv. \<exists>more. w = kw @ more)"
proof -
  let ?f = "IvyBindingSetFilter rx argv no_filter"
  from SetFilter_inv [OF assms(1), of no_filter argv] assms(3)
  obtain b where f: "messages_classes ?f = rev argv" "token_extract ?f = Some b"
    "bd_regexp b = TOKEN_REGEXP" by (auto simp: no_filter_def)
  have tw: "takeWhile is_word (kw @ rest) = kw"
    using assms(5,6) by (cases rest) (auto simp: takeWhile_append)
  have tm: "\<exists>e. token_match (CHR ''^'' # kw @ rest) = (2, [(0, e), (1, 1 + int (length kw))])"
    using assms(4) tw by (simp add: token_match_def)
  with f assms(2,3) show ?thesis
    by (fastforce simp: IvyBindingFilter_def IvyBindingExec_def IvyBindingMatch_def
        find_eq_Some_iff strn_eq_prefix)
qed

definition token_engine :: regex_engine where
  "token_engine = \<lparr>rx_compile = (\<lambda>_. None), rx_exec = (\<lambda>_. token_match)\<rparr>"

theorem filter_decides_by_keyword_witness:
  "IvyBindingFilter token_engine (IvyBindingSetFilter token_engine [''Plane'', ''Clock''] no_filter)
     ''^Clock (.*)'' = Inr True"
  using filter_decides_by_keyword [of token_engine "[''Plane'', ''Clock'']" "''Clock''" "'' (.*)''"]
  by (simp add: token_engine_def is_word_def)

text \<open>
  The warning about a message that matched nobody is meant for messages that do not begin
  with a keyword of the table, but the code compares the keyword with the whole message: a
  message made of a keyword and anything else is always reported as missing from the table,
  unless it is itself one of the keywords.
\<close>
theorem filter_check_wants_whole_message:
  "IvyBindindFilterCheck (IvyBindingSetFilter rx argv f) message \<longleftrightarrow>
     message \<notin> set argv \<and> message \<notin> set (messages_classes f)"
proof -
  have "messages_classes (IvyBindingSetFilter rx argv f) = rev argv @ messages_classes f"
    unfolding IvyBindingSetFilter_def by (induction argv arbitrary: f) (auto simp: AddFilter_classes)
  then show ?thesis
    by (auto simp: IvyBindindFilterCheck_def find_None_iff)
qed

end
