(* ===== verification/IvyDict.thy ===== *)
theory IvyDict
  imports IvySocket IvyTimer IvyBind
begin

text \<open>
  The statics of \<open>ivy.c\<close> and its dictionary of subscriptions. The dictionary \<open>messSndByRegexp\<close>
  is a \<open>uthash\<close> table: an association from the source of a regular expression to its entry,
  walked in the order of insertion through \<open>hh.next\<close>; here it is the list of its entries. The
  nodes of a \<open>clientList\<close> are reached only through their list and are kept by value; the nodes
  of \<open>allClients\<close> and of a \<open>srcRegList\<close> carry their address, because the code keeps pointers to
  them. Calls of application callbacks are recorded in \<open>events\<close>.
\<close>

section \<open>State\<close>

datatype MsgType = Bye | AddRegexp | Msg | Error | DelRegexp | EndRegexp | StartRegexp
  | DirectMsg | Die | Ping | Pong

fun msg_code :: "MsgType \<Rightarrow> int" where
  "msg_code Bye = 0" | "msg_code AddRegexp = 1" | "msg_code Msg = 2" | "msg_code Error = 3"
| "msg_code DelRegexp = 4" | "msg_code EndRegexp = 5" | "msg_code StartRegexp = 6"
| "msg_code DirectMsg = 7" | "msg_code Die = 8" | "msg_code Ping = 9" | "msg_code Pong = 10"

definition ARG_START :: char where "ARG_START = CHR 0x02"
definition ARG_END :: char where "ARG_END = CHR 0x03"
definition NL :: char where "NL = CHR 0x0A"

record greg =                     \<comment> \<open>\<open>struct _global_reg_lst\<close>\<close>
  gr_addr :: nat
  gr_str_regexp :: string
  gr_id :: int

record dclient =                  \<comment> \<open>\<open>struct _clnt_lst_dict\<close> in a \<open>clientList\<close>\<close>
  dc_client :: nat
  dc_app_name :: string
  dc_app_port :: nat
  dc_id :: int

record dentry =                   \<comment> \<open>\<open>struct _msg_snd_dict\<close>\<close>
  d_regexp_src :: string
  d_clientList :: "dclient list"
  d_binding :: "binding option"

record clnt =                     \<comment> \<open>\<open>struct _clnt_lst_dict\<close> in \<open>allClients\<close>\<close>
  c_ptr :: nat
  c_client :: nat
  c_app_name :: string
  c_app_port :: nat
  c_id :: int
  c_srcRegList :: "greg list"
  c_readyToSend :: int
  c_ignore_subsequent_msg :: bool
  c_ping_ts :: "int \<times> int"
  c_ping_id :: int

record msg_rcv =
  mr_ptr :: nat
  mr_id :: int
  mr_regexp :: string
  mr_callback :: bool

datatype app_event = IvyApplicationConnected | IvyApplicationDisconnected
  | IvyApplicationCongestion | IvyApplicationDecongestion | IvyApplicationFifoFull

datatype bind_event = IvyAddBind | IvyRemoveBind | IvyFilterBind | IvyChangeBind

text \<open>Who an event is about: a node of \<open>allClients\<close>, or one of a \<open>clientList\<close> (socket and id).\<close>

datatype app_ref = AppNode nat | DictNode nat int

datatype event = AppEvent app_ref app_event
  | BindEvent nat int string bind_event
  | MsgEvent nat int "string list"
  | DirectEvent nat int string
  | DieEvent nat int
  | PongEvent nat int
  | TimerEvent nat nat
  | FilterWarning string

record ivy = sockst +
  allClients :: "clnt list"
  messSndByRegexp :: "dentry list"
  msg_recv :: "msg_rcv list"
  recv_id :: int
  filters :: filter_state
  ipv6 :: bool
  srv :: nat                      \<comment> \<open>\<open>server\<close>\<close>
  bcast :: nat                    \<comment> \<open>\<open>broadcast\<close>\<close>
  ApplicationPort :: nat
  SupervisionPort :: nat
  ApplicationName :: "string option"
  ApplicationID :: "string option"
  ready_message :: "string option"
  app_cb :: bool                  \<comment> \<open>\<open>application_callback != NULL\<close>\<close>
  bind_cb :: bool
  die_cb :: bool
  pong_cb :: bool
  direct_cb :: bool
  debug_filter :: bool
  debug_binary_msg :: bool
  tmr :: timer_state
  now :: "int \<times> int"              \<comment> \<open>\<open>gettimeofday\<close>\<close>
  events :: "event list"
  exited :: bool

definition emit :: "event \<Rightarrow> ivy \<Rightarrow> ivy" where
  "emit e s = s\<lparr>events := events s @ [e]\<rparr>"

definition emit_if :: "bool \<Rightarrow> event \<Rightarrow> ivy \<Rightarrow> ivy" where
  "emit_if b e s = (if b then emit e s else s)"

section \<open>Messages of the protocol\<close>

definition wire_header :: "MsgType \<Rightarrow> int \<Rightarrow> string" where
  "wire_header t i = show_int (msg_code t) @ CHR '' '' # show_int i @ [ARG_START]"

definition MsgSendTo ::
    "nat \<Rightarrow> nat \<Rightarrow> MsgType \<Rightarrow> int \<Rightarrow> string \<Rightarrow> ivy \<Rightarrow> (SendState \<times> ivy) res" where
  "MsgSendTo ptr client msgtype i message s =
     bindR (SocketSend client (wire_header msgtype i @ message @ [NL]) s) (\<lambda>(state, s).
       Inr (state,
         if state = SendStateChangeToCongestion
         then emit_if (app_cb s) (AppEvent (AppNode ptr) IvyApplicationCongestion) s
         else if state = SendStateFifoFull
         then emit_if (app_cb s) (AppEvent (AppNode ptr) IvyApplicationFifoFull) s
         else s))"

text \<open>The call as a statement.\<close>

definition msg_to :: "nat \<Rightarrow> nat \<Rightarrow> MsgType \<Rightarrow> int \<Rightarrow> string \<Rightarrow> ivy \<Rightarrow> ivy res" where
  "msg_to ptr client msgtype i message s =
     bindR (MsgSendTo ptr client msgtype i message s) (\<lambda>(_, s). Inr s)"

section \<open>Clients\<close>

definition find_clnt :: "nat \<Rightarrow> ivy \<Rightarrow> clnt option" where
  "find_clnt ptr s = find (\<lambda>c. c_ptr c = ptr) (allClients s)"

text \<open>\<open>IVY_LIST_ITER (allClients, client_itr, client_itr->client != client)\<close>.\<close>

definition find_by_socket :: "nat \<Rightarrow> ivy \<Rightarrow> clnt option" where
  "find_by_socket client s = find (\<lambda>c. c_client c = client) (allClients s)"

definition upd_clnt :: "nat \<Rightarrow> (clnt \<Rightarrow> clnt) \<Rightarrow> ivy \<Rightarrow> ivy" where
  "upd_clnt ptr f s =
     s\<lparr>allClients := map (\<lambda>c. if c_ptr c = ptr then f c else c) (allClients s)\<rparr>"

section \<open>The dictionary\<close>

definition hash_find :: "string \<Rightarrow> dentry list \<Rightarrow> dentry option" where
  "hash_find regexp d = find (\<lambda>e. d_regexp_src e = regexp) d"

text \<open>
  The removal of some clients from one entry, which goes away when no client is left.
\<close>

definition purge_entry :: "(dclient \<Rightarrow> bool) \<Rightarrow> dentry \<Rightarrow> dentry option" where
  "purge_entry P e =
     (let l = filter (\<lambda>c. \<not> P c) (d_clientList e)
      in if l = [] then None else Some (e\<lparr>d_clientList := l\<rparr>))"

definition delOneIvyClientFromDictionaryEntry ::
    "string \<Rightarrow> nat \<Rightarrow> int \<Rightarrow> dentry list \<Rightarrow> dentry list" where
  "delOneIvyClientFromDictionaryEntry regexp client i =
     List.map_filter (\<lambda>e. if d_regexp_src e = regexp
       then purge_entry (\<lambda>c. dc_client c = client \<and> dc_id c = i) e else Some e)"

definition delRegexpForOneClientFromDictionary ::
    "string \<Rightarrow> nat \<Rightarrow> int \<Rightarrow> dentry list \<Rightarrow> dentry list" where
  "delRegexpForOneClientFromDictionary regexp client i d =
     (case hash_find regexp d of None \<Rightarrow> d
      | Some _ \<Rightarrow> delOneIvyClientFromDictionaryEntry regexp client i d)"

definition delOneClientFromDictionaryEntry :: "nat \<Rightarrow> dentry \<Rightarrow> dentry option" where
  "delOneClientFromDictionaryEntry client e = purge_entry (\<lambda>c. dc_client c = client) e"

definition delAllRegexpsFromDictionary :: "ivy \<Rightarrow> ivy" where
  "delAllRegexpsFromDictionary s = s\<lparr>messSndByRegexp := []\<rparr>"

definition compile_error :: "string \<Rightarrow> string \<Rightarrow> string" where
  "compile_error regexp err = ''Error compiling '' @ [CHR 0x27] @ regexp @ [CHR 0x27] @ '', '' @ err"

text \<open>\<open>sprintf\<close> into \<open>errorbuffer\<close>, which has 1024 bytes.\<close>

definition new_entry :: "regex_engine \<Rightarrow> string \<Rightarrow> clnt \<Rightarrow> ivy \<Rightarrow> (dentry \<times> ivy) res" where
  "new_entry rx regexp cl s =
     (case IvyBindingCompile rx regexp of
        Inr b \<Rightarrow> Inr (\<lparr>d_regexp_src = regexp, d_clientList = [], d_binding = Some b\<rparr>, s)
      | Inl (erroffset, errbuf) \<Rightarrow>
          let errorbuffer = compile_error regexp errbuf
          in if length errorbuffer \<ge> 1024 then Inl OutOfBounds
             else bindR (msg_to (c_ptr cl) (c_client cl) Error erroffset errorbuffer s) (\<lambda>s.
               Inr (\<lparr>d_regexp_src = regexp, d_clientList = [], d_binding = None\<rparr>, s)))"

definition dict_client :: "clnt \<Rightarrow> dclient" where
  "dict_client cl = \<lparr>dc_client = c_client cl, dc_app_name = c_app_name cl,
     dc_app_port = c_app_port cl, dc_id = c_id cl\<rparr>"

definition subscribe :: "string \<Rightarrow> dclient \<Rightarrow> dentry list \<Rightarrow> dentry list" where
  "subscribe regexp dc = map (\<lambda>e. if d_regexp_src e = regexp
     then e\<lparr>d_clientList := dc # d_clientList e\<rparr> else e)"

definition addRegexpToDictionary :: "regex_engine \<Rightarrow> string \<Rightarrow> clnt \<Rightarrow> ivy \<Rightarrow> ivy res" where
  "addRegexpToDictionary rx regexp cl s =
     bindR (case hash_find regexp (messSndByRegexp s) of
              Some _ \<Rightarrow> Inr s
            | None \<Rightarrow> bindR (new_entry rx regexp cl s) (\<lambda>(e, s).
                Inr (s\<lparr>messSndByRegexp := messSndByRegexp s @ [e]\<rparr>)))
       (\<lambda>s. Inr (s\<lparr>messSndByRegexp := subscribe regexp (dict_client cl) (messSndByRegexp s)\<rparr>))"

definition changeRegexpInDictionary :: "regex_engine \<Rightarrow> string \<Rightarrow> clnt \<Rightarrow> ivy \<Rightarrow> ivy res" where
  "changeRegexpInDictionary rx regexp cl s =
     addRegexpToDictionary rx regexp cl
       (s\<lparr>messSndByRegexp := delRegexpForOneClientFromDictionary regexp (c_client cl) (c_id cl)
            (messSndByRegexp s)\<rparr>)"

section \<open>The lists of regexps of the clients\<close>

text \<open>The boolean is the result: a regexp with this id was found.\<close>

definition delRegexpForOneClient :: "clnt \<Rightarrow> int \<Rightarrow> ivy \<Rightarrow> bool \<times> ivy" where
  "delRegexpForOneClient cl i s =
     (case find_by_socket (c_client cl) s of
        None \<Rightarrow> (False, s)
      | Some itr \<Rightarrow>
          let found = filter (\<lambda>g. gr_id g = i) (c_srcRegList itr)
          in (found \<noteq> [],
              upd_clnt (c_ptr itr)
                (\<lambda>c. c\<lparr>c_srcRegList := filter (\<lambda>g. gr_id g \<noteq> i) (c_srcRegList c)\<rparr>)
                (s\<lparr>messSndByRegexp := fold (\<lambda>g. delRegexpForOneClientFromDictionary
                     (gr_str_regexp g) (c_client cl) (c_id cl)) found (messSndByRegexp s)\<rparr>)))"

definition addRegexp :: "regex_engine \<Rightarrow> string \<Rightarrow> clnt \<Rightarrow> ivy \<Rightarrow> ivy res" where
  "addRegexp rx regexp cl s =
     bindR (addRegexpToDictionary rx regexp cl s) (\<lambda>s.
       case find_by_socket (c_client cl) s of
         None \<Rightarrow> Inl NullDeref
       | Some itr \<Rightarrow>
           Inr (emit_if (bind_cb s) (BindEvent (c_ptr cl) (c_id cl) regexp IvyAddBind)
             (upd_clnt (c_ptr itr) (\<lambda>c. c\<lparr>c_srcRegList :=
                  \<lparr>gr_addr = fresh s, gr_str_regexp = regexp, gr_id = c_id cl\<rparr> # c_srcRegList c\<rparr>)
               (s\<lparr>fresh := fresh s + 1\<rparr>))))"

definition changeRegexp :: "regex_engine \<Rightarrow> string \<Rightarrow> clnt \<Rightarrow> ivy \<Rightarrow> ivy res" where
  "changeRegexp rx regexp cl s =
     bindR (changeRegexpInDictionary rx regexp cl s) (\<lambda>s.
       Inr (emit_if (bind_cb s) (BindEvent (c_ptr cl) (c_id cl) regexp IvyChangeBind)
         (case find_by_socket (c_client cl) s of
            None \<Rightarrow> s
          | Some itr \<Rightarrow> upd_clnt (c_ptr itr) (\<lambda>c. c\<lparr>c_srcRegList :=
              map (\<lambda>g. if gr_id g = c_id cl then g\<lparr>gr_str_regexp := regexp\<rparr> else g)
                (c_srcRegList c)\<rparr>) s)))"

definition addOrChangeRegexp :: "regex_engine \<Rightarrow> string \<Rightarrow> clnt \<Rightarrow> ivy \<Rightarrow> ivy res" where
  "addOrChangeRegexp rx regexp cl s =
     (case hash_find regexp (messSndByRegexp s) of
        None \<Rightarrow> addRegexp rx regexp cl s
      | Some e \<Rightarrow>
          (case find (\<lambda>c. dc_client c = c_client cl) (d_clientList e) of
             None \<Rightarrow> addRegexp rx regexp cl s
           | Some dc \<Rightarrow> if dc_id dc = c_id cl then changeRegexp rx regexp cl s
                        else addRegexp rx regexp cl s))"

text \<open>
  \<open>delOneClient\<close>: the inner traversal walks the list of regexps of the client and calls
  \<open>delRegexpForOneClient\<close>, which frees nodes of that very list.
\<close>

definition reg_addrs :: "nat \<Rightarrow> ivy \<Rightarrow> nat list" where
  "reg_addrs ptr s =
     (case find_clnt ptr s of None \<Rightarrow> [] | Some c \<Rightarrow> map gr_addr (c_srcRegList c))"

definition drop_reg :: "nat \<Rightarrow> nat \<Rightarrow> ivy \<Rightarrow> ivy res" where
  "drop_reg ptr addr s =
     (case find_clnt ptr s of None \<Rightarrow> Inl UseAfterFree
      | Some c \<Rightarrow>
          (case find (\<lambda>g. gr_addr g = addr) (c_srcRegList c) of None \<Rightarrow> Inl UseAfterFree
           | Some g \<Rightarrow> Inr (snd (delRegexpForOneClient c (gr_id g) s))))"

definition client_ptrs :: "ivy \<Rightarrow> nat list" where
  "client_ptrs s = map c_ptr (allClients s)"

definition drop_client :: "nat \<Rightarrow> nat \<Rightarrow> ivy \<Rightarrow> ivy res" where
  "drop_client client ptr s =
     (case find_clnt ptr s of None \<Rightarrow> Inl UseAfterFree
      | Some c \<Rightarrow>
          if c_client c = client
          then bindR (IVY_LIST_EACH_SAFE (reg_addrs ptr) (drop_reg ptr) s) (\<lambda>s.
                 Inr (s\<lparr>allClients := filter (\<lambda>c. c_ptr c \<noteq> ptr) (allClients s)\<rparr>))
          else Inr s)"

text \<open>The last loop of \<open>delOneClient\<close>.\<close>

definition purge_client :: "nat \<Rightarrow> dentry list \<Rightarrow> dentry list" where
  "purge_client client = List.map_filter (delOneClientFromDictionaryEntry client)"

definition delOneClient :: "nat \<Rightarrow> ivy \<Rightarrow> ivy res" where
  "delOneClient client s =
     bindR (IVY_LIST_EACH_SAFE client_ptrs (drop_client client) s) (\<lambda>s.
       Inr (s\<lparr>messSndByRegexp := purge_client client (messSndByRegexp s)\<rparr>))"

section \<open>What sending a protocol message changes\<close>

definition talk :: "ivy \<Rightarrow> ivy \<Rightarrow> bool" where
  "talk s t \<longleftrightarrow> send_frame s (t\<lparr>events := events s\<rparr>)"

lemma talkE:
  assumes "talk s t"
  obtains l n k ev where "t = s\<lparr>lp := l, net := n, socks := k, events := ev\<rparr>"
    "channels_list l = channels_list (lp s)"
proof -
  from assms obtain l n k where t: "t\<lparr>events := events s\<rparr> = s\<lparr>lp := l, net := n, socks := k\<rparr>"
    and l: "channels_list (lp t) = channels_list (lp s)" by (auto simp: talk_def send_frame_def)
  have "t = t\<lparr>events := events s\<rparr>\<lparr>events := events t\<rparr>" by simp
  also have "\<dots> = s\<lparr>lp := l, net := n, socks := k, events := events t\<rparr>" unfolding t by simp
  finally have t2: "t = s\<lparr>lp := l, net := n, socks := k, events := events t\<rparr>" .
  moreover have "lp t = l" by (subst t2) simp
  ultimately show thesis using that l by blast
qed

lemma talk_refl [simp]: "talk s s"
  by (simp add: talk_def)

lemma send_frame_events:
  assumes "send_frame (s :: ivy) t"
  shows "send_frame (s\<lparr>events := e\<rparr>) (t\<lparr>events := e\<rparr>)"
proof -
  from assms obtain l n k where t: "t = s\<lparr>lp := l, net := n, socks := k\<rparr>"
    by (auto simp: send_frame_def)
  then have "t\<lparr>events := e\<rparr> = s\<lparr>events := e\<rparr>\<lparr>lp := l, net := n, socks := k\<rparr>"
    by (cases s) simp
  then have "\<exists>l n k. t\<lparr>events := e\<rparr> = s\<lparr>events := e\<rparr>\<lparr>lp := l, net := n, socks := k\<rparr>" by blast
  with assms show ?thesis by (simp add: send_frame_def)
qed

lemma talk_trans: "talk s t \<Longrightarrow> talk t u \<Longrightarrow> talk s u"
  unfolding talk_def
  using send_frame_events [of t "u\<lparr>events := events t\<rparr>" "events s"] send_frame_trans by auto

lemma talk_emit [simp]: "talk s (emit e s)" "talk s (emit_if b e s)"
  by (simp_all add: talk_def emit_def emit_if_def)

lemma talk_fields [frame_simps]:
  assumes "talk s t"
  shows "allClients t = allClients s" "messSndByRegexp t = messSndByRegexp s"
    "msg_recv t = msg_recv s" "filters t = filters s" "bind_cb t = bind_cb s" "app_cb t = app_cb s"
    "fresh t = fresh s" "arrivals t = arrivals s" "ready_message t = ready_message s"
    "clients_list t = clients_list s" "exited t = exited s" "srv t = srv s" "bcast t = bcast s"
    "debug_filter t = debug_filter s" "channels_list (lp t) = channels_list (lp s)"
    "socks t c = None \<longleftrightarrow> socks s c = None"
proof -
  from assms obtain l n k ev where t: "t = s\<lparr>lp := l, net := n, socks := k, events := ev\<rparr>"
    "channels_list l = channels_list (lp s)" by (rule talkE)
  then show "allClients t = allClients s" "messSndByRegexp t = messSndByRegexp s"
    "msg_recv t = msg_recv s" "filters t = filters s" "bind_cb t = bind_cb s" "app_cb t = app_cb s"
    "fresh t = fresh s" "arrivals t = arrivals s" "ready_message t = ready_message s"
    "clients_list t = clients_list s" "exited t = exited s" "srv t = srv s" "bcast t = bcast s"
    "debug_filter t = debug_filter s" "channels_list (lp t) = channels_list (lp s)"
    by simp_all
  show "socks t c = None \<longleftrightarrow> socks s c = None"
    using send_frame_dom assms [unfolded talk_def] by fastforce
qed

lemma talk_recv_id: "talk s t \<Longrightarrow> recv_id t = recv_id s"
  by (erule talkE) simp

lemma talk_keeps: "talk s t \<Longrightarrow> keeps s t"
  using keeps_send_frame [of s "t\<lparr>events := events s\<rparr>"]
  by (simp add: talk_def keeps_def fresh_ok_def)

lemma talk_send: "send_frame s t \<Longrightarrow> talk s t"
proof -
  assume a: "send_frame s t"
  then have "events t = events s" by (auto simp: send_frame_def)
  then have "t\<lparr>events := events s\<rparr> = t" by simp
  with a show ?thesis by (simp add: talk_def)
qed

lemma MsgSendTo_talk: "MsgSendTo p c t i m s = Inr (st, s') \<Longrightarrow> talk s s'"
  by (auto simp: MsgSendTo_def SocketSend_def bindR_eq_Inr split: if_splits
      dest!: Raw_frame talk_send intro: talk_trans)

lemma msg_to_talk: "msg_to p c t i m s = Inr s' \<Longrightarrow> talk s s'"
  by (auto simp: msg_to_def bindR_eq_Inr dest: MsgSendTo_talk)

section \<open>The dictionary as a set of subscriptions\<close>

text \<open>
  The contract of the dictionary: it is a set of triples of a pattern, a socket and an id, in
  which a subscription is entered or removed, and from which everything of a socket is purged.
\<close>

type_synonym subscription = "string \<times> nat \<times> int"

locale subscription_table =
  fixes inv :: "'d \<Rightarrow> bool" and subs :: "'d \<Rightarrow> subscription set"
    and remove :: "string \<Rightarrow> nat \<Rightarrow> int \<Rightarrow> 'd \<Rightarrow> 'd" and purge :: "nat \<Rightarrow> 'd \<Rightarrow> 'd"
  assumes remove_law: "inv d \<Longrightarrow> inv (remove r c i d) \<and> subs (remove r c i d) = subs d - {(r, c, i)}"
    and purge_law: "inv d \<Longrightarrow> inv (purge c d) \<and> subs (purge c d) = {x \<in> subs d. fst (snd x) \<noteq> c}"
begin

lemma fold_remove:
  "inv d \<Longrightarrow> inv (fold (\<lambda>x. remove (f x) c i) xs d) \<and>
     subs (fold (\<lambda>x. remove (f x) c i) xs d) = subs d - {(f x, c, i) | x. x \<in> set xs}"
  using remove_law by (induction xs arbitrary: d) auto

lemma purge_gone: "inv d \<Longrightarrow> (r, c, i) \<notin> subs (purge c d)"
  using purge_law by auto

lemma purge_others: "inv d \<Longrightarrow> c' \<noteq> c \<Longrightarrow> (r, c', i) \<in> subs (purge c d) \<longleftrightarrow> (r, c', i) \<in> subs d"
  using purge_law by auto

end

text \<open>The keys are distinct and no entry is without a client.\<close>

definition dict_inv :: "dentry list \<Rightarrow> bool" where
  "dict_inv d \<longleftrightarrow> distinct (map d_regexp_src d) \<and> (\<forall>e \<in> set d. d_clientList e \<noteq> [])"

definition entry_subs :: "dentry \<Rightarrow> subscription set" where
  "entry_subs e = (\<lambda>c. (d_regexp_src e, dc_client c, dc_id c)) ` set (d_clientList e)"

definition subs :: "dentry list \<Rightarrow> subscription set" where
  "subs d = (\<Union>e \<in> set d. entry_subs e)"

lemma map_filter_purge:
  assumes "dict_inv d" and f: "f = (\<lambda>e. if Q e then purge_entry P e else Some e)"
    and G: "\<And>e. G e = (if Q e
      then (\<lambda>c. (d_regexp_src e, dc_client c, dc_id c)) ` {c \<in> set (d_clientList e). \<not> P c}
      else entry_subs e)"
  shows "dict_inv (List.map_filter f d) \<and> subs (List.map_filter f d) = (\<Union>e \<in> set d. G e)"
  using assms(1)
proof (induction d)
  case Nil
  then show ?case by (simp add: dict_inv_def subs_def map_filter_simps)
next
  case (Cons e d)
  have IH: "dict_inv (List.map_filter f d)" "subs (List.map_filter f d) = (\<Union>e \<in> set d. G e)"
    using Cons by (auto simp: dict_inv_def)
  have keys: "d_regexp_src ` set (List.map_filter f d) \<subseteq> d_regexp_src ` set d"
    by (auto simp: map_filter_def f purge_entry_def Let_def split: if_splits)
  show ?case
  proof (cases "f e")
    case None
    then have "G e = {}"
      by (auto simp: G f purge_entry_def Let_def filter_empty_conv split: if_splits)
    then show ?thesis using IH None by (simp add: map_filter_simps)
  next
    case (Some e')
    then have e': "d_regexp_src e' = d_regexp_src e" "d_clientList e' \<noteq> []" "entry_subs e' = G e"
      using Cons.prems
      by (auto simp: G f purge_entry_def Let_def entry_subs_def dict_inv_def split: if_splits)
    have "d_regexp_src e \<notin> d_regexp_src ` set (List.map_filter f d)"
      using keys Cons.prems by (auto simp: dict_inv_def)
    then have "dict_inv (e' # List.map_filter f d)" using IH(1) e' by (simp add: dict_inv_def)
    moreover have "subs (e' # List.map_filter f d) = entry_subs e' \<union> subs (List.map_filter f d)"
      by (simp add: subs_def)
    ultimately show ?thesis using Some IH(2) e'(3) by (simp add: map_filter_simps)
  qed
qed

lemma hash_find_Some: "hash_find r d = Some e \<Longrightarrow> e \<in> set d \<and> d_regexp_src e = r"
  unfolding hash_find_def by (rule find_Some_mem)

lemma hash_find_None: "hash_find r d = None \<longleftrightarrow> r \<notin> d_regexp_src ` set d"
  by (auto simp: hash_find_def find_None_iff)

lemma remove_subs:
  assumes "dict_inv d"
  shows "dict_inv (delRegexpForOneClientFromDictionary r c i d) \<and>
         subs (delRegexpForOneClientFromDictionary r c i d) = subs d - {(r, c, i)}"
proof (cases "hash_find r d")
  case None
  then have "(r, c, i) \<notin> subs d" by (auto simp: hash_find_None subs_def entry_subs_def)
  with None assms show ?thesis by (simp add: delRegexpForOneClientFromDictionary_def)
next
  case (Some e)
  have "dict_inv (delOneIvyClientFromDictionaryEntry r c i d) \<and>
      subs (delOneIvyClientFromDictionaryEntry r c i d) = (\<Union>e \<in> set d. entry_subs e - {(r, c, i)})"
    unfolding delOneIvyClientFromDictionaryEntry_def
    by (rule map_filter_purge [OF assms refl]) (auto simp: entry_subs_def)
  with Some show ?thesis
    by (auto simp: delRegexpForOneClientFromDictionary_def subs_def)
qed

lemma purge_subs:
  assumes "dict_inv d"
  shows "dict_inv (purge_client c d) \<and> subs (purge_client c d) = {x \<in> subs d. fst (snd x) \<noteq> c}"
proof -
  have f: "delOneClientFromDictionaryEntry c =
      (\<lambda>e. if True then purge_entry (\<lambda>x. dc_client x = c) e else Some e)"
    by (auto simp: delOneClientFromDictionaryEntry_def)
  have "{x \<in> entry_subs e. fst (snd x) \<noteq> c} =
      (\<lambda>x. (d_regexp_src e, dc_client x, dc_id x)) ` {x \<in> set (d_clientList e). dc_client x \<noteq> c}" for e
    unfolding entry_subs_def by force
  then have "dict_inv (purge_client c d) \<and>
      subs (purge_client c d) = (\<Union>e \<in> set d. {x \<in> entry_subs e. fst (snd x) \<noteq> c})"
    unfolding purge_client_def
    by (intro map_filter_purge [where Q = "\<lambda>_. True" and P = "\<lambda>x. dc_client x = c", OF assms f]) simp
  then show ?thesis by (auto simp: subs_def)
qed

interpretation st: subscription_table dict_inv subs delRegexpForOneClientFromDictionary purge_client
  by unfold_locales (auto simp: remove_subs purge_subs)

lemma subscribe_subs:
  assumes "distinct (map d_regexp_src d)" and "r \<in> d_regexp_src ` set d"
    and "\<forall>e \<in> set d. d_regexp_src e = r \<or> d_clientList e \<noteq> []"
  shows "dict_inv (subscribe r dc d) \<and> subs (subscribe r dc d) = insert (r, dc_client dc, dc_id dc) (subs d)"
proof -
  have "map d_regexp_src (subscribe r dc d) = map d_regexp_src d" by (simp add: subscribe_def)
  moreover have "\<forall>e \<in> set (subscribe r dc d). d_clientList e \<noteq> []"
    using assms(3) by (auto simp: subscribe_def)
  ultimately have "dict_inv (subscribe r dc d)" using assms(1) by (simp add: dict_inv_def)
  moreover have "entry_subs (if d_regexp_src e = r then e\<lparr>d_clientList := dc # d_clientList e\<rparr> else e) =
      (if d_regexp_src e = r then insert (r, dc_client dc, dc_id dc) (entry_subs e) else entry_subs e)" for e
    by (auto simp: entry_subs_def)
  then have "subs (subscribe r dc d) = (\<Union>e \<in> set d.
      if d_regexp_src e = r then insert (r, dc_client dc, dc_id dc) (entry_subs e) else entry_subs e)"
    by (simp only: subs_def subscribe_def set_map image_image)
  then have "subs (subscribe r dc d) = insert (r, dc_client dc, dc_id dc) (subs d)"
    using assms(2) by (auto simp: subs_def)
  ultimately show ?thesis ..
qed

definition bind_ok :: "regex_engine \<Rightarrow> dentry list \<Rightarrow> bool" where
  "bind_ok rx d \<longleftrightarrow> (\<forall>e \<in> set d. d_binding e =
     (case IvyBindingCompile rx (d_regexp_src e) of Inl _ \<Rightarrow> None | Inr b \<Rightarrow> Some b))"

lemma new_entry_ok:
  assumes "new_entry rx r cl s = Inr (e, t)"
  shows "talk s t" "d_regexp_src e = r" "d_clientList e = []" "bind_ok rx [e]"
  using assms by (auto simp: new_entry_def bindR_eq_Inr Let_def bind_ok_def split: sum.splits if_splits
      dest: msg_to_talk)

lemma addRegexpToDictionary_ok:
  assumes "addRegexpToDictionary rx r cl s = Inr t" and "dict_inv (messSndByRegexp s)"
  shows "dict_inv (messSndByRegexp t) \<and>
         subs (messSndByRegexp t) = insert (r, c_client cl, c_id cl) (subs (messSndByRegexp s)) \<and>
         (bind_ok rx (messSndByRegexp s) \<longrightarrow> bind_ok rx (messSndByRegexp t)) \<and>
         (\<exists>u d. talk s u \<and> t = u\<lparr>messSndByRegexp := d\<rparr>)"
proof (cases "hash_find r (messSndByRegexp s)")
  case (Some e)
  let ?d = "subscribe r (dict_client cl) (messSndByRegexp s)"
  have t: "t = s\<lparr>messSndByRegexp := ?d\<rparr>"
    using assms(1) Some by (simp add: addRegexpToDictionary_def)
  have "r \<in> d_regexp_src ` set (messSndByRegexp s)" using hash_find_Some [OF Some] by auto
  with subscribe_subs [of "messSndByRegexp s" r "dict_client cl"] assms(2)
  have "dict_inv ?d \<and> subs ?d = insert (r, c_client cl, c_id cl) (subs (messSndByRegexp s))"
    by (simp add: dict_inv_def dict_client_def)
  moreover have "bind_ok rx (messSndByRegexp s) \<longrightarrow> bind_ok rx ?d"
    by (auto simp: bind_ok_def subscribe_def)
  ultimately show ?thesis using t by (auto intro: talk_refl)
next
  case None
  with assms(1) obtain e u where u: "new_entry rx r cl s = Inr (e, u)"
    "t = u\<lparr>messSndByRegexp := subscribe r (dict_client cl) (messSndByRegexp u @ [e])\<rparr>"
    by (auto simp: addRegexpToDictionary_def bindR_eq_Inr)
  note e = new_entry_ok [OF u(1)]
  from e(1) have d: "messSndByRegexp u = messSndByRegexp s" by (rule talk_fields)
  let ?d = "messSndByRegexp s @ [e]"
  have "distinct (map d_regexp_src ?d)"
    using assms(2) None e(2) by (auto simp: dict_inv_def hash_find_None)
  moreover have "r \<in> d_regexp_src ` set ?d" "\<forall>e \<in> set ?d. d_regexp_src e = r \<or> d_clientList e \<noteq> []"
    using e(2) assms(2) by (auto simp: dict_inv_def)
  moreover have "subs ?d = subs (messSndByRegexp s)"
    using e(3) by (auto simp: subs_def entry_subs_def)
  ultimately have "dict_inv (subscribe r (dict_client cl) ?d) \<and> subs (subscribe r (dict_client cl) ?d) =
      insert (r, c_client cl, c_id cl) (subs (messSndByRegexp s))"
    using subscribe_subs [of ?d r "dict_client cl"] by (simp add: dict_client_def)
  moreover have "bind_ok rx (messSndByRegexp s) \<longrightarrow> bind_ok rx (subscribe r (dict_client cl) ?d)"
    using e(4) by (auto simp: bind_ok_def subscribe_def)
  ultimately show ?thesis using u(2) d e(1) by auto
qed

text \<open>
  A dictionary that agrees with the set of its subscriptions: no entry has a subscription twice, and
  every binding is what its pattern compiles to.
\<close>

definition dict_full :: "regex_engine \<Rightarrow> dentry list \<Rightarrow> bool" where
  "dict_full rx d \<longleftrightarrow> dict_inv d \<and> bind_ok rx d \<and>
     (\<forall>e \<in> set d. distinct (map (\<lambda>dc. (dc_client dc, dc_id dc)) (d_clientList e)))"

lemma subscribe_full:
  assumes "\<forall>e \<in> set d. distinct (map (\<lambda>dc. (dc_client dc, dc_id dc)) (d_clientList e))"
    and "(r, dc_client dc, dc_id dc) \<notin> subs d" and "e \<in> set (subscribe r dc d)"
  shows "distinct (map (\<lambda>dc. (dc_client dc, dc_id dc)) (d_clientList e))"
proof -
  from assms(3) obtain e0 where e: "e0 \<in> set d"
    "e = (if d_regexp_src e0 = r then e0\<lparr>d_clientList := dc # d_clientList e0\<rparr> else e0)"
    by (auto simp: subscribe_def)
  have "(dc_client dc, dc_id dc) \<noteq> (dc_client x, dc_id x)" if "d_regexp_src e0 = r" "x \<in> set (d_clientList e0)" for x
    using assms(2) e(1) that by (force simp: subs_def entry_subs_def)
  then show ?thesis using assms(1) e by auto
qed

lemma addRegexpToDictionary_full:
  assumes "addRegexpToDictionary rx r cl s = Inr t" and "dict_full rx (messSndByRegexp s)"
    and "(r, c_client cl, c_id cl) \<notin> subs (messSndByRegexp s)"
  shows "dict_full rx (messSndByRegexp t)"
proof -
  have "distinct (map (\<lambda>dc. (dc_client dc, dc_id dc)) (d_clientList e))" if "e \<in> set (messSndByRegexp t)" for e
  proof (cases "hash_find r (messSndByRegexp s)")
    case (Some e1)
    then have "e \<in> set (subscribe r (dict_client cl) (messSndByRegexp s))"
      using assms(1) that by (auto simp: addRegexpToDictionary_def)
    then show ?thesis using assms(2,3) by (intro subscribe_full) (auto simp: dict_full_def dict_client_def)
  next
    case None
    with assms(1) obtain e' u where u: "new_entry rx r cl s = Inr (e', u)"
      "t = u\<lparr>messSndByRegexp := subscribe r (dict_client cl) (messSndByRegexp u @ [e'])\<rparr>"
      by (auto simp: addRegexpToDictionary_def bindR_eq_Inr)
    note e' = new_entry_ok [OF u(1)]
    have "messSndByRegexp u = messSndByRegexp s" using e'(1) by (rule talk_fields)
    then have "e \<in> set (subscribe r (dict_client cl) (messSndByRegexp s @ [e']))" using that u(2) by simp
    then show ?thesis
      using assms(2,3) e'(3) by (intro subscribe_full) (auto simp: dict_full_def dict_client_def subs_def entry_subs_def)
  qed
  then show ?thesis using addRegexpToDictionary_ok [OF assms(1)] assms(2) by (simp add: dict_full_def)
qed

section \<open>Clients\<close>

text \<open>
  The nodes of \<open>allClients\<close> have distinct addresses and sockets, and those of their lists of
  regexps distinct addresses below \<open>fresh\<close>.
\<close>

definition clients_inv :: "ivy \<Rightarrow> bool" where
  "clients_inv s \<longleftrightarrow>
     distinct (map c_ptr (allClients s)) \<and> distinct (map c_client (allClients s)) \<and>
     (\<forall>c \<in> set (allClients s). distinct (map gr_addr (c_srcRegList c)) \<and>
        (\<forall>g \<in> set (c_srcRegList c). gr_addr g < fresh s))"

lemma find_clnt_Some: "find_clnt p s = Some c \<Longrightarrow> c \<in> set (allClients s) \<and> c_ptr c = p"
  unfolding find_clnt_def by (rule find_Some_mem)

lemma find_unique:
  assumes "distinct (map f xs)" and "x \<in> set xs"
  shows "find (\<lambda>y. f y = f x) xs = Some x"
proof (cases "find (\<lambda>y. f y = f x) xs")
  case None
  with assms show ?thesis by (auto simp: find_None_iff)
next
  case (Some y)
  then have "y \<in> set xs" "f y = f x" by (auto dest: find_Some_mem)
  with assms Some show ?thesis by (metis distinct_map inj_onD)
qed

lemma find_clnt_mem: "clients_inv s \<Longrightarrow> c \<in> set (allClients s) \<Longrightarrow> find_clnt (c_ptr c) s = Some c"
  unfolding find_clnt_def clients_inv_def by (rule find_unique) auto

lemma find_by_socket_mem:
  "clients_inv s \<Longrightarrow> c \<in> set (allClients s) \<Longrightarrow> find_by_socket (c_client c) s = Some c"
  unfolding find_by_socket_def clients_inv_def by (rule find_unique) auto

lemma upd_clnt_simp:
  assumes "clients_inv s" and "c \<in> set (allClients s)" and "f c = g c"
  shows "map (\<lambda>x. if c_ptr x = c_ptr c then f x else x) (allClients s) =
         map (\<lambda>x. if c_ptr x = c_ptr c then g x else x) (allClients s)"
proof -
  have "x = c" if "x \<in> set (allClients s)" "c_ptr x = c_ptr c" for x
    using assms(1,2) that unfolding clients_inv_def by (metis distinct_map inj_onD)
  with assms(3) show ?thesis by (auto intro!: map_cong)
qed

abbreviation with_regs :: "nat \<Rightarrow> greg list \<Rightarrow> clnt list \<Rightarrow> clnt list" where
  "with_regs p gs cs \<equiv> map (\<lambda>x. if c_ptr x = p then x\<lparr>c_srcRegList := gs\<rparr> else x) cs"

lemma with_regs_maps:
  "map c_ptr (with_regs p gs cs) = map c_ptr cs"
  "map c_client (with_regs p gs cs) = map c_client cs"
  by (induction cs) auto

lemma with_regs_inv:
  assumes "clients_inv s" and "c \<in> set (allClients s)"
    and "set gs \<subseteq> set (c_srcRegList c)" and "distinct (map gr_addr gs)"
  shows "clients_inv (s\<lparr>messSndByRegexp := d, allClients := with_regs (c_ptr c) gs (allClients s)\<rparr>)"
  using assms unfolding clients_inv_def
  by (simp add: with_regs_maps del: map_map) auto

text \<open>One step of the inner loop of \<open>delOneClient\<close>: every regexp with the id of the first goes.\<close>

lemma drop_reg_step:
  assumes "clients_inv s" and "c \<in> set (allClients s)" and "g \<in> set (c_srcRegList c)"
    and "dict_inv (messSndByRegexp s)"
  shows "\<exists>d. drop_reg (c_ptr c) (gr_addr g) s = Inr (s\<lparr>messSndByRegexp := d,
             allClients := with_regs (c_ptr c)
               (filter (\<lambda>h. gr_id h \<noteq> gr_id g) (c_srcRegList c)) (allClients s)\<rparr>) \<and>
           dict_inv d \<and> subs d \<subseteq> subs (messSndByRegexp s) \<and>
           (\<forall>x \<in> subs (messSndByRegexp s). x \<in> subs d \<or> fst (snd x) = c_client c)"
proof -
  let ?found = "filter (\<lambda>h. gr_id h = gr_id g) (c_srcRegList c)"
  let ?d = "fold (\<lambda>g. delRegexpForOneClientFromDictionary (gr_str_regexp g) (c_client c) (c_id c))
      ?found (messSndByRegexp s)"
  have "find (\<lambda>h. gr_addr h = gr_addr g) (c_srcRegList c) = Some g"
    using assms(1-3) by (intro find_unique) (auto simp: clients_inv_def)
  then have "drop_reg (c_ptr c) (gr_addr g) s = Inr (s\<lparr>messSndByRegexp := ?d,
      allClients := with_regs (c_ptr c) (filter (\<lambda>h. gr_id h \<noteq> gr_id g) (c_srcRegList c)) (allClients s)\<rparr>)"
    using upd_clnt_simp [OF assms(1,2), of
        "\<lambda>c. c\<lparr>c_srcRegList := filter (\<lambda>h. gr_id h \<noteq> gr_id g) (c_srcRegList c)\<rparr>"
        "\<lambda>x. x\<lparr>c_srcRegList := filter (\<lambda>h. gr_id h \<noteq> gr_id g) (c_srcRegList c)\<rparr>"]
    by (simp add: drop_reg_def find_clnt_mem [OF assms(1,2)] delRegexpForOneClient_def
        find_by_socket_mem [OF assms(1,2)] upd_clnt_def Let_def)
  moreover from st.fold_remove [OF assms(4), of gr_str_regexp "c_client c" "c_id c" ?found]
  have "dict_inv ?d" "subs ?d = subs (messSndByRegexp s) -
      {(gr_str_regexp x, c_client c, c_id c) | x. x \<in> set ?found}" by simp_all
  ultimately show ?thesis by auto
qed

lemma reg_addrs_eq:
  assumes "clients_inv s" and "c \<in> set (allClients s)"
  shows "reg_addrs (c_ptr c) s = map gr_addr (c_srcRegList c)"
  using find_clnt_mem [OF assms] by (simp add: reg_addrs_def)

lemma with_regs_twice: "with_regs p gs (with_regs p hs cs) = with_regs p gs cs"
  by (induction cs) auto

lemma with_regs_same:
  assumes "clients_inv s" and "c \<in> set (allClients s)"
  shows "with_regs (c_ptr c) (c_srcRegList c) (allClients s) = allClients s"
  using upd_clnt_simp [OF assms, of "\<lambda>x. x\<lparr>c_srcRegList := c_srcRegList c\<rparr>" id]
  by (simp add: map_idI)

text \<open>With distinct ids the inner loop empties the list and frees no node twice.\<close>

lemma drop_regs_ok:
  assumes "clients_inv s" and "c \<in> set (allClients s)" and "distinct (map gr_id (c_srcRegList c))"
    and "dict_inv (messSndByRegexp s)"
  shows "\<exists>d. each_safe (reg_addrs (c_ptr c)) (drop_reg (c_ptr c)) (map gr_addr (c_srcRegList c)) s =
             Inr (s\<lparr>messSndByRegexp := d, allClients := with_regs (c_ptr c) [] (allClients s)\<rparr>) \<and>
           dict_inv d \<and> subs d \<subseteq> subs (messSndByRegexp s) \<and>
           (\<forall>x \<in> subs (messSndByRegexp s). x \<in> subs d \<or> fst (snd x) = c_client c)"
  using assms
proof (induction "c_srcRegList c" arbitrary: s c)
  case Nil
  note e = Nil.hyps [symmetric]
  from with_regs_same [OF Nil.prems(1,2)]
  have "with_regs (c_ptr c) [] (allClients s) = allClients s" by (simp only: e)
  then show ?case using Nil.prems(4) by (intro exI [of _ "messSndByRegexp s"]) (simp add: e)
next
  case (Cons g gs)
  note g2 = Cons.hyps(2) [symmetric]
  have g1: "g \<in> set (c_srcRegList c)" using g2 by simp
  note g = g1 g2
  have "filter (\<lambda>h. gr_id h \<noteq> gr_id g) (c_srcRegList c) = gs"
    using Cons.prems(3) g(2) by (auto simp: filter_id_conv) (metis image_eqI)
  with drop_reg_step [OF Cons.prems(1,2) g(1) Cons.prems(4)] obtain d where
    d: "drop_reg (c_ptr c) (gr_addr g) s =
          Inr (s\<lparr>messSndByRegexp := d, allClients := with_regs (c_ptr c) gs (allClients s)\<rparr>)"
      "dict_inv d" "subs d \<subseteq> subs (messSndByRegexp s)"
      "\<forall>x \<in> subs (messSndByRegexp s). x \<in> subs d \<or> fst (snd x) = c_client c" by auto
  define t where "t = s\<lparr>messSndByRegexp := d, allClients := with_regs (c_ptr c) gs (allClients s)\<rparr>"
  define c' where "c' = c\<lparr>c_srcRegList := gs\<rparr>"
  have "clients_inv t" unfolding t_def using Cons.prems(1,2) g
    by (intro with_regs_inv) (auto simp: clients_inv_def)
  moreover have "c' \<in> set (allClients t)" using Cons.prems(2) by (auto simp: t_def c'_def)
  moreover have "gs = c_srcRegList c'" "distinct (map gr_id (c_srcRegList c'))" "c_ptr c' = c_ptr c"
    "c_client c' = c_client c" "dict_inv (messSndByRegexp t)"
    using Cons.prems(3) g(2) d(2) by (simp_all add: c'_def t_def)
  ultimately obtain d' where
    IH: "each_safe (reg_addrs (c_ptr c)) (drop_reg (c_ptr c)) (map gr_addr gs) t =
           Inr (t\<lparr>messSndByRegexp := d', allClients := with_regs (c_ptr c) [] (allClients t)\<rparr>)"
      "dict_inv d'" "subs d' \<subseteq> subs d" "\<forall>x \<in> subs d. x \<in> subs d' \<or> fst (snd x) = c_client c"
    using Cons.hyps(1) [of c' t] by (auto simp: t_def)
  have "each_safe (reg_addrs (c_ptr c)) (drop_reg (c_ptr c)) (map gr_addr (c_srcRegList c)) s =
      each_safe (reg_addrs (c_ptr c)) (drop_reg (c_ptr c)) (map gr_addr gs) t"
    using d(1) reg_addrs_eq [OF Cons.prems(1,2)] g(2)
    by (simp add: t_def filter_map comp_def)
  also have "\<dots> = Inr (s\<lparr>messSndByRegexp := d', allClients := with_regs (c_ptr c) [] (allClients s)\<rparr>)"
    using IH(1) by (simp add: t_def with_regs_twice del: map_map)
  finally show ?case using IH(2-4) d(3,4) by (intro exI [of _ d']) auto
qed

section \<open>Disconnection\<close>

lemma delRegexp_ptrs: "client_ptrs (snd (delRegexpForOneClient c i s)) = client_ptrs s"
  by (auto simp: delRegexpForOneClient_def client_ptrs_def upd_clnt_def Let_def split: option.splits)

lemma drop_reg_ptrs: "drop_reg p a s = Inr t \<Longrightarrow> client_ptrs t = client_ptrs s"
  by (auto simp: drop_reg_def delRegexp_ptrs split: option.splits)

lemma drop_client_ptrs:
  assumes "drop_client client p s = Inr t"
  shows "set (client_ptrs s) - {p} \<subseteq> set (client_ptrs t)"
proof -
  from assms obtain c where c: "find_clnt p s = Some c" by (auto simp: drop_client_def split: option.splits)
  show ?thesis
  proof (cases "c_client c = client")
    case False
    with assms c show ?thesis by (auto simp: drop_client_def)
  next
    case True
    with assms c obtain u where u: "IVY_LIST_EACH_SAFE (reg_addrs p) (drop_reg p) s = Inr u"
      "t = u\<lparr>allClients := filter (\<lambda>c. c_ptr c \<noteq> p) (allClients u)\<rparr>"
      by (auto simp: drop_client_def bindR_eq_Inr)
    have "client_ptrs u = client_ptrs s"
      using u(1) unfolding IVY_LIST_EACH_SAFE_def
      by (rule each_safe_invariant [where I = "\<lambda>x. client_ptrs x = client_ptrs s"])
        (auto dest: drop_reg_ptrs)
    moreover have "client_ptrs t = filter (\<lambda>q. q \<noteq> p) (client_ptrs u)"
      by (simp add: u(2) client_ptrs_def filter_map comp_def)
    ultimately show ?thesis by auto
  qed
qed

lemma drop_clients_foldR:
  assumes "clients_inv s"
  shows "IVY_LIST_EACH_SAFE client_ptrs (drop_client client) s =
           foldR (drop_client client) (client_ptrs s) s"
  unfolding IVY_LIST_EACH_SAFE_def using assms drop_client_ptrs
  by (intro each_safe_foldR) (auto simp: client_ptrs_def clients_inv_def)

lemma drop_others:
  assumes "clients_inv s" and "set cs \<subseteq> set (allClients s)" and "\<forall>c \<in> set cs. c_client c \<noteq> client"
  shows "foldR (drop_client client) (map c_ptr cs) s = Inr s"
  using assms(2,3) find_clnt_mem [OF assms(1)] by (induction cs) (auto simp: drop_client_def)

text \<open>The nodes before and after the one of the socket.\<close>

lemma split_clients:
  assumes "clients_inv s" and "c \<in> set (allClients s)"
  obtains xs ys where "allClients s = xs @ c # ys"
    "\<forall>x \<in> set xs \<union> set ys. c_client x \<noteq> c_client c \<and> c_ptr x \<noteq> c_ptr c"
proof -
  from assms(2) obtain xs ys where xs: "allClients s = xs @ c # ys" by (auto simp: in_set_conv_decomp)
  with assms(1) have "\<forall>x \<in> set xs \<union> set ys. c_client x \<noteq> c_client c \<and> c_ptr x \<noteq> c_ptr c"
    by (auto simp: clients_inv_def) (metis image_eqI)+
  with xs that show thesis by blast
qed

lemma delOneClient_ok:
  assumes "clients_inv s" and "c \<in> set (allClients s)" and "distinct (map gr_id (c_srcRegList c))"
    and "dict_inv (messSndByRegexp s)"
  shows "\<exists>d. delOneClient (c_client c) s = Inr (s\<lparr>messSndByRegexp := d,
             allClients := filter (\<lambda>x. c_client x \<noteq> c_client c) (allClients s)\<rparr>) \<and>
           dict_inv d \<and> subs d = {x \<in> subs (messSndByRegexp s). fst (snd x) \<noteq> c_client c}"
proof -
  from split_clients [OF assms(1,2)] obtain xs ys where xs: "allClients s = xs @ c # ys"
    "\<forall>x \<in> set xs \<union> set ys. c_client x \<noteq> c_client c \<and> c_ptr x \<noteq> c_ptr c" by metis
  from drop_regs_ok [OF assms] obtain d where
    d: "each_safe (reg_addrs (c_ptr c)) (drop_reg (c_ptr c)) (map gr_addr (c_srcRegList c)) s =
          Inr (s\<lparr>messSndByRegexp := d, allClients := with_regs (c_ptr c) [] (allClients s)\<rparr>)"
      "dict_inv d" "subs d \<subseteq> subs (messSndByRegexp s)"
      "\<forall>x \<in> subs (messSndByRegexp s). x \<in> subs d \<or> fst (snd x) = c_client c" by blast
  have others: "filter (\<lambda>x. c_ptr x \<noteq> c_ptr c) zs = zs" "with_regs (c_ptr c) [] zs = zs"
    if "set zs \<subseteq> set xs \<union> set ys" for zs
    using that xs(2) by (auto simp: filter_id_conv intro!: map_idI)
  define t where "t = s\<lparr>messSndByRegexp := d, allClients := xs @ ys\<rparr>"
  have "drop_client (c_client c) (c_ptr c) s = Inr t"
    using d(1) find_clnt_mem [OF assms(1,2)] reg_addrs_eq [OF assms(1,2)] others [of xs] others [of ys] xs(1)
    by (simp add: drop_client_def IVY_LIST_EACH_SAFE_def t_def)
  moreover have "foldR (drop_client (c_client c)) (map c_ptr xs) s = Inr s"
    using xs by (intro drop_others [OF assms(1)]) auto
  moreover have "clients_inv t" using assms(1) xs(1) by (auto simp: clients_inv_def t_def)
  then have "foldR (drop_client (c_client c)) (map c_ptr ys) t = Inr t"
    using xs by (intro drop_others) (auto simp: t_def)
  ultimately have "IVY_LIST_EACH_SAFE client_ptrs (drop_client (c_client c)) s = Inr t"
    using xs(1) by (simp add: drop_clients_foldR [OF assms(1)] client_ptrs_def foldR_append)
  moreover have "filter (\<lambda>x. c_client x \<noteq> c_client c) (allClients s) = xs @ ys"
    using xs by (auto simp: filter_id_conv)
  ultimately have "delOneClient (c_client c) s = Inr (s\<lparr>messSndByRegexp := purge_client (c_client c) d,
      allClients := filter (\<lambda>x. c_client x \<noteq> c_client c) (allClients s)\<rparr>)"
    by (simp add: delOneClient_def t_def)
  moreover have "dict_inv (purge_client (c_client c) d)"
    "subs (purge_client (c_client c) d) = {x \<in> subs (messSndByRegexp s). fst (snd x) \<noteq> c_client c}"
    using purge_subs [OF d(2), of "c_client c"] d(3,4) by auto
  ultimately show ?thesis by blast
qed

lemma delOneClient_dangles:
  assumes "clients_inv s" and "c \<in> set (allClients s)" and "c_srcRegList c = g # h # gs"
    and "gr_id h = gr_id g" and "dict_inv (messSndByRegexp s)"
  shows "delOneClient (c_client c) s = Inl UseAfterFree"
proof -
  from split_clients [OF assms(1,2)] obtain xs ys where xs: "allClients s = xs @ c # ys"
    "\<forall>x \<in> set xs \<union> set ys. c_client x \<noteq> c_client c \<and> c_ptr x \<noteq> c_ptr c" by metis
  have g: "g \<in> set (c_srcRegList c)" using assms(3) by simp
  have rest: "filter (\<lambda>x. gr_id x \<noteq> gr_id g) (c_srcRegList c) = filter (\<lambda>x. gr_id x \<noteq> gr_id g) gs"
    using assms(3,4) by simp
  from drop_reg_step [OF assms(1,2) g assms(5), unfolded rest] obtain d where
    d: "drop_reg (c_ptr c) (gr_addr g) s = Inr (s\<lparr>messSndByRegexp := d, allClients :=
          with_regs (c_ptr c) (filter (\<lambda>x. gr_id x \<noteq> gr_id g) gs) (allClients s)\<rparr>)" by blast
  define t where "t = s\<lparr>messSndByRegexp := d, allClients :=
      with_regs (c_ptr c) (filter (\<lambda>x. gr_id x \<noteq> gr_id g) gs) (allClients s)\<rparr>"
  have dist: "gr_addr h \<notin> gr_addr ` set gs"
    using assms(1-3) by (auto simp: clients_inv_def)
  have "clients_inv t"
    unfolding t_def
  proof (rule with_regs_inv [OF assms(1,2)])
    have "distinct (map gr_addr (c_srcRegList c))" using assms(1,2) by (auto simp: clients_inv_def)
    then show "distinct (map gr_addr (filter (\<lambda>x. gr_id x \<noteq> gr_id g) gs))"
      using assms(3) by (simp add: distinct_map_fst_filter)
  qed (use assms(3) in auto)
  moreover have "c\<lparr>c_srcRegList := filter (\<lambda>x. gr_id x \<noteq> gr_id g) gs\<rparr> \<in> set (allClients t)"
    using assms(2) by (auto simp: t_def)
  ultimately have "reg_addrs (c_ptr c) t = map gr_addr (filter (\<lambda>x. gr_id x \<noteq> gr_id g) gs)"
    using reg_addrs_eq by fastforce
  then have "gr_addr h \<notin> set (reg_addrs (c_ptr c) t)" using dist by auto
  then have "IVY_LIST_EACH_SAFE (reg_addrs (c_ptr c)) (drop_reg (c_ptr c)) s = Inl UseAfterFree"
    using d reg_addrs_eq [OF assms(1,2)] assms(3) by (simp add: IVY_LIST_EACH_SAFE_def t_def)
  then have "drop_client (c_client c) (c_ptr c) s = Inl UseAfterFree"
    using find_clnt_mem [OF assms(1,2)] by (simp add: drop_client_def)
  moreover have "foldR (drop_client (c_client c)) (map c_ptr xs) s = Inr s"
    using xs by (intro drop_others [OF assms(1)]) auto
  ultimately show ?thesis
    using xs(1) by (simp add: delOneClient_def drop_clients_foldR [OF assms(1)] client_ptrs_def foldR_append)
qed

end
