(* ===== verification/IvyHash.thy ===== *)
theory IvyHash imports IvyDict "HOL-Library.Word" begin

text \<open>
  The hash table under the dictionary, \<open>uthash.h\<close>: the macros \<open>ivy.c\<close> uses, on handles in memory.
  Every element is in two doubly linked lists, the insertion order, which the loops of \<open>ivy.c\<close> walk,
  and the chain of its bucket. The invariant says that both are in order; every operation keeps it,
  the doubling of the buckets included, and the table refines the list of entries of \<open>IvyDict\<close>. The
  hash function is an argument of the operations; \<open>HASH_JEN\<close> is the one the code uses.
\<close>

unbundle bit_operations_syntax

section \<open>The hash function\<close>

text \<open>A byte of a key as the hash function reads it: a \<open>char\<close>, which is signed, widened.\<close>

definition key_byte :: "char \<Rightarrow> 32 word" where
  "key_byte c = (if of_char c < (128 :: nat) then of_nat (of_char c) else of_nat (of_char c) - 256)"

text \<open>\<open>key[i]\<close>, \<open>key[i+1] << 8\<close>, \<open>key[i+2] << 16\<close> and \<open>key[i+3] << 24\<close>.\<close>

definition key_word :: "string \<Rightarrow> nat \<Rightarrow> 32 word" where
  "key_word key i = key_byte (key ! i) + push_bit 8 (key_byte (key ! (i + 1))) +
     push_bit 16 (key_byte (key ! (i + 2))) + push_bit 24 (key_byte (key ! (i + 3)))"

definition HASH_JEN_MIX :: "32 word \<times> 32 word \<times> 32 word \<Rightarrow> 32 word \<times> 32 word \<times> 32 word" where
  "HASH_JEN_MIX = (\<lambda>(a, b, c).
     let a = a - b; a = a - c; a = a XOR drop_bit 13 c;
         b = b - c; b = b - a; b = b XOR push_bit 8 a;
         c = c - a; c = c - b; c = c XOR drop_bit 13 b;
         a = a - b; a = a - c; a = a XOR drop_bit 12 c;
         b = b - c; b = b - a; b = b XOR push_bit 16 a;
         c = c - a; c = c - b; c = c XOR drop_bit 5 b;
         a = a - b; a = a - c; a = a XOR drop_bit 3 c;
         b = b - c; b = b - a; b = b XOR push_bit 10 a;
         c = c - a; c = c - b; c = c XOR drop_bit 15 b
     in (a, b, c))"

text \<open>The loop over blocks of 12 bytes: \<open>_hj_i\<close>, \<open>_hj_j\<close>, \<open>hashv\<close> and the rest of the key.\<close>

function jen_blocks :: "32 word \<times> 32 word \<times> 32 word \<Rightarrow> string \<Rightarrow> (32 word \<times> 32 word \<times> 32 word) \<times> string" where
  "jen_blocks (i, j, h) key =
     (if length key \<ge> 12
      then jen_blocks (HASH_JEN_MIX (i + key_word key 0, j + key_word key 4, h + key_word key 8)) (drop 12 key)
      else ((i, j, h), key))"
  by pat_completeness auto
termination by (relation "measure (\<lambda>(_, key). length key)") auto

text \<open>A case of the switch adds its byte when the key is long enough; the cases fall through.\<close>

definition tail_byte :: "string \<Rightarrow> nat \<Rightarrow> nat \<Rightarrow> 32 word" where
  "tail_byte rest i sh = (if i < length rest then push_bit sh (key_byte (rest ! i)) else 0)"

definition HASH_JEN :: "string \<Rightarrow> 32 word" where
  "HASH_JEN key =
     (let ((i, j, h), rest) = jen_blocks (0x9e3779b9, 0x9e3779b9, 0xfeedbeef) key;
          h = h + of_nat (length key);
          h = h + tail_byte rest 10 24 + tail_byte rest 9 16 + tail_byte rest 8 8;
          j = j + tail_byte rest 7 24 + tail_byte rest 6 16 + tail_byte rest 5 8 + tail_byte rest 4 0;
          i = i + tail_byte rest 3 24 + tail_byte rest 2 16 + tail_byte rest 1 8 + tail_byte rest 0 0
      in snd (snd (HASH_JEN_MIX (i, j, h))))"

section \<open>The table\<close>

text \<open>
  A hash handle, without the pointer to the table: the handles of a table share it. An element and
  the handle inside it are one address, \<open>0\<close> is the null pointer; \<open>app_prev\<close> and \<open>app_next\<close> are
  \<open>prev\<close> and \<open>next\<close>, \<open>bkt_prev\<close> and \<open>bkt_next\<close> are \<open>hh_prev\<close> and \<open>hh_next\<close>. The key is its bytes.
\<close>

record UT_hash_handle =
  app_prev :: nat
  app_next :: nat
  bkt_prev :: nat
  bkt_next :: nat
  hh_key :: string
  hh_keylen :: nat
  hashv :: "32 word"

record UT_hash_bucket =
  hh_head :: nat
  bkt_count :: nat
  expand_mult :: nat

record UT_hash_table =
  buckets :: "UT_hash_bucket list"
  num_buckets :: nat
  log2_num_buckets :: nat
  num_items :: nat
  tbl_tail :: nat
  ideal_chain_maxlen :: nat
  nonideal_items :: nat
  ineff_expands :: nat
  noexpand :: bool

type_synonym handles_at = "nat \<rightharpoonup> UT_hash_handle"

text \<open>The head pointer, the table it leads to, and the handles of the elements in memory.\<close>

record uthash =
  hash_head :: nat
  hash_tbl :: "UT_hash_table option"
  hhs :: handles_at

text \<open>\<open>unsigned\<close> arithmetic; an operation on a dangling pointer is \<open>None\<close>.\<close>

definition uint32 :: "nat \<Rightarrow> nat" where "uint32 n = n mod 2 ^ 32"

definition set_hh :: "nat \<Rightarrow> (UT_hash_handle \<Rightarrow> UT_hash_handle) \<Rightarrow> handles_at \<Rightarrow> handles_at option" where
  "set_hh p f h = (case h p of None \<Rightarrow> None | Some x \<Rightarrow> Some (h(p \<mapsto> f x)))"

definition set_hh_if :: "nat \<Rightarrow> (UT_hash_handle \<Rightarrow> UT_hash_handle) \<Rightarrow> handles_at \<Rightarrow> handles_at option" where
  "set_hh_if p f h = (if p = 0 then Some h else set_hh p f h)"

definition HASH_INITIAL_NUM_BUCKETS :: nat where "HASH_INITIAL_NUM_BUCKETS = 32"
definition HASH_BKT_CAPACITY_THRESH :: nat where "HASH_BKT_CAPACITY_THRESH = 10"

definition empty_bucket :: UT_hash_bucket where
  "empty_bucket = \<lparr>hh_head = 0, bkt_count = 0, expand_mult = 0\<rparr>"

definition HASH_MAKE_TABLE :: "nat \<Rightarrow> UT_hash_table" where
  "HASH_MAKE_TABLE first = \<lparr>buckets = replicate HASH_INITIAL_NUM_BUCKETS empty_bucket,
     num_buckets = HASH_INITIAL_NUM_BUCKETS, log2_num_buckets = 5, num_items = 0, tbl_tail = first,
     ideal_chain_maxlen = 0, nonideal_items = 0, ineff_expands = 0, noexpand = False\<rparr>"

definition HASH_TO_BKT :: "32 word \<Rightarrow> nat \<Rightarrow> nat" where
  "HASH_TO_BKT hv num_bkts = unat (hv AND (of_nat num_bkts - 1))"

subsection \<open>Looking up\<close>

partial_function (option) HASH_FIND_IN_BKT :: "handles_at \<Rightarrow> string \<Rightarrow> nat \<Rightarrow> nat option" where
  "HASH_FIND_IN_BKT h key out =
     (if out = 0 then Some 0
      else Option.bind (h out) (\<lambda>x.
        if hh_keylen x = length key \<and> take (length key) (hh_key x) = key then Some out
        else HASH_FIND_IN_BKT h key (bkt_next x)))"

text \<open>\<open>hf\<close> is \<open>HASH_FCN\<close>, which is \<open>HASH_JEN\<close> in this build. \<open>HASH_BLOOM\<close> is not defined.\<close>

definition HASH_FIND :: "(string \<Rightarrow> 32 word) \<Rightarrow> string \<Rightarrow> uthash \<Rightarrow> nat option" where
  "HASH_FIND hf key s =
     (if hash_head s = 0 then Some 0
      else Option.bind (hash_tbl s) (\<lambda>t.
        let b = HASH_TO_BKT (hf key) (num_buckets t)
        in if b < length (buckets t) then HASH_FIND_IN_BKT (hhs s) key (hh_head (buckets t ! b)) else None))"

subsection \<open>Doubling the number of buckets\<close>

text \<open>
  The walk over one old chain moves its handles to the heads of the new ones: \<open>nb\<close> are the new
  buckets, \<open>ni\<close> is \<open>nonideal_items\<close>.
\<close>

partial_function (option) expand_chain ::
    "nat \<Rightarrow> nat \<Rightarrow> handles_at \<times> UT_hash_bucket list \<times> nat \<Rightarrow> (handles_at \<times> UT_hash_bucket list \<times> nat) option" where
  "expand_chain ideal thh st =
     (if thh = 0 then Some st
      else case st of (h, nb, ni) \<Rightarrow>
        Option.bind (h thh) (\<lambda>x.
          let b = HASH_TO_BKT (hashv x) (length nb)
          in if \<not> b < length nb then None
             else let k = nb ! b; n = uint32 (bkt_count k + 1);
                      (ni, m) = (if n > ideal then (uint32 (ni + 1), n div ideal) else (ni, expand_mult k))
                  in Option.bind (set_hh thh (\<lambda>x. x\<lparr>bkt_prev := 0, bkt_next := hh_head k\<rparr>) h) (\<lambda>h.
                     Option.bind (set_hh_if (hh_head k) (\<lambda>x. x\<lparr>bkt_prev := thh\<rparr>) h) (\<lambda>h.
                       expand_chain ideal (bkt_next x)
                         (h, nb[b := \<lparr>hh_head = thh, bkt_count = n, expand_mult = m\<rparr>], ni)))))"

fun expand_chains ::
    "nat \<Rightarrow> UT_hash_bucket list \<Rightarrow> handles_at \<times> UT_hash_bucket list \<times> nat \<Rightarrow> (handles_at \<times> UT_hash_bucket list \<times> nat) option" where
  "expand_chains ideal [] st = Some st"
| "expand_chains ideal (k # ks) st = Option.bind (expand_chain ideal (hh_head k) st) (expand_chains ideal ks)"

text \<open>
  The new array has \<open>2 * num_buckets\<close> buckets, computed in \<open>unsigned\<close>; a division by an ideal
  length of zero is undefined.
\<close>

definition HASH_EXPAND_BUCKETS :: "UT_hash_table \<Rightarrow> handles_at \<Rightarrow> (UT_hash_table \<times> handles_at) option" where
  "HASH_EXPAND_BUCKETS t h =
     (let n = uint32 (2 * num_buckets t);
          ideal = num_items t div 2 ^ (log2_num_buckets t + 1) + (if num_items t mod n \<noteq> 0 then 1 else 0)
      in if ideal = 0 then None
         else Option.bind (expand_chains ideal (buckets t) (h, replicate n empty_bucket, 0)) (\<lambda>(h, nb, ni).
           let ineff = (if ni > num_items t div 2 then uint32 (ineff_expands t + 1) else 0)
           in Some (t\<lparr>buckets := nb, num_buckets := n, log2_num_buckets := log2_num_buckets t + 1,
                ideal_chain_maxlen := ideal, nonideal_items := ni, ineff_expands := ineff,
                noexpand := (noexpand t \<or> ineff > 1)\<rparr>, h)))"

subsection \<open>Adding\<close>

definition HASH_ADD_TO_BKT :: "nat \<Rightarrow> nat \<Rightarrow> UT_hash_table \<Rightarrow> handles_at \<Rightarrow> (UT_hash_table \<times> handles_at) option" where
  "HASH_ADD_TO_BKT b add t h =
     (if \<not> b < length (buckets t) then None
      else let k = buckets t ! b; n = uint32 (bkt_count k + 1);
               t = t\<lparr>buckets := (buckets t)[b := \<lparr>hh_head = add, bkt_count = n, expand_mult = expand_mult k\<rparr>]\<rparr>
           in Option.bind (set_hh add (\<lambda>x. x\<lparr>bkt_prev := 0, bkt_next := hh_head k\<rparr>) h) (\<lambda>h.
              Option.bind (set_hh_if (hh_head k) (\<lambda>x. x\<lparr>bkt_prev := add\<rparr>) h) (\<lambda>h.
                if n \<ge> uint32 (uint32 (expand_mult k + 1) * HASH_BKT_CAPACITY_THRESH) \<and> \<not> noexpand t
                then HASH_EXPAND_BUCKETS t h else Some (t, h))))"

text \<open>\<open>add\<close> is the address of the new element, whose handle the macro fills in.\<close>

definition HASH_ADD_KEYPTR :: "(string \<Rightarrow> 32 word) \<Rightarrow> string \<Rightarrow> nat \<Rightarrow> uthash \<Rightarrow> uthash option" where
  "HASH_ADD_KEYPTR hf key add s =
     (let x = \<lparr>app_prev = 0, app_next = 0, bkt_prev = 0, bkt_next = 0, hh_key = key,
                hh_keylen = uint32 (length key), hashv = hf key\<rparr>
      in Option.bind
           (if hash_head s = 0 then Some (add, HASH_MAKE_TABLE add, (hhs s)(add \<mapsto> x))
            else Option.bind (hash_tbl s) (\<lambda>t.
                 Option.bind (set_hh (tbl_tail t) (\<lambda>y. y\<lparr>app_next := add\<rparr>) ((hhs s)(add \<mapsto> x\<lparr>app_prev := tbl_tail t\<rparr>)))
                   (\<lambda>h. Some (hash_head s, t\<lparr>tbl_tail := add\<rparr>, h))))
           (\<lambda>(hd, t, h).
              Option.bind (HASH_ADD_TO_BKT (HASH_TO_BKT (hf key) (num_buckets t)) add
                             (t\<lparr>num_items := uint32 (num_items t + 1)\<rparr>) h) (\<lambda>(t, h).
                Some (s\<lparr>hash_head := hd, hash_tbl := Some t, hhs := h\<rparr>))))"

subsection \<open>Deleting\<close>

definition HASH_DEL_IN_BKT :: "nat \<Rightarrow> nat \<Rightarrow> UT_hash_table \<Rightarrow> handles_at \<Rightarrow> (UT_hash_table \<times> handles_at) option" where
  "HASH_DEL_IN_BKT b del t h =
     (if \<not> b < length (buckets t) then None
      else Option.bind (h del) (\<lambda>x.
           let k = buckets t ! b;
               k = k\<lparr>bkt_count := uint32 (bkt_count k + (2 ^ 32 - 1)),
                     hh_head := (if hh_head k = del then bkt_next x else hh_head k)\<rparr>
           in Option.bind (set_hh_if (bkt_prev x) (\<lambda>y. y\<lparr>bkt_next := bkt_next x\<rparr>) h) (\<lambda>h.
              Option.bind (set_hh_if (bkt_next x) (\<lambda>y. y\<lparr>bkt_prev := bkt_prev x\<rparr>) h) (\<lambda>h.
                Some (t\<lparr>buckets := (buckets t)[b := k]\<rparr>, h)))))"

text \<open>The element is not freed, and its handle keeps its pointers.\<close>

definition HASH_DELETE :: "nat \<Rightarrow> uthash \<Rightarrow> uthash option" where
  "HASH_DELETE delptr s =
     Option.bind (hhs s delptr) (\<lambda>x. Option.bind (hash_tbl s) (\<lambda>t.
       if app_prev x = 0 \<and> app_next x = 0 then Some (s\<lparr>hash_head := 0, hash_tbl := None\<rparr>)
       else let t = (if delptr = tbl_tail t then t\<lparr>tbl_tail := app_prev x\<rparr> else t)
         in Option.bind (set_hh_if (app_prev x) (\<lambda>y. y\<lparr>app_next := app_next x\<rparr>) (hhs s)) (\<lambda>h.
            Option.bind (set_hh_if (app_next x) (\<lambda>y. y\<lparr>app_prev := app_prev x\<rparr>) h) (\<lambda>h.
            Option.bind (HASH_DEL_IN_BKT (HASH_TO_BKT (hashv x) (num_buckets t)) delptr t h) (\<lambda>(t, h).
              Some (s\<lparr>hash_head := (if app_prev x = 0 then app_next x else hash_head s),
                      hash_tbl := Some (t\<lparr>num_items := uint32 (num_items t + (2 ^ 32 - 1))\<rparr>), hhs := h\<rparr>))))))"

subsection \<open>Walking\<close>

text \<open>\<open>for (p = head; p; p = p->hh.next)\<close>, the elements it visits.\<close>

partial_function (option) hash_walk :: "handles_at \<Rightarrow> nat \<Rightarrow> nat list option" where
  "hash_walk h p =
     (if p = 0 then Some []
      else Option.bind (h p) (\<lambda>x. Option.bind (hash_walk h (app_next x)) (\<lambda>ps. Some (p # ps))))"

text \<open>The loop of \<open>delAllRegexpsFromDictionary\<close>: each element is deleted before its successor is read.\<close>

partial_function (option) delete_all :: "nat \<Rightarrow> uthash \<Rightarrow> uthash option" where
  "delete_all p s =
     (if p = 0 then Some s
      else Option.bind (HASH_DELETE p s) (\<lambda>s. Option.bind (hhs s p) (\<lambda>x. delete_all (app_next x) s)))"

section \<open>Doubly linked segments\<close>

text \<open>
  The nodes \<open>as\<close> from \<open>p\<close> up to \<open>e\<close>, linked forwards by \<open>nx\<close> and backwards by \<open>pv\<close>; the first one points
  back to \<open>q\<close>. Both lists of the table, in insertion order and in a bucket, are of this kind.
\<close>

fun dseg :: "(UT_hash_handle \<Rightarrow> nat) \<Rightarrow> (UT_hash_handle \<Rightarrow> nat) \<Rightarrow> handles_at \<Rightarrow> nat \<Rightarrow> nat \<Rightarrow> nat list \<Rightarrow> nat \<Rightarrow> bool" where
  "dseg nx pv h q p [] e = (p = e)"
| "dseg nx pv h q p (a # as) e =
     (p = a \<and> a \<noteq> 0 \<and> (case h a of None \<Rightarrow> False | Some x \<Rightarrow> pv x = q \<and> dseg nx pv h a (nx x) as e))"

lemma dseg_append:
  "dseg nx pv h q p (xs @ ys) e \<longleftrightarrow> (\<exists>m. dseg nx pv h q p xs m \<and> dseg nx pv h (last (q # xs)) m ys e)"
  by (induction xs arbitrary: q p) (auto split: option.splits)

lemma dseg_alloc: "dseg nx pv h q p as e \<Longrightarrow> a \<in> set as \<Longrightarrow> a \<noteq> 0 \<and> h a \<noteq> None"
  by (induction as arbitrary: q p) (auto split: option.splits)

text \<open>What the links of the nodes are decides; the rest of a handle does not matter.\<close>

definition links :: "(UT_hash_handle \<Rightarrow> nat) \<Rightarrow> (UT_hash_handle \<Rightarrow> nat) \<Rightarrow> handles_at \<Rightarrow> nat \<Rightarrow> (nat \<times> nat) option" where
  "links nx pv h a = map_option (\<lambda>x. (nx x, pv x)) (h a)"

lemma dseg_frame:
  "dseg nx pv h q p as e \<Longrightarrow> \<forall>a \<in> set as. links nx pv h' a = links nx pv h a \<Longrightarrow> dseg nx pv h' q p as e"
proof (induction as arbitrary: q p)
  case (Cons a as)
  then obtain x where x: "h a = Some x" "p = a" "a \<noteq> 0" "pv x = q" "dseg nx pv h a (nx x) as e"
    by (auto split: option.splits)
  from Cons.prems(2) x(1) obtain y where y: "h' a = Some y" "nx y = nx x" "pv y = pv x"
    by (auto simp: links_def)
  with x Cons.IH [OF x(5)] Cons.prems(2) show ?case by simp
qed simp

lemma dseg_det: "dseg nx pv h q p as 0 \<Longrightarrow> dseg nx pv h q' p bs 0 \<Longrightarrow> as = bs"
proof (induction as arbitrary: q q' p bs)
  case Nil
  then show ?case by (cases bs) auto
next
  case (Cons a as)
  then show ?case by (cases bs) (auto split: option.splits)
qed

lemma dseg_split:
  assumes "dseg nx pv h q p (xs @ a # ys) e"
  obtains x where "h a = Some x" "pv x = last (q # xs)" "dseg nx pv h q p xs a" "dseg nx pv h a (nx x) ys e"
    "a \<noteq> 0"
  using assms by (auto simp: dseg_append split: option.splits)

lemma dseg_distinct: "dseg nx pv h q p as 0 \<Longrightarrow> distinct as"
proof (induction as arbitrary: q p)
  case (Cons a as)
  then obtain x where x: "h a = Some x" "dseg nx pv h a (nx x) as 0" by (auto split: option.splits)
  have "a \<notin> set as"
  proof
    assume "a \<in> set as"
    then obtain xs ys where as: "as = xs @ a # ys" by (auto simp: in_set_conv_decomp)
    then obtain y where "h a = Some y" "dseg nx pv h a (nx y) ys 0"
      using x(2) dseg_split by metis
    then have "as = ys" using x dseg_det by simp
    then show False using as by (simp add: append_eq_Cons_conv)
  qed
  with Cons.IH [OF x(2)] show ?case by simp
qed simp

text \<open>A pointer into the next node changed: the end of a segment, or the back pointer of its first node.\<close>

lemma dseg_set_end:
  assumes "dseg nx pv h q p (xs @ [b]) e" and "b \<notin> set xs" and "h b = Some x" and "h' b = Some y"
    and "nx y = m" and "pv y = pv x" and "\<forall>a \<in> set xs. links nx pv h' a = links nx pv h a"
  shows "dseg nx pv h' q p (xs @ [b]) m"
proof -
  have d: "dseg nx pv h q p xs b" "pv x = last (q # xs)" "b \<noteq> 0"
    using assms(1,3) by (auto simp: dseg_append split: option.splits)
  have "dseg nx pv h' q p xs b" by (rule dseg_frame [OF d(1) assms(7)])
  then show ?thesis using d(2,3) assms(4-6) by (simp add: dseg_append)
qed

lemma dseg_set_back:
  assumes "dseg nx pv h q p (b # ys) e" and "b \<notin> set ys" and "h b = Some x" and "h' b = Some y"
    and "nx y = nx x" and "pv y = q'" and "\<forall>a \<in> set ys. links nx pv h' a = links nx pv h a"
  shows "dseg nx pv h' q' p (b # ys) e"
  using assms dseg_frame [of nx pv h b "nx x" ys e h'] by simp

text \<open>
  Unlinking a node: the nodes beside it get its pointers. \<open>h'\<close> need only agree with that on the links.
\<close>

lemma dseg_unlink:
  assumes d: "dseg nx pv h 0 p (xs @ a # ys) 0" and x: "h a = Some x"
    and before: "xs \<noteq> [] \<Longrightarrow> links nx pv h' (last xs) = map_option (\<lambda>y. (nx x, pv y)) (h (last xs))"
    and after: "ys \<noteq> [] \<Longrightarrow> links nx pv h' (hd ys) = map_option (\<lambda>y. (nx y, pv x)) (h (hd ys))"
    and other: "\<And>b. b \<in> set (xs @ ys) \<Longrightarrow> (xs = [] \<or> b \<noteq> last xs) \<Longrightarrow> (ys = [] \<or> b \<noteq> hd ys) \<Longrightarrow>
        links nx pv h' b = links nx pv h b"
  shows "dseg nx pv h' 0 (if pv x = 0 then nx x else p) (xs @ ys) 0"
proof -
  have dist: "distinct (xs @ a # ys)" by (rule dseg_distinct [OF d])
  have s: "pv x = last (0 # xs)" "dseg nx pv h 0 p xs a" "dseg nx pv h a (nx x) ys 0"
    using d x by (auto simp: dseg_append simp del: last.simps)
  have second: "dseg nx pv h' (pv x) (nx x) ys 0"
  proof (cases ys)
    case Nil
    with s(3) show ?thesis by simp
  next
    case (Cons b bs)
    then obtain y where y: "h b = Some y" using s(3) by (auto split: option.splits)
    with after Cons obtain z where z: "h' b = Some z" "nx z = nx y" "pv z = pv x" by (auto simp: links_def)
    have "\<forall>c \<in> set bs. links nx pv h' c = links nx pv h c"
    proof
      fix c assume c: "c \<in> set bs"
      then have "c \<in> set (xs @ ys)" "c \<noteq> hd ys" "xs = [] \<or> c \<noteq> last xs"
        using dist Cons by (auto dest: last_in_set)
      then show "links nx pv h' c = links nx pv h c" using other by blast
    qed
    moreover have "b \<notin> set bs" using dist Cons by simp
    ultimately show ?thesis
      using dseg_set_back [where nx = nx and pv = pv and h = h and h' = h', of a "nx x" b bs 0 y z "pv x"] s(3) y z Cons by blast
  qed
  show ?thesis
  proof (cases xs rule: rev_cases)
    case Nil
    with s(1) second show ?thesis by simp
  next
    case (snoc zs b)
    then obtain y where y: "h b = Some y" "b \<noteq> 0" using s(2) by (auto simp: dseg_append split: option.splits)
    with before snoc obtain z where z: "h' b = Some z" "nx z = nx x" "pv z = pv y" by (auto simp: links_def)
    have "\<forall>c \<in> set zs. links nx pv h' c = links nx pv h c"
    proof
      fix c assume c: "c \<in> set zs"
      then have "c \<in> set (xs @ ys)" "c \<noteq> last xs" "ys = [] \<or> c \<noteq> hd ys"
        using dist snoc by (auto dest: hd_in_set)
      then show "links nx pv h' c = links nx pv h c" using other by blast
    qed
    moreover have "b \<notin> set zs" using dist snoc by simp
    ultimately have "dseg nx pv h' 0 p xs (nx x)"
      using dseg_set_end [where nx = nx and pv = pv and h = h and h' = h', of 0 p zs b a y z "nx x"] s(2) y z snoc by blast
    moreover have "last (0 # xs) = pv x" "pv x \<noteq> 0" using s(1) snoc y(2) by simp_all
    ultimately show ?thesis using second unfolding dseg_append by auto
  qed
qed

abbreviation app_seg :: "handles_at \<Rightarrow> nat \<Rightarrow> nat \<Rightarrow> nat list \<Rightarrow> nat \<Rightarrow> bool" where
  "app_seg \<equiv> dseg app_next app_prev"

abbreviation bkt_seg :: "handles_at \<Rightarrow> nat \<Rightarrow> nat \<Rightarrow> nat list \<Rightarrow> nat \<Rightarrow> bool" where
  "bkt_seg \<equiv> dseg bkt_next bkt_prev"

text \<open>Heaps that differ in the links of the buckets only.\<close>

definition core :: "UT_hash_handle \<Rightarrow> UT_hash_handle" where
  "core x = x\<lparr>bkt_prev := 0, bkt_next := 0\<rparr>"

definition same_core :: "handles_at \<Rightarrow> handles_at \<Rightarrow> bool" where
  "same_core h h' \<longleftrightarrow> (\<forall>a. map_option core (h' a) = map_option core (h a))"

lemma core_eqD:
  assumes "core y = core x"
  shows "app_prev y = app_prev x" "app_next y = app_next x" "hh_key y = hh_key x" "hh_keylen y = hh_keylen x"
    "hashv y = hashv x"
  using assms by (cases x, cases y, simp add: core_def)+

lemma same_core_refl [simp]: "same_core h h"
  by (simp add: same_core_def)

lemma same_core_trans: "same_core h h' \<Longrightarrow> same_core h' h'' \<Longrightarrow> same_core h h''"
  by (simp add: same_core_def)

lemma same_coreD: "same_core h h' \<Longrightarrow> h a = Some x \<Longrightarrow> \<exists>y. h' a = Some y \<and> core y = core x"
  unfolding same_core_def by (metis map_option_eq_Some)

lemma same_core_sym: "same_core h h' \<Longrightarrow> same_core h' h"
  by (simp add: same_core_def)

lemma same_core_app: "same_core h h' \<Longrightarrow> app_seg h q p as e \<Longrightarrow> app_seg h' q p as e"
proof (erule dseg_frame, rule ballI)
  fix a assume s: "same_core h h'"
  show "links app_next app_prev h' a = links app_next app_prev h a"
  proof (cases "h a")
    case None
    then have "h' a = None" using s by (metis map_option_is_None same_core_def)
    then show ?thesis by (simp add: links_def None)
  next
    case (Some x)
    with same_coreD [OF s] obtain y where "h' a = Some y" "core y = core x" by blast
    with core_eqD [of y x] Some show ?thesis by (simp add: links_def)
  qed
qed

section \<open>The invariant of the table\<close>

definition bucket_of :: "handles_at \<Rightarrow> nat \<Rightarrow> nat \<Rightarrow> nat" where
  "bucket_of h n a = (case h a of None \<Rightarrow> 0 | Some x \<Rightarrow> HASH_TO_BKT (hashv x) n)"

text \<open>The chains \<open>ch\<close> of the buckets hold the elements \<open>P\<close>, each in its bucket.\<close>

definition chains_ok :: "handles_at \<Rightarrow> nat set \<Rightarrow> UT_hash_bucket list \<Rightarrow> (nat \<Rightarrow> nat list) \<Rightarrow> bool" where
  "chains_ok h P nb ch \<longleftrightarrow>
     (\<forall>j < length nb. bkt_seg h 0 (hh_head (nb ! j)) (ch j) 0 \<and> bkt_count (nb ! j) = length (ch j) \<and>
        set (ch j) = {a \<in> P. bucket_of h (length nb) a = j})"

lemma chains_okD:
  assumes "chains_ok h P nb ch" and "j < length nb"
  shows "bkt_seg h 0 (hh_head (nb ! j)) (ch j) 0" "bkt_count (nb ! j) = length (ch j)"
    "set (ch j) = {a \<in> P. bucket_of h (length nb) a = j}"
  using assms unfolding chains_ok_def by blast+

lemma bucket_of_core: "same_core h h' \<Longrightarrow> bucket_of h' n a = bucket_of h n a"
proof (cases "h a")
  case None
  assume "same_core h h'"
  then have "h' a = None" using None by (metis map_option_is_None same_core_def)
  with None show ?thesis by (simp add: bucket_of_def)
next
  case (Some x)
  assume "same_core h h'"
  with Some obtain y where "h' a = Some y" "core y = core x" using same_coreD by blast
  with core_eqD(5) [of y x] Some show ?thesis by (simp add: bucket_of_def)
qed

lemma uint32_small: "n < 4294967296 \<Longrightarrow> uint32 n = n"
  by (simp add: uint32_def)

text \<open>Putting an element at the head of its chain, as adding and expanding do.\<close>

lemma push_ok:
  assumes ch: "chains_ok h P nb ch" and P: "finite P" "card P < 4294967295" "a \<notin> P" "a \<noteq> 0"
    and x: "h a = Some x" and b: "b = HASH_TO_BKT (hashv x) (length nb)" "b < length nb"
    and k: "k = nb ! b"
  shows "\<exists>h1 h2. set_hh a (\<lambda>x. x\<lparr>bkt_prev := 0, bkt_next := hh_head k\<rparr>) h = Some h1 \<and>
           set_hh_if (hh_head k) (\<lambda>x. x\<lparr>bkt_prev := a\<rparr>) h1 = Some h2 \<and>
           chains_ok h2 (insert a P)
             (nb[b := \<lparr>hh_head = a, bkt_count = uint32 (bkt_count k + 1), expand_mult = m\<rparr>]) (ch(b := a # ch b)) \<and>
           same_core h h2 \<and> (\<forall>c. c \<notin> insert a P \<longrightarrow> h2 c = h c)"
proof -
  let ?p = "hh_head k" and ?x = "x\<lparr>bkt_prev := 0, bkt_next := hh_head k\<rparr>"
  define h1 where "h1 = h(a \<mapsto> ?x)"
  note c = chains_okD [OF ch b(2), folded k]
  have "card (set (ch b)) \<le> card P" using c(3) P(1) by (auto intro: card_mono)
  then have len: "length (ch b) < 4294967295"
    using P(2) distinct_card [OF dseg_distinct [OF c(1)]] by simp
  have s1: "set_hh a (\<lambda>x. x\<lparr>bkt_prev := 0, bkt_next := hh_head k\<rparr>) h = Some h1"
    by (simp add: set_hh_def x h1_def)
  have core1: "same_core h h1" by (simp add: same_core_def h1_def x core_def)
  obtain h2 where h2: "set_hh_if ?p (\<lambda>x. x\<lparr>bkt_prev := a\<rparr>) h1 = Some h2" "same_core h1 h2"
    "h2 a = Some ?x" "\<And>c. c \<notin> set (ch b) \<Longrightarrow> h2 c = h1 c" "bkt_seg h2 a ?p (ch b) 0"
  proof (cases "ch b")
    case Nil
    with c(1) have "?p = 0" by simp
    with Nil show thesis by (intro that [of h1]) (simp_all add: set_hh_if_def h1_def)
  next
    case (Cons p' cs)
    with c(1) obtain y where y: "p' = ?p" "?p \<noteq> 0" "h ?p = Some y" "bkt_prev y = 0" "bkt_seg h ?p (bkt_next y) cs 0"
      by (auto split: option.splits)
    have pa: "?p \<noteq> a" using c(3) Cons y(1) P(3) by auto
    define h2 where "h2 = h1(?p \<mapsto> y\<lparr>bkt_prev := a\<rparr>)"
    have "?p \<notin> set cs" using dseg_distinct [OF c(1)] Cons y(1) by simp
    moreover have "a \<notin> set cs" using c(3) Cons P(3) by auto
    ultimately have "\<forall>c \<in> set cs. links bkt_next bkt_prev h2 c = links bkt_next bkt_prev h c"
      by (auto simp: links_def h2_def h1_def)
    from dseg_frame [OF y(5) this] have "bkt_seg h2 a ?p (ch b) 0"
      by (simp add: Cons y h2_def)
    moreover have "same_core h1 h2" using y(3) pa by (simp add: same_core_def h2_def h1_def core_def)
    ultimately show thesis using y pa Cons
      by (intro that [of h2]) (auto simp: set_hh_if_def set_hh_def h1_def h2_def)
  qed
  have core: "same_core h h2" using same_core_trans [OF core1 h2(2)] .
  have other: "h2 c = h c" if "c \<noteq> a" "c \<notin> set (ch b)" for c
    using h2(4) [OF that(2)] that(1) by (simp add: h1_def)
  have bo: "bucket_of h2 (length nb) c = bucket_of h (length nb) c" for c using bucket_of_core [OF core] .
  have ba: "bucket_of h (length nb) a = b" using x b by (simp add: bucket_of_def)
  have "chains_ok h2 (insert a P)
     (nb[b := \<lparr>hh_head = a, bkt_count = uint32 (bkt_count k + 1), expand_mult = m\<rparr>]) (ch(b := a # ch b))"
    unfolding chains_ok_def length_list_update
  proof (intro allI impI)
    fix j assume j: "j < length nb"
    show "bkt_seg h2 0 (hh_head (nb[b := \<lparr>hh_head = a, bkt_count = uint32 (bkt_count k + 1), expand_mult = m\<rparr>] ! j))
           ((ch(b := a # ch b)) j) 0 \<and>
         bkt_count (nb[b := \<lparr>hh_head = a, bkt_count = uint32 (bkt_count k + 1), expand_mult = m\<rparr>] ! j) =
           length ((ch(b := a # ch b)) j) \<and>
         set ((ch(b := a # ch b)) j) = {c \<in> insert a P. bucket_of h2 (length nb) c = j}"
    proof (cases "j = b")
      case True
      then show ?thesis
        using h2(3,5) P(4) c(2,3) len b(2) ba by (auto simp: bo uint32_small)
    next
      case False
      note cj = chains_okD [OF ch j]
      have "\<forall>c \<in> set (ch j). links bkt_next bkt_prev h2 c = links bkt_next bkt_prev h c"
      proof
        fix c assume "c \<in> set (ch j)"
        then have "c \<noteq> a" "c \<notin> set (ch b)" using cj(3) c(3) False P(3) by auto
        then show "links bkt_next bkt_prev h2 c = links bkt_next bkt_prev h c" by (simp add: links_def other)
      qed
      from dseg_frame [OF cj(1) this] cj(2,3) False ba show ?thesis by (auto simp: bo)
    qed
  qed
  moreover have "\<forall>d. d \<notin> insert a P \<longrightarrow> h2 d = h d" using other c(3) by auto
  ultimately show ?thesis using s1 h2(1) core by blast
qed

section \<open>Expansion keeps the elements\<close>

lemma HASH_TO_BKT_less:
  assumes "i < 32"
  shows "HASH_TO_BKT v (2 ^ i) < 2 ^ i"
proof -
  have "(of_nat (2 ^ i) - 1 :: 32 word) = mask i" by (simp add: mask_eq_exp_minus_1)
  then have "HASH_TO_BKT v (2 ^ i) = unat v mod 2 ^ i"
    unfolding HASH_TO_BKT_def of_nat_power
    by (simp add: take_bit_eq_mask [symmetric] unsigned_take_bit_eq del: take_bit_eq_mod) (simp add: take_bit_eq_mod)
  then show ?thesis by simp
qed

lemma expand_chain_ok:
  assumes "chains_ok h P nb ch" and "bkt_seg h q p as 0" and "set as \<inter> P = {}" and "finite P"
    and "card (P \<union> set as) < 4294967296" and "\<And>v. HASH_TO_BKT v (length nb) < length nb"
  shows "\<exists>h' nb' ni' ch'. expand_chain ideal p (h, nb, ni) = Some (h', nb', ni') \<and> length nb' = length nb \<and>
           chains_ok h' (P \<union> set as) nb' ch' \<and> same_core h h' \<and> (\<forall>c. c \<notin> P \<union> set as \<longrightarrow> h' c = h c)"
  using assms
proof (induction as arbitrary: q p h nb ni ch P)
  case Nil
  then show ?case by (subst expand_chain.simps) auto
next
  case (Cons a as)
  from Cons.prems(2) obtain x where x: "p = a" "a \<noteq> 0" "h a = Some x" "bkt_seg h a (bkt_next x) as 0"
    by (auto split: option.splits)
  have dist: "distinct (a # as)" by (rule dseg_distinct [OF Cons.prems(2)])
  define b where "b = HASH_TO_BKT (hashv x) (length nb)"
  define k where "k = nb ! b"
  define n where "n = uint32 (bkt_count k + 1)"
  define ni' where "ni' = (if n > ideal then uint32 (ni + 1) else ni)"
  define m where "m = (if n > ideal then n div ideal else expand_mult k)"
  have bl: "b < length nb" using Cons.prems(6) by (simp add: b_def)
  have fin: "finite (P \<union> set (a # as))" using Cons.prems(4) by simp
  have "insert a P \<subseteq> P \<union> set (a # as)" by auto
  from card_mono [OF fin this] Cons.prems(3,4,5) have small: "card P < 4294967295" by simp
  obtain h1 h2 where h: "set_hh a (\<lambda>x. x\<lparr>bkt_prev := 0, bkt_next := hh_head k\<rparr>) h = Some h1"
    "set_hh_if (hh_head k) (\<lambda>x. x\<lparr>bkt_prev := a\<rparr>) h1 = Some h2"
    "chains_ok h2 (insert a P) (nb[b := \<lparr>hh_head = a, bkt_count = n, expand_mult = m\<rparr>]) (ch(b := a # ch b))"
    "same_core h h2" "\<forall>c. c \<notin> insert a P \<longrightarrow> h2 c = h c"
    using push_ok [OF Cons.prems(1,4) small _ x(2,3) b_def bl k_def, of m] Cons.prems(3)
    by (auto simp: n_def)
  have "\<forall>c \<in> set as. links bkt_next bkt_prev h2 c = links bkt_next bkt_prev h c"
    using h(5) dist Cons.prems(3) by (auto simp: links_def)
  from dseg_frame [OF x(4) this] have seg: "bkt_seg h2 a (bkt_next x) as 0" .
  have "set as \<inter> insert a P = {}" using dist Cons.prems(3) by auto
  moreover have eq: "insert a P \<union> set as = P \<union> set (a # as)" by auto
  ultimately obtain h' nb' ni2 ch' where IH:
    "expand_chain ideal (bkt_next x) (h2, nb[b := \<lparr>hh_head = a, bkt_count = n, expand_mult = m\<rparr>], ni') = Some (h', nb', ni2)"
    "length nb' = length nb" "chains_ok h' (P \<union> set (a # as)) nb' ch'" "same_core h2 h'"
    "\<forall>c. c \<notin> P \<union> set (a # as) \<longrightarrow> h' c = h2 c"
    using Cons.IH [OF h(3) seg, of ni'] Cons.prems(4,5,6) by (auto simp: eq)
  have "expand_chain ideal p (h, nb, ni) = Some (h', nb', ni2)"
    using IH(1) h(1,2) x(1-3) bl
    by (subst expand_chain.simps) (simp add: Let_def b_def [symmetric] k_def [symmetric] n_def ni'_def m_def split: if_splits)
  moreover have "same_core h h'" using same_core_trans [OF h(4) IH(4)] .
  moreover have "\<forall>c. c \<notin> P \<union> set (a # as) \<longrightarrow> h' c = h c" using IH(5) h(5) by auto
  ultimately show ?case using IH(2,3) by blast
qed

lemma expand_chains_ok:
  assumes "length ks = length cs" and "\<forall>i < length ks. bkt_seg h 0 (hh_head (ks ! i)) (cs ! i) 0"
    and "chains_ok h P nb ch" and "distinct (concat cs)" and "set (concat cs) \<inter> P = {}" and "finite P"
    and "card (P \<union> set (concat cs)) < 4294967296" and "\<And>v. HASH_TO_BKT v (length nb) < length nb"
  shows "\<exists>h' nb' ni' ch'. expand_chains ideal ks (h, nb, ni) = Some (h', nb', ni') \<and> length nb' = length nb \<and>
           chains_ok h' (P \<union> set (concat cs)) nb' ch' \<and> same_core h h' \<and>
           (\<forall>c. c \<notin> P \<union> set (concat cs) \<longrightarrow> h' c = h c)"
  using assms
proof (induction ks cs arbitrary: h P nb ni ch rule: list_induct2)
  case (Cons k ks c cs)
  from Cons.prems(1) have seg: "bkt_seg h 0 (hh_head k) c 0" by auto
  have fin: "finite (P \<union> set (concat (c # cs)))" using Cons.prems(5) by simp
  have "P \<union> set c \<subseteq> P \<union> set (concat (c # cs))" by auto
  from card_mono [OF fin this] Cons.prems(6) have small: "card (P \<union> set c) < 4294967296" by simp
  have "set c \<inter> P = {}" using Cons.prems(4) by auto
  from expand_chain_ok [OF Cons.prems(2) seg this Cons.prems(5) small Cons.prems(7), of ideal ni] obtain h1 nb1 ni1 ch1
    where 1: "expand_chain ideal (hh_head k) (h, nb, ni) = Some (h1, nb1, ni1)" "length nb1 = length nb"
      "chains_ok h1 (P \<union> set c) nb1 ch1" "same_core h h1" "\<forall>d. d \<notin> P \<union> set c \<longrightarrow> h1 d = h d"
    by blast
  have segs: "\<forall>i < length ks. bkt_seg h1 0 (hh_head (ks ! i)) (cs ! i) 0"
  proof (intro allI impI)
    fix i assume i: "i < length ks"
    with Cons.prems(1) have s: "bkt_seg h 0 (hh_head (ks ! i)) (cs ! i) 0" by (metis Suc_less_eq length_Cons nth_Cons_Suc)
    have "cs ! i \<in> set cs" using i Cons.hyps by simp
    then have "set (cs ! i) \<subseteq> set (concat cs)" by auto
    then have "\<forall>d \<in> set (cs ! i). links bkt_next bkt_prev h1 d = links bkt_next bkt_prev h d"
      using 1(5) Cons.prems(3,4) by (fastforce simp: links_def)
    from dseg_frame [OF s this] show "bkt_seg h1 0 (hh_head (ks ! i)) (cs ! i) 0" .
  qed
  have disj: "set (concat cs) \<inter> (P \<union> set c) = {}" using Cons.prems(3,4) by auto
  have eq: "P \<union> set c \<union> set (concat cs) = P \<union> set (concat (c # cs))" by auto
  have "\<exists>h' nb' ni' ch'. expand_chains ideal ks (h1, nb1, ni1) = Some (h', nb', ni') \<and> length nb' = length nb1 \<and>
           chains_ok h' (P \<union> set c \<union> set (concat cs)) nb' ch' \<and> same_core h1 h' \<and>
           (\<forall>d. d \<notin> P \<union> set c \<union> set (concat cs) \<longrightarrow> h' d = h1 d)"
    by (rule Cons.IH [OF segs 1(3) _ disj]) (use Cons.prems(3,5-7) in \<open>simp_all only: eq 1(2), simp_all\<close>)
  then obtain h' nb' ni' ch' where 2: "expand_chains ideal ks (h1, nb1, ni1) = Some (h', nb', ni')"
    "length nb' = length nb" "chains_ok h' (P \<union> set (concat (c # cs))) nb' ch'" "same_core h1 h'"
    "\<forall>d. d \<notin> P \<union> set (concat (c # cs)) \<longrightarrow> h' d = h1 d"
    unfolding eq 1(2) by blast
  have "expand_chains ideal (k # ks) (h, nb, ni) = Some (h', nb', ni')" using 1(1) 2(1) by simp
  moreover have "\<forall>d. d \<notin> P \<union> set (concat (c # cs)) \<longrightarrow> h' d = h d" using 2(5) 1(5) by auto
  ultimately show ?case using 2(2,3) same_core_trans [OF 1(4) 2(4)] by blast
qed auto

definition tab_ok :: "UT_hash_table \<Rightarrow> handles_at \<Rightarrow> nat set \<Rightarrow> (nat \<Rightarrow> nat list) \<Rightarrow> bool" where
  "tab_ok t h P ch \<longleftrightarrow> log2_num_buckets t < 32 \<and> num_buckets t = 2 ^ log2_num_buckets t \<and>
     length (buckets t) = num_buckets t \<and> num_items t = card P \<and> finite P \<and> card P < 4294967296 \<and>
     chains_ok h P (buckets t) ch"

lemma distinct_concat_upto:
  assumes "\<And>j. j < n \<Longrightarrow> distinct (ch j)" and "\<And>i j. i < n \<Longrightarrow> j < n \<Longrightarrow> i \<noteq> j \<Longrightarrow> set (ch i) \<inter> set (ch j) = {}"
  shows "distinct (concat (map ch [0..<n]))"
  using assms
proof (induction n)
  case (Suc n)
  have "set (ch n) \<inter> set (ch j) = {}" if "j < n" for j using Suc.prems(2) [of n j] that by simp
  then have "set (concat (map ch [0..<n])) \<inter> set (ch n) = {}" by fastforce
  moreover have "distinct (concat (map ch [0..<n]))" using Suc by simp
  ultimately show ?case using Suc.prems(1) [of n] by simp
qed simp

lemma HASH_EXPAND_BUCKETS_ok:
  assumes t: "tab_ok t h P ch" and "log2_num_buckets t < 31" and "P \<noteq> {}"
  shows "\<exists>t' h' ch'. HASH_EXPAND_BUCKETS t h = Some (t', h') \<and> tab_ok t' h' P ch' \<and> same_core h h' \<and>
           tbl_tail t' = tbl_tail t"
proof -
  let ?n = "2 ^ (log2_num_buckets t + 1) :: nat"
  note t' = t [unfolded tab_ok_def]
  have lt: "(2 :: nat) ^ log2_num_buckets t < 2 ^ 31" using assms(2) by (intro power_strict_increasing) auto
  then have n: "uint32 (2 * num_buckets t) = ?n" using t' by (simp add: uint32_small)
  define ideal where "ideal = num_items t div ?n + (if num_items t mod ?n \<noteq> 0 then 1 else 0)"
  have "num_items t \<noteq> 0" using t' assms(3) by simp
  then have ideal: "ideal \<noteq> 0" by (auto simp: ideal_def div_eq_0_iff mod_eq_self_iff_div_eq_0)
  have bu: "HASH_TO_BKT v (length (replicate ?n empty_bucket)) < length (replicate ?n empty_bucket)" for v
    using HASH_TO_BKT_less [of "log2_num_buckets t + 1" v] assms(2) by simp
  define cs where "cs = map ch [0..<num_buckets t]"
  have chs: "bkt_seg h 0 (hh_head (buckets t ! j)) (ch j) 0"
      "set (ch j) = {a \<in> P. bucket_of h (num_buckets t) a = j}" if "j < num_buckets t" for j
    using chains_okD [of h P "buckets t" ch j] t' that by auto
  have "set (concat cs) = (\<Union>j \<in> {0..<num_buckets t}. set (ch j))" by (simp add: cs_def)
  also have "\<dots> = P"
  proof
    show "P \<subseteq> (\<Union>j \<in> {0..<num_buckets t}. set (ch j))"
    proof
      fix a assume a: "a \<in> P"
      have "bucket_of h (num_buckets t) a < num_buckets t"
        using HASH_TO_BKT_less [of "log2_num_buckets t"] t' by (simp add: bucket_of_def split: option.split)
      with chs(2) [OF this] a show "a \<in> (\<Union>j \<in> {0..<num_buckets t}. set (ch j))" by auto
    qed
  qed (use chs(2) in auto)
  finally have all: "set (concat cs) = P" .
  have dist: "distinct (concat cs)"
    unfolding cs_def
    by (rule distinct_concat_upto) (auto simp: chs(2) intro: dseg_distinct [OF chs(1)])
  have len: "length (buckets t) = length cs" and segs: "\<forall>i < length (buckets t). bkt_seg h 0 (hh_head (buckets t ! i)) (cs ! i) 0"
    using t' chs by (simp_all add: cs_def)
  have new: "chains_ok h {} (replicate ?n empty_bucket) (\<lambda>_. [])"
    by (simp add: chains_ok_def empty_bucket_def)
  have "card ({} \<union> set (concat cs)) < 4294967296" using t' by (simp only: all Un_empty_left)
  from expand_chains_ok [OF len segs new dist _ _ this bu, of ideal 0, unfolded all] obtain h' nb ni ch' where
    r: "expand_chains ideal (buckets t) (h, replicate ?n empty_bucket, 0) = Some (h', nb, ni)"
      "length nb = ?n" "chains_ok h' P nb ch'" "same_core h h'"
    by auto
  define t2 where "t2 = t\<lparr>buckets := nb, num_buckets := ?n, log2_num_buckets := log2_num_buckets t + 1,
      ideal_chain_maxlen := ideal, nonideal_items := ni,
      ineff_expands := (if ni > num_items t div 2 then uint32 (ineff_expands t + 1) else 0),
      noexpand := (noexpand t \<or> (if ni > num_items t div 2 then uint32 (ineff_expands t + 1) else 0) > 1)\<rparr>"
  have "HASH_EXPAND_BUCKETS t h = Some (t2, h')"
    unfolding HASH_EXPAND_BUCKETS_def n ideal_def [symmetric] Let_def using ideal r(1) by (simp add: t2_def)
  moreover have "tab_ok t2 h' P ch'" using r(2,3) t' assms(2) by (simp add: tab_ok_def t2_def)
  ultimately show ?thesis using r(4) by (intro exI [of _ t2]) (auto simp: t2_def)
qed

lemma HASH_ADD_TO_BKT_ok:
  assumes t: "tab_ok (t\<lparr>num_items := card P\<rparr>) h P ch" and "num_items t = card P + 1" and "card P < 4294967295"
    and "a \<notin> P" and "a \<noteq> 0" and x: "h a = Some x" and "b = HASH_TO_BKT (hashv x) (num_buckets t)"
    and "log2_num_buckets t < 31"
  shows "\<exists>t' h' ch'. HASH_ADD_TO_BKT b a t h = Some (t', h') \<and> tab_ok t' h' (insert a P) ch' \<and>
           same_core h h' \<and> tbl_tail t' = tbl_tail t"
proof -
  note t' = t [unfolded tab_ok_def, simplified]
  define k where "k = buckets t ! b"
  define n where "n = uint32 (bkt_count k + 1)"
  have b: "b < length (buckets t)"
    using t' HASH_TO_BKT_less [of "log2_num_buckets t" "hashv x"] assms(7) by simp
  obtain h1 h2 where h: "set_hh a (\<lambda>x. x\<lparr>bkt_prev := 0, bkt_next := hh_head k\<rparr>) h = Some h1"
    "set_hh_if (hh_head k) (\<lambda>x. x\<lparr>bkt_prev := a\<rparr>) h1 = Some h2"
    "chains_ok h2 (insert a P)
       ((buckets t)[b := \<lparr>hh_head = a, bkt_count = n, expand_mult = expand_mult k\<rparr>]) (ch(b := a # ch b))"
    "same_core h h2"
    using push_ok [of h P "buckets t" ch a x b k "expand_mult k"] t' assms(3-7) b by (auto simp: n_def k_def)
  define t2 where "t2 = t\<lparr>buckets := (buckets t)[b := \<lparr>hh_head = a, bkt_count = n, expand_mult = expand_mult k\<rparr>]\<rparr>"
  have ok2: "tab_ok t2 h2 (insert a P) (ch(b := a # ch b))"
    using h(3) t' assms(2-4) by (simp add: tab_ok_def t2_def)
  have "HASH_ADD_TO_BKT b a t h =
      (if n \<ge> uint32 (uint32 (expand_mult k + 1) * HASH_BKT_CAPACITY_THRESH) \<and> \<not> noexpand t
       then HASH_EXPAND_BUCKETS t2 h2 else Some (t2, h2))"
    using h(1,2) b by (simp add: HASH_ADD_TO_BKT_def k_def n_def t2_def Let_def)
  moreover have "\<exists>t3 h3 ch3. HASH_EXPAND_BUCKETS t2 h2 = Some (t3, h3) \<and> tab_ok t3 h3 (insert a P) ch3 \<and>
      same_core h2 h3 \<and> tbl_tail t3 = tbl_tail t2"
    by (rule HASH_EXPAND_BUCKETS_ok [OF ok2]) (use assms(8) in \<open>simp_all add: t2_def\<close>)
  moreover have "tbl_tail t2 = tbl_tail t" by (simp add: t2_def)
  ultimately show ?thesis using ok2 h(4) same_core_trans [OF h(4)] by (cases "n \<ge> uint32 (uint32 (expand_mult k + 1) * HASH_BKT_CAPACITY_THRESH) \<and> \<not> noexpand t") auto
qed

section \<open>The table holds a list of elements\<close>

text \<open>
  \<open>holds hf s ks\<close>: the elements and their keys in the order of insertion, with the table in order.
\<close>

definition has_key :: "(string \<Rightarrow> 32 word) \<Rightarrow> handles_at \<Rightarrow> nat \<times> string \<Rightarrow> bool" where
  "has_key hf h = (\<lambda>(a, k). case h a of None \<Rightarrow> False
     | Some x \<Rightarrow> hh_key x = k \<and> hh_keylen x = length k \<and> hashv x = hf k)"

definition holds :: "(string \<Rightarrow> 32 word) \<Rightarrow> uthash \<Rightarrow> (nat \<times> string) list \<Rightarrow> bool" where
  "holds hf s ks \<longleftrightarrow>
     (case hash_tbl s of None \<Rightarrow> hash_head s = 0 \<and> ks = []
      | Some t \<Rightarrow> ks \<noteq> [] \<and> app_seg (hhs s) 0 (hash_head s) (map fst ks) 0 \<and> tbl_tail t = fst (last ks) \<and>
          (\<exists>ch. tab_ok t (hhs s) (fst ` set ks) ch) \<and> list_all (has_key hf (hhs s)) ks)"

definition empty_hash :: uthash where
  "empty_hash = \<lparr>hash_head = 0, hash_tbl = None, hhs = Map.empty\<rparr>"

lemma holds_empty: "holds hf empty_hash []"
  by (simp add: holds_def empty_hash_def)

lemma has_key_core: "same_core h h' \<Longrightarrow> has_key hf h ak \<Longrightarrow> has_key hf h' ak"
proof (cases ak)
  case (Pair a k)
  assume s: "same_core h h'" and "has_key hf h ak"
  then obtain x where x: "h a = Some x" "hh_key x = k" "hh_keylen x = length k" "hashv x = hf k"
    by (auto simp: has_key_def Pair split: option.splits)
  with same_coreD [OF s] obtain y where "h' a = Some y" "core y = core x" by blast
  with x core_eqD [of y x] show ?thesis by (simp add: has_key_def Pair)
qed

lemma holds_distinct: "holds hf s ks \<Longrightarrow> distinct (map fst ks)"
  by (auto simp: holds_def dest: dseg_distinct split: option.splits)

lemma holds_key: "holds hf s ks \<Longrightarrow> (a, k) \<in> set ks \<Longrightarrow> has_key hf (hhs s) (a, k)"
  by (auto simp: holds_def list_all_iff split: option.splits)

lemma holds_nonzero:
  assumes "holds hf s ks" and "(a, k) \<in> set ks"
  shows "a \<noteq> 0"
proof -
  have "a \<in> set (map fst ks)" using assms(2) by force
  then show ?thesis using assms(1) dseg_alloc [of app_next app_prev "hhs s" 0 "hash_head s" "map fst ks" 0 a]
    by (auto simp: holds_def split: option.splits)
qed

lemma find_in_bkt_ok:
  assumes "bkt_seg h q p as 0"
  shows "HASH_FIND_IN_BKT h key p =
           Some (case find (\<lambda>a. case h a of None \<Rightarrow> False
               | Some x \<Rightarrow> hh_keylen x = length key \<and> take (length key) (hh_key x) = key) as of None \<Rightarrow> 0 | Some a \<Rightarrow> a)"
  using assms
proof (induction as arbitrary: q p)
  case Nil
  then show ?case by (subst HASH_FIND_IN_BKT.simps) simp
next
  case (Cons a as)
  then show ?case by (subst HASH_FIND_IN_BKT.simps) (auto split: option.splits)
qed

lemma hash_walk_ok: "app_seg h q p as 0 \<Longrightarrow> hash_walk h p = Some as"
proof (induction as arbitrary: q p)
  case Nil
  then show ?case by (subst hash_walk.simps) simp
next
  case (Cons a as)
  then show ?case by (subst hash_walk.simps) (auto split: option.splits)
qed

text \<open>The element a unique key leads to.\<close>

definition element_of :: "string \<Rightarrow> (nat \<times> string) list \<Rightarrow> nat" where
  "element_of key ks = (case find (\<lambda>(a, k). k = key) ks of None \<Rightarrow> 0 | Some (a, _) \<Rightarrow> a)"

lemma element_of_mem: "distinct (map snd ks) \<Longrightarrow> (a, key) \<in> set ks \<Longrightarrow> element_of key ks = a"
  unfolding element_of_def by (induction ks) (auto split: prod.splits intro: rev_image_eqI)

lemma HASH_FIND_ok:
  assumes "holds hf s ks" and "distinct (map snd ks)"
  shows "HASH_FIND hf key s = Some (element_of key ks)"
proof (cases "hash_tbl s")
  case None
  with assms show ?thesis by (simp add: holds_def HASH_FIND_def element_of_def)
next
  case (Some t)
  with assms obtain ch where t: "ks \<noteq> []" "app_seg (hhs s) 0 (hash_head s) (map fst ks) 0"
    "tab_ok t (hhs s) (fst ` set ks) ch" by (auto simp: holds_def)
  define b where "b = HASH_TO_BKT (hf key) (num_buckets t)"
  have b: "b < length (buckets t)"
    using HASH_TO_BKT_less [of "log2_num_buckets t" "hf key"] t(3) by (simp add: b_def tab_ok_def)
  have nb: "length (buckets t) = num_buckets t" "chains_ok (hhs s) (fst ` set ks) (buckets t) ch"
    using t(3) by (simp_all add: tab_ok_def)
  note c = chains_okD [OF nb(2) b, unfolded nb(1)]
  let ?is = "\<lambda>a. case hhs s a of None \<Rightarrow> False
     | Some x \<Rightarrow> hh_keylen x = length key \<and> take (length key) (hh_key x) = key"
  have is_key: "?is a \<longleftrightarrow> k = key" if "(a, k) \<in> set ks" for a k
    using holds_key [OF assms(1) that] by (auto simp: has_key_def split: option.splits)
  have head: "hash_head s \<noteq> 0" using t(1,2) by (cases ks) auto
  have "HASH_FIND hf key s = HASH_FIND_IN_BKT (hhs s) key (hh_head (buckets t ! b))"
    using head Some b by (simp add: HASH_FIND_def b_def)
  also have "\<dots> = Some (case find ?is (ch b) of None \<Rightarrow> 0 | Some a \<Rightarrow> a)"
    by (rule find_in_bkt_ok [OF c(1)])
  also have "(case find ?is (ch b) of None \<Rightarrow> 0 | Some a \<Rightarrow> a) = element_of key ks"
  proof (cases "find ?is (ch b)")
    case None
    have "(a, key) \<notin> set ks" for a
    proof
      assume a: "(a, key) \<in> set ks"
      with holds_key [OF assms(1) a] have "bucket_of (hhs s) (num_buckets t) a = b"
        by (auto simp: has_key_def bucket_of_def b_def split: option.splits)
      then have "a \<in> set (ch b)" unfolding c(3) using a by force
      with None is_key [OF a] show False by (simp add: find_None_iff)
    qed
    then have "find (\<lambda>(a, k). k = key) ks = None" by (auto simp: find_None_iff)
    with None show ?thesis by (simp add: element_of_def)
  next
    case (Some a)
    from find_Some_mem [OF Some] have a: "a \<in> set (ch b)" "?is a" by auto
    then obtain k where "(a, k) \<in> set ks" by (auto simp: c(3))
    with is_key a(2) have "(a, key) \<in> set ks" by auto
    from element_of_mem [OF assms(2) this] Some show ?thesis by simp
  qed
  finally show ?thesis .
qed

lemma HASH_ADD_KEYPTR_ok:
  assumes s: "holds hf s ks" and a: "a \<noteq> 0" "a \<notin> fst ` set ks" and key: "length key < 4294967296"
    and size: "length ks < 4294967295" "\<forall>t. hash_tbl s = Some t \<longrightarrow> num_buckets t < 2147483648"
  shows "\<exists>t. HASH_ADD_KEYPTR hf key a s = Some t \<and> holds hf t (ks @ [(a, key)])"
proof -
  define x where "x = \<lparr>app_prev = 0, app_next = 0, bkt_prev = 0, bkt_next = 0, hh_key = key,
    hh_keylen = uint32 (length key), hashv = hf key\<rparr>"
  let ?P = "fst ` set ks"
  have card: "card ?P = length ks" using distinct_card [OF holds_distinct [OF s]] by simp
  obtain hd t h ch where pre:
    "(if hash_head s = 0 then Some (a, HASH_MAKE_TABLE a, (hhs s)(a \<mapsto> x))
      else Option.bind (hash_tbl s) (\<lambda>t.
           Option.bind (set_hh (tbl_tail t) (\<lambda>y. y\<lparr>app_next := a\<rparr>) ((hhs s)(a \<mapsto> x\<lparr>app_prev := tbl_tail t\<rparr>)))
             (\<lambda>h. Some (hash_head s, t\<lparr>tbl_tail := a\<rparr>, h)))) = Some (hd, t, h)"
    "tab_ok t h ?P ch" "log2_num_buckets t < 31" "app_seg h 0 hd (map fst ks @ [a]) 0"
    "list_all (has_key hf h) (ks @ [(a, key)])" "tbl_tail t = a"
  proof (cases "hash_tbl s")
    case None
    with s have n: "hash_head s = 0" "ks = []" by (simp_all add: holds_def)
    have "tab_ok (HASH_MAKE_TABLE a) ((hhs s)(a \<mapsto> x)) ?P (\<lambda>_. [])"
      by (simp add: tab_ok_def HASH_MAKE_TABLE_def chains_ok_def n(2) empty_bucket_def HASH_INITIAL_NUM_BUCKETS_def)
    then show thesis
      using that [of a "HASH_MAKE_TABLE a" "(hhs s)(a \<mapsto> x)"] n a(1) key
      by (simp add: x_def has_key_def HASH_MAKE_TABLE_def uint32_small)
  next
    case (Some t)
    with s obtain ch where t: "ks \<noteq> []" "app_seg (hhs s) 0 (hash_head s) (map fst ks) 0"
      "tbl_tail t = fst (last ks)" "tab_ok t (hhs s) ?P ch" "list_all (has_key hf (hhs s)) ks"
      by (auto simp: holds_def)
    let ?l = "fst (last ks)"
    obtain as where as: "map fst ks = as @ [?l]" using t(1) by (metis append_butlast_last_id last_map list.map_disc_iff)
    have l: "?l \<noteq> a" "?l \<notin> set as" "?l \<noteq> 0" using a(2) as holds_distinct [OF s] dseg_alloc [OF t(2), of ?l] t(1) by auto
    obtain y where y: "hhs s ?l = Some y" using dseg_alloc [OF t(2), of ?l] t(1) by auto
    define h where "h = (hhs s)(a \<mapsto> x\<lparr>app_prev := ?l\<rparr>, ?l \<mapsto> y\<lparr>app_next := a\<rparr>)"
    have seth: "set_hh (tbl_tail t) (\<lambda>y. y\<lparr>app_next := a\<rparr>) ((hhs s)(a \<mapsto> x\<lparr>app_prev := tbl_tail t\<rparr>)) = Some h"
      using y l(1) by (simp add: set_hh_def t(3) h_def)
    have head: "hash_head s \<noteq> 0" using t(1,2) by (cases ks) auto
    have old: "h c = hhs s c" if "c \<noteq> a" "c \<noteq> ?l" for c using that by (simp add: h_def)
    have "\<forall>c \<in> set as. links app_next app_prev h c = links app_next app_prev (hhs s) c"
      using a(2) as l(2) old by (metis (no_types) Un_iff links_def list.set_map set_append)
    then have "app_seg h 0 (hash_head s) (as @ [?l]) a"
      using dseg_set_end [of app_next app_prev "hhs s" 0 "hash_head s" as ?l 0 y h "y\<lparr>app_next := a\<rparr>" a]
        t(2) as l(2) y by (simp add: h_def)
    then have app: "app_seg h 0 (hash_head s) (map fst ks @ [a]) 0"
      using l a(1) by (subst dseg_append) (simp add: as h_def x_def)
    have lk: "links bkt_next bkt_prev h c = links bkt_next bkt_prev (hhs s) c" if "c \<in> ?P" for c
      using that a(2) y by (cases "c = ?l") (auto simp: links_def h_def)
    have bo: "bucket_of h n c = bucket_of (hhs s) n c" if "c \<in> ?P" for c n
      using that a(2) y by (cases "c = ?l") (auto simp: bucket_of_def h_def)
    have "chains_ok h ?P (buckets t) ch"
      unfolding chains_ok_def
    proof (intro allI impI)
      fix j assume j: "j < length (buckets t)"
      have "chains_ok (hhs s) ?P (buckets t) ch" using t(4) by (simp add: tab_ok_def)
      note c = chains_okD [OF this j]
      have fr: "\<forall>d \<in> set (ch j). links bkt_next bkt_prev h d = links bkt_next bkt_prev (hhs s) d"
        using c(3) lk by auto
      have "{a \<in> ?P. bucket_of h (length (buckets t)) a = j} = {a \<in> ?P. bucket_of (hhs s) (length (buckets t)) a = j}"
        using bo by (intro Collect_cong) metis
      with dseg_frame [OF c(1) fr] c(2,3)
      show "bkt_seg h 0 (hh_head (buckets t ! j)) (ch j) 0 \<and> bkt_count (buckets t ! j) = length (ch j) \<and>
          set (ch j) = {a \<in> ?P. bucket_of h (length (buckets t)) a = j}" by auto
    qed
    then have tab: "tab_ok (t\<lparr>tbl_tail := a\<rparr>) h ?P ch" using t(4) by (simp add: tab_ok_def)
    have "has_key hf h (c, k)" if "(c, k) \<in> set ks" for c k
    proof -
      from that a(2) have "c \<noteq> a" by force
      then show ?thesis using holds_key [OF s that] y by (cases "c = ?l") (auto simp: has_key_def h_def)
    qed
    moreover have "has_key hf h (a, key)" using key l(1) by (simp add: has_key_def h_def x_def uint32_small)
    ultimately have keys: "list_all (has_key hf h) (ks @ [(a, key)])" by (auto simp: list_all_iff)
    have "(2 :: nat) ^ log2_num_buckets t < 2 ^ 31" using size(2) Some t(4) by (simp add: tab_ok_def)
    then have "log2_num_buckets t < 31" by (rule power_less_imp_less_exp [rotated]) simp
    then show thesis using that [of "hash_head s" "t\<lparr>tbl_tail := a\<rparr>" h] tab app keys head Some seth by simp
  qed
  have "h a \<noteq> None" using pre(5) by (auto simp: has_key_def split: option.splits)
  then obtain z where z: "h a = Some z" "hashv z = hf key" using pre(5) by (auto simp: has_key_def split: option.splits)
  let ?t = "t\<lparr>num_items := uint32 (num_items t + 1)\<rparr>"
  have "num_items t = card ?P" using pre(2) by (simp add: tab_ok_def)
  then have t1: "tab_ok (?t\<lparr>num_items := card ?P\<rparr>) h ?P ch" "num_items ?t = card ?P + 1"
    using pre(2) size(1) card by (simp_all add: tab_ok_def uint32_small)
  from HASH_ADD_TO_BKT_ok [OF t1 _ a(2,1) z(1), of "HASH_TO_BKT (hf key) (num_buckets t)"] z(2) pre(3) size(1) card
  obtain t2 h2 ch2 where 2: "HASH_ADD_TO_BKT (HASH_TO_BKT (hf key) (num_buckets t)) a ?t h = Some (t2, h2)"
    "tab_ok t2 h2 (insert a ?P) ch2" "same_core h h2" "tbl_tail t2 = tbl_tail ?t" by auto
  have "HASH_ADD_KEYPTR hf key a s = Some (s\<lparr>hash_head := hd, hash_tbl := Some t2, hhs := h2\<rparr>)"
    unfolding HASH_ADD_KEYPTR_def Let_def x_def [symmetric] pre(1) using 2(1) by simp
  moreover have "list_all (has_key hf h2) (ks @ [(a, key)])"
    using pre(5) has_key_core [OF 2(3)] by (simp add: list_all_iff)
  moreover have "app_seg h2 0 hd (map fst (ks @ [(a, key)])) 0" using same_core_app [OF 2(3) pre(4)] by simp
  moreover have "tab_ok t2 h2 (fst ` set (ks @ [(a, key)])) ch2" using 2(2) by simp
  ultimately show ?thesis using 2(4) pre(6) by (auto simp: holds_def simp del: list_all_append)
qed

lemma set_hh_if_ok:
  "(p \<noteq> 0 \<Longrightarrow> h p \<noteq> None) \<Longrightarrow> set_hh_if p f h = Some (\<lambda>c. if c = p \<and> p \<noteq> 0 then map_option f (h c) else h c)"
  by (cases "p = 0") (auto simp: set_hh_if_def set_hh_def split: option.splits)

text \<open>Unlinking from either list: the two writes, and what they leave alone.\<close>

lemma unlink_ok:
  assumes d: "dseg nx pv h 0 p (xs @ a # ys) 0" and x: "h a = Some x"
    and f: "\<And>y. nx (f y) = nx x" "\<And>y. pv (f y) = pv y" and g: "\<And>y. nx (g y) = nx y" "\<And>y. pv (g y) = pv x"
  shows "\<exists>h1 h2. set_hh_if (pv x) f h = Some h1 \<and> set_hh_if (nx x) g h1 = Some h2 \<and>
           dseg nx pv h2 0 (if pv x = 0 then nx x else p) (xs @ ys) 0 \<and> h2 a = h a \<and>
           (\<forall>c. c \<notin> set (xs @ ys) \<longrightarrow> h2 c = h c) \<and>
           (\<forall>c. h2 c = h c \<or> (\<exists>y. h c = Some y \<and> (h2 c = Some (f y) \<or> h2 c = Some (g y))))"
proof -
  have dist: "distinct (xs @ a # ys)" by (rule dseg_distinct [OF d])
  have s: "pv x = last (0 # xs)" "dseg nx pv h a (nx x) ys 0"
    using d x by (auto simp: dseg_append simp del: last.simps)
  have al: "c \<in> set (xs @ ys) \<Longrightarrow> c \<noteq> 0 \<and> h c \<noteq> None" for c using dseg_alloc [OF d, of c] by auto
  have pv: "pv x = (if xs = [] then 0 else last xs)" using s(1) by simp
  have nx: "nx x = (if ys = [] then 0 else hd ys)" using s(2) by (cases ys) auto
  have pn: "pv x \<noteq> 0 \<Longrightarrow> pv x \<in> set xs" "nx x \<noteq> 0 \<Longrightarrow> nx x \<in> set ys" by (auto simp: pv nx)
  then have ne: "pv x \<noteq> 0 \<Longrightarrow> pv x \<noteq> nx x" "pv x \<noteq> a" "nx x \<noteq> a"
    using dist dseg_alloc [OF d, of a] by auto
  define h1 where "h1 = (\<lambda>c. if c = pv x \<and> pv x \<noteq> 0 then map_option f (h c) else h c)"
  define h2 where "h2 = (\<lambda>c. if c = nx x \<and> nx x \<noteq> 0 then map_option g (h1 c) else h1 c)"
  have 1: "set_hh_if (pv x) f h = Some h1"
    unfolding h1_def by (rule set_hh_if_ok) (use al pn in auto)
  have 2: "set_hh_if (nx x) g h1 = Some h2"
    unfolding h2_def by (rule set_hh_if_ok) (use al [of "nx x"] pn in \<open>auto simp: h1_def\<close>)
  have lp: "links nx pv h2 (last xs) = map_option (\<lambda>y. (nx x, pv y)) (h (last xs))" if "xs \<noteq> []"
    using that pv ne(1) al [of "last xs"] by (auto simp: links_def h2_def h1_def f option.map_comp comp_def)
  have ln: "links nx pv h2 (hd ys) = map_option (\<lambda>y. (nx y, pv x)) (h (hd ys))" if "ys \<noteq> []"
    using that nx ne(1) al [of "hd ys"] by (auto simp: links_def h2_def h1_def g option.map_comp comp_def)
  have lo: "links nx pv h2 b = links nx pv h b" if "b \<in> set (xs @ ys)" "xs = [] \<or> b \<noteq> last xs" "ys = [] \<or> b \<noteq> hd ys" for b
    using that al [OF that(1)] by (auto simp: links_def h2_def h1_def pv nx)
  have seg: "dseg nx pv h2 0 (if pv x = 0 then nx x else p) (xs @ ys) 0"
    by (rule dseg_unlink [OF d x lp ln lo])
  have "h2 a = h a" using ne by (simp add: h2_def h1_def)
  moreover have "\<forall>c. c \<notin> set (xs @ ys) \<longrightarrow> h2 c = h c" using pn by (auto simp: h2_def h1_def)
  moreover have "h2 c = h c \<or> (\<exists>y. h c = Some y \<and> (h2 c = Some (f y) \<or> h2 c = Some (g y)))" for c
  proof (cases "h c")
    case None
    then show ?thesis by (auto simp: h2_def h1_def)
  next
    case (Some y)
    then show ?thesis using ne(1) by (cases "c = pv x \<and> pv x \<noteq> 0"; cases "c = nx x \<and> nx x \<noteq> 0") (auto simp: h2_def h1_def)
  qed
  ultimately show ?thesis using 1 2 seg by blast
qed

lemma uint32_dec: "0 < n \<Longrightarrow> n < 4294967296 \<Longrightarrow> uint32 (n + (2 ^ 32 - 1)) = n - 1"
proof -
  assume n: "0 < n" "n < 4294967296"
  then have "n + (2 ^ 32 - 1) = (n - 1) + 2 ^ 32" by simp
  then show ?thesis using n by (simp only: uint32_def mod_add_self2) simp
qed

lemma HASH_DEL_IN_BKT_ok:
  assumes t: "tab_ok t h P ch" and a: "a \<in> P" and x: "h a = Some x"
  shows "\<exists>t' h' ch'. HASH_DEL_IN_BKT (HASH_TO_BKT (hashv x) (num_buckets t)) a t h = Some (t', h') \<and>
           tab_ok (t'\<lparr>num_items := card P - 1\<rparr>) h' (P - {a}) ch' \<and> same_core h h' \<and> h' a = h a \<and>
           tbl_tail t' = tbl_tail t \<and> num_items t' = num_items t"
proof -
  define b where "b = HASH_TO_BKT (hashv x) (num_buckets t)"
  note t' = t [unfolded tab_ok_def]
  have b: "b < length (buckets t)"
    using t' HASH_TO_BKT_less [of "log2_num_buckets t" "hashv x"] by (simp add: b_def)
  have cok: "chains_ok h P (buckets t) ch" using t' by simp
  note c = chains_okD [OF cok b]
  have "bucket_of h (length (buckets t)) a = b" using x t' by (simp add: bucket_of_def b_def)
  then have "a \<in> set (ch b)" using a c(3) by auto
  then obtain cs ds where cd: "ch b = cs @ a # ds" by (auto simp: in_set_conv_decomp)
  have dist: "distinct (ch b)" by (rule dseg_distinct [OF c(1)])
  let ?k = "buckets t ! b"
  obtain h1 h2 where h: "set_hh_if (bkt_prev x) (\<lambda>y. y\<lparr>bkt_next := bkt_next x\<rparr>) h = Some h1"
    "set_hh_if (bkt_next x) (\<lambda>y. y\<lparr>bkt_prev := bkt_prev x\<rparr>) h1 = Some h2"
    "bkt_seg h2 0 (if bkt_prev x = 0 then bkt_next x else hh_head ?k) (cs @ ds) 0" "h2 a = h a"
    "\<forall>c. c \<notin> set (cs @ ds) \<longrightarrow> h2 c = h c"
    "\<forall>c. h2 c = h c \<or> (\<exists>y. h c = Some y \<and> (h2 c = Some (y\<lparr>bkt_next := bkt_next x\<rparr>) \<or> h2 c = Some (y\<lparr>bkt_prev := bkt_prev x\<rparr>)))"
    using unlink_ok [where nx = bkt_next and pv = bkt_prev and f = "\<lambda>y. y\<lparr>bkt_next := bkt_next x\<rparr>" and
        g = "\<lambda>y. y\<lparr>bkt_prev := bkt_prev x\<rparr>", OF c(1) [unfolded cd] x]
    by auto
  have core: "same_core h h2"
    unfolding same_core_def
  proof
    fix d show "map_option core (h2 d) = map_option core (h d)" using h(6) [rule_format, of d] by (auto simp: core_def)
  qed
  have head: "(hh_head ?k = a) = (bkt_prev x = 0)"
  proof (cases cs)
    case Nil
    then show ?thesis using c(1) x cd by auto
  next
    case (Cons d es)
    then have "hh_head ?k = d" "d \<noteq> a" using c(1) dist cd by auto
    moreover have "bkt_prev x = last (0 # cs)"
      using c(1) x unfolding cd dseg_append by (auto simp del: last.simps)
    moreover have "last (0 # cs) \<in> set (ch b)" using Cons cd by simp
    then have "last (0 # cs) \<noteq> 0" using dseg_alloc [OF c(1)] by blast
    ultimately show ?thesis by simp
  qed
  define k' where "k' = ?k\<lparr>bkt_count := uint32 (bkt_count ?k + (2 ^ 32 - 1)), hh_head := (if hh_head ?k = a then bkt_next x else hh_head ?k)\<rparr>"
  have "length (ch b) \<le> card P" using distinct_card [OF dist] card_mono [of P "set (ch b)"] c(3) t' by auto
  then have len: "uint32 (bkt_count ?k + (2 ^ 32 - 1)) = length (cs @ ds)"
    using t' c(2) cd by (subst uint32_dec) auto
  define t2 where "t2 = t\<lparr>buckets := (buckets t)[b := k']\<rparr>"
  have run: "HASH_DEL_IN_BKT b a t h = Some (t2, h2)"
    using b x h(1,2) by (simp add: HASH_DEL_IN_BKT_def Let_def t2_def k'_def)
  have "chains_ok h2 (P - {a}) ((buckets t)[b := k']) (ch(b := cs @ ds))"
    unfolding chains_ok_def length_list_update bucket_of_core [OF core]
  proof (intro allI impI)
    fix j assume j: "j < length (buckets t)"
    show "bkt_seg h2 0 (hh_head ((buckets t)[b := k'] ! j)) ((ch(b := cs @ ds)) j) 0 \<and>
         bkt_count ((buckets t)[b := k'] ! j) = length ((ch(b := cs @ ds)) j) \<and>
         set ((ch(b := cs @ ds)) j) = {c \<in> P - {a}. bucket_of h (length (buckets t)) c = j}"
    proof (cases "j = b")
      case True
      have "set (cs @ ds) = set (ch b) - {a}" using dist cd by auto
      then have "set (cs @ ds) = {c \<in> P - {a}. bucket_of h (length (buckets t)) c = b}" using c(3) by auto
      then show ?thesis using True b h(3) head len by (simp add: k'_def)
    next
      case False
      note cj = chains_okD [OF cok j]
      have "set (ch j) \<inter> set (ch b) = {}" using cj(3) c(3) False by auto
      then have "\<forall>d \<in> set (ch j). links bkt_next bkt_prev h2 d = links bkt_next bkt_prev h d"
        using h(5) cd by (auto simp: links_def disjoint_iff)
      moreover have "{c \<in> P - {a}. bucket_of h (length (buckets t)) c = j} = {c \<in> P. bucket_of h (length (buckets t)) c = j}"
        using \<open>bucket_of h (length (buckets t)) a = b\<close> False by auto
      ultimately show ?thesis using dseg_frame [OF cj(1)] cj(2,3) False by simp
    qed
  qed
  moreover have "card (P - {a}) = card P - 1" "card P - 1 < 4294967296" using a t' by (simp_all add: less_imp_diff_less)
  ultimately have "tab_ok (t2\<lparr>num_items := card P - 1\<rparr>) h2 (P - {a}) (ch(b := cs @ ds))"
    using t' by (simp add: tab_ok_def t2_def)
  then show ?thesis using run core h(4) unfolding b_def [symmetric]
    by (intro exI [of _ t2] exI [of _ h2] exI [of _ "ch(b := cs @ ds)"]) (simp add: t2_def)
qed

text \<open>Writing the links of the insertion order leaves the chains of the buckets alone.\<close>

lemma tab_ok_app:
  assumes "tab_ok t h P ch" and "\<And>c. c \<in> P \<Longrightarrow> \<exists>y z. h c = Some y \<and> h' c = Some z \<and> bkt_next z = bkt_next y \<and>
      bkt_prev z = bkt_prev y \<and> hashv z = hashv y"
  shows "tab_ok t h' P ch"
proof -
  have lk: "links bkt_next bkt_prev h' c = links bkt_next bkt_prev h c" "bucket_of h' n c = bucket_of h n c"
    if "c \<in> P" for c n
    using assms(2) [OF that] by (auto simp: links_def bucket_of_def)
  have "chains_ok h' P (buckets t) ch"
    unfolding chains_ok_def
  proof (intro allI impI)
    fix j assume j: "j < length (buckets t)"
    have "chains_ok h P (buckets t) ch" using assms(1) by (simp add: tab_ok_def)
    note c = chains_okD [OF this j]
    have fr: "\<forall>d \<in> set (ch j). links bkt_next bkt_prev h' d = links bkt_next bkt_prev h d"
      using c(3) lk(1) by auto
    have "{a \<in> P. bucket_of h' (length (buckets t)) a = j} = {a \<in> P. bucket_of h (length (buckets t)) a = j}"
      using lk(2) by auto
    with dseg_frame [OF c(1) fr] c(2,3)
    show "bkt_seg h' 0 (hh_head (buckets t ! j)) (ch j) 0 \<and> bkt_count (buckets t ! j) = length (ch j) \<and>
        set (ch j) = {a \<in> P. bucket_of h' (length (buckets t)) a = j}" by simp
  qed
  then show ?thesis using assms(1) by (simp add: tab_ok_def)
qed

lemma tab_ok_tail: "tab_ok (t\<lparr>tbl_tail := p\<rparr>) h P ch = tab_ok t h P ch"
  by (simp add: tab_ok_def)

lemma HASH_DELETE_ok:
  assumes s: "holds hf s (us @ (a, k) # vs)"
  shows "\<exists>t. HASH_DELETE a s = Some t \<and> holds hf t (us @ vs) \<and> hhs t a = hhs s a \<and>
           (\<exists>x. hhs s a = Some x \<and> app_next x = (case vs of [] \<Rightarrow> 0 | (b, _) # _ \<Rightarrow> b))"
proof -
  let ?ks = "us @ (a, k) # vs" and ?P = "fst ` set (us @ (a, k) # vs)"
  from s obtain t ch where t: "hash_tbl s = Some t" "tbl_tail t = fst (last ?ks)" "tab_ok t (hhs s) ?P ch"
    "list_all (has_key hf (hhs s)) ?ks"
    and app: "app_seg (hhs s) 0 (hash_head s) (map fst us @ a # map fst vs) 0"
    by (auto simp: holds_def split: option.splits)
  have dist: "distinct (map fst us @ a # map fst vs)" by (rule dseg_distinct [OF app])
  obtain x where x: "hhs s a = Some x" "app_prev x = last (0 # map fst us)"
    "app_seg (hhs s) a (app_next x) (map fst vs) 0" "a \<noteq> 0"
    using app by (auto simp: dseg_append simp del: last.simps split: option.splits)
  have nx: "app_next x = (case vs of [] \<Rightarrow> 0 | (b, _) # _ \<Rightarrow> b)" using x(3) by (cases vs) auto
  have prev0: "app_prev x = 0 \<longleftrightarrow> us = []"
  proof (cases "us = []")
    case False
    then have "last (map fst us) \<in> set (map fst us)" by (intro last_in_set) simp
    then have "last (map fst us) \<noteq> 0" using dseg_alloc [OF app, of "last (map fst us)"] by simp
    with x(2) False show ?thesis by simp
  qed (use x(2) in simp)
  have next0: "app_next x = 0 \<longleftrightarrow> vs = []"
    using nx dseg_alloc [OF app] by (cases vs) auto
  show ?thesis
  proof (cases "us = [] \<and> vs = []")
    case True
    then have "HASH_DELETE a s = Some (s\<lparr>hash_head := 0, hash_tbl := None\<rparr>)"
      using x(1) t(1) prev0 next0 by (simp add: HASH_DELETE_def)
    then show ?thesis using True x(1) nx by (auto simp: holds_def)
  next
    case False
    obtain h1 h2 where h: "set_hh_if (app_prev x) (\<lambda>y. y\<lparr>app_next := app_next x\<rparr>) (hhs s) = Some h1"
      "set_hh_if (app_next x) (\<lambda>y. y\<lparr>app_prev := app_prev x\<rparr>) h1 = Some h2"
      "app_seg h2 0 (if app_prev x = 0 then app_next x else hash_head s) (map fst us @ map fst vs) 0" "h2 a = hhs s a"
      "\<forall>c. h2 c = hhs s c \<or> (\<exists>y. hhs s c = Some y \<and> (h2 c = Some (y\<lparr>app_next := app_next x\<rparr>) \<or> h2 c = Some (y\<lparr>app_prev := app_prev x\<rparr>)))"
      using unlink_ok [where nx = app_next and pv = app_prev and f = "\<lambda>y. y\<lparr>app_next := app_next x\<rparr>" and
          g = "\<lambda>y. y\<lparr>app_prev := app_prev x\<rparr>", OF app x(1)]
      by auto
    define t1 where "t1 = (if a = tbl_tail t then t\<lparr>tbl_tail := app_prev x\<rparr> else t)"
    have alive: "hhs s c \<noteq> None" if "c \<in> ?P" for c using dseg_alloc [OF app, of c] that by auto
    have "tab_ok t h2 ?P ch"
    proof (rule tab_ok_app [OF t(3)])
      fix c assume "c \<in> ?P"
      with alive obtain y where y: "hhs s c = Some y" by blast
      then show "\<exists>y z. hhs s c = Some y \<and> h2 c = Some z \<and> bkt_next z = bkt_next y \<and> bkt_prev z = bkt_prev y \<and> hashv z = hashv y"
        using h(5) [rule_format, of c] by auto
    qed
    then have tab: "tab_ok t1 h2 ?P ch"
      by (simp only: t1_def tab_ok_tail split: if_split) blast
    have n1: "num_buckets t1 = num_buckets t" by (simp add: t1_def)
    have "a \<in> ?P" "h2 a = Some x" using x(1) h(4) by auto
    from HASH_DEL_IN_BKT_ok [OF tab this] n1 obtain t2 h3 ch2 where
      3: "HASH_DEL_IN_BKT (HASH_TO_BKT (hashv x) (num_buckets t)) a t1 h2 = Some (t2, h3)"
        "tab_ok (t2\<lparr>num_items := card ?P - 1\<rparr>) h3 (?P - {a}) ch2" "same_core h2 h3" "h3 a = h2 a"
        "tbl_tail t2 = tbl_tail t1" "num_items t2 = card ?P"
      using tab unfolding tab_ok_def by auto
    have card: "0 < card ?P" "card ?P < 4294967296"
      using t(3) card_gt_0_iff [of ?P] by (auto simp: tab_ok_def)
    define u where "u = s\<lparr>hash_head := (if app_prev x = 0 then app_next x else hash_head s),
        hash_tbl := Some (t2\<lparr>num_items := card ?P - 1\<rparr>), hhs := h3\<rparr>"
    have not0: "\<not> (app_prev x = 0 \<and> app_next x = 0)" using False prev0 next0 by blast
    have "HASH_DELETE a s = Some u"
      unfolding HASH_DELETE_def x(1) t(1) Option.bind_lunit if_not_P [OF not0] Let_def t1_def [symmetric]
      using h(1,2) 3(1,6) uint32_dec [OF card] by (simp add: u_def n1)
    moreover have "holds hf u (us @ vs)"
    proof -
      have "?P - {a} = fst ` set (us @ vs)" using dist by force
      with 3(2) have tab3: "tab_ok (t2\<lparr>num_items := card ?P - 1\<rparr>) h3 (fst ` set (us @ vs)) ch2" by simp
      have tail: "tbl_tail t1 = fst (last (us @ vs))"
      proof (cases vs rule: rev_cases)
        case Nil
        with False x(2) t(2) show ?thesis by (simp add: t1_def last_map)
      next
        case (snoc ws w)
        then have "a \<noteq> fst w" using dist by auto
        with t(2) snoc show ?thesis by (simp add: t1_def)
      qed
      have keys: "list_all (has_key hf h3) (us @ vs)"
        unfolding list_all_iff
      proof
        fix ck assume ck: "ck \<in> set (us @ vs)"
        obtain c l where cl: "ck = (c, l)" by fastforce
        with ck t(4) have "has_key hf (hhs s) (c, l)" by (auto simp: list_all_iff)
        then have "has_key hf h2 (c, l)" using h(5) [rule_format, of c] by (auto simp: has_key_def split: option.splits)
        from has_key_core [OF 3(3) this] show "has_key hf h3 ck" by (simp add: cl)
      qed
      show ?thesis
        using False tab3 tail keys same_core_app [OF 3(3) h(3)] 3(5) by (auto simp: holds_def u_def)
    qed
    moreover have "hhs u a = hhs s a" using 3(4) h(4) by (simp add: u_def)
    ultimately show ?thesis using x(1) nx by blast
  qed
qed

lemma delete_all_ok:
  assumes "holds hf s ks"
  shows "\<exists>t. delete_all (hash_head s) s = Some t \<and> holds hf t []"
proof -
  have "holds hf s ks \<Longrightarrow> p = (case ks of [] \<Rightarrow> 0 | (b, _) # _ \<Rightarrow> b) \<Longrightarrow> \<exists>t. delete_all p s = Some t \<and> holds hf t []" for p
  proof (induction ks arbitrary: s p)
    case Nil
    then show ?case by (subst delete_all.simps) simp
  next
    case (Cons ak ks)
    obtain a k where ak: "ak = (a, k)" by fastforce
    from HASH_DELETE_ok [of hf s "[]" a k ks] Cons.prems(1) obtain t x where
      t: "HASH_DELETE a s = Some t" "holds hf t ks" "hhs t a = Some x" "app_next x = (case ks of [] \<Rightarrow> 0 | (b, _) # _ \<Rightarrow> b)"
      by (auto simp: ak)
    from Cons.IH [OF t(2,4)] obtain u where "delete_all (app_next x) t = Some u" "holds hf u []" by blast
    moreover have "a \<noteq> 0" using Cons.prems(1) by (auto simp: ak holds_def split: option.splits)
    ultimately show ?case using t Cons.prems(2) by (subst delete_all.simps) (simp add: ak)
  qed
  moreover have "hash_head s = (case ks of [] \<Rightarrow> 0 | (b, _) # _ \<Rightarrow> b)"
    using assms by (cases ks) (auto simp: holds_def split: option.splits)
  ultimately show ?thesis using assms by blast
qed

lemma holds_walk: "holds hf s ks \<Longrightarrow> hash_walk (hhs s) (hash_head s) = Some (map fst ks)"
proof (cases "hash_tbl s")
  case None
  assume "holds hf s ks"
  then show ?thesis using None by (subst hash_walk.simps) (simp add: holds_def)
next
  case (Some t)
  assume "holds hf s ks"
  then show ?thesis using Some by (intro hash_walk_ok) (auto simp: holds_def)
qed

section \<open>The interface the dictionary uses\<close>

lemma element_of_append:
  "element_of key (ks @ ls) = (if key \<in> snd ` set ks then element_of key ks else element_of key ls)"
  by (induction ks) (auto simp: element_of_def split: option.splits)

lemma element_of_none: "key \<notin> snd ` set ks \<Longrightarrow> element_of key ks = 0"
  by (auto simp: element_of_def find_None_iff intro!: rev_image_eqI split: option.split dest!: find_Some_mem)

text \<open>
  A table of elements with distinct keys: what it promises of looking up, adding and deleting, \<open>rep\<close>
  being the list of its elements. \<open>room\<close> says that one more fits.
\<close>

locale key_table =
  fixes rep :: "'s \<Rightarrow> (nat \<times> string) list \<Rightarrow> bool"
    and find_key :: "string \<Rightarrow> 's \<Rightarrow> nat option"
    and add_key :: "string \<Rightarrow> nat \<Rightarrow> 's \<Rightarrow> 's option"
    and del_key :: "nat \<Rightarrow> 's \<Rightarrow> 's option"
    and room :: "string \<Rightarrow> 's \<Rightarrow> bool"
  assumes find_key: "rep s ks \<Longrightarrow> distinct (map snd ks) \<Longrightarrow> find_key key s = Some (element_of key ks)"
    and add_key: "rep s ks \<Longrightarrow> a \<noteq> 0 \<Longrightarrow> a \<notin> fst ` set ks \<Longrightarrow> room key s \<Longrightarrow>
      \<exists>t. add_key key a s = Some t \<and> rep t (ks @ [(a, key)])"
    and del_key: "rep s (us @ (a, k) # vs) \<Longrightarrow> \<exists>t. del_key a s = Some t \<and> rep t (us @ vs)"
begin

lemma add_then_find:
  assumes "rep s ks" and "distinct (map snd ks)" and "key \<notin> snd ` set ks" and "a \<noteq> 0" and "a \<notin> fst ` set ks"
    and "room key s"
  shows "\<exists>t. add_key key a s = Some t \<and> rep t (ks @ [(a, key)]) \<and>
           (\<forall>k. find_key k t = (if k = key then Some a else find_key k s))"
proof -
  from add_key [OF assms(1,4-6)] obtain t where t: "add_key key a s = Some t" "rep t (ks @ [(a, key)])" by blast
  have "distinct (map snd (ks @ [(a, key)]))" using assms(2,3) by auto
  then have "find_key k t = Some (element_of k (ks @ [(a, key)]))" for k by (rule find_key [OF t(2)])
  moreover have "element_of k (ks @ [(a, key)]) = (if k = key then a else element_of k ks)" for k
    using assms(3) element_of_none [of k ks] by (auto simp: element_of_append) (auto simp: element_of_def)
  ultimately show ?thesis using t find_key [OF assms(1,2)] by auto
qed

lemma delete_then_find:
  assumes "rep s (us @ (a, key) # vs)" and "distinct (map snd (us @ (a, key) # vs))"
  shows "\<exists>t. del_key a s = Some t \<and> rep t (us @ vs) \<and>
           (\<forall>k. find_key k t = (if k = key then Some 0 else find_key k s))"
proof -
  from del_key [OF assms(1)] obtain t where t: "del_key a s = Some t" "rep t (us @ vs)" by blast
  have "distinct (map snd (us @ vs))" using assms(2) by auto
  then have "find_key k t = Some (element_of k (us @ vs))" for k by (rule find_key [OF t(2)])
  moreover have "element_of k (us @ vs) = (if k = key then 0 else element_of k (us @ (a, key) # vs))" for k
    using assms(2) element_of_none [of k "us @ vs"] by (auto simp: element_of_append) (auto simp: element_of_def)
  ultimately show ?thesis using t find_key [OF assms] by auto
qed

end

text \<open>The arithmetic of the table does not wrap, and it can double once more.\<close>

definition hash_room :: "string \<Rightarrow> uthash \<Rightarrow> bool" where
  "hash_room key s \<longleftrightarrow> length key < 4294967296 \<and>
     (case hash_tbl s of None \<Rightarrow> True | Some t \<Rightarrow> num_items t < 4294967295 \<and> num_buckets t < 2147483648)"

lemma holds_num_items: "holds hf s ks \<Longrightarrow> hash_tbl s = Some t \<Longrightarrow> num_items t = length ks"
  using distinct_card [OF holds_distinct, of hf s ks] by (auto simp: holds_def tab_ok_def)

interpretation hash: key_table "holds hf" "HASH_FIND hf" "HASH_ADD_KEYPTR hf" HASH_DELETE hash_room for hf
proof
  show "holds hf s ks \<Longrightarrow> distinct (map snd ks) \<Longrightarrow> HASH_FIND hf key s = Some (element_of key ks)" for s ks key
    by (rule HASH_FIND_ok)
  show "holds hf s ks \<Longrightarrow> a \<noteq> 0 \<Longrightarrow> a \<notin> fst ` set ks \<Longrightarrow> hash_room key s \<Longrightarrow>
      \<exists>t. HASH_ADD_KEYPTR hf key a s = Some t \<and> holds hf t (ks @ [(a, key)])" for s ks a key
    by (rule HASH_ADD_KEYPTR_ok)
      (use holds_num_items [of hf s ks] in \<open>auto simp: hash_room_def holds_def split: option.splits\<close>)
  show "holds hf s (us @ (a, k) # vs) \<Longrightarrow> \<exists>t. HASH_DELETE a s = Some t \<and> holds hf t (us @ vs)" for s us a k vs
    using HASH_DELETE_ok by blast
qed

section \<open>Properties\<close>

text \<open>
  The table refines the dictionary. When it holds the entries of the dictionary under their
  patterns, \<open>HASH_FIND_STR\<close> finds the entry with a pattern exactly when the dictionary has one, and
  the loop over \<open>hh.next\<close> visits the entries in the order of the dictionary.
\<close>
theorem table_is_the_dictionary:
  assumes "holds HASH_JEN s ks" and "map snd ks = map d_regexp_src d" and "distinct (map d_regexp_src d)"
  shows "hash_walk (hhs s) (hash_head s) = Some (map fst ks) \<and>
    (\<exists>p. HASH_FIND HASH_JEN r s = Some p \<and>
       (case hash_find r d of None \<Rightarrow> p = 0 | Some e \<Rightarrow> p \<noteq> 0 \<and> (\<exists>i < length d. d ! i = e \<and> fst (ks ! i) = p)))"
proof
  show "hash_walk (hhs s) (hash_head s) = Some (map fst ks)" by (rule holds_walk [OF assms(1)])
  have len: "length ks = length d" using assms(2) map_eq_imp_length_eq by blast
  have d: "distinct (map snd ks)" using assms(2,3) by simp
  have f: "HASH_FIND HASH_JEN r s = Some (element_of r ks)" by (rule HASH_FIND_ok [OF assms(1) d])
  show "\<exists>p. HASH_FIND HASH_JEN r s = Some p \<and>
       (case hash_find r d of None \<Rightarrow> p = 0 | Some e \<Rightarrow> p \<noteq> 0 \<and> (\<exists>i < length d. d ! i = e \<and> fst (ks ! i) = p))"
  proof (cases "hash_find r d")
    case None
    then have "r \<notin> set (map d_regexp_src d)" by (simp add: hash_find_None)
    then have "r \<notin> snd ` set ks" by (simp flip: assms(2))
    from element_of_none [OF this] show ?thesis using f None by simp
  next
    case (Some e)
    then obtain i where i: "i < length d" "d ! i = e" "d_regexp_src e = r"
      using hash_find_Some [OF Some] by (metis in_set_conv_nth)
    then have "snd (ks ! i) = r" using arg_cong [OF assms(2), of "\<lambda>x. x ! i"] len by simp
    then have mem: "(fst (ks ! i), r) \<in> set ks" using nth_mem [of i ks] i(1) len by (metis prod.collapse)
    from element_of_mem [OF d mem] have "element_of r ks = fst (ks ! i)" .
    moreover have "fst (ks ! i) \<noteq> 0" by (rule holds_nonzero [OF assms(1) mem])
    ultimately show ?thesis using f Some i by auto
  qed
qed

lemma demo_table: "\<exists>s. HASH_ADD_KEYPTR hf ''a(.*)'' 7 empty_hash = Some s \<and> holds hf s [(7, ''a(.*)'')]"
  using HASH_ADD_KEYPTR_ok [OF holds_empty, of 7 "''a(.*)''" hf] by (simp add: empty_hash_def)

theorem table_is_the_dictionary_witness:
  "\<exists>s. HASH_ADD_KEYPTR HASH_JEN ''a(.*)'' 7 empty_hash = Some s \<and> hash_walk (hhs s) (hash_head s) = Some [7] \<and>
     HASH_FIND HASH_JEN ''a(.*)'' s = Some 7 \<and> HASH_FIND HASH_JEN ''b'' s = Some 0"
proof -
  let ?d = "[\<lparr>d_regexp_src = ''a(.*)'', d_clientList = [], d_binding = None\<rparr>]"
  obtain s where s: "HASH_ADD_KEYPTR HASH_JEN ''a(.*)'' 7 empty_hash = Some s" "holds HASH_JEN s [(7, ''a(.*)'')]"
    using demo_table by blast
  have "HASH_FIND HASH_JEN ''a(.*)'' s = Some 7 \<and> hash_walk (hhs s) (hash_head s) = Some [7]"
    using table_is_the_dictionary [OF s(2), of ?d "''a(.*)''"] by (auto simp: hash_find_def)
  moreover have "HASH_FIND HASH_JEN ''b'' s = Some 0"
    using table_is_the_dictionary [OF s(2), of ?d "''b''"] by (auto simp: hash_find_def)
  ultimately show ?thesis using s(1) by blast
qed

text \<open>
  C22: adding to the table. A new entry comes last, is found under its key, and changes what is found
  under no other key, also when its chain has become too long and the number of buckets doubles.
\<close>
theorem added_entry_is_found:
  assumes "holds hf s ks" and "distinct (map snd ks)" and "key \<notin> snd ` set ks" and "a \<noteq> 0" and "a \<notin> fst ` set ks"
    and "hash_room key s"
  shows "\<exists>t. HASH_ADD_KEYPTR hf key a s = Some t \<and> holds hf t (ks @ [(a, key)]) \<and>
           (\<forall>k. HASH_FIND hf k t = (if k = key then Some a else HASH_FIND hf k s))"
  using assms by (rule hash.add_then_find)

theorem added_entry_is_found_witness:
  "\<exists>t. HASH_ADD_KEYPTR HASH_JEN ''a(.*)'' 7 empty_hash = Some t \<and> HASH_FIND HASH_JEN ''a(.*)'' t = Some 7 \<and>
     HASH_FIND HASH_JEN ''b'' t = Some 0"
proof -
  have "hash_room ''a(.*)'' empty_hash" by (simp add: hash_room_def empty_hash_def)
  moreover have "HASH_FIND HASH_JEN k empty_hash = Some 0" for k by (simp add: HASH_FIND_def empty_hash_def)
  ultimately show ?thesis using added_entry_is_found [OF holds_empty, of "''a(.*)''" 7 HASH_JEN] by auto
qed

text \<open>
  C23: deleting from the table. Any entry can be deleted; it is not found any more, the others keep
  their order and are found as before.
\<close>
theorem deleted_entry_is_gone:
  assumes "holds hf s (us @ (a, key) # vs)" and "distinct (map snd (us @ (a, key) # vs))"
  shows "\<exists>t. HASH_DELETE a s = Some t \<and> holds hf t (us @ vs) \<and>
           (\<forall>k. HASH_FIND hf k t = (if k = key then Some 0 else HASH_FIND hf k s))"
  using assms by (rule hash.delete_then_find)

theorem deleted_entry_is_gone_witness:
  "\<exists>s t. HASH_ADD_KEYPTR HASH_JEN ''a(.*)'' 7 empty_hash = Some s \<and> HASH_DELETE 7 s = Some t \<and>
     HASH_FIND HASH_JEN ''a(.*)'' s = Some 7 \<and> HASH_FIND HASH_JEN ''a(.*)'' t = Some 0"
proof -
  obtain s where s: "HASH_ADD_KEYPTR HASH_JEN ''a(.*)'' 7 empty_hash = Some s" "holds HASH_JEN s [(7, ''a(.*)'')]"
    using demo_table by blast
  have "HASH_FIND HASH_JEN ''a(.*)'' s = Some 7" using HASH_FIND_ok [OF s(2)] by (simp add: element_of_def)
  with deleted_entry_is_gone [of HASH_JEN s "[]" 7 "''a(.*)''" "[]"] s show ?thesis by auto
qed

text \<open>
  The loop of \<open>delAllRegexpsFromDictionary\<close> ends and leaves an empty table, although it reads the
  successor of an entry after the entry was deleted, and the last deletion frees the table.
\<close>
theorem delete_all_empties:
  assumes "holds hf s ks"
  shows "\<exists>t. delete_all (hash_head s) s = Some t \<and> hash_head t = 0 \<and> hash_tbl t = None"
  using delete_all_ok [OF assms] by (auto simp: holds_def split: option.splits)

theorem delete_all_empties_witness:
  "\<exists>s t. HASH_ADD_KEYPTR HASH_JEN ''a(.*)'' 7 empty_hash = Some s \<and> delete_all (hash_head s) s = Some t \<and> hash_tbl t = None"
  using demo_table [of HASH_JEN] delete_all_empties by blast

end
