(* ===== verification/IvyCache.thy ===== *)
theory IvyCache imports IvyHash begin

text \<open>
  The cache of the OpenMP build of \<open>ivy.c\<close>: an array of the entries of the dictionary, in which the
  threads of \<open>IvySendMsg\<close> find the entry of an index. It is counted and filled by walks over the
  table of \<open>IvyHash\<close>. The threads themselves are not modelled.
\<close>

section \<open>The cache\<close>

text \<open>
  \<open>ompDictCache\<close>: an array of pointers to entries, and how many of them \<open>IvySendMsg\<close> reads. A slot
  that was never written is \<open>None\<close>.
\<close>

record omp_cache =
  msgPtrArray :: "nat option list"
  cache_size :: nat
  numPtr :: nat

definition ompDictCache :: omp_cache where
  "ompDictCache = \<lparr>msgPtrArray = [], cache_size = 0, numPtr = 0\<rparr>"

text \<open>\<open>realloc\<close> keeps the slots there are; the new ones are not initialised.\<close>

definition realloc_slots :: "nat \<Rightarrow> nat option list \<Rightarrow> nat option list" where
  "realloc_slots n xs = take n xs @ replicate (n - length xs) None"

text \<open>\<open>numPtr\<close> is counted on the dictionary, and the array grows when it is too small.\<close>

definition grow_cache :: "nat \<Rightarrow> omp_cache \<Rightarrow> omp_cache" where
  "grow_cache n c =
     (if n \<ge> cache_size c
      then c\<lparr>numPtr := n, cache_size := n * 2 + 128, msgPtrArray := realloc_slots (n * 2 + 128) (msgPtrArray c)\<rparr>
      else c\<lparr>numPtr := n\<rparr>)"

text \<open>The loop that writes the entries from slot \<open>i\<close> on; a slot outside the array is undefined.\<close>

fun fill_cache :: "nat \<Rightarrow> nat list \<Rightarrow> nat option list \<Rightarrow> nat option list option" where
  "fill_cache i [] xs = Some xs"
| "fill_cache i (p # ps) xs = (if i < length xs then fill_cache (Suc i) ps (xs[i := Some p]) else None)"

definition regenerateRegPtrArrayCache :: "uthash \<Rightarrow> omp_cache \<Rightarrow> omp_cache option" where
  "regenerateRegPtrArrayCache s c =
     Option.bind (hash_walk (hhs s) (hash_head s)) (\<lambda>ps.
       let c = grow_cache (length ps) c
       in Option.bind (fill_cache 0 ps (msgPtrArray c)) (\<lambda>xs. Some (c\<lparr>msgPtrArray := xs\<rparr>)))"

definition addRegToPtrArrayCache :: "nat \<Rightarrow> uthash \<Rightarrow> omp_cache \<Rightarrow> omp_cache option" where
  "addRegToPtrArrayCache newReg s c =
     Option.bind (hash_walk (hhs s) (hash_head s)) (\<lambda>ps.
       if length ps \<ge> cache_size c
       then let c = grow_cache (length ps) c
            in Option.bind (fill_cache 0 ps (msgPtrArray c)) (\<lambda>xs. Some (c\<lparr>msgPtrArray := xs\<rparr>))
       else if length ps = 0 \<or> length ps > length (msgPtrArray c) then None
       else Some (c\<lparr>numPtr := length ps, msgPtrArray := (msgPtrArray c)[length ps - 1 := Some newReg]\<rparr>))"

text \<open>
  The entries the loop of \<open>IvySendMsg\<close> reads; \<open>None\<close> when it reads a slot that was never written.
\<close>

definition cached_entries :: "omp_cache \<Rightarrow> nat list option" where
  "cached_entries c =
     (if numPtr c \<le> length (msgPtrArray c) \<and> None \<notin> set (take (numPtr c) (msgPtrArray c))
      then Some (map the (take (numPtr c) (msgPtrArray c))) else None)"

definition cache_ok :: "omp_cache \<Rightarrow> bool" where
  "cache_ok c \<longleftrightarrow> length (msgPtrArray c) = cache_size c"

section \<open>Filling and adding\<close>

lemma fill_cache_ok:
  "i + length ps \<le> length xs \<Longrightarrow> fill_cache i ps xs = Some (take i xs @ map Some ps @ drop (i + length ps) xs)"
proof (induction ps arbitrary: i xs)
  case (Cons p ps)
  then have "fill_cache i (p # ps) xs = fill_cache (Suc i) ps (xs[i := Some p])" by simp
  also have "\<dots> = Some (take (Suc i) (xs[i := Some p]) @ map Some ps @ drop (Suc i + length ps) (xs[i := Some p]))"
    by (rule Cons.IH) (use Cons.prems in simp)
  also have "take (Suc i) (xs[i := Some p]) = take i xs @ [Some p]"
    using Cons.prems by (simp add: take_Suc_conv_app_nth)
  finally show ?case by simp
qed simp

lemma length_realloc [simp]: "length (realloc_slots n xs) = n"
  by (simp add: realloc_slots_def)

lemma grow_cache_ok:
  assumes "cache_ok c"
  shows "cache_ok (grow_cache n c)" "n < cache_size (grow_cache n c)" "numPtr (grow_cache n c) = n"
  using assms by (auto simp: grow_cache_def cache_ok_def)

lemma cached_prefix:
  "numPtr c = length ps \<Longrightarrow> msgPtrArray c = map Some ps @ xs \<Longrightarrow> cached_entries c = Some ps"
  by (auto simp: cached_entries_def comp_def)

lemma filled_cache:
  assumes "cache_ok c" and "hash_walk (hhs s) (hash_head s) = Some ps"
  shows "\<exists>d. (let c = grow_cache (length ps) c
            in Option.bind (fill_cache 0 ps (msgPtrArray c)) (\<lambda>xs. Some (c\<lparr>msgPtrArray := xs\<rparr>))) = Some d \<and>
           cache_ok d \<and> cached_entries d = Some ps"
proof -
  let ?c = "grow_cache (length ps) c"
  have len: "length ps < length (msgPtrArray ?c)" using grow_cache_ok [OF assms(1)] by (simp add: cache_ok_def)
  then have "fill_cache 0 ps (msgPtrArray ?c) = Some (map Some ps @ drop (length ps) (msgPtrArray ?c))"
    using fill_cache_ok [of 0 ps "msgPtrArray ?c"] by simp
  moreover have "cached_entries (?c\<lparr>msgPtrArray := map Some ps @ drop (length ps) (msgPtrArray ?c)\<rparr>) = Some ps"
    by (rule cached_prefix) (simp_all add: grow_cache_ok(3) [OF assms(1)])
  moreover have "cache_ok (?c\<lparr>msgPtrArray := map Some ps @ drop (length ps) (msgPtrArray ?c)\<rparr>)"
    using grow_cache_ok(1) [OF assms(1), of "length ps"] len by (simp add: cache_ok_def)
  ultimately show ?thesis by (simp add: Let_def)
qed

lemma cached_entries_take: "cached_entries c = Some ps \<Longrightarrow> take (length ps) (msgPtrArray c) = map Some ps"
proof -
  assume "cached_entries c = Some ps"
  then have "take (length ps) (msgPtrArray c) = take (numPtr c) (msgPtrArray c)"
    "ps = map the (take (numPtr c) (msgPtrArray c))" "None \<notin> set (take (numPtr c) (msgPtrArray c))"
    by (auto simp: cached_entries_def split: if_splits)
  moreover have "map Some (map the xs) = xs" if "None \<notin> set xs" for xs :: "nat option list"
    using that by (induction xs) auto
  ultimately show ?thesis by metis
qed

lemma add_to_cache_ok:
  assumes "cache_ok c" and "cached_entries c = Some ps" and "hash_walk (hhs s) (hash_head s) = Some (ps @ [a])"
  shows "\<exists>d. addRegToPtrArrayCache a s c = Some d \<and> cache_ok d \<and> cached_entries d = Some (ps @ [a])"
proof (cases "length (ps @ [a]) \<ge> cache_size c")
  case True
  then show ?thesis using filled_cache [OF assms(1,3)] assms(3) by (simp add: addRegToPtrArrayCache_def)
next
  case False
  let ?xs = "(msgPtrArray c)[length ps := Some a]"
  have len: "length ps < length (msgPtrArray c)" using False assms(1) by (simp add: cache_ok_def)
  have run: "addRegToPtrArrayCache a s c = Some (c\<lparr>numPtr := length (ps @ [a]), msgPtrArray := ?xs\<rparr>)"
    using False assms(1,3) by (simp add: addRegToPtrArrayCache_def cache_ok_def)
  have "?xs = map Some (ps @ [a]) @ drop (Suc (length ps)) (msgPtrArray c)"
    using cached_entries_take [OF assms(2)] len by (simp add: upd_conv_take_nth_drop)
  then have "cached_entries (c\<lparr>numPtr := length (ps @ [a]), msgPtrArray := ?xs\<rparr>) = Some (ps @ [a])"
    by (intro cached_prefix) auto
  then show ?thesis using run assms(1) by (simp add: cache_ok_def)
qed

lemma first_table_size:
  assumes "HASH_ADD_KEYPTR hf key a empty_hash = Some s" and "hash_tbl s = Some t"
  shows "num_buckets t = 32"
proof -
  have "HASH_TO_BKT (hf key) 32 < 32" using HASH_TO_BKT_less [of 5 "hf key"] by simp
  then show ?thesis using assms
    by (auto simp: HASH_ADD_KEYPTR_def empty_hash_def HASH_ADD_TO_BKT_def HASH_MAKE_TABLE_def HASH_INITIAL_NUM_BUCKETS_def
        HASH_BKT_CAPACITY_THRESH_def set_hh_def set_hh_if_def empty_bucket_def uint32_def Let_def)
qed

section \<open>Properties\<close>

text \<open>
  C24: the cache of the OpenMP build and the dictionary. If the cache lists all the entries there are,
  a new entry put in the table and then in the cache is listed last. Built again from the table, the cache lists the entries in the order of the table,
  whatever it held before. The condition of the first part is needed: an entry that was put in the
  table only leaves a hole at the next addition, as the theorem after this one shows.
\<close>
theorem cache_follows_the_dictionary:
  assumes "holds hf s ks" and "a \<noteq> 0" and "a \<notin> fst ` set ks" and "hash_room key s"
    and "cache_ok c" and "cached_entries c = Some (map fst ks)" and "cache_ok c'"
  shows "\<exists>t d d'. HASH_ADD_KEYPTR hf key a s = Some t \<and> addRegToPtrArrayCache a t c = Some d \<and>
           regenerateRegPtrArrayCache t c' = Some d' \<and>
           cached_entries d = hash_walk (hhs t) (hash_head t) \<and> cached_entries d' = hash_walk (hhs t) (hash_head t) \<and>
           hash_walk (hhs t) (hash_head t) = Some (map fst ks @ [a]) \<and> cache_ok d \<and> cache_ok d'"
proof -
  from hash.add_key [OF assms(1-4)] obtain t where t: "HASH_ADD_KEYPTR hf key a s = Some t"
    "holds hf t (ks @ [(a, key)])" by blast
  have walk: "hash_walk (hhs t) (hash_head t) = Some (map fst ks @ [a])" using holds_walk [OF t(2)] by simp
  from add_to_cache_ok [OF assms(5,6) walk] filled_cache [OF assms(7) walk] t(1) walk show ?thesis
    by (auto simp: regenerateRegPtrArrayCache_def)
qed

theorem cache_follows_the_dictionary_witness:
  "\<exists>t d. HASH_ADD_KEYPTR HASH_JEN ''a(.*)'' 7 empty_hash = Some t \<and> addRegToPtrArrayCache 7 t ompDictCache = Some d \<and>
     cached_entries d = Some [7]"
proof -
  have "hash_room ''a(.*)'' empty_hash" "cache_ok ompDictCache" "cached_entries ompDictCache = Some []"
    by (simp_all add: hash_room_def empty_hash_def cache_ok_def ompDictCache_def cached_entries_def)
  then show ?thesis using cache_follows_the_dictionary [OF holds_empty, of 7 "''a(.*)''" ompDictCache ompDictCache HASH_JEN]
    by auto
qed

text \<open>
  The cache has holes. While one application is announcing itself its entries are put in the
  table and not in the cache; when another one adds a pattern then, the cache counts them all and
  writes the last slot only: the next \<open>IvySendMsg\<close> reads a slot that was never written.
\<close>
theorem cache_has_holes:
  assumes "holds hf s (ks @ new @ [(a, key)])" and "new \<noteq> []" and "cache_ok c"
    and "cached_entries c = Some (map fst ks)" and "length ks + length new + 1 < cache_size c"
    and "\<forall>i. numPtr c \<le> i \<longrightarrow> i < cache_size c \<longrightarrow> msgPtrArray c ! i = None"
  shows "\<exists>d. addRegToPtrArrayCache a s c = Some d \<and> numPtr d = length ks + length new + 1 \<and> cached_entries d = None"
proof -
  let ?n = "length ks + length new" and ?xs = "(msgPtrArray c)[length ks + length new := Some a]"
  have len: "length (msgPtrArray c) = cache_size c" using assms(3) by (simp add: cache_ok_def)
  have n: "numPtr c = length ks" using assms(4) by (auto simp: cached_entries_def min_def dest: arg_cong [of _ _ length] split: if_splits)
  have "hash_walk (hhs s) (hash_head s) = Some (map fst (ks @ new @ [(a, key)]))" by (rule holds_walk [OF assms(1)])
  then have run: "addRegToPtrArrayCache a s c = Some (c\<lparr>numPtr := ?n + 1, msgPtrArray := ?xs\<rparr>)"
    using assms(5) len by (simp add: addRegToPtrArrayCache_def)
  have "?xs ! length ks = None" using assms(2,5,6) n by (cases new) auto
  moreover have "length ks < length (take (?n + 1) ?xs)" using assms(5) len by simp
  ultimately have "None \<in> set (take (?n + 1) ?xs)" by (metis in_set_conv_nth length_take min_less_iff_conj nth_take)
  then show ?thesis using run by (simp add: cached_entries_def)
qed

theorem cache_has_holes_witness:
  "\<exists>c s t d. regenerateRegPtrArrayCache empty_hash ompDictCache = Some c \<and>
     HASH_ADD_KEYPTR HASH_JEN ''a(.*)'' 7 empty_hash = Some s \<and> HASH_ADD_KEYPTR HASH_JEN ''b(.*)'' 8 s = Some t \<and>
     addRegToPtrArrayCache 8 t c = Some d \<and> cached_entries d = None"
proof -
  obtain s where s: "HASH_ADD_KEYPTR HASH_JEN ''a(.*)'' 7 empty_hash = Some s" "holds HASH_JEN s [(7, ''a(.*)'')]"
    using demo_table by blast
  have "num_buckets t < 2147483648" if "hash_tbl s = Some t" for t
    using first_table_size [OF s(1) that] by simp
  then obtain t where t: "HASH_ADD_KEYPTR HASH_JEN ''b(.*)'' 8 s = Some t" "holds HASH_JEN t [(7, ''a(.*)''), (8, ''b(.*)'')]"
    using HASH_ADD_KEYPTR_ok [OF s(2), of 8 "''b(.*)''"] by auto
  define c where "c = \<lparr>msgPtrArray = replicate 128 None, cache_size = 128, numPtr = 0\<rparr>"
  have "regenerateRegPtrArrayCache empty_hash ompDictCache = Some c"
    by (simp add: regenerateRegPtrArrayCache_def empty_hash_def hash_walk.simps grow_cache_def ompDictCache_def
        realloc_slots_def c_def)
  moreover have "cache_ok c" "cached_entries c = Some []" by (simp_all add: c_def cache_ok_def cached_entries_def)
  ultimately show ?thesis
    using cache_has_holes [of HASH_JEN t "[]" "[(7, ''a(.*)'')]" 8 "''b(.*)''" c] s t by (auto simp: c_def)
qed

end
