(* ===== verification/IvyInterval.thy ===== *)
theory IvyInterval
  imports CText
begin

text \<open>
  The interval patterns of \<open>intervalRegexp.c\<close>, and \<open>substituteInterval\<close> of \<open>ivy.c\<close>, which replaces
  \<open>(?I1#5i)\<close> in a pattern by a regular expression for the numbers of the interval. The buffers
  are bounded as in the code; reading a variable or a byte that was not set is \<open>Uninitialised\<close>.
  The messages of \<open>perr\<close> are not modelled.
\<close>

section \<open>Buffers\<close>

text \<open>A function that fails returns \<open>Inr None\<close>, one that succeeds the text it leaves in its buffer.\<close>

definition bindF :: "'s option res \<Rightarrow> ('s \<Rightarrow> 't option res) \<Rightarrow> 't option res" where
  "bindF m f = bindR m (\<lambda>x. case x of None \<Rightarrow> Inr None | Some v \<Rightarrow> f v)"

text \<open>\<open>CHECK_AND_RETURN\<close>: the copy writes the terminating NUL as well.\<close>

definition CHECK_AND_RETURN :: "nat \<Rightarrow> string \<Rightarrow> string option res" where
  "CHECK_AND_RETURN buflen locBuf =
     (if length locBuf \<le> buflen
      then if length locBuf = buflen then Inl OutOfBounds else Inr (Some locBuf)
      else Inr None)"

text \<open>\<open>AddLocBuf\<close>: \<open>snprintf\<close> at the end of a buffer of \<open>sz\<close> bytes.\<close>

definition AddLocBuf :: "nat \<Rightarrow> string \<Rightarrow> string \<Rightarrow> string" where
  "AddLocBuf sz locBuf new = locBuf @ take (sz - 1 - length locBuf) new"

definition longtoa :: "nat \<Rightarrow> int \<Rightarrow> string" where
  "longtoa buflen n = take (buflen - 1) (show_int n)"

definition substr :: "nat \<Rightarrow> string \<Rightarrow> nat \<Rightarrow> nat \<Rightarrow> string option res" where
  "substr buflen expr pos len =
     (let len = min len (nat ((int (length expr) - int pos) mod 2 ^ 64))
      in if len \<ge> 512 \<or> (pos > length expr \<and> len > 0) then Inl OutOfBounds
         else CHECK_AND_RETURN buflen (take len (drop pos expr)))"

section \<open>One digit\<close>

definition genPreRank :: "nat \<Rightarrow> string \<Rightarrow> string \<Rightarrow> int \<Rightarrow> string option res" where
  "genPreRank buflen mn mx rank =
     (let lmin = dropWhile (\<lambda>c. c = CHR ''0'') mn; lmax = dropWhile (\<lambda>c. c = CHR ''0'') mx
      in bindF (substr 512 lmin 0 (nat ((int (length lmin) - rank) mod 2 ^ 64))) (\<lambda>locBuf.
         bindF (substr 512 lmax 0 (nat ((int (length lmax) - rank) mod 2 ^ 64))) (\<lambda>locBufMax.
           if locBuf \<noteq> locBufMax then Inr None else CHECK_AND_RETURN buflen locBuf)))"

text \<open>\<open>s[i]\<close> for an index that may lie outside: the NUL is at the length.\<close>

definition char_at :: "string \<Rightarrow> int \<Rightarrow> char res" where
  "char_at s i =
     (if i < 0 \<or> i > int (length s) then Inl OutOfBounds
      else Inr (if i = int (length s) then CHR 0x00 else s ! nat i))"

definition genRank :: "nat \<Rightarrow> string \<Rightarrow> string \<Rightarrow> int \<Rightarrow> string option res" where
  "genRank buflen mn mx rank =
     bindR (char_at mn (int (length mn) - rank)) (\<lambda>a.
     bindR (char_at mx (int (length mx) - rank)) (\<lambda>b.
       let lmin = (if (of_char a :: nat) < of_char b then a else b);
           lmax = (if (of_char a :: nat) > of_char b then a else b)
       in CHECK_AND_RETURN buflen
            (if lmin = CHR ''0'' \<and> lmax = CHR ''9'' then [CHR 0x5C, CHR ''d'']
             else if lmin = lmax then [lmin]
             else if (of_char lmax :: nat) = of_char lmin + 1 then [CHR ''['', lmin, lmax, CHR '']'']
             else [CHR ''['', lmin, CHR ''-'', lmax, CHR '']''])))"

definition genPostRank :: "nat \<Rightarrow> int \<Rightarrow> string option res" where
  "genPostRank buflen rank =
     CHECK_AND_RETURN buflen
       (if rank \<le> 1 then [] else if rank = 2 then [CHR 0x5C, CHR ''d'']
        else [CHR 0x5C, CHR ''d'', CHR ''{''] @ show_int (rank - 1) @ ''}'')"

definition genAtRank :: "nat \<Rightarrow> string \<Rightarrow> string \<Rightarrow> int \<Rightarrow> string option res" where
  "genAtRank buflen mn mx rank =
     bindF (genPreRank 512 mn mx rank) (\<lambda>pre.
     bindF (genRank (512 - length pre) mn mx rank) (\<lambda>digit.
     bindF (genPostRank (512 - length (pre @ digit)) rank) (\<lambda>post.
       CHECK_AND_RETURN buflen (pre @ digit @ post))))"

section \<open>The end of the next range\<close>

text \<open>
  The arrays \<open>revMin\<close> and \<open>revMax\<close> have 32 bytes. The first three loops run
  \<open>for (i = ...; i >= 0; i--)\<close> with an unsigned \<open>i\<close>, whose test never fails: \<open>i\<close> wraps around
  below 0 and the destination index goes on growing, until a read or a write is outside its
  array. \<open>src i\<close> is the byte the body stores, at the destination index \<open>d\<close>.
\<close>

type_synonym digits = "nat \<Rightarrow> char option"

function rev_loop :: "(nat \<Rightarrow> char res) \<Rightarrow> nat \<Rightarrow> nat \<Rightarrow> digits \<Rightarrow> digits res" where
  "rev_loop src i d arr =
     bindR (src i) (\<lambda>c.
       if d \<ge> 32 then Inl OutOfBounds
       else rev_loop src (if i = 0 then 18446744073709551615 else i - 1) (d + 1) (arr(d \<mapsto> c)))"
  by pat_completeness auto
termination
  by (relation "measure (\<lambda>(_, _, d, _). 32 - d)") auto

declare rev_loop.simps [simp del]

text \<open>A byte of a string kept in an array of 32 bytes, and of an array under construction.\<close>

definition string_at :: "string \<Rightarrow> nat \<Rightarrow> char res" where
  "string_at s i =
     (if i < length s then Inr (s ! i) else if i = length s then Inr (CHR 0x00)
      else if i < 32 then Inl Uninitialised else Inl OutOfBounds)"

definition digit_at :: "digits \<Rightarrow> nat \<Rightarrow> char res" where
  "digit_at arr i =
     (if i \<ge> 32 then Inl OutOfBounds else case arr i of None \<Rightarrow> Inl Uninitialised | Some c \<Rightarrow> Inr c)"

function first_nonzero :: "digits \<Rightarrow> nat \<Rightarrow> nat \<Rightarrow> nat res" where
  "first_nonzero revMin n rank =
     bindR (digit_at revMin rank) (\<lambda>c.
       if c = CHR ''0'' \<and> rank < n then first_nonzero revMin n (rank + 1) else Inr rank)"
  by pat_completeness auto
termination
  by (relation "measure (\<lambda>(_, n, rank). n - rank)") auto

fun last_different :: "digits \<Rightarrow> digits \<Rightarrow> nat \<Rightarrow> nat res" where
  "last_different revMin revMax rank =
     bindR (digit_at revMin rank) (\<lambda>a. bindR (digit_at revMax rank) (\<lambda>b.
       if a = b \<and> rank > 0 then last_different revMin revMax (rank - 1) else Inr rank))"

fun nines :: "nat \<Rightarrow> digits \<Rightarrow> digits" where
  "nines 0 arr = arr"
| "nines (Suc k) arr = (nines k arr)(k \<mapsto> CHR ''9'')"

text \<open>The string in an array, up to its NUL.\<close>

definition digits_text :: "digits \<Rightarrow> string" where
  "digits_text arr = map (\<lambda>i. the (arr i))
     (takeWhile (\<lambda>i. arr i \<noteq> None \<and> arr i \<noteq> Some (CHR 0x00)) [0..<32])"

definition reverse :: "string \<Rightarrow> string" where
  "reverse = rev"

definition nextMax :: "string \<Rightarrow> string \<Rightarrow> (int \<times> int) res" where
  "nextMax mn mx =
     (let nmin = length mn; nmax = length mx
      in bindR (rev_loop (string_at mn) (nmin - 1) 0 Map.empty) (\<lambda>revMin.
         bindR (rev_loop (\<lambda>_. Inr (CHR ''0'')) (nat ((int nmax - int nmin) mod 2 ^ 64)) nmin revMin) (\<lambda>revMin.
         bindR (rev_loop (string_at mx) (nmax - 1) 0 Map.empty) (\<lambda>revMax.
           let revMin = revMin(nmax \<mapsto> CHR 0x00); revMax = revMax(nmax \<mapsto> CHR 0x00)
           in bindR (first_nonzero revMin nmax 0) (\<lambda>rankRev.
              bindR (last_different revMin revMax (nmax - 1)) (\<lambda>rankForw.
              bindR (digit_at revMax rankForw) (\<lambda>c.
                let (rank, revMin) = (if rankForw \<le> rankRev
                      then (rankForw, nines rankForw (revMin(rankForw \<mapsto>
                        (if rankForw = 0 then c else char_of ((of_char c :: nat) - 1)))))
                      else (rankRev, nines (rankRev + 1) revMin));
                    m = atoi (reverse (digits_text revMin))
                in Inr (min m (atoi mx), int rank + 1))))))))"

section \<open>The pattern of an interval\<close>

function positive_ranges :: "int \<Rightarrow> int \<Rightarrow> string list \<Rightarrow> string list option res" where
  "positive_ranges mn mx regList =
     bindR (nextMax (longtoa 32 mn) (longtoa 32 mx)) (\<lambda>(m, rank).
     bindF (genAtRank 128 (longtoa 32 mn) (longtoa 32 m) rank) (\<lambda>r.
       if length regList + 1 \<ge> 64 then Inr None
       else if m \<noteq> mx then positive_ranges (m + 1) mx (regList @ [r])
       else Inr (Some (regList @ [r]))))"
  by pat_completeness auto
termination
  by (relation "measure (\<lambda>(_, _, r). 64 - length r)") auto

declare positive_ranges.simps [simp del]

text \<open>
  Between equal bounds the text is appended to a buffer that was never initialised.
\<close>

definition strictPosRegexpGen :: "nat \<Rightarrow> int \<Rightarrow> int \<Rightarrow> string \<Rightarrow> string \<Rightarrow> string option res" where
  "strictPosRegexpGen buflen mn mx decimalPart boundDecimalPart =
     (if mn \<le> 0 \<or> mx \<le> 0 then Inr None
      else if mn = mx then Inl Uninitialised
      else bindF (positive_ranges mn (mx - 1) []) (\<lambda>regList.
        let body = concat (map (\<lambda>r. ''(?:'' @ r @ decimalPart @ '')|'') regList);
            all = butlast body @ ''|(?:'' @ longtoa 32 mx @ boundDecimalPart @ '')''
        in if length body \<ge> 8192 \<or> length all \<ge> 8192 then Inl OutOfBounds
           else CHECK_AND_RETURN buflen all))"

definition decimal_part :: "bool \<Rightarrow> string" where
  "decimal_part flottant = (if flottant then ''(?:'' @ [CHR 0x5C] @ ''.'' @ [CHR 0x5C] @ ''d+)?'' else [])"

definition bound_decimal_part :: "bool \<Rightarrow> string" where
  "bound_decimal_part flottant = (if flottant then ''(?:'' @ [CHR 0x5C] @ ''.0+)?'' else [])"

definition interval_end :: string where
  "interval_end = '')(?!['' @ [CHR 0x5C] @ ''d.])''"

text \<open>The bounds in order; the smaller one passes through an \<open>int\<close>.\<close>

definition ordered :: "int \<Rightarrow> int \<Rightarrow> int \<times> int" where
  "ordered mn mx = (if mn > mx then (s32 mx, mn) else (mn, mx))"

abbreviation grown :: "string \<Rightarrow> string \<Rightarrow> string" where
  "grown \<equiv> AddLocBuf 8192"

definition rest_of :: "string \<Rightarrow> nat" where
  "rest_of locBuf = 8192 - length locBuf"

definition same_sign_regexp :: "int \<Rightarrow> int \<Rightarrow> bool \<Rightarrow> string option res" where
  "same_sign_regexp mn mx flottant =
     (let decimalPart = decimal_part flottant; boundDecimalPart = bound_decimal_part flottant
      in if mn = mx then Inr (Some (grown ''(?:'' (show_int mn @ decimalPart)))
         else if mn < 0 then
           (if mx < 0 then
              let l = grown ''(?:'' ([CHR 0x5C] @ ''-(?:'')
              in bindF (strictPosRegexpGen (rest_of l) (- mn) (- mx) decimalPart boundDecimalPart) (\<lambda>r.
                   Inr (Some (grown (l @ r) '')'')))
            else
              let l = grown ''(?:'' (''(?:0'' @ boundDecimalPart @ '')|(?:-0'' @ decimalPart @ '')|-(?:'')
              in bindF (strictPosRegexpGen (rest_of l) 1 (- mn) decimalPart boundDecimalPart) (\<lambda>r.
                   Inr (Some (grown (l @ r) '')''))))
         else if mn = 0 then
           let l = grown ''(?:'' (''(?:0'' @ decimalPart @ '')|'')
           in bindF (strictPosRegexpGen (rest_of l) 1 mx decimalPart boundDecimalPart) (\<lambda>r.
                Inr (Some (l @ r)))
         else bindF (strictPosRegexpGen (rest_of ''(?:'') mn mx decimalPart boundDecimalPart) (\<lambda>r.
                Inr (Some (''(?:'' @ r))))"

text \<open>
  An interval around 0 is made of two intervals that end at 0, by recursive calls; every other
  case is \<open>same_sign_regexp\<close>.
\<close>

definition closed_interval :: "nat \<Rightarrow> string \<Rightarrow> string option res" where
  "closed_interval buflen locBuf = CHECK_AND_RETURN buflen (grown locBuf interval_end)"

function regexpGen :: "nat \<Rightarrow> int \<Rightarrow> int \<Rightarrow> bool \<Rightarrow> string option res" where
  "regexpGen buflen mn0 mx0 flottant =
     (let (mn, mx) = ordered mn0 mx0
      in if mn < 0 \<and> mx > 0 then
           let l = grown ''(?:'' ''(?:''
           in bindF (regexpGen (rest_of l) mn 0 flottant) (\<lambda>r1.
              let l = grown (l @ r1) ''|''
              in bindF (regexpGen (rest_of l) 0 mx flottant) (\<lambda>r2.
                   closed_interval buflen (grown (l @ r2) '')'')))
         else bindF (same_sign_regexp mn mx flottant) (closed_interval buflen))"
  by pat_completeness auto
termination
  by (relation "measure (\<lambda>(_, mn, mx, _). if fst (ordered mn mx) < 0 \<and> snd (ordered mn mx) > 0 then 1 else 0)")
    (auto simp: ordered_def)

declare regexpGen.simps [simp del]

section \<open>Intervals in a pattern\<close>

text \<open>\<open>sscanf (itvPos, "(?I%d#%d%c", ...)\<close> when it converts all three.\<close>

definition scan_interval :: "string \<Rightarrow> (int \<times> int \<times> char) option" where
  "scan_interval itv =
     Option.bind (scan_d (drop 3 itv)) (\<lambda>(mn, r). case r of [] \<Rightarrow> None | h # r \<Rightarrow>
       if h \<noteq> CHR ''#'' then None
       else Option.bind (scan_d r) (\<lambda>(mx, r). case r of [] \<Rightarrow> None | c # _ \<Rightarrow> Some (mn, mx, c)))"

definition interval_mark :: string where "interval_mark = ''(?I''"

lemma strstr_Some: "strstr s p = Some t \<Longrightarrow> p \<noteq> [] \<Longrightarrow> t \<noteq> [] \<and> length t \<le> length s"
  by (induction s) (auto split: if_splits)

text \<open>
  The loop of \<open>substituteInterval\<close> from \<open>curPos\<close>, with what \<open>dst\<close> holds up to its offset; \<open>ended\<close>
  is whether a NUL follows it. The variables \<open>sscanf\<close> does not set are not initialised.
\<close>

function substitute :: "string \<Rightarrow> bool \<Rightarrow> string \<Rightarrow> string res" where
  "substitute dst ended curPos =
     (case strstr curPos interval_mark of
        None \<Rightarrow> if \<not> ended then Inl Uninitialised
                else if length curPos \<ge> 8192 - length dst then Inl OutOfBounds else Inr (dst @ curPos)
      | Some itvPos \<Rightarrow>
          let copied = take (length curPos - length itvPos) curPos; dst = dst @ copied
          in if length dst > 8192 then Inl OutOfBounds
             else case scan_interval itvPos of None \<Rightarrow> Inl Uninitialised
             | Some (mn, mx, withDecimal) \<Rightarrow>
                 bindR (regexpGen (8192 - length dst) mn mx (withDecimal \<noteq> CHR ''i'')) (\<lambda>r.
                   if r = None \<and> (copied \<noteq> [] \<or> \<not> ended) then Inl Uninitialised
                   else let dst = dst @ (case r of None \<Rightarrow> [] | Some t \<Rightarrow> t)
                        in case strstr itvPos '')'' of None \<Rightarrow> Inl NullDeref
                           | Some close \<Rightarrow> substitute dst True (tl close)))"
  by pat_completeness auto
termination
proof (relation "measure (\<lambda>(_, _, s). length s)", goal_cases)
  case (2 dst ended curPos itvPos)
  then show ?case by (auto simp: interval_mark_def neq_Nil_conv dest!: strstr_Some)
qed simp

declare substitute.simps [simp del]

definition substituteInterval :: "string \<Rightarrow> string res" where
  "substituteInterval src =
     (if strstr src interval_mark = None then Inr src else substitute [] False src)"

section \<open>What comes out\<close>

lemma rev_loop_runs_out:
  assumes "i < length s" and "length s < 32"
  shows "rev_loop (string_at s) i d arr = Inl OutOfBounds"
  using assms(1)
proof (induction i arbitrary: d arr)
  case 0
  have "rev_loop (string_at s) 18446744073709551615 (d + 1) (arr(d \<mapsto> s ! 0)) = Inl OutOfBounds"
    using assms(2) by (subst rev_loop.simps) (simp add: string_at_def)
  with 0 show ?case by (subst rev_loop.simps) (simp add: string_at_def)
next
  case (Suc i)
  then have "string_at s (Suc i) = Inr (s ! Suc i)" by (simp add: string_at_def)
  with Suc show ?case by (subst rev_loop.simps) simp
qed

lemma nextMax_undefined: "mn \<noteq> [] \<Longrightarrow> length mn < 32 \<Longrightarrow> nextMax mn mx = Inl OutOfBounds"
  by (simp add: nextMax_def Let_def rev_loop_runs_out)

lemma longtoa_length: "longtoa 32 n \<noteq> [] \<and> length (longtoa 32 n) < 32"
proof -
  have "show_int n \<noteq> []" by (simp add: show_int_def)
  then show ?thesis by (auto simp: longtoa_def)
qed

lemma strictPosRegexpGen_undefined:
  "0 < mn \<Longrightarrow> 0 < mx \<Longrightarrow>
     strictPosRegexpGen n mn mx d b = Inl (if mn = mx then Uninitialised else OutOfBounds)"
  using longtoa_length [of mn]
  by (subst strictPosRegexpGen_def, subst positive_ranges.simps) (simp add: nextMax_undefined bindF_def)

lemma same_sign_undefined:
  assumes "mn < mx" and "0 \<le> mn \<or> mx \<le> 0"
  shows "same_sign_regexp mn mx fl \<in> {Inl OutOfBounds, Inl Uninitialised}"
  using assms by (auto simp: same_sign_regexp_def Let_def strictPosRegexpGen_undefined bindF_def)

lemma regexpGen_undefined:
  assumes "mn \<noteq> mx" and "is_int32 mn" and "is_int32 mx"
  shows "regexpGen n mn mx fl \<in> {Inl OutOfBounds, Inl Uninitialised}"
proof -
  have "fst (ordered mn mx) < snd (ordered mn mx)"
    using assms by (auto simp: ordered_def s32_id)
  then obtain a b where ab: "ordered mn mx = (a, b)" "a < b" by (cases "ordered mn mx") simp
  have half: "regexpGen k a 0 fl \<in> {Inl OutOfBounds, Inl Uninitialised}" if "a < 0" for k
    using that same_sign_undefined [of a 0 fl]
    by (subst regexpGen.simps) (auto simp: ordered_def bindF_def)
  show ?thesis
  proof (cases "a < 0 \<and> 0 < b")
    case True
    with half [of "rest_of (grown ''(?:'' ''(?:'')"] ab(1) show ?thesis
      by (subst regexpGen.simps) (auto simp: Let_def bindF_def)
  next
    case False
    with same_sign_undefined [OF ab(2), of fl] ab(1) show ?thesis
      by (subst regexpGen.simps) (auto simp: bindF_def)
  qed
qed

lemma regexpGen_single:
  assumes "is_int32 v"
    and "length (''(?:'' @ show_int v @ decimal_part fl @ interval_end) < n" and "n \<le> 8192"
  shows "regexpGen n v v fl = Inr (Some (''(?:'' @ show_int v @ decimal_part fl @ interval_end))"
proof -
  have "same_sign_regexp v v fl = Inr (Some (''(?:'' @ show_int v @ decimal_part fl))"
    using assms(2,3) by (simp add: same_sign_regexp_def AddLocBuf_def Let_def)
  then show ?thesis
    using assms(2,3)
    by (subst regexpGen.simps) (auto simp add: ordered_def bindF_def closed_interval_def AddLocBuf_def CHECK_AND_RETURN_def)
qed

section \<open>Properties\<close>

lemma dropWhile_zero: "hd s \<noteq> CHR ''0'' \<Longrightarrow> dropWhile (\<lambda>c. c = CHR ''0'') s = s"
  by (cases s) simp_all

lemma substr_prefix:
  assumes "length (p @ q) < 512"
  shows "substr 512 (p @ q) 0 (nat ((int (length (p @ q)) - int (length q)) mod 2 ^ 64)) = Inr (Some p)"
proof -
  have "nat ((int (length (p @ q)) - int (length q)) mod 2 ^ 64) = length p"
    "nat ((int (length (p @ q)) - int 0) mod 2 ^ 64) = length (p @ q)"
    using assms by simp_all
  then show ?thesis using assms by (simp add: substr_def Let_def CHECK_AND_RETURN_def)
qed

lemma genPreRank_ok:
  assumes "length (p @ q) < 512" and "length (p @ r) < 512" and "length q = length r"
    and "hd (p @ q) \<noteq> CHR ''0''" and "hd (p @ r) \<noteq> CHR ''0''"
  shows "genPreRank 512 (p @ q) (p @ r) (int (length q)) = Inr (Some p)"
  using substr_prefix [OF assms(1)] substr_prefix [OF assms(2)] assms
  unfolding genPreRank_def dropWhile_zero [OF assms(4)] dropWhile_zero [OF assms(5)]
  by (simp add: bindF_def CHECK_AND_RETURN_def)

definition digit_class :: "char \<Rightarrow> char \<Rightarrow> string" where
  "digit_class a b =
     (if a = CHR ''0'' \<and> b = CHR ''9'' then [CHR 0x5C, CHR ''d'']
      else if a = b then [a]
      else if (of_char b :: nat) = of_char a + 1 then [CHR ''['', a, b, CHR '']'']
      else [CHR ''['', a, CHR ''-'', b, CHR '']''])"

definition free_digits :: "nat \<Rightarrow> string" where
  "free_digits k =
     (if k = 0 then [] else if k = 1 then [CHR 0x5C, CHR ''d'']
      else [CHR 0x5C, CHR ''d'', CHR ''{''] @ show_int (int k) @ ''}'')"

lemma genRank_ok:
  assumes "length xs = length ys" and "(of_char a :: nat) \<le> of_char b" and "5 < n"
  shows "genRank n (p @ a # xs) (p @ b # ys) (int (length ys) + 1) = Inr (Some (digit_class a b))"
proof -
  have "nat (int (length (p @ a # xs)) - (int (length ys) + 1)) = length p"
    "nat (int (length (p @ b # ys)) - (int (length ys) + 1)) = length p"
    using assms(1) by simp_all
  then have at: "char_at (p @ a # xs) (int (length (p @ a # xs)) - (int (length ys) + 1)) = Inr a"
    "char_at (p @ b # ys) (int (length (p @ b # ys)) - (int (length ys) + 1)) = Inr b"
    using assms(1) by (simp_all add: char_at_def)
  have "(of_char a :: nat) = of_char b \<longleftrightarrow> a = b" by simp
  then have "(if (of_char a :: nat) < of_char b then a else b) = a"
    "(if (of_char b :: nat) < of_char a then a else b) = b"
    using assms(2) by (auto simp: not_less intro: antisym)
  then show ?thesis using assms(3)
    by (simp only: genRank_def at bindR_simps Let_def) (simp add: CHECK_AND_RETURN_def digit_class_def)
qed

lemma genPostRank_ok:
  assumes "length (free_digits k) < n"
  shows "genPostRank n (int k + 1) = Inr (Some (free_digits k))"
  using assms by (cases "k = 0 \<or> k = 1") (auto simp: genPostRank_def CHECK_AND_RETURN_def free_digits_def)

lemma free_digits_length:
  assumes "k < 100"
  shows "length (free_digits k) \<le> 15"
  using length_show_int [of "int k"] assms by (auto simp: free_digits_def is_int32_def)

text \<open>
  \<open>genAtRank\<close> writes the numbers that share a prefix and differ in one digit: after the prefix
  it puts the class of the digits from \<open>a\<close> to \<open>b\<close>, and one free digit for each digit that follows.
\<close>
theorem ranges_at_a_rank:
  assumes "length xs = k" and "length ys = k" and "length p + k < 100"
    and "(of_char a :: nat) \<le> of_char b"
    and "hd (p @ [a]) \<noteq> CHR ''0''" and "hd (p @ [b]) \<noteq> CHR ''0''"
  shows "genAtRank 128 (p @ a # xs) (p @ b # ys) (int k + 1) =
           Inr (Some (p @ digit_class a b @ free_digits k))"
proof -
  have pre: "genPreRank 512 (p @ a # xs) (p @ b # ys) (int k + 1) = Inr (Some p)"
    using genPreRank_ok [of p "a # xs" "b # ys"] assms by (cases p) (simp_all add: add.commute)
  have "length (digit_class a b) \<le> 5" by (simp add: digit_class_def)
  moreover have "length (free_digits k) \<le> 15" using assms(3) by (intro free_digits_length) simp
  moreover have "genRank (512 - length p) (p @ a # xs) (p @ b # ys) (int k + 1) = Inr (Some (digit_class a b))"
    using genRank_ok [of xs ys a b "512 - length p" p] assms by simp
  moreover from calculation(1,2) have
    "genPostRank (512 - length (p @ digit_class a b)) (int k + 1) = Inr (Some (free_digits k))"
    using assms(3) by (intro genPostRank_ok) simp
  ultimately show ?thesis
    using pre assms(3) by (simp add: genAtRank_def bindF_def CHECK_AND_RETURN_def)
qed

theorem ranges_at_a_rank_witness:
  "genAtRank 128 ''1200'' ''1799'' 3 = Inr (Some (''1[2-7]'' @ [CHR 0x5C] @ ''d{2}''))"
proof -
  have "show_int 2 = ''2''" by code_simp
  then show ?thesis
    using ranges_at_a_rank [of "''00''" 2 "''99''" "''1''" "CHR ''2''" "CHR ''7''"]
    by (simp add: digit_class_def free_digits_def)
qed

section \<open>Intervals in a pattern\<close>

definition interval_text :: "int \<Rightarrow> int \<Rightarrow> char \<Rightarrow> string" where
  "interval_text a b k = interval_mark @ show_int a @ CHR ''#'' # show_int b @ [k] @ '')''"

lemma strstr_skip:
  assumes "CHR ''('' \<notin> set pre"
  shows "strstr (pre @ interval_mark @ r) interval_mark = Some (interval_mark @ r)"
  using assms by (induction pre) (auto simp: interval_mark_def)

lemma scan_interval_text:
  assumes "is_int32 a" and "is_int32 b" and "\<not> is_digit k"
  shows "scan_interval (interval_text a b k @ r) = Some (a, b, k)"
proof -
  have "scan_d (show_int a @ CHR ''#'' # show_int b @ k # '')'' @ r) = Some (a, CHR ''#'' # show_int b @ k # '')'' @ r)"
    using assms(1) by (intro scan_d_show_int) (simp_all add: is_digit_def)
  moreover have "scan_d (show_int b @ k # '')'' @ r) = Some (b, k # '')'' @ r)"
    using assms(2,3) by (intro scan_d_show_int) simp_all
  ultimately show ?thesis by (simp add: scan_interval_def interval_text_def interval_mark_def)
qed

lemma substitute_interval:
  assumes "CHR ''('' \<notin> set pre" and "is_int32 a" and "is_int32 b" and "\<not> is_digit k" and "k \<noteq> CHR '')''"
    and "length (dst @ pre) \<le> 8192"
  shows "substitute dst ended (pre @ interval_text a b k @ r) =
     bindR (regexpGen (8192 - length (dst @ pre)) a b (k \<noteq> CHR ''i'')) (\<lambda>x.
       if x = None \<and> (pre \<noteq> [] \<or> \<not> ended) then Inl Uninitialised
       else substitute (dst @ pre @ (case x of None \<Rightarrow> [] | Some t \<Rightarrow> t)) True r)"
proof -
  let ?itv = "interval_text a b k @ r"
  have find: "strstr (pre @ ?itv) interval_mark = Some ?itv"
    using strstr_skip [OF assms(1)] by (simp add: interval_text_def)
  have "CHR '')'' \<notin> set (interval_mark @ show_int a @ CHR ''#'' # show_int b @ [k])"
    using assms(5) show_int_chars by (auto simp: interval_mark_def is_digit_def dest!: show_int_chars)
  from strstr_char_skip [OF this, of r] have close: "strstr ?itv '')'' = Some (CHR '')'' # r)"
    by (simp add: interval_text_def)
  have copied: "take (length (pre @ ?itv) - length ?itv) (pre @ ?itv) = pre" by simp
  show ?thesis
    by (subst substitute.simps)
      (simp only: find close copied scan_interval_text [OF assms(2-4)] option.case prod.case Let_def list.sel,
        use assms(6) in \<open>simp cong: if_cong\<close>)
qed

text \<open>
  An interval with one value becomes that number, with an optional fraction unless the
  interval is marked \<open>i\<close>, not followed by a digit or a point; the rest of the pattern is kept.
\<close>
theorem single_value_interval:
  assumes "CHR ''('' \<notin> set pre" and "is_int32 v" and "\<not> is_digit k" and "k \<noteq> CHR '')''"
    and "strstr rest interval_mark = None"
    and "length (pre @ ''(?:'' @ show_int v @ decimal_part (k \<noteq> CHR ''i'') @ interval_end @ rest) < 8192"
  shows "substituteInterval (pre @ interval_text v v k @ rest) =
           Inr (pre @ (''(?:'' @ show_int v @ decimal_part (k \<noteq> CHR ''i'') @ interval_end) @ rest)"
proof -
  let ?t = "''(?:'' @ show_int v @ decimal_part (k \<noteq> CHR ''i'') @ interval_end"
  have len: "length pre + length ?t + length rest < 8192" using assms(6) by simp
  then have gen: "regexpGen (8192 - length ([] @ pre)) v v (k \<noteq> CHR ''i'') = Inr (Some ?t)"
    using assms(2) by (intro regexpGen_single) simp_all
  have "strstr (pre @ interval_text v v k @ rest) interval_mark \<noteq> None"
    using strstr_skip [OF assms(1)] by (simp add: interval_text_def)
  then have "substituteInterval (pre @ interval_text v v k @ rest) =
      substitute [] False (pre @ interval_text v v k @ rest)"
    unfolding substituteInterval_def by (rule if_not_P)
  also have "\<dots> = substitute (pre @ ?t) True rest"
    using len by (subst substitute_interval [OF assms(1,2,2,3,4)]) (simp, simp only: gen, simp)
  also have "\<dots> = Inr ((pre @ ?t) @ rest)"
    using len assms(5) by (subst substitute.simps) simp
  finally show ?thesis by simp
qed

theorem single_value_interval_witness:
  "substituteInterval ''^a (?I5#5i)$'' = Inr (''^a (?:5)(?!['' @ [CHR 0x5C] @ ''d.])$'')"
proof -
  have "show_int 5 = ''5''" by code_simp
  then show ?thesis
    using single_value_interval [of "''^a ''" 5 "CHR ''i''" "''$''"]
    by (simp add: interval_text_def interval_mark_def interval_end_def decimal_part_def is_int32_def is_digit_def)
qed

lemma interval_undefined:
  assumes "CHR ''('' \<notin> set pre" and "is_int32 a" and "is_int32 b" and "a \<noteq> b"
    and "\<not> is_digit k" and "k \<noteq> CHR '')''" and "length pre \<le> 8192"
  shows "substituteInterval (pre @ interval_text a b k @ rest) \<in> {Inl OutOfBounds, Inl Uninitialised}"
proof -
  have "strstr (pre @ interval_text a b k @ rest) interval_mark \<noteq> None"
    using strstr_skip [OF assms(1)] by (simp add: interval_text_def)
  then have "substituteInterval (pre @ interval_text a b k @ rest) =
      substitute [] False (pre @ interval_text a b k @ rest)"
    unfolding substituteInterval_def by (rule if_not_P)
  also have "\<dots> \<in> {Inl OutOfBounds, Inl Uninitialised}"
    using regexpGen_undefined [OF assms(4,2,3), of "8192 - length ([] @ pre)" "k \<noteq> CHR ''i''"] assms(7)
    by (subst substitute_interval [OF assms(1,2,3,5,6)]) auto
  finally show ?thesis .
qed

end
