(* ===== verification/IvyCore.thy ===== *)
theory IvyCore
  imports IvyDict IvyInterval
begin

text \<open>
  The core of \<open>ivy.c\<close>: sending a message to the subscribers, the interpretation of what peers
  send, the handshake, and the calls of the application. The callbacks of the application are
  recorded in \<open>events\<close> and do not call the library back; \<open>exit\<close> is the flag \<open>exited\<close>, after
  which nothing is interpreted. Text formatted by a caller is an argument.
\<close>

section \<open>Sending a message\<close>

text \<open>The arguments a pattern captures, in the format of the wire, one \<open>make_message_var\<close> each.\<close>

definition append_arg ::
    "binding option \<Rightarrow> string \<Rightarrow> nat \<Rightarrow> IvyBuffer \<Rightarrow> IvyBuffer res" where
  "append_arg bind message indx buf =
     bindR (IvyBindingMatch bind indx) (\<lambda>p.
     bindR (printf_arg message p) (\<lambda>a.
       Inr (snd (make_message_var buf (a @ [ARG_END])))))"

definition captured :: "binding option \<Rightarrow> string \<Rightarrow> int \<Rightarrow> string res" where
  "captured bind message rc =
     bindR (foldR (append_arg bind message) [1..<nat rc] empty_buffer) (\<lambda>buf.
       Inr (buffer_text (snd (make_message_var buf [NL]))))"

text \<open>\<open>sprintf\<close> into \<open>bufferId\<close>, which has 16 bytes.\<close>

definition bufferId :: "int \<Rightarrow> string res" where
  "bufferId i =
     (let b = wire_header Msg i in if length b \<ge> 16 then Inl OutOfBounds else Inr b)"

definition congestion_event :: "app_ref \<Rightarrow> bool \<Rightarrow> SendState \<Rightarrow> ivy \<Rightarrow> ivy" where
  "congestion_event who full state s =
     (if state = SendStateChangeToCongestion
      then emit_if (app_cb s) (AppEvent who IvyApplicationCongestion) s
      else if state = SendStateFifoFull \<and> full
      then emit_if (app_cb s) (AppEvent who IvyApplicationFifoFull) s
      else s)"

definition send_to_subscriber :: "bool \<Rightarrow> string \<Rightarrow> dclient \<Rightarrow> ivy \<Rightarrow> ivy res" where
  "send_to_subscriber full args dc s =
     bindR (bufferId (dc_id dc)) (\<lambda>ident.
     bindR (SocketSendRawWithId (dc_client dc) ident args s) (\<lambda>(state, s).
       Inr (congestion_event (DictNode (dc_client dc) (dc_id dc)) full state s)))"

definition RegexpCall :: "regex_engine \<Rightarrow> dentry \<Rightarrow> string \<Rightarrow> ivy \<Rightarrow> (nat \<times> ivy) res" where
  "RegexpCall rx e message s =
     (let (rc, bind) = IvyBindingExec rx (d_binding e) message
      in if rc < 1 then Inr (0, s)
         else bindR (captured bind message rc) (\<lambda>args.
              bindR (foldR (send_to_subscriber True args) (d_clientList e) s) (\<lambda>s.
                Inr (length (d_clientList e), s))))"

definition RegexpCallUnique ::
    "regex_engine \<Rightarrow> dentry \<Rightarrow> string \<Rightarrow> nat \<Rightarrow> ivy \<Rightarrow> (nat \<times> ivy) res" where
  "RegexpCallUnique rx e message clientUnique s =
     (let (rc, bind) = IvyBindingExec rx (d_binding e) message;
          unique = filter (\<lambda>dc. dc_client dc = clientUnique) (d_clientList e)
      in if rc < 1 then Inr (0, s)
         else bindR (captured bind message rc) (\<lambda>args.
              bindR (foldR (send_to_subscriber False args) unique s) (\<lambda>s.
                Inr (length unique, s))))"

text \<open>A call for every entry, the counts added up.\<close>

definition sum_calls :: "('e \<Rightarrow> ivy \<Rightarrow> (nat \<times> ivy) res) \<Rightarrow> 'e list \<Rightarrow> ivy \<Rightarrow> (nat \<times> ivy) res" where
  "sum_calls f es s =
     foldR (\<lambda>e (n, s). bindR (f e s) (\<lambda>(m, s). Inr (n + m, s))) es (0, s)"

definition filter_check :: "nat \<Rightarrow> string \<Rightarrow> ivy \<Rightarrow> ivy" where
  "filter_check match_count message s =
     emit_if (match_count = 0 \<and> debug_filter s \<and> IvyBindindFilterCheck (filters s) message)
       (FilterWarning message) s"

definition ClientCall :: "regex_engine \<Rightarrow> clnt \<Rightarrow> string \<Rightarrow> ivy \<Rightarrow> (nat \<times> ivy) res" where
  "ClientCall rx cl message s =
     bindR (sum_calls (\<lambda>e. RegexpCallUnique rx e message (c_client cl)) (messSndByRegexp s) s)
       (\<lambda>(n, s). Inr (n, filter_check n message s))"

text \<open>\<open>char\<close> is signed: a byte from 128 on is below the space as well.\<close>

definition IvyCheckBuffer :: "string \<Rightarrow> bool" where
  "IvyCheckBuffer buffer \<longleftrightarrow>
     (\<exists>c \<in> set buffer. (of_char c :: nat) < 32 \<or> 128 \<le> (of_char c :: nat))"

text \<open>\<open>fmt\<close> is the format, \<open>txt\<close> the text it makes with its arguments.\<close>

definition IvySendMsg :: "regex_engine \<Rightarrow> string option \<Rightarrow> string \<Rightarrow> ivy \<Rightarrow> (nat \<times> ivy) res" where
  "IvySendMsg rx fmt txt s =
     (if fmt = None \<or> fmt = Some [] then Inr (0, s)
      else let message = formatted txt
           in if debug_binary_msg s \<and> IvyCheckBuffer message then Inr (0, s)
              else bindR (sum_calls (\<lambda>e. RegexpCall rx e message) (messSndByRegexp s) s)
                     (\<lambda>(n, s). Inr (n, filter_check n message s)))"

definition IvySendError :: "nat \<Rightarrow> nat \<Rightarrow> int \<Rightarrow> string \<Rightarrow> ivy \<Rightarrow> ivy res" where
  "IvySendError ptr client i txt s = msg_to ptr client Error i (formatted txt) s"

section \<open>Other calls of the application\<close>

definition with_app :: "nat \<Rightarrow> (clnt \<Rightarrow> 't res) \<Rightarrow> ivy \<Rightarrow> 't res" where
  "with_app app f s =
     (if app = 0 then Inl NullDeref
      else case find_clnt app s of None \<Rightarrow> Inl UseAfterFree | Some c \<Rightarrow> f c)"

definition IvySendDirectMsg :: "nat \<Rightarrow> int \<Rightarrow> string \<Rightarrow> ivy \<Rightarrow> ivy res" where
  "IvySendDirectMsg app i msg s = with_app app (\<lambda>c. msg_to app (c_client c) DirectMsg i msg s) s"

definition IvySendDieMsg :: "nat \<Rightarrow> ivy \<Rightarrow> ivy res" where
  "IvySendDieMsg app s = with_app app (\<lambda>c. msg_to app (c_client c) Die 0 [] s) s"

definition IvySendPing :: "nat \<Rightarrow> ivy \<Rightarrow> ivy res" where
  "IvySendPing app s =
     (if pong_cb s
      then with_app app (\<lambda>c.
             let i = s32 (c_ping_id c + 1)
             in msg_to app (c_client c) Ping i []
                  (upd_clnt app (\<lambda>c. c\<lparr>c_ping_ts := now s, c_ping_id := i\<rparr>) s)) s
      else Inr s)"

definition IvyGetApplication :: "string \<Rightarrow> ivy \<Rightarrow> nat" where
  "IvyGetApplication name s =
     (case find (\<lambda>c. c_app_name c = name) (allClients s) of None \<Rightarrow> 0 | Some c \<Rightarrow> c_ptr c)"

definition IvyGetApplicationName :: "nat \<Rightarrow> ivy \<Rightarrow> string res" where
  "IvyGetApplicationName app s =
     (if app = 0 then Inr ''Unknown'' else with_app app (\<lambda>c. Inr (c_app_name c)) s)"

text \<open>\<open>strcat\<close> into a static block of 4096 bytes.\<close>

definition IvyGetApplicationList :: "string \<Rightarrow> ivy \<Rightarrow> string res" where
  "IvyGetApplicationList sep s =
     (let l = concat (map (\<lambda>c. c_app_name c @ sep) (allClients s))
      in if length l \<ge> 4096 then Inl OutOfBounds else Inr l)"

definition IvyGetApplicationMessages :: "nat \<Rightarrow> ivy \<Rightarrow> string list res" where
  "IvyGetApplicationMessages app s =
     with_app app (\<lambda>c. Inr (take 4096 (map gr_str_regexp (c_srcRegList c)))) s"

definition IvyBindDirectMsg :: "bool \<Rightarrow> ivy \<Rightarrow> ivy" where
  "IvyBindDirectMsg callback s = s\<lparr>direct_cb := callback\<rparr>"

definition IvySetBindCallback :: "bool \<Rightarrow> ivy \<Rightarrow> ivy" where
  "IvySetBindCallback callback s = s\<lparr>bind_cb := callback\<rparr>"

definition IvySetPongCallback :: "bool \<Rightarrow> ivy \<Rightarrow> ivy" where
  "IvySetPongCallback callback s = s\<lparr>pong_cb := callback\<rparr>"

text \<open>\<open>env\<close>: the environment variable \<open>IVY_DEBUG_FILTER\<close> is set.\<close>

definition IvySetFilter :: "regex_engine \<Rightarrow> bool \<Rightarrow> string list \<Rightarrow> ivy \<Rightarrow> ivy" where
  "IvySetFilter rx env argv s =
     s\<lparr>filters := IvyBindingSetFilter rx argv (filters s), debug_filter := debug_filter s \<or> env\<rparr>"

definition IvyAddFilter :: "regex_engine \<Rightarrow> bool \<Rightarrow> string option \<Rightarrow> ivy \<Rightarrow> ivy" where
  "IvyAddFilter rx env arg s =
     s\<lparr>filters := IvyBindingAddFilter rx arg (filters s), debug_filter := debug_filter s \<or> env\<rparr>"

definition IvyRemoveFilter :: "string \<Rightarrow> ivy \<Rightarrow> ivy" where
  "IvyRemoveFilter arg s = s\<lparr>filters := IvyBindingRemoveFilter arg (filters s)\<rparr>"

definition IvyStop :: "ivy \<Rightarrow> ivy" where
  "IvyStop s = s\<lparr>lp := IvyChannelStop (lp s)\<rparr>"

definition IvyInit ::
    "string option \<Rightarrow> string option \<Rightarrow> bool \<Rightarrow> bool \<Rightarrow> bool \<Rightarrow> ivy \<Rightarrow> ivy" where
  "IvyInit appname ready callback die_callback env s =
     (SocketInit s)\<lparr>
        ApplicationName := (if appname = None then ApplicationName s else appname),
        app_cb := callback, die_cb := die_callback,
        ready_message := (if ready = None then ready_message s else ready),
        debug_binary_msg := debug_binary_msg s \<or> env\<rparr>"

text \<open>
  The subscriptions of the application. \<open>pattern\<close> is the pattern after formatting, \<open>callback\<close>
  whether one is given.
\<close>

definition to_all :: "MsgType \<Rightarrow> int \<Rightarrow> string \<Rightarrow> ivy \<Rightarrow> ivy res" where
  "to_all t i message s =
     foldR (\<lambda>c. msg_to (c_ptr c) (c_client c) t i message) (allClients s) s"

definition IvyBindMsg :: "bool \<Rightarrow> string \<Rightarrow> ivy \<Rightarrow> (nat \<times> ivy) res" where
  "IvyBindMsg callback pattern s =
     bindR (substituteInterval pattern) (\<lambda>regexp.
       let msg = \<lparr>mr_ptr = fresh s, mr_id = recv_id s, mr_regexp = regexp, mr_callback = callback\<rparr>
       in bindR (to_all AddRegexp (recv_id s) regexp
                 (s\<lparr>fresh := fresh s + 1, recv_id := s32 (recv_id s + 1),
                    msg_recv := msg # msg_recv s\<rparr>)) (\<lambda>t. Inr (fresh s, t)))"

definition with_msg :: "nat \<Rightarrow> (msg_rcv \<Rightarrow> 't res) \<Rightarrow> ivy \<Rightarrow> 't res" where
  "with_msg msg f s =
     (if msg = 0 then Inl NullDeref
      else case find (\<lambda>m. mr_ptr m = msg) (msg_recv s) of None \<Rightarrow> Inl UseAfterFree
           | Some m \<Rightarrow> f m)"

definition IvyChangeMsg :: "nat \<Rightarrow> string \<Rightarrow> ivy \<Rightarrow> ivy res" where
  "IvyChangeMsg msg pattern s =
     bindR (substituteInterval pattern) (\<lambda>regexp.
       with_msg msg (\<lambda>m. to_all AddRegexp (mr_id m) regexp
         (s\<lparr>msg_recv := map (\<lambda>m. if mr_ptr m = msg then m\<lparr>mr_regexp := regexp\<rparr> else m)
              (msg_recv s)\<rparr>)) s)"

definition IvyUnbindMsg :: "nat \<Rightarrow> ivy \<Rightarrow> ivy res" where
  "IvyUnbindMsg msg s =
     with_msg msg (\<lambda>m. bindR (to_all DelRegexp (mr_id m) [] s) (\<lambda>s.
       Inr (s\<lparr>msg_recv := filter (\<lambda>m. mr_ptr m \<noteq> msg) (msg_recv s)\<rparr>))) s"

definition say_bye :: "clnt \<Rightarrow> ivy \<Rightarrow> ivy res" where
  "say_bye c s =
     bindR (msg_to (c_ptr c) (c_client c) Bye 0 [] s) (\<lambda>s.
     bindR (SocketClose (c_client c) s) (\<lambda>s.
       Inr (s\<lparr>allClients := filter (\<lambda>x. c_ptr x \<noteq> c_ptr c) (allClients s)\<rparr>)))"

definition IvyCleanup :: "ivy \<Rightarrow> ivy res" where
  "IvyCleanup s =
     bindR (foldR say_bye (allClients s) s) (\<lambda>s.
     bindR (SocketServerClose (srv s) (delAllRegexpsFromDictionary s)) (\<lambda>s.
       SocketClose (bcast s) s))"

section \<open>Receiving\<close>

definition same_addr :: "sockaddr option \<Rightarrow> sockaddr option \<Rightarrow> bool res" where
  "same_addr a b =
     (case a of None \<Rightarrow> Inl NullDeref | Some a \<Rightarrow>
        case b of None \<Rightarrow> Inl NullDeref | Some b \<Rightarrow> Inr (sa_ip a = sa_ip b))"

fun check_clients :: "nat \<Rightarrow> nat \<Rightarrow> clnt list \<Rightarrow> ivy \<Rightarrow> clnt option res" where
  "check_clients sclnt remoteport [] s = Inr None"
| "check_clients sclnt remoteport (i # is) s =
     (if c_client i \<noteq> sclnt \<and> remoteport = c_app_port i
      then bindR (SocketGetRemoteAddr (c_client i) s) (\<lambda>addr1.
           bindR (SocketGetRemoteAddr sclnt s) (\<lambda>addr2.
           bindR (same_addr addr1 addr2) (\<lambda>same.
             if same then Inr (Some i) else check_clients sclnt remoteport is s)))
      else check_clients sclnt remoteport is s)"

definition CheckConnected :: "nat \<Rightarrow> ivy \<Rightarrow> clnt option res" where
  "CheckConnected sclnt s =
     bindR (SocketGetRemotePort sclnt s) (\<lambda>remoteport.
       if remoteport = 0 then Inr None else check_clients sclnt remoteport (allClients s) s)"

text \<open>\<open>nextArg\<close>: the next argument, if any, and the rest; empty arguments are kept.\<close>

definition nextArg :: "string \<Rightarrow> string option \<times> string" where
  "nextArg s =
     (if s = [] then (None, [])
      else (Some (takeWhile (\<lambda>c. c \<noteq> ARG_END) s), drop 1 (dropWhile (\<lambda>c. c \<noteq> ARG_END) s)))"

definition MAX_MATCHING_ARGS :: nat where "MAX_MATCHING_ARGS = 120"

text \<open>\<open>argv\<close> has room for \<open>MAX_MATCHING_ARGS\<close> pointers, which the loop does not check.\<close>

function collect_args :: "string \<Rightarrow> string list \<Rightarrow> string list res" where
  "collect_args s argv =
     (case nextArg s of (None, _) \<Rightarrow> Inr argv
      | (Some a, rest) \<Rightarrow> if length argv \<ge> MAX_MATCHING_ARGS then Inl OutOfBounds
                          else collect_args rest (argv @ [a]))"
  by pat_completeness auto
termination
proof (relation "measure (\<lambda>(s, _). length s)", goal_cases)
  case (2 s argv x y a)
  then show ?case
    using length_dropWhile_le [of "\<lambda>c. c \<noteq> ARG_END" s]
    by (cases s) (auto simp: nextArg_def le_less_trans [OF diff_le_self] split: if_splits)
qed auto

text \<open>The answer to a line that has no header; the last character is a quote.\<close>

definition expected_format :: string where
  "expected_format = ''bad format request expected 'type id ...'' @ [CHR 0x27]"

definition bad_format :: "clnt \<Rightarrow> nat \<Rightarrow> ivy \<Rightarrow> ivy res" where
  "bad_format cl client s =
     bindR (msg_to (c_ptr cl) client Error (msg_code Error) expected_format
              (upd_clnt (c_ptr cl) (\<lambda>c. c\<lparr>c_client := client\<rparr>) s)) (\<lambda>s.
     bindR (msg_to (c_ptr cl) client Bye 0 [] s) (SocketClose client))"

text \<open>One of two connections to the same application is refused.\<close>

definition refuse :: "clnt \<Rightarrow> ivy \<Rightarrow> ivy res" where
  "refuse target s =
     bindR (IvySendError (c_ptr target) (c_client target) 0 ''Application already connected'' s) (\<lambda>s.
     bindR (SocketClose (c_client target) s) (\<lambda>s.
       Inr (upd_clnt (c_ptr target) (\<lambda>c. c\<lparr>c_ignore_subsequent_msg := True\<rparr>) s)))"

definition receive_StartRegexp :: "clnt \<Rightarrow> int \<Rightarrow> string \<Rightarrow> ivy \<Rightarrow> ivy res" where
  "receive_StartRegexp cl i arg s =
     (let s = upd_clnt (c_ptr cl) (\<lambda>c. c\<lparr>c_app_name := arg, c_app_port := u16 i\<rparr>) s
      in bindR (CheckConnected (c_client cl) s) (\<lambda>other.
           case other of None \<Rightarrow> Inr s
           | Some oth \<Rightarrow>
               bindR (SocketGetLocalPort (c_client oth) s) (\<lambda>other_localPort.
               bindR (SocketGetRemotePort (c_client oth) s) (\<lambda>other_remotePort.
               bindR (SocketGetLocalPort (c_client cl) s) (\<lambda>clnt_localPort.
               bindR (SocketGetRemotePort (c_client cl) s) (\<lambda>clnt_remotePort.
                 refuse (if max other_localPort other_remotePort
                           > max clnt_localPort clnt_remotePort then oth else cl) s))))))"

definition send_ready :: "regex_engine \<Rightarrow> nat \<Rightarrow> ivy \<Rightarrow> ivy res" where
  "send_ready rx ptr s =
     (case find_clnt ptr s of None \<Rightarrow> Inl UseAfterFree
      | Some c \<Rightarrow>
          (case ready_message s of None \<Rightarrow> Inr s
           | Some m \<Rightarrow> if c_readyToSend c = 2
               then bindR (ClientCall rx c m s) (\<lambda>(_, s). Inr s) else Inr s))"

definition receive_EndRegexp :: "regex_engine \<Rightarrow> clnt \<Rightarrow> ivy \<Rightarrow> ivy res" where
  "receive_EndRegexp rx cl s =
     send_ready rx (c_ptr cl)
       (upd_clnt (c_ptr cl) (\<lambda>c. c\<lparr>c_readyToSend := s32 (c_readyToSend c + 1)\<rparr>)
         (emit_if (app_cb s) (AppEvent (AppNode (c_ptr cl)) IvyApplicationConnected) s))"

definition receive_AddRegexp :: "regex_engine \<Rightarrow> clnt \<Rightarrow> int \<Rightarrow> string \<Rightarrow> ivy \<Rightarrow> ivy res" where
  "receive_AddRegexp rx cl i arg s =
     bindR (IvyBindingFilter rx (filters s) arg) (\<lambda>ok.
       if \<not> ok then Inr (emit_if (bind_cb s) (BindEvent (c_ptr cl) i arg IvyFilterBind) s)
       else addOrChangeRegexp rx arg cl s)"

definition receive_DelRegexp :: "clnt \<Rightarrow> int \<Rightarrow> string \<Rightarrow> ivy \<Rightarrow> ivy" where
  "receive_DelRegexp cl i arg s =
     (let (removed, s) = delRegexpForOneClient cl i s
      in emit_if (removed \<and> bind_cb s) (BindEvent (c_ptr cl) i arg IvyRemoveBind) s)"

definition receive_Msg :: "clnt \<Rightarrow> int \<Rightarrow> string \<Rightarrow> ivy \<Rightarrow> ivy res" where
  "receive_Msg cl i arg s =
     (case find (\<lambda>m. mr_id m = i) (msg_recv s) of None \<Rightarrow> Inr s
      | Some rcv \<Rightarrow> bindR (collect_args arg []) (\<lambda>argv.
          Inr (emit_if (mr_callback rcv) (MsgEvent (c_ptr cl) i argv) s)))"

text \<open>\<open>timersub\<close> and the round trip in microseconds, negative for an unanswered earlier ping.\<close>

definition round_trip :: "int \<times> int \<Rightarrow> int \<times> int \<Rightarrow> int" where
  "round_trip t ts =
     (let sec = fst t - fst ts; usec = snd t - snd ts;
          (sec, usec) = (if usec < 0 then (sec - 1, usec + 1000000) else (sec, usec))
      in s32 (min sec 2000 * 1000000 + usec))"

definition receive_Pong :: "clnt \<Rightarrow> int \<Rightarrow> ivy \<Rightarrow> ivy" where
  "receive_Pong cl i s =
     (if pong_cb s \<and> c_ping_ts cl \<noteq> (0, 0)
      then let r = round_trip (now s) (c_ping_ts cl)
           in emit (PongEvent (c_ptr cl) (if i \<noteq> c_ping_id cl then s32 (- r) else r))
                (upd_clnt (c_ptr cl) (\<lambda>c. c\<lparr>c_ping_ts := (0, 0)\<rparr>) s)
      else s)"

definition receive_Die :: "clnt \<Rightarrow> int \<Rightarrow> ivy \<Rightarrow> ivy res" where
  "receive_Die cl i s =
     bindR (IvyCleanup (emit_if (die_cb s) (DieEvent (c_ptr cl) i) s)) (\<lambda>s.
       Inr (s\<lparr>exited := True\<rparr>))"

definition interpret_msg ::
    "regex_engine \<Rightarrow> clnt \<Rightarrow> nat \<Rightarrow> int \<Rightarrow> int \<Rightarrow> string \<Rightarrow> ivy \<Rightarrow> ivy res" where
  "interpret_msg rx cl client kind i arg s =
     (if kind = msg_code Bye then SocketClose client s
      else if kind = msg_code AddRegexp then receive_AddRegexp rx cl i arg s
      else if kind = msg_code DelRegexp then Inr (receive_DelRegexp cl i arg s)
      else if kind = msg_code StartRegexp then receive_StartRegexp cl i arg s
      else if kind = msg_code EndRegexp then receive_EndRegexp rx cl s
      else if kind = msg_code Msg then receive_Msg cl i arg s
      else if kind = msg_code DirectMsg
      then Inr (emit_if (direct_cb s) (DirectEvent (c_ptr cl) i arg) s)
      else if kind = msg_code Die then receive_Die cl i s
      else if kind = msg_code Ping then msg_to (c_ptr cl) (c_client cl) Pong i [] s
      else if kind = msg_code Pong then Inr (receive_Pong cl i s)
      else Inr s)"

definition Receive :: "regex_engine \<Rightarrow> nat \<Rightarrow> nat \<Rightarrow> string \<Rightarrow> ivy \<Rightarrow> ivy res" where
  "Receive rx client data line s =
     with_app data (\<lambda>cl.
       if c_ignore_subsequent_msg cl then Inr s
       else case (scan_d_d line, strstr line [ARG_START]) of
              (Some (kind, i), Some a) \<Rightarrow>
                interpret_msg rx (cl\<lparr>c_id := i\<rparr>) client kind i (drop 1 a)
                  (upd_clnt data (\<lambda>c. c\<lparr>c_id := i\<rparr>) s)
            | _ \<Rightarrow> bad_format cl client s) s"

section \<open>Connections\<close>

definition app_name :: "ivy \<Rightarrow> string" where
  "app_name s = (case ApplicationName s of None \<Rightarrow> ''(null)'' | Some n \<Rightarrow> n)"

definition SendService :: "regex_engine \<Rightarrow> nat \<Rightarrow> string \<Rightarrow> ivy \<Rightarrow> (nat \<times> ivy) res" where
  "SendService rx client appname s =
     (let ptr = fresh s; s = s\<lparr>fresh := ptr + 1\<rparr>
      in bindR (msg_to ptr client StartRegexp (int (ApplicationPort s)) (app_name s) s) (\<lambda>s.
         bindR (foldR (\<lambda>m. msg_to ptr client AddRegexp (mr_id m) (mr_regexp m)) (msg_recv s) s) (\<lambda>s.
         bindR (msg_to ptr client EndRegexp 0 [] s) (\<lambda>s.
         bindR (send_ready rx ptr (s\<lparr>allClients :=
             \<lparr>c_ptr = ptr, c_client = client, c_app_name = appname, c_app_port = 0, c_id = 0,
              c_srcRegList = [], c_readyToSend = 1, c_ignore_subsequent_msg = False,
              c_ping_ts = (0, 0), c_ping_id = 0\<rparr> # allClients s\<rparr>)) (\<lambda>s. Inr (ptr, s))))))"

definition ClientDelete :: "nat \<Rightarrow> nat \<Rightarrow> ivy \<Rightarrow> ivy res" where
  "ClientDelete client data s =
     delOneClient client
       (emit_if (app_cb s) (AppEvent (AppNode data) IvyApplicationDisconnected) s)"

definition ClientDecongestion :: "nat \<Rightarrow> nat \<Rightarrow> ivy \<Rightarrow> ivy res" where
  "ClientDecongestion client data s =
     Inr (emit_if (app_cb s) (AppEvent (AppNode data) IvyApplicationDecongestion) s)"

text \<open>
  \<open>garbage\<close> is what \<open>remoteport\<close> holds when \<open>SocketGetRemoteHost\<close> does not set it;
  \<open>snprintf\<close> cuts the name to 63 bytes.
\<close>

definition ClientCreate :: "regex_engine \<Rightarrow> nat \<Rightarrow> nat \<Rightarrow> ivy \<Rightarrow> (nat \<times> ivy) res" where
  "ClientCreate rx garbage client s =
     bindR (SocketGetRemoteHost client s) (\<lambda>r.
       case r of None \<Rightarrow> Inl NullDeref
       | Some (host, port) \<Rightarrow>
           let appName = take 63 (CHR '' '' # host @ CHR '':'' #
                 show_nat (case port of None \<Rightarrow> garbage | Some p \<Rightarrow> p))
           in bindR (CheckConnected client s) (\<lambda>other.
                case other of
                  Some _ \<Rightarrow> bindR (SocketClose client s) (\<lambda>s. Inr (0, s))
                | None \<Rightarrow> SendService rx client appName s))"

definition IVYMAJOR_VERSION :: int where "IVYMAJOR_VERSION = 3"

text \<open>\<open>sscanf (line, "%d %hu %s %[^\n]", ...)\<close>: what was converted.\<close>

definition scan_hu :: "string \<Rightarrow> (nat \<times> string) option" where
  "scan_hu s =
     (let (neg, t) = scan_sign (dropWhile is_space s);
          ds = takeWhile is_digit t;
          v = int (digits_val ds)
      in if ds = [] then None
         else Some (u16 (if v > 2 ^ 64 - 1 then 2 ^ 64 - 1 else if neg then - v else v),
                    dropWhile is_digit t))"

definition scan_word :: "string \<Rightarrow> (string \<times> string) option" where
  "scan_word s =
     (let t = dropWhile is_space s; w = takeWhile (\<lambda>c. \<not> is_space c) t
      in if w = [] then None else Some (w, dropWhile (\<lambda>c. \<not> is_space c) t))"

definition scan_supervision ::
    "string \<Rightarrow> (int \<times> nat \<times> string \<times> string) option" where
  "scan_supervision line =
     Option.bind (scan_d line) (\<lambda>(version, r).
     Option.bind (scan_hu r) (\<lambda>(port, r).
       case scan_word r of None \<Rightarrow> Some (version, port, [], [])
       | Some (appid, r) \<Rightarrow>
           Some (version, port, appid, takeWhile (\<lambda>c. c \<noteq> NL) (dropWhile is_space r))))"

definition connect_service ::
    "regex_engine \<Rightarrow> nat \<Rightarrow> string \<Rightarrow> string \<Rightarrow> sockaddr \<Rightarrow> ivy \<Rightarrow> ivy res" where
  "connect_service rx serviceport appid appname addr s =
     (let (app, s) = SocketConnectAddr (ipv6 s) addr serviceport 0 InterpReceive s
      in if app = 0 then Inr s
         else bindR (SendService rx app appname s) (\<lambda>(ptr, s).
              bindR (SocketSetData app ptr s) (\<lambda>s. SocketSetUuid app appid s)))"

definition BroadcastReceive :: "regex_engine \<Rightarrow> nat \<Rightarrow> string \<Rightarrow> ivy \<Rightarrow> ivy res" where
  "BroadcastReceive rx client line s =
     (case scan_supervision line of None \<Rightarrow> Inr s
      | Some (version, serviceport, appid, appname) \<Rightarrow>
          if length appid \<ge> 128 \<or> length appname \<ge> 2048 then Inl OutOfBounds
          else if version \<noteq> IVYMAJOR_VERSION then Inr s
          else (case ApplicationID s of None \<Rightarrow> Inl NullDeref
          | Some ourid \<Rightarrow>
            if appid = ourid then Inr s
            else bindR (SocketGetRemoteAddr client s) (\<lambda>addr.
              case addr of None \<Rightarrow> Inl NullDeref
              | Some addr \<Rightarrow> connect_service rx serviceport appid appname addr s)))"

section \<open>The handlers of the loop\<close>

definition ivy_interp :: "regex_engine \<Rightarrow> nat \<Rightarrow> interp_fun \<Rightarrow> nat \<Rightarrow> string \<Rightarrow> ivy \<Rightarrow> ivy res" where
  "ivy_interp rx client f data line s =
     (if exited s then Inr s
      else case f of InterpReceive \<Rightarrow> Receive rx client data line s
           | InterpBroadcastReceive \<Rightarrow> BroadcastReceive rx client line s)"

definition ivy_delete :: "chan_data \<Rightarrow> ivy \<Rightarrow> ivy res" where
  "ivy_delete d s = (case d of ClientData c \<Rightarrow> DeleteSocket ClientDelete c s
     | ServerData sv \<Rightarrow> DeleteServerSocket sv s)"

definition ivy_read :: "regex_engine \<Rightarrow> nat \<Rightarrow> nat \<Rightarrow> nat \<Rightarrow> chan_data \<Rightarrow> ivy \<Rightarrow> ivy res" where
  "ivy_read rx garbage channel fd d s =
     (case d of ClientData c \<Rightarrow> HandleSocket (ivy_interp rx) fd c s
      | ServerData sv \<Rightarrow> HandleServer (ClientCreate rx garbage) sv s)"

definition ivy_write :: "nat \<Rightarrow> nat \<Rightarrow> chan_data \<Rightarrow> ivy \<Rightarrow> ivy res" where
  "ivy_write channel fd d s =
     (case d of ClientData c \<Rightarrow> HandleCongestionWrite ClientDecongestion channel fd c s
      | ServerData sv \<Rightarrow> Inl NullDeref)"

definition current_ms :: "ivy \<Rightarrow> nat" where
  "current_ms s = u64 (fst (now s) * 1000 + snd (now s) div 1000)"

definition ivy_timers :: "ivy \<Rightarrow> ivy res" where
  "ivy_timers s = TimerScan tmr (\<lambda>f s. s\<lparr>tmr := f (tmr s)\<rparr>)
     (\<lambda>p delta s. Inr (emit (TimerEvent p delta) s)) (current_ms s) s"

definition ivy_timeout :: "ivy \<Rightarrow> ivy" where
  "ivy_timeout s = s\<lparr>tmr := TimerGetSmallestTimeout (current_ms s) (tmr s)\<rparr>"

definition ivy_handlers :: "regex_engine \<Rightarrow> nat \<Rightarrow> (chan_data, ivy) handlers" where
  "ivy_handlers rx garbage =
     \<lparr>h_delete = ivy_delete, h_read = ivy_read rx garbage, h_write = ivy_write,
      h_before = Inr, h_timeout = ivy_timeout, h_after = Inr, h_timers = ivy_timers\<rparr>"

definition upd_lp :: "(chan_data loop \<Rightarrow> chan_data loop) \<Rightarrow> ivy \<Rightarrow> ivy" where
  "upd_lp f s = s\<lparr>lp := f (lp s)\<rparr>"

definition ivy_main_loop :: "regex_engine \<Rightarrow> nat \<Rightarrow> sel list \<Rightarrow> ivy \<Rightarrow> ivy res" where
  "ivy_main_loop rx garbage = IvyMainLoop lp upd_lp (ivy_handlers rx garbage)"

end
