(* ===== verification/IvyProtocol.thy ===== *)
theory IvyProtocol
  imports IvyCore
begin

text \<open>
  What holds of the protocol: what is sent is what the peer interprets, the interpretation of a
  line leaves the reception side of the sockets alone (so that lines do not depend on how the
  bytes were cut), and the effect of the lines on the dictionary.
\<close>

section \<open>The wire format\<close>

lemma ARG_START_not_digit: "\<not> is_digit ARG_START" "\<not> is_digit (CHR '' '')"
  by (simp_all add: is_digit_def ARG_START_def)

lemma show_int_no_start: "ARG_START \<notin> set (show_int i)" "ARG_START \<noteq> CHR '' ''"
  using show_int_chars [of ARG_START i] ARG_START_not_digit by (auto simp: ARG_START_def)

lemma is_int32_code: "is_int32 (msg_code t)"
  by (cases t) (simp_all add: is_int32_def)

lemma header_scan:
  assumes "is_int32 i"
  shows "scan_d_d (wire_header t i @ m) = Some (msg_code t, i)"
proof -
  have "scan_d (show_int (msg_code t) @ CHR '' '' # show_int i @ ARG_START # m) =
      Some (msg_code t, CHR '' '' # show_int i @ ARG_START # m)"
    using ARG_START_not_digit is_int32_code by (intro scan_d_show_int) auto
  moreover have "scan_d (show_int i @ ARG_START # m) = Some (i, ARG_START # m)"
    using ARG_START_not_digit assms by (intro scan_d_show_int) auto
  ultimately show ?thesis by (simp add: scan_d_d_def wire_header_def scan_d_space)
qed

lemma header_start: "strstr (wire_header t i @ m) [ARG_START] = Some (ARG_START # m)"
proof -
  have "ARG_START \<notin> set (show_int (msg_code t) @ CHR '' '' # show_int i)"
    using show_int_no_start by auto
  from strstr_char_skip [OF this, of m] show ?thesis by (simp add: wire_header_def)
qed

lemma length_header: "is_int32 i \<Longrightarrow> length (wire_header Msg i) \<le> 14"
  using length_show_int [of i] by (simp add: wire_header_def show_int_def show_nat.simps [of 2])

lemma bufferId_ok: "is_int32 i \<Longrightarrow> bufferId i = Inr (wire_header Msg i)"
  using length_header [of i] by (simp add: bufferId_def Let_def)

text \<open>Arguments: each followed by \<open>ARG_END\<close>.\<close>

definition join_args :: "string list \<Rightarrow> string" where
  "join_args as = concat (map (\<lambda>a. a @ [ARG_END]) as)"

lemma nextArg_join:
  "ARG_END \<notin> set a \<Longrightarrow> nextArg (a @ ARG_END # s) = (Some a, s)"
  by (cases a) (auto simp: nextArg_def takeWhile_append dropWhile_append)

lemma collect_join:
  assumes "\<forall>a \<in> set as. ARG_END \<notin> set a"
  shows "collect_args (join_args as) argv =
     (if length argv + length as \<le> MAX_MATCHING_ARGS \<or> as = [] then Inr (argv @ as)
      else Inl OutOfBounds)"
  using assms
proof (induction as arbitrary: argv)
  case Nil
  then show ?case by (subst collect_args.simps) (simp add: join_args_def nextArg_def)
next
  case (Cons a as)
  have "nextArg (join_args (a # as)) = (Some a, join_args as)"
    using nextArg_join [of a] Cons.prems by (simp add: join_args_def)
  then have "collect_args (join_args (a # as)) argv =
      (if length argv \<ge> MAX_MATCHING_ARGS then Inl OutOfBounds
       else collect_args (join_args as) (argv @ [a]))"
    by (subst collect_args.simps) simp
  with Cons show ?case by auto
qed

section \<open>Receiving leaves the reception side alone\<close>

lemma keeps_then:
  "keeps s t \<Longrightarrow> arrivals u = arrivals t \<Longrightarrow> socks u = socks t \<Longrightarrow> fresh t \<le> fresh u \<Longrightarrow> keeps s u"
  using keeps_same keeps_trans by blast

lemma upd_clnt_frame [simp]:
  "arrivals (upd_clnt p f s) = arrivals s" "socks (upd_clnt p f s) = socks s"
  "fresh (upd_clnt p f s) = fresh s" "messSndByRegexp (upd_clnt p f s) = messSndByRegexp s"
  "lp (upd_clnt p f s) = lp s" "net (upd_clnt p f s) = net s" "msg_recv (upd_clnt p f s) = msg_recv s"
  "events (upd_clnt p f s) = events s" "ready_message (upd_clnt p f s) = ready_message s"
  by (simp_all add: upd_clnt_def)

lemma emit_frame [simp]:
  "arrivals (emit e s) = arrivals s" "socks (emit e s) = socks s" "fresh (emit e s) = fresh s"
  "messSndByRegexp (emit e s) = messSndByRegexp s" "allClients (emit e s) = allClients s"
  "arrivals (emit_if b e s) = arrivals s" "socks (emit_if b e s) = socks s"
  "fresh (emit_if b e s) = fresh s" "messSndByRegexp (emit_if b e s) = messSndByRegexp s"
  "allClients (emit_if b e s) = allClients s" "lp (emit_if b e s) = lp s"
  "net (emit_if b e s) = net s" "msg_recv (emit_if b e s) = msg_recv s"
  by (simp_all add: emit_def emit_if_def)

lemma addRegexpToDictionary_keeps: "addRegexpToDictionary rx r cl s = Inr t \<Longrightarrow> keeps s t"
  by (auto simp: addRegexpToDictionary_def bindR_eq_Inr split: option.splits
      dest!: new_entry_ok(1) talk_keeps intro: keeps_same keeps_then)

lemma addRegexp_keeps: "addRegexp rx r cl s = Inr t \<Longrightarrow> keeps s t"
  by (auto simp: addRegexp_def bindR_eq_Inr split: option.splits
      dest!: addRegexpToDictionary_keeps elim!: keeps_then)

lemma changeRegexpInDictionary_keeps: "changeRegexpInDictionary rx r cl s = Inr t \<Longrightarrow> keeps s t"
proof -
  let ?s = "s\<lparr>messSndByRegexp :=
    delRegexpForOneClientFromDictionary r (c_client cl) (c_id cl) (messSndByRegexp s)\<rparr>"
  assume "changeRegexpInDictionary rx r cl s = Inr t"
  then have "keeps ?s t" by (auto simp: changeRegexpInDictionary_def dest: addRegexpToDictionary_keeps)
  moreover have "keeps s ?s" by (rule keeps_same) simp_all
  ultimately show "keeps s t" by (metis keeps_trans)
qed

lemma changeRegexp_keeps: "changeRegexp rx r cl s = Inr t \<Longrightarrow> keeps s t"
  by (auto simp: changeRegexp_def bindR_eq_Inr split: option.splits
      dest!: changeRegexpInDictionary_keeps elim!: keeps_then)

lemma addOrChangeRegexp_keeps: "addOrChangeRegexp rx r cl s = Inr t \<Longrightarrow> keeps s t"
  by (auto simp: addOrChangeRegexp_def split: option.splits if_splits
      dest: addRegexp_keeps changeRegexp_keeps)

lemma delRegexpForOneClient_keeps: "keeps s (snd (delRegexpForOneClient cl i s))"
  by (auto simp: delRegexpForOneClient_def Let_def split: option.splits intro!: keeps_same)

declare keeps_trans [trans]

lemma keeps_frame [simp]:
  "keeps s (emit_if b e t) = keeps s t" "keeps (emit_if b e s) t = keeps s t"
  "keeps s (emit e t) = keeps s t" "keeps (emit e s) t = keeps s t"
  "keeps s (upd_clnt p f t) = keeps s t" "keeps (upd_clnt p f s) t = keeps s t"
  "keeps s (t\<lparr>allClients := cs\<rparr>) = keeps s t" "keeps (s\<lparr>allClients := cs\<rparr>) t = keeps s t"
  "keeps s (t\<lparr>exited := x\<rparr>) = keeps s t"
  by (simp_all add: keeps_def fresh_ok_def)

text \<open>Steps that are known to keep the reception side chain.\<close>

lemma keeps_foldR:
  assumes "foldR f xs s = Inr t" and "\<And>x s t. f x s = Inr t \<Longrightarrow> keeps s t"
  shows "keeps s t"
  using assms(1) by (rule foldR_invariant [where I = "keeps s"]) (auto dest: assms(2) keeps_trans)

lemma msg_to_keeps: "msg_to p c t i m s = Inr s' \<Longrightarrow> keeps s s'"
  by (rule talk_keeps) (rule msg_to_talk)

lemma send_to_subscriber_talk: "send_to_subscriber full args dc s = Inr t \<Longrightarrow> talk s t"
  by (auto simp: send_to_subscriber_def bindR_eq_Inr congestion_event_def split: if_splits
      dest!: Id_frame talk_send intro: talk_trans)

lemma talk_foldR:
  assumes "foldR f xs s = Inr t" and "\<And>x s t. f x s = Inr t \<Longrightarrow> talk s t"
  shows "talk s t"
  using assms(1) by (rule foldR_invariant [where I = "talk s"]) (auto dest: assms(2) talk_trans)

lemma RegexpCall_talk: "RegexpCall rx e m s = Inr (n, t) \<Longrightarrow> talk s t"
  by (auto simp: RegexpCall_def bindR_eq_Inr Let_def split: prod.splits if_splits
      dest: send_to_subscriber_talk elim: talk_foldR)

lemma RegexpCallUnique_talk: "RegexpCallUnique rx e m c s = Inr (n, t) \<Longrightarrow> talk s t"
  by (auto simp: RegexpCallUnique_def bindR_eq_Inr Let_def split: prod.splits if_splits
      dest: send_to_subscriber_talk elim: talk_foldR)

lemma sum_calls_talk:
  assumes "sum_calls f es s = Inr (n, t)" and "\<And>e s n t. f e s = Inr (n, t) \<Longrightarrow> talk s t"
  shows "talk s t"
proof -
  have "talk s (snd (n, t))"
    using assms(1) unfolding sum_calls_def
    by (rule foldR_invariant [where I = "\<lambda>p. talk s (snd p)"])
      (auto simp: bindR_eq_Inr dest!: assms(2) elim!: talk_trans)
  then show ?thesis by simp
qed

lemma ClientCall_talk: "ClientCall rx cl m s = Inr (n, t) \<Longrightarrow> talk s t"
  by (auto simp: ClientCall_def bindR_eq_Inr filter_check_def dest!: sum_calls_talk RegexpCallUnique_talk
      intro: talk_trans)

lemma IvySendMsg_talk: "IvySendMsg rx fmt txt s = Inr (n, t) \<Longrightarrow> talk s t"
  by (auto simp: IvySendMsg_def bindR_eq_Inr filter_check_def Let_def split: if_splits
      dest!: sum_calls_talk RegexpCall_talk intro: talk_trans)

lemma send_ready_talk: "send_ready rx p s = Inr t \<Longrightarrow> talk s t"
  by (auto simp: send_ready_def bindR_eq_Inr split: option.splits if_splits dest: ClientCall_talk)

lemma bad_format_keeps: "bad_format cl c s = Inr t \<Longrightarrow> keeps s t"
  by (auto simp: bad_format_def bindR_eq_Inr dest!: msg_to_keeps SocketClose_keeps
      intro: keeps_trans)

lemma refuse_keeps: "refuse x s = Inr t \<Longrightarrow> keeps s t"
  by (auto simp: refuse_def IvySendError_def bindR_eq_Inr dest!: msg_to_keeps SocketClose_keeps)
    (erule (1) keeps_trans)

lemma receive_StartRegexp_keeps: "receive_StartRegexp cl i a s = Inr t \<Longrightarrow> keeps s t"
  by (auto simp: receive_StartRegexp_def bindR_eq_Inr Let_def split: option.splits dest!: refuse_keeps)

lemma receive_EndRegexp_keeps: "receive_EndRegexp rx cl s = Inr t \<Longrightarrow> keeps s t"
  by (auto simp: receive_EndRegexp_def dest!: send_ready_talk talk_keeps)

lemma receive_AddRegexp_keeps: "receive_AddRegexp rx cl i a s = Inr t \<Longrightarrow> keeps s t"
  by (auto simp: receive_AddRegexp_def bindR_eq_Inr split: if_splits dest: addOrChangeRegexp_keeps)

lemma receive_DelRegexp_keeps: "keeps s (receive_DelRegexp cl i a s)"
  using delRegexpForOneClient_keeps [of s cl i] by (simp add: receive_DelRegexp_def split_beta)

lemma receive_Msg_keeps: "receive_Msg cl i a s = Inr t \<Longrightarrow> keeps s t"
  by (auto simp: receive_Msg_def bindR_eq_Inr split: option.splits)

lemma say_bye_keeps: "say_bye c s = Inr t \<Longrightarrow> keeps s t"
  by (auto simp: say_bye_def bindR_eq_Inr dest!: msg_to_keeps SocketClose_keeps
      intro: keeps_trans)

lemma IvyCleanup_keeps: "IvyCleanup s = Inr t \<Longrightarrow> keeps s t"
proof -
  assume "IvyCleanup s = Inr t"
  then obtain u v where 1: "foldR say_bye (allClients s) s = Inr u"
    "SocketServerClose (srv u) (delAllRegexpsFromDictionary u) = Inr v" "SocketClose (bcast u) v = Inr t \<or> SocketClose (bcast v) v = Inr t"
    by (auto simp: IvyCleanup_def bindR_eq_Inr)
  have "keeps u (delAllRegexpsFromDictionary u)"
    by (rule keeps_same) (simp_all add: delAllRegexpsFromDictionary_def)
  with 1 show ?thesis
    by (meson keeps_foldR say_bye_keeps SocketServerClose_keeps SocketClose_keeps keeps_trans)
qed

lemma receive_Die_keeps: "receive_Die cl i s = Inr t \<Longrightarrow> keeps s t"
  by (auto simp: receive_Die_def bindR_eq_Inr dest!: IvyCleanup_keeps)

lemma receive_Pong_keeps: "keeps s (receive_Pong cl i s)"
  by (simp add: receive_Pong_def Let_def)

lemma interpret_msg_keeps: "interpret_msg rx cl c kind i a s = Inr t \<Longrightarrow> keeps s t"
  unfolding interpret_msg_def
  by (auto split: if_splits dest: SocketClose_keeps receive_AddRegexp_keeps receive_StartRegexp_keeps
      receive_EndRegexp_keeps receive_Msg_keeps receive_Die_keeps msg_to_keeps
      simp: receive_DelRegexp_keeps receive_Pong_keeps)

lemma Receive_keeps: "Receive rx c data line s = Inr t \<Longrightarrow> keeps s t"
  by (auto simp: Receive_def with_app_def split: if_splits option.splits
      dest!: interpret_msg_keeps dest: bad_format_keeps intro: keeps_trans)

lemma SendService_keeps: "SendService rx c n s = Inr (p, t) \<Longrightarrow> keeps s t"
proof -
  let ?s = "s\<lparr>fresh := fresh s + 1\<rparr>"
  assume "SendService rx c n s = Inr (p, t)"
  then obtain s1 s2 s3 cs where
    1: "msg_to (fresh s) c StartRegexp (int (ApplicationPort ?s)) (app_name ?s) ?s = Inr s1"
      "foldR (\<lambda>m. msg_to (fresh s) c AddRegexp (mr_id m) (mr_regexp m)) (msg_recv s1) s1 = Inr s2"
      "msg_to (fresh s) c EndRegexp 0 [] s2 = Inr s3"
      "send_ready rx (fresh s) (s3\<lparr>allClients := cs\<rparr>) = Inr t"
    by (auto simp: SendService_def Let_def bindR_eq_Inr)
  have "keeps s ?s" "keeps s3 (s3\<lparr>allClients := cs\<rparr>)" by (rule keeps_same; simp)+
  moreover have "keeps s1 s2" using 1(2) by (rule keeps_foldR) (rule msg_to_keeps)
  ultimately show ?thesis
    using 1 by (meson msg_to_keeps keeps_trans send_ready_talk talk_keeps)
qed

lemma connect_service_keeps:
  assumes "connect_service rx port appid name addr s = Inr t"
  shows "keeps s t"
proof -
  obtain x u where u: "SocketConnectAddr (ipv6 s) addr port 0 InterpReceive s = (x, u)" by fastforce
  note 1 = SocketConnectAddr_keeps [OF u]
  show ?thesis
  proof (cases "x = 0")
    case True
    with u 1 assms show ?thesis by (simp add: connect_service_def)
  next
    case False
    with u assms obtain p v w where v: "SendService rx x name u = Inr (p, v)"
      "SocketSetData x p v = Inr w" "SocketSetUuid x appid w = Inr t"
      by (auto simp: connect_service_def bindR_eq_Inr)
    note 1 also note SendService_keeps [OF v(1)] also note SocketSetData_keeps [OF v(2)]
    also note SocketSetUuid_keeps [OF v(3)]
    finally show ?thesis .
  qed
qed

lemma BroadcastReceive_keeps:
  assumes "BroadcastReceive rx c line s = Inr t"
  shows "keeps s t"
proof (cases "scan_supervision line")
  case (Some r)
  obtain version port appid name where r: "r = (version, port, appid, name)" by (metis prod.collapse)
  from assms have "t = s \<or> (\<exists>addr. connect_service rx port appid name addr s = Inr t)"
    by (simp add: BroadcastReceive_def Some r bindR_eq_Inr split: if_splits option.splits) blast+
  then show ?thesis using connect_service_keeps by blast
qed (use assms in \<open>simp add: BroadcastReceive_def\<close>)

lemma ivy_interp_keeps: "ivy_interp rx c f d line s = Inr t \<Longrightarrow> keeps s t"
  by (auto simp: ivy_interp_def split: if_splits interp_fun.splits
      dest: Receive_keeps BroadcastReceive_keeps)

interpretation lines: line_client "ivy_interp rx" for rx
  by unfold_locales (rule ivy_interp_keeps)

declare collect_args.simps [simp del]

section \<open>A state for the examples\<close>

text \<open>A peer: node 5 of \<open>allClients\<close>, on socket 1.\<close>

definition demo_peer :: clnt where
  "demo_peer = \<lparr>c_ptr = 5, c_client = 1, c_app_name = ''peer'', c_app_port = 0, c_id = 0,
     c_srcRegList = [], c_readyToSend = 1, c_ignore_subsequent_msg = False, c_ping_ts = (0, 0),
     c_ping_id = 0\<rparr>"

definition demo_ivy :: "sockst \<Rightarrow> clnt list \<Rightarrow> dentry list \<Rightarrow> msg_rcv list \<Rightarrow> ivy" where
  "demo_ivy n cs d ms = sockst.extend n
     (ivy.fields cs d ms 0 no_filter False 0 0 2011 2010 (Some ''me'') (Some ''7:1:2011'')
        (Some ''ready'') True True True True True False False timer_init (0, 0) [] False)"

lemma demo_ivy_core [simp]:
  "allClients (demo_ivy n cs d ms) = cs" "messSndByRegexp (demo_ivy n cs d ms) = d"
  "msg_recv (demo_ivy n cs d ms) = ms" "exited (demo_ivy n cs d ms) = False"
  "events (demo_ivy n cs d ms) = []" "ready_message (demo_ivy n cs d ms) = Some ''ready''"
  "filters (demo_ivy n cs d ms) = no_filter" "app_cb (demo_ivy n cs d ms) = True"
  "bind_cb (demo_ivy n cs d ms) = True" "ApplicationName (demo_ivy n cs d ms) = Some ''me''"
  "ApplicationID (demo_ivy n cs d ms) = Some ''7:1:2011''"
  "ApplicationPort (demo_ivy n cs d ms) = 2011" "debug_filter (demo_ivy n cs d ms) = False"
  "debug_binary_msg (demo_ivy n cs d ms) = False" "recv_id (demo_ivy n cs d ms) = 0"
  by (simp_all add: demo_ivy_def sockst.defs ivy.defs)

lemma demo_ivy_net [simp]:
  "lp (demo_ivy n cs d ms) = lp n" "net (demo_ivy n cs d ms) = net n"
  "arrivals (demo_ivy n cs d ms) = arrivals n" "socks (demo_ivy n cs d ms) = socks n"
  "fresh (demo_ivy n cs d ms) = fresh n" "clients_list (demo_ivy n cs d ms) = clients_list n"
  by (simp_all add: demo_ivy_def sockst.defs ivy.defs)

text \<open>A line that arrives in two pieces.\<close>

definition demo_reads :: ivy where
  "demo_reads = demo_ivy ((demo [] None)\<lparr>arrivals := (\<lambda>_. [])(7 :=
       [Stream ''7 3'', Stream (ARG_START # ''x'' @ [NL])]),
     socks := [1 \<mapsto> demo_sock None]\<rparr>) [demo_peer] [] []"

definition demo_reads1 :: ivy where
  "demo_reads1 = demo_reads\<lparr>arrivals := (\<lambda>_. [])(7 := [Stream (ARG_START # ''x'' @ [NL])]),
     socks := [1 \<mapsto> (demo_sock None)\<lparr>sk_buffer := ''7 3''\<rparr>]\<rparr>"

lemma demo_reads_simps:
  "socks demo_reads = [1 \<mapsto> demo_sock None]"
  "arrivals demo_reads = (\<lambda>_. [])(7 := [Stream ''7 3'', Stream (ARG_START # ''x'' @ [NL])])"
  "allClients demo_reads = [demo_peer]"
  by (simp_all add: demo_reads_def)

lemma first_read: "HandleSocket (ivy_interp token_engine) 7 1 demo_reads = Inr demo_reads1"
  by (simp add: HandleSocket_def deref_def demo_reads1_def demo_reads_simps demo_sock_def new_sock_def os_recvfrom_def
    room_def grow_buffer_def IVY_BUFFER_SIZE_def set_from_def handle_lines_def set_sock_def Let_def)

lemma demo_scan: "scan_d_d [CHR ''7'', CHR '' '', CHR ''3'', CHR 0x02, CHR ''x''] = Some (7, 3)"
  by (simp add: scan_d_d_def scan_d_def scan_sign_def Let_def is_space_def is_digit_def digits_val_def
      digit_val_def clip_long_def s32_def)

lemma second_read: "\<exists>t. HandleSocket (ivy_interp token_engine) 7 1 demo_reads1 = Inr t \<and> arrivals t 7 = []"
  by (simp add: HandleSocket_def deref_def demo_reads1_def demo_reads_simps demo_sock_def new_sock_def os_recvfrom_def
    room_def grow_buffer_def IVY_BUFFER_SIZE_def set_from_def handle_lines_def set_sock_def Let_def
    interpret_line_def ivy_interp_def ARG_START_def NL_def c_string_def Receive_def with_app_def find_clnt_def
    demo_peer_def demo_scan interpret_msg_def)


lemma receive_start:
  assumes "is_int32 i" and "p \<noteq> 0" and "find_clnt p s = Some cl"
    and "\<not> c_ignore_subsequent_msg cl"
  shows "Receive rx c p (wire_header t i @ m) s =
           interpret_msg rx (cl\<lparr>c_id := i\<rparr>) c (msg_code t) i m (upd_clnt p (\<lambda>c. c\<lparr>c_id := i\<rparr>) s)"
  using assms by (simp add: Receive_def with_app_def header_scan header_start)

section \<open>Properties\<close>

text \<open>
  C9: what the interpretation of a client's input does, does not depend on how the network cut the
  bytes, nor on the size the reception buffer had: after any sequence of reads that ends with
  nothing left to read, the state is the one that the interpretation of the lines of the whole byte
  stream makes, all of them, each once and in order, with no other change than to what is received;
  the unfinished line stays in the buffer.
\<close>
theorem lines_do_not_depend_on_chunks:
  assumes "reads (ivy_interp rx) c s ls t" and "recv_ok c s" and "socks s c = Some k"
    and "CHR 0x0A \<notin> set (sk_buffer k)" and "arrivals t (sk_fd k) = []"
  shows "interpreted (ivy_interp rx) c
           (fst (split_lines (CHR 0x0A) (sk_buffer k @ incoming (arrivals s (sk_fd k))))) s t \<and>
         (\<exists>k'. socks t c = Some k' \<and>
           sk_buffer k' = snd (split_lines (CHR 0x0A) (sk_buffer k @ incoming (arrivals s (sk_fd k)))))"
  using lines.reads_lines [OF assms(1-3)] lines.reads_interpreted [OF assms(1,2)] assms(4,5)
  by (auto simp: incoming_def split_lines_none)

theorem lines_do_not_depend_on_chunks_witness:
  "\<exists>t. reads (ivy_interp token_engine) 1 demo_reads [''7 3'' @ ARG_START # ''x''] t \<and>
     interpreted (ivy_interp token_engine) 1
       (fst (split_lines (CHR 0x0A) (incoming (arrivals demo_reads 7)))) demo_reads t"
proof -
  obtain t where t: "HandleSocket (ivy_interp token_engine) 7 1 demo_reads1 = Inr t"
    "arrivals t 7 = []" using second_read by blast
  have k: "socks demo_reads 1 = Some (demo_sock None)" "sk_fd (demo_sock None) = 7"
    "sk_buffer (demo_sock None) = []"
    by (simp_all add: demo_reads_simps demo_sock_def new_sock_def)
  have k1: "socks demo_reads1 1 = Some ((demo_sock None)\<lparr>sk_buffer := ''7 3''\<rparr>)"
    by (simp add: demo_reads1_def)
  have l: "call_lines 1 demo_reads = []" "call_lines 1 demo_reads1 = [''7 3'' @ ARG_START # ''x'']"
    by (simp_all add: call_lines_def demo_reads_simps demo_reads1_def demo_sock_def new_sock_def chunk_def
        room_def grow_buffer_def IVY_BUFFER_SIZE_def ARG_START_def NL_def)
  have "reads (ivy_interp token_engine) 1 demo_reads1 (call_lines 1 demo_reads1 @ []) t"
    by (rule reads_more [OF k1 _ _ reads_done]) (use t k(2) in \<open>simp_all add: demo_reads1_def\<close>)
  then have "reads (ivy_interp token_engine) 1 demo_reads
      (call_lines 1 demo_reads @ [''7 3'' @ ARG_START # ''x'']) t"
    by (intro reads_more [OF k(1)]) (use k(2) first_read l in \<open>simp_all add: demo_reads_simps\<close>)
  then have r: "reads (ivy_interp token_engine) 1 demo_reads [''7 3'' @ ARG_START # ''x''] t"
    by (simp only: l append_Nil)
  have "recv_ok 1 demo_reads"
    using k by (auto simp: recv_ok_def fresh_ok_def demo_reads_def demo_sock_def new_sock_def
        IVY_BUFFER_SIZE_def stream_only_def demo_def)
  from lines_do_not_depend_on_chunks [OF r this k(1)] k t(2) r show ?thesis by auto
qed

text \<open>
  C10: what one application sends is what the other interprets: a line made of the header of a
  message and its text is taken apart into the same kind, id and text, whatever the text holds.
\<close>
theorem receive_parses_what_is_sent:
  assumes "is_int32 i" and "p \<noteq> 0" and "find_clnt p s = Some cl"
    and "\<not> c_ignore_subsequent_msg cl"
  shows "Receive rx c p (wire_header t i @ m) s =
           interpret_msg rx (cl\<lparr>c_id := i\<rparr>) c (msg_code t) i m (upd_clnt p (\<lambda>c. c\<lparr>c_id := i\<rparr>) s)"
  using assms by (rule receive_start)

theorem receive_parses_what_is_sent_witness:
  "Receive token_engine 1 5 (wire_header DirectMsg 3 @ ''x'') demo_reads =
     Inr (emit (DirectEvent 5 3 ''x'') (upd_clnt 5 (\<lambda>c. c\<lparr>c_id := 3\<rparr>) demo_reads))"
  using receive_parses_what_is_sent [of 3 5 demo_reads demo_peer token_engine 1 DirectMsg "''x''"]
  by (simp add: is_int32_def find_clnt_def demo_reads_simps demo_peer_def interpret_msg_def
      demo_reads_def emit_if_def upd_clnt_def demo_ivy_def sockst.defs ivy.defs)

lemma Receive_Msg_ok:
  assumes "is_int32 i" and "p \<noteq> 0" and "find_clnt p s = Some cl"
    and "\<not> c_ignore_subsequent_msg cl" and "find (\<lambda>m. mr_id m = i) (msg_recv s) = Some rcv"
    and "mr_callback rcv" and "\<forall>a \<in> set args. ARG_END \<notin> set a"
    and "length args \<le> MAX_MATCHING_ARGS"
  shows "Receive rx c p (wire_header Msg i @ join_args args) s =
           Inr (emit (MsgEvent p i args) (upd_clnt p (\<lambda>c. c\<lparr>c_id := i\<rparr>) s))"
  using receive_start [OF assms(1-4), of rx c Msg "join_args args"] assms(5-8) find_clnt_Some [OF assms(3)]
  by (simp add: interpret_msg_def receive_Msg_def collect_join emit_if_def)

text \<open>
  The arguments of a message arrive as they were captured: a \<open>Msg\<close> line for a subscription
  of the application that has a callback calls it once, with the same arguments in the same
  order, empty ones included.
\<close>
theorem message_arguments_arrive:
  assumes "is_int32 i" and "p \<noteq> 0" and "find_clnt p s = Some cl"
    and "\<not> c_ignore_subsequent_msg cl" and "find (\<lambda>m. mr_id m = i) (msg_recv s) = Some rcv"
    and "mr_callback rcv" and "\<forall>a \<in> set args. ARG_END \<notin> set a"
    and "length args \<le> MAX_MATCHING_ARGS"
  shows "Receive rx c p (wire_header Msg i @ join_args args) s =
           Inr (emit (MsgEvent p i args) (upd_clnt p (\<lambda>c. c\<lparr>c_id := i\<rparr>) s))"
  using assms by (rule Receive_Msg_ok)

theorem message_arguments_arrive_witness:
  "Receive token_engine 1 5 (wire_header Msg 3 @ join_args [''a'', [], ''b''])
       (demo_ivy (demo [] None) [demo_peer] [] [\<lparr>mr_ptr = 6, mr_id = 3, mr_regexp = ''x'', mr_callback = True\<rparr>]) =
     Inr (emit (MsgEvent 5 3 [''a'', [], ''b'']) (upd_clnt 5 (\<lambda>c. c\<lparr>c_id := 3\<rparr>)
       (demo_ivy (demo [] None) [demo_peer] [] [\<lparr>mr_ptr = 6, mr_id = 3, mr_regexp = ''x'', mr_callback = True\<rparr>])))"
  by (rule message_arguments_arrive [where cl = demo_peer and
        rcv = "\<lparr>mr_ptr = 6, mr_id = 3, mr_regexp = ''x'', mr_callback = True\<rparr>"])
    (simp_all add: is_int32_def find_clnt_def demo_peer_def ARG_END_def MAX_MATCHING_ARGS_def)

text \<open>
  \<open>Receive\<close> stores the arguments in an array of \<open>MAX_MATCHING_ARGS\<close> pointers without a
  check: a peer that sends one argument more than that writes past its end.
\<close>
theorem too_many_arguments_overflow:
  assumes "is_int32 i" and "p \<noteq> 0" and "find_clnt p s = Some cl"
    and "\<not> c_ignore_subsequent_msg cl" and "find (\<lambda>m. mr_id m = i) (msg_recv s) = Some rcv"
    and "\<forall>a \<in> set args. ARG_END \<notin> set a" and "MAX_MATCHING_ARGS < length args"
  shows "Receive rx c p (wire_header Msg i @ join_args args) s = Inl OutOfBounds"
proof -
  have "args \<noteq> []" using assms(7) by auto
  then show ?thesis
    using receive_start [OF assms(1-4), of rx c Msg "join_args args"] assms(5-7)
    by (simp add: interpret_msg_def receive_Msg_def collect_join)
qed

theorem too_many_arguments_overflow_witness:
  "Receive token_engine 1 5 (wire_header Msg 3 @ join_args (replicate 121 ''a''))
       (demo_ivy (demo [] None) [demo_peer] [] [\<lparr>mr_ptr = 6, mr_id = 3, mr_regexp = ''x'', mr_callback = True\<rparr>]) =
     Inl OutOfBounds"
  by (rule too_many_arguments_overflow [where cl = demo_peer])
    (simp_all add: is_int32_def find_clnt_def demo_peer_def ARG_END_def MAX_MATCHING_ARGS_def)

text \<open>
  The header of a message always fits in the 16 bytes of the buffer that \<open>RegexpCall\<close>
  formats it into, for every id of 32 bits.
\<close>
theorem message_header_fits:
  assumes "is_int32 i"
  shows "bufferId i = Inr (wire_header Msg i)"
  using assms by (rule bufferId_ok)

theorem message_header_fits_witness:
  "bufferId (- 2147483648) = Inr (wire_header Msg (- 2147483648)) \<and>
     length (wire_header Msg (- 2147483648)) = 14"
  using message_header_fits [of "- 2147483648"]
  by (simp add: is_int32_def wire_header_def show_int_def show_nat.simps)

end
