(* ===== verification/IvyDelivery.thy ===== *)
theory IvyDelivery
  imports IvyProtocol
begin

text \<open>
  Delivery of a message: what \<open>IvySendMsg\<close> puts on the streams of the subscribers, for every
  behaviour of the network that reports no error, and what a subscriber reads from its stream.
\<close>

section \<open>What a match captures\<close>

text \<open>
  What PCRE documents of a match that returns \<open>rc\<close>: the first \<open>rc\<close> pairs of the output vector
  are set, each to a stretch of the subject or, for a group that took no part, to \<open>(-1, -1)\<close>.
\<close>

definition good_span :: "string \<Rightarrow> int \<times> int \<Rightarrow> bool" where
  "good_span message p =
     (let (so, eo) = p in so = eo \<or> 0 \<le> so \<and> so < eo \<and> eo \<le> int (length message))"

definition good_match :: "binding option \<Rightarrow> string \<Rightarrow> int \<Rightarrow> bool" where
  "good_match bind message rc =
     (case bind of None \<Rightarrow> False
      | Some b \<Rightarrow> nat rc \<le> length (bd_ovector b) \<and>
          list_all (good_span message) (take (nat rc) (bd_ovector b)))"

text \<open>The text of the groups 1 to \<open>rc - 1\<close>.\<close>

definition capture :: "string \<Rightarrow> int \<times> int \<Rightarrow> string" where
  "capture message p = take (nat (snd p - fst p)) (drop (nat (fst p)) message)"

definition captures :: "binding option \<Rightarrow> string \<Rightarrow> int \<Rightarrow> string list" where
  "captures bind message rc =
     (case bind of None \<Rightarrow> []
      | Some b \<Rightarrow> map (\<lambda>i. capture message (bd_ovector b ! i)) [1..<nat rc])"

definition text_so_far :: "IvyBuffer \<Rightarrow> string" where
  "text_so_far b = (if b_data b = None \<or> b_size b = 0 then [] else buffer_text b)"

lemma make_message_text:
  assumes "buffer_inv b"
  obtains b' where "snd (make_message_var b txt) = b'" "buffer_inv b'"
    "text_so_far b' = text_so_far b @ txt" "buffer_text b' = text_so_far b @ txt"
proof -
  from make_message_correct [OF assms, of "txt"] obtain b' where
    b': "make_message b txt = (int (length txt), b')" "buffer_inv b'" "b_data b' = Some (buffer_text b')"
      "buffer_text b' = text_so_far b @ txt" by (auto simp: text_so_far_def)
  moreover from b'(2,3) have "b_size b' \<noteq> 0" by (auto simp: buffer_inv_def)
  with b' have "text_so_far b' = text_so_far b @ txt" by (simp add: text_so_far_def)
  ultimately show thesis using that by (simp add: make_message_var_def)
qed

lemma append_arg_ok:
  assumes "bind = Some b" and "i < length (bd_ovector b)" and "good_span message (bd_ovector b ! i)"
    and "buffer_inv buf"
  shows "\<exists>buf'. append_arg bind message i buf = Inr buf' \<and> buffer_inv buf' \<and>
           text_so_far buf' = text_so_far buf @ capture message (bd_ovector b ! i) @ [ARG_END]"
proof -
  obtain so eo where p: "bd_ovector b ! i = (so, eo)" by fastforce
  have "printf_arg message (eo - so, so) = Inr (capture message (so, eo))"
    using assms(3) by (auto simp: p good_span_def printf_arg_def capture_def)
  moreover obtain buf' where "snd (make_message_var buf (capture message (so, eo) @ [ARG_END])) = buf'"
    "buffer_inv buf'" "text_so_far buf' = text_so_far buf @ capture message (so, eo) @ [ARG_END]"
    using make_message_text [OF assms(4)] by metis
  ultimately show ?thesis
    using assms(1,2) by (simp add: append_arg_def IvyBindingMatch_def p)
qed

lemma append_args_ok:
  assumes "bind = Some b" and "\<forall>i \<in> set is. i < length (bd_ovector b) \<and> good_span message (bd_ovector b ! i)"
    and "buffer_inv buf"
  shows "\<exists>buf'. foldR (append_arg bind message) is buf = Inr buf' \<and> buffer_inv buf' \<and>
           text_so_far buf' =
             text_so_far buf @ join_args (map (\<lambda>i. capture message (bd_ovector b ! i)) is)"
  using assms(2,3)
proof (induction "is" arbitrary: buf)
  case (Cons i "is")
  have i: "i < length (bd_ovector b)" "good_span message (bd_ovector b ! i)"
    and rest: "\<forall>i \<in> set is. i < length (bd_ovector b) \<and> good_span message (bd_ovector b ! i)"
    using Cons.prems(1) by auto
  from append_arg_ok [OF assms(1) i Cons.prems(2)] obtain buf1 where
    1: "append_arg bind message i buf = Inr buf1" "buffer_inv buf1"
      "text_so_far buf1 = text_so_far buf @ capture message (bd_ovector b ! i) @ [ARG_END]" by blast
  from Cons.IH [OF rest 1(2)] obtain buf2 where
    "foldR (append_arg bind message) is buf1 = Inr buf2" "buffer_inv buf2"
    "text_so_far buf2 = text_so_far buf1 @ join_args (map (\<lambda>i. capture message (bd_ovector b ! i)) is)"
    by blast
  with 1 show ?case by (intro exI [of _ buf2]) (simp add: join_args_def)
qed (simp add: join_args_def)

lemma captured_ok:
  assumes "good_match bind message rc"
  shows "captured bind message rc = Inr (join_args (captures bind message rc) @ [NL])"
proof -
  from assms obtain b where b: "bind = Some b" "nat rc \<le> length (bd_ovector b)"
    "list_all (good_span message) (take (nat rc) (bd_ovector b))"
    by (auto simp: good_match_def split: option.splits)
  have "good_span message (bd_ovector b ! i)" if "i < nat rc" for i
    using b(2,3) that by (simp add: list_all_length)
  then have "\<forall>i \<in> set [1..<nat rc]. i < length (bd_ovector b) \<and> good_span message (bd_ovector b ! i)"
    using b(2) by auto
  moreover have e: "buffer_inv empty_buffer" "text_so_far empty_buffer = []"
    by (simp_all add: buffer_inv_def empty_buffer_def text_so_far_def)
  ultimately obtain buf where buf: "foldR (append_arg bind message) [1..<nat rc] empty_buffer = Inr buf"
    "buffer_inv buf" "text_so_far buf = join_args (captures bind message rc)"
    using append_args_ok [OF b(1) _ e(1), of "[1..<nat rc]" message] e(2) b(1)
    by (simp add: captures_def) blast
  from make_message_text [OF buf(2), of "[NL]"] obtain b2 where
    "snd (make_message_var buf [NL]) = b2" "buffer_text b2 = text_so_far buf @ [NL]" by blast
  with buf(1,3) show ?thesis by (simp add: captured_def)
qed

section \<open>Delivery\<close>

text \<open>
  \<open>out c\<close> is appended to the stream of every client \<open>c\<close>, and what room there was beyond it is
  still there.
\<close>

definition delivers :: "ivy \<Rightarrow> (nat \<Rightarrow> string) \<Rightarrow> ivy \<Rightarrow> bool" where
  "delivers s out t \<longleftrightarrow> sock_inv t \<and> talk s t \<and> (\<forall>c. stream c t = stream c s @ out c) \<and>
     SendFails \<notin> set (script (net t)) \<and>
     (\<forall>c n. roomy c (length (out c) + n) s \<longrightarrow> roomy c n t)"

definition ready_to_send :: "ivy \<Rightarrow> bool" where
  "ready_to_send s \<longleftrightarrow> sock_inv s \<and> SendFails \<notin> set (script (net s))"

lemma delivers_refl: "ready_to_send s \<Longrightarrow> delivers s (\<lambda>_. []) s"
  by (simp add: delivers_def ready_to_send_def)

lemma delivers_trans:
  assumes "delivers s f t" and "delivers t g u"
  shows "delivers s (\<lambda>c. f c @ g c) u"
  using assms talk_trans unfolding delivers_def by (auto simp: add.assoc)

lemma delivers_ready: "delivers s f t \<Longrightarrow> ready_to_send t"
  by (simp add: delivers_def ready_to_send_def)

lemma events_irrelevant [simp]:
  "sock_inv (s\<lparr>events := e\<rparr>) = sock_inv s" "stream c (s\<lparr>events := e\<rparr>) = stream c s"
  "roomy c n (s\<lparr>events := e\<rparr>) = roomy c n s"
  for s :: ivy
  by (simp_all add: sock_inv_def stream_def roomy_def split: option.split)

lemma emit_if_update: "\<exists>e'. emit_if b e s = s\<lparr>events := e'\<rparr>"
  by (cases s) (auto simp: emit_if_def emit_def)

lemma delivers_emit:
  assumes "delivers s f t"
  shows "delivers s f (emit_if b e t)"
proof -
  obtain e' where e: "emit_if b e t = t\<lparr>events := e'\<rparr>" using emit_if_update by blast
  have "talk s (emit_if b e t)"
    using assms by (intro talk_trans [OF _ talk_emit(2)]) (simp add: delivers_def)
  with assms show ?thesis unfolding e by (simp add: delivers_def)
qed

lemma delivers_step:
  assumes "ready_to_send s" and "socks s c = Some k" and "roomy c (length bytes) s"
  shows "\<exists>st t. BufferizedSocketSendRaw c bytes s = Inr (st, t) \<and>
           delivers s (\<lambda>c'. if c' = c then bytes else []) t \<and> st \<noteq> SendStateFifoFull"
proof -
  have "length bytes < IVY_FIFO_MAX_ALLOC_SIZE"
    using assms(2,3) by (auto simp: roomy_def split: option.splits)
  with BufferizedSocketSendRaw_ok [of s c k bytes] assms obtain st t where
    1: "BufferizedSocketSendRaw c bytes s = Inr (st, t)" "sent_ok c bytes s st t"
    by (auto simp: ready_to_send_def)
  then have st: "st \<noteq> SendError" "st \<noteq> SendStateFifoFull"
    using assms(1,3) by (auto simp: sent_ok_def ready_to_send_def dest: spec [of _ 0])
  have room: "roomy c' n t" if r: "roomy c' (length (if c' = c then bytes else []) + n) s" for c' n
  proof (cases "c' = c")
    case False
    then have "socks t c' = socks s c'" using 1(2) unfolding sent_ok_def by blast
    with r False show ?thesis by (simp add: roomy_def)
  qed (use r 1(2) in \<open>simp add: sent_ok_def\<close>)
  have str: "stream c' t = stream c' s @ (if c' = c then bytes else [])" for c'
  proof (cases "c' = c")
    case False
    then have "stream c' t = stream c' s" using 1(2) unfolding sent_ok_def by blast
    with False show ?thesis by simp
  qed (use 1(2) st in \<open>simp add: sent_ok_def appended_def\<close>)
  have "sock_inv t" "talk s t" "SendFails \<notin> set (script (net t))"
    using 1(2) assms(1) talk_send by (auto simp: sent_ok_def ready_to_send_def)
  with room str have "delivers s (\<lambda>c'. if c' = c then bytes else []) t"
    unfolding delivers_def by blast
  with 1(1) st(2) show ?thesis by blast
qed


lemma roomy_mono: "roomy c n s \<Longrightarrow> m \<le> n \<Longrightarrow> roomy c m s"
  by (auto simp: roomy_def split: option.splits)

text \<open>The room for \<open>out c\<close> at every client that gets something.\<close>

definition room_for :: "(nat \<Rightarrow> string) \<Rightarrow> ivy \<Rightarrow> bool" where
  "room_for out s \<longleftrightarrow> (\<forall>c. out c = [] \<or> roomy c (length (out c)) s)"

lemma room_forD: "room_for out s \<Longrightarrow> out c \<noteq> [] \<Longrightarrow> roomy c (length (out c)) s"
  by (auto simp: room_for_def)

text \<open>Steps that deliver, one after the other.\<close>

lemma deliver_foldR:
  assumes "\<And>x u. x \<in> set xs \<Longrightarrow> talk s u \<Longrightarrow> ready_to_send u \<Longrightarrow> room_for (out x) u \<Longrightarrow>
      \<exists>t. f x u = Inr t \<and> delivers u (out x) t"
    and "ready_to_send s" and "room_for (\<lambda>c. concat (map (\<lambda>x. out x c) xs)) s"
  shows "\<exists>t. foldR f xs s = Inr t \<and> delivers s (\<lambda>c. concat (map (\<lambda>x. out x c) xs)) t"
  using assms
proof (induction xs arbitrary: s)
  case Nil
  then show ?case using delivers_refl by simp
next
  case (Cons x xs)
  have all: "out x c @ concat (map (\<lambda>x. out x c) xs) = [] \<or>
      roomy c (length (out x c) + length (concat (map (\<lambda>x. out x c) xs))) s" for c
    using Cons.prems(3) by (simp add: room_for_def)
  have "room_for (out x) s"
    unfolding room_for_def using all roomy_mono [OF _ le_add1] by blast
  with Cons.prems(1) [of x s] Cons.prems(2) obtain t where
    t: "f x s = Inr t" "delivers s (out x) t" by auto
  have room: "room_for (\<lambda>c. concat (map (\<lambda>x. out x c) xs)) t"
    unfolding room_for_def using all t(2) unfolding delivers_def by blast
  have talk: "talk s t" using t(2) by (simp add: delivers_def)
  have "\<exists>u. foldR f xs t = Inr u \<and> delivers t (\<lambda>c. concat (map (\<lambda>x. out x c) xs)) u"
  proof (rule Cons.IH [OF _ delivers_ready [OF t(2)] room])
    fix y u assume "y \<in> set xs" "talk t u" "ready_to_send u" "room_for (out y) u"
    then show "\<exists>t. f y u = Inr t \<and> delivers u (out y) t"
      using Cons.prems(1) [of y u] talk_trans [OF talk] by simp
  qed
  then obtain u where u: "foldR f xs t = Inr u" "delivers t (\<lambda>c. concat (map (\<lambda>x. out x c) xs)) u"
    by blast
  from delivers_trans [OF t(2) u(2)] t(1) u(1) show ?case by simp
qed

lemma send_to_subscriber_ok:
  assumes "ready_to_send s" and "socks s (dc_client dc) \<noteq> None" and "is_int32 (dc_id dc)"
    and "roomy (dc_client dc) (length (wire_header Msg (dc_id dc) @ args)) s"
  shows "\<exists>t. send_to_subscriber full args dc s = Inr t \<and>
           delivers s (\<lambda>c. if c = dc_client dc then wire_header Msg (dc_id dc) @ args else []) t"
proof -
  let ?c = "dc_client dc" and ?h = "wire_header Msg (dc_id dc)"
  obtain k where k: "socks s ?c = Some k" using assms(2) by blast
  have "roomy ?c (length ?h) s" by (rule roomy_mono [OF assms(4)]) simp
  from delivers_step [OF assms(1) k this] obtain st1 u where u:
    "BufferizedSocketSendRaw ?c ?h s = Inr (st1, u)" "delivers s (\<lambda>c'. if c' = ?c then ?h else []) u"
    by blast
  have "talk s u" using u(2) by (simp add: delivers_def)
  from talk_fields(16) [OF this, of ?c] k have "socks u ?c \<noteq> None" by simp
  then obtain k' where k': "socks u ?c = Some k'" by blast
  have "roomy ?c (length args) u"
    using u(2) assms(4) by (simp add: delivers_def)
  from delivers_step [OF delivers_ready [OF u(2)] k' this] obtain st2 v where v:
    "BufferizedSocketSendRaw ?c args u = Inr (st2, v)" "delivers u (\<lambda>c'. if c' = ?c then args else []) v"
    by blast
  let ?st = "if st1 = SendStateChangeToCongestion then st1 else st2"
  have "delivers s (\<lambda>c. (if c = ?c then ?h else []) @ (if c = ?c then args else [])) v"
    using delivers_trans [OF u(2) v(2)] .
  moreover have "(\<lambda>c. (if c = ?c then ?h else []) @ (if c = ?c then args else [])) =
      (\<lambda>c. if c = ?c then ?h @ args else [])" by auto
  ultimately have d: "delivers s (\<lambda>c. if c = ?c then ?h @ args else []) v" by simp
  have "send_to_subscriber full args dc s =
      Inr (congestion_event (DictNode ?c (dc_id dc)) full ?st v)"
    using u(1) v(1) by (simp add: send_to_subscriber_def bufferId_ok [OF assms(3)] SocketSendRawWithId_def)
  moreover have "delivers s (\<lambda>c. if c = ?c then ?h @ args else []) (congestion_event r full ?st v)" for r
    using d delivers_emit [OF d] by (simp add: congestion_event_def)
  ultimately show ?thesis by blast
qed

text \<open>What a message brings to the client \<open>c\<close>: the ids and the arguments, in order.\<close>

definition entry_calls :: "regex_engine \<Rightarrow> string \<Rightarrow> dentry \<Rightarrow> nat \<Rightarrow> (int \<times> string list) list" where
  "entry_calls rx message e c =
     (let (rc, bind) = IvyBindingExec rx (d_binding e) message
      in if rc < 1 then []
         else map (\<lambda>dc. (dc_id dc, captures bind message rc))
                (filter (\<lambda>dc. dc_client dc = c) (d_clientList e)))"

definition calls :: "regex_engine \<Rightarrow> string \<Rightarrow> dentry list \<Rightarrow> nat \<Rightarrow> (int \<times> string list) list" where
  "calls rx message d c = concat (map (\<lambda>e. entry_calls rx message e c) d)"

definition call_line :: "int \<times> string list \<Rightarrow> string" where
  "call_line p = wire_header Msg (fst p) @ join_args (snd p)"

definition frames :: "(int \<times> string list) list \<Rightarrow> string" where
  "frames ps = concat (map (\<lambda>p. call_line p @ [NL]) ps)"

definition matching :: "regex_engine \<Rightarrow> string \<Rightarrow> dentry list \<Rightarrow> dentry list" where
  "matching rx message d = filter (\<lambda>e. 1 \<le> fst (IvyBindingExec rx (d_binding e) message)) d"

definition good_entry :: "regex_engine \<Rightarrow> string \<Rightarrow> dentry \<Rightarrow> bool" where
  "good_entry rx message e \<longleftrightarrow>
     (let (rc, bind) = IvyBindingExec rx (d_binding e) message in rc < 1 \<or> good_match bind message rc) \<and>
     (\<forall>dc \<in> set (d_clientList e). is_int32 (dc_id dc))"

lemma frames_append: "frames (ps @ qs) = frames ps @ frames qs"
  by (simp add: frames_def)

lemma frames_concat: "frames (concat ps) = concat (map frames ps)"
  by (induction ps) (simp_all add: frames_append, simp add: frames_def)

lemma frames_filter:
  "frames (map f (filter P xs)) = concat (map (\<lambda>x. if P x then call_line (f x) @ [NL] else []) xs)"
  by (induction xs) (auto simp: frames_def)

lemma RegexpCall_ok:
  assumes "ready_to_send s" and "good_entry rx message e"
    and "\<forall>dc \<in> set (d_clientList e). socks s (dc_client dc) \<noteq> None"
    and "room_for (\<lambda>c. frames (entry_calls rx message e c)) s"
  shows "\<exists>t. RegexpCall rx e message s =
             Inr (if 1 \<le> fst (IvyBindingExec rx (d_binding e) message) then length (d_clientList e) else 0, t) \<and>
           delivers s (\<lambda>c. frames (entry_calls rx message e c)) t"
proof -
  obtain rc bind where ex: "IvyBindingExec rx (d_binding e) message = (rc, bind)" by fastforce
  show ?thesis
  proof (cases "rc < 1")
    case True
    then have "entry_calls rx message e c = []" for c by (simp add: entry_calls_def ex)
    then show ?thesis using True ex assms(1) delivers_refl
      by (simp add: RegexpCall_def frames_def)
  next
    case False
    let ?args = "join_args (captures bind message rc) @ [NL]"
    let ?out = "\<lambda>dc c. if c = dc_client dc then wire_header Msg (dc_id dc) @ ?args else []"
    have cap: "captured bind message rc = Inr ?args"
      using assms(2) False ex by (auto simp: good_entry_def intro: captured_ok)
    have out: "frames (entry_calls rx message e c) = concat (map (\<lambda>dc. ?out dc c) (d_clientList e))" for c
      using False by (simp add: entry_calls_def ex frames_filter call_line_def eq_commute [of c] cong: if_cong)
    have "\<exists>t. foldR (send_to_subscriber True ?args) (d_clientList e) s = Inr t \<and>
        delivers s (\<lambda>c. concat (map (\<lambda>dc. ?out dc c) (d_clientList e))) t"
    proof (rule deliver_foldR [OF _ assms(1)])
      fix dc u assume "dc \<in> set (d_clientList e)" "talk s u" "ready_to_send u"
        "room_for (?out dc) u"
      moreover from this(4) have "roomy (dc_client dc) (length (wire_header Msg (dc_id dc) @ ?args)) u"
        by (drule_tac room_forD [where c = "dc_client dc"]) simp_all
      ultimately show "\<exists>t. send_to_subscriber True ?args dc u = Inr t \<and> delivers u (?out dc) t"
        using assms(2,3) talk_fields(16) [of s u "dc_client dc"]
        by (intro send_to_subscriber_ok) (auto simp: good_entry_def)
    qed (use assms(4) out in simp)
    then show ?thesis using False ex cap out by (auto simp: RegexpCall_def)
  qed
qed


text \<open>The counts added up over a list of calls.\<close>

lemma sum_calls_foldR:
  assumes "foldR (\<lambda>e s. bindR (f e s) (\<lambda>(m, s). Inr s)) es s = Inr t"
    and "\<And>e u v. f e u = Inr v \<Longrightarrow> fst v = n e"
  shows "sum_calls f es s = Inr (sum_list (map n es), t)"
proof -
  have "foldR (\<lambda>e (k, s). bindR (f e s) (\<lambda>(m, s). Inr (k + m, s))) es (k, s) =
      Inr (k + sum_list (map n es), t)" for k
    using assms(1)
  proof (induction es arbitrary: k s)
    case (Cons e es)
    then obtain m u where u: "f e s = Inr (m, u)"
      "foldR (\<lambda>e s. bindR (f e s) (\<lambda>(m, s). Inr s)) es u = Inr t"
      by (auto simp: bindR_eq_Inr)
    with assms(2) [OF u(1)] Cons.IH [OF u(2)] show ?case by (simp add: add.assoc)
  qed simp
  from this [of 0] show ?thesis by (simp add: sum_calls_def)
qed

lemma RegexpCall_count:
  "RegexpCall rx e message s = Inr v \<Longrightarrow>
     fst v = (if 1 \<le> fst (IvyBindingExec rx (d_binding e) message) then length (d_clientList e) else 0)"
  by (auto simp: RegexpCall_def bindR_eq_Inr split: prod.splits if_splits)

lemma calls_ok:
  assumes "ready_to_send s" and "list_all (good_entry rx message) (messSndByRegexp s)"
    and "\<forall>e \<in> set (messSndByRegexp s). \<forall>dc \<in> set (d_clientList e). socks s (dc_client dc) \<noteq> None"
    and "room_for (\<lambda>c. frames (calls rx message (messSndByRegexp s) c)) s"
  shows "\<exists>t. sum_calls (\<lambda>e. RegexpCall rx e message) (messSndByRegexp s) s =
             Inr (length (concat (map d_clientList (matching rx message (messSndByRegexp s)))), t) \<and>
           delivers s (\<lambda>c. frames (calls rx message (messSndByRegexp s) c)) t"
proof -
  let ?d = "messSndByRegexp s" and ?g = "\<lambda>e s. bindR (RegexpCall rx e message s) (\<lambda>(m, s). Inr s)"
  let ?n = "\<lambda>e. if 1 \<le> fst (IvyBindingExec rx (d_binding e) message) then length (d_clientList e) else 0"
  have out: "frames (calls rx message ?d c) = concat (map (\<lambda>e. frames (entry_calls rx message e c)) ?d)" for c
    by (simp add: calls_def frames_concat comp_def)
  have "\<exists>t. foldR ?g ?d s = Inr t \<and>
      delivers s (\<lambda>c. concat (map (\<lambda>e. frames (entry_calls rx message e c)) ?d)) t"
  proof (rule deliver_foldR [OF _ assms(1)])
    fix e u assume e: "e \<in> set ?d" and u: "talk s u" "ready_to_send u"
      "room_for (\<lambda>c. frames (entry_calls rx message e c)) u"
    have "good_entry rx message e" using assms(2) e by (simp add: list_all_iff)
    moreover have "\<forall>dc \<in> set (d_clientList e). socks u (dc_client dc) \<noteq> None"
      using assms(3) e talk_fields(16) [OF u(1)] by simp
    ultimately show "\<exists>t. ?g e u = Inr t \<and> delivers u (\<lambda>c. frames (entry_calls rx message e c)) t"
      using RegexpCall_ok [OF u(2) _ _ u(3)] by auto
  qed (use assms(4) out in simp)
  then obtain t where t: "foldR ?g ?d s = Inr t"
    "delivers s (\<lambda>c. concat (map (\<lambda>e. frames (entry_calls rx message e c)) ?d)) t" by blast
  have "sum_list (map ?n ?d) = length (concat (map d_clientList (matching rx message ?d)))"
    by (simp add: matching_def length_concat sum_list_map_filter_if comp_def)
  with sum_calls_foldR [of "\<lambda>e. RegexpCall rx e message" ?d s t ?n, OF t(1) RegexpCall_count] t(2) out
  show ?thesis by simp
qed

lemma delivered_lines:
  assumes "\<forall>(i, as) \<in> set ps. \<forall>a \<in> set as. NL \<notin> set a"
  shows "split_lines NL (frames ps) = (map call_line ps, [])"
proof -
  have "NL \<noteq> ARG_END" "NL \<noteq> ARG_START" "NL \<noteq> CHR '' ''" "\<not> is_digit NL" "NL \<noteq> CHR ''-''"
    by (simp_all add: NL_def ARG_END_def ARG_START_def is_digit_def)
  then have "NL \<notin> set (call_line p)" if "p \<in> set ps" for p
    using assms that show_int_chars [of NL] by (auto simp: call_line_def wire_header_def join_args_def)
  then have "split_lines NL (concat (map (\<lambda>l. l @ [NL]) (map call_line ps))) = (map call_line ps, [])"
    by (intro split_lines_concat) auto
  then show ?thesis by (simp add: frames_def comp_def)
qed

lemma captures_chars: "a \<in> set (captures bind message rc) \<Longrightarrow> x \<in> set a \<Longrightarrow> x \<in> set message"
  by (auto simp: captures_def capture_def split: option.splits dest: in_set_takeD in_set_dropD)

lemma calls_chars:
  "(i, as) \<in> set (calls rx message d c) \<Longrightarrow> a \<in> set as \<Longrightarrow> x \<in> set a \<Longrightarrow> x \<in> set message"
  by (auto simp: calls_def entry_calls_def split: prod.splits if_splits dest: captures_chars)

lemma IvySendMsg_ok:
  assumes "sock_inv s" and "SendFails \<notin> set (script (net s))" and "fmt \<noteq> []"
    and "\<not> debug_binary_msg s" and "list_all (good_entry rx message) (messSndByRegexp s)"
    and "\<forall>e \<in> set (messSndByRegexp s). \<forall>dc \<in> set (d_clientList e). socks s (dc_client dc) \<noteq> None"
    and "room_for (\<lambda>c. frames (calls rx message (messSndByRegexp s) c)) s"
  shows "\<exists>t. IvySendMsg rx (Some fmt) message s =
             Inr (length (concat (map d_clientList (matching rx message (messSndByRegexp s)))), t) \<and>
           delivers s (\<lambda>c. frames (calls rx message (messSndByRegexp s) c)) t"
proof -
  from calls_ok [OF _ assms(5-7)] assms(1,2) obtain t where
    t: "sum_calls (\<lambda>e. RegexpCall rx e message) (messSndByRegexp s) s =
          Inr (length (concat (map d_clientList (matching rx message (messSndByRegexp s)))), t)"
      "delivers s (\<lambda>c. frames (calls rx message (messSndByRegexp s) c)) t"
    by (auto simp: ready_to_send_def)
  from delivers_emit [OF t(2)] have "delivers s (\<lambda>c. frames (calls rx message (messSndByRegexp s) c))
      (filter_check n message t)" for n by (simp add: filter_check_def)
  with t(1) assms(3,4) show ?thesis by (simp add: IvySendMsg_def)
qed

section \<open>A state for the examples\<close>

text \<open>An engine whose patterns capture the first character.\<close>

definition first_char_engine :: regex_engine where
  "first_char_engine = \<lparr>rx_compile = (\<lambda>_. None),
     rx_exec = (\<lambda>_ m. if m = [] then (-1, []) else (2, [(0, int (length m)), (0, 1)]))\<rparr>"

definition demo_entry :: dentry where
  "demo_entry = \<lparr>d_regexp_src = ''(.).*'',
     d_clientList = [\<lparr>dc_client = 1, dc_app_name = ''peer'', dc_app_port = 0, dc_id = 3\<rparr>],
     d_binding = Some \<lparr>bd_regexp = ''(.).*'', bd_nb_match = 0, bd_ovector = []\<rparr>\<rparr>"

definition demo_sender :: ivy where
  "demo_sender = demo_ivy (demo [Sent 2] None) [demo_peer] [demo_entry] []"

lemma demo_ivy_views [simp]:
  "sock_inv (demo_ivy n cs d ms) = sock_inv n" "stream c (demo_ivy n cs d ms) = stream c n"
  "roomy c k (demo_ivy n cs d ms) = roomy c k n" "fresh_ok (demo_ivy n cs d ms) = fresh_ok n"
  by (simp_all add: sock_inv_def stream_def roomy_def fresh_ok_def split: option.split)

lemma demo_calls:
  "calls first_char_engine ''ab'' [demo_entry] c = (if c = 1 then [(3, [''a''])] else [])"
  by (simp add: calls_def entry_calls_def demo_entry_def IvyBindingExec_def first_char_engine_def
      captures_def capture_def upt_rec [of 1] numeral_2_eq_2)

lemma demo_call_line: "call_line (3, [''a'']) = ''2 3'' @ [ARG_START, CHR ''a'', ARG_END]"
  by code_simp

lemma demo_sender_calls:
  "calls first_char_engine ''ab'' (messSndByRegexp demo_sender) c = (if c = 1 then [(3, [''a''])] else [])"
  "length (concat (map d_clientList (matching first_char_engine ''ab'' (messSndByRegexp demo_sender)))) = 1"
  by (simp_all add: demo_sender_def demo_calls)
    (simp add: matching_def demo_entry_def IvyBindingExec_def first_char_engine_def)

lemma demo_sender_room:
  "room_for (\<lambda>c. frames (calls first_char_engine ''ab'' (messSndByRegexp demo_sender) c)) demo_sender"
  by (simp add: room_for_def demo_sender_calls frames_def demo_call_line)
    (simp add: demo_sender_def roomy_def demo_def demo_sock_def new_sock_def fifo_size_defs)

lemma demo_sender_ok:
  "sock_inv demo_sender" "SendFails \<notin> set (script (net demo_sender))" "''%s'' \<noteq> []"
  "\<not> debug_binary_msg demo_sender"
  "list_all (good_entry first_char_engine ''ab'') (messSndByRegexp demo_sender)"
  "\<forall>e \<in> set (messSndByRegexp demo_sender). \<forall>dc \<in> set (d_clientList e).
     socks demo_sender (dc_client dc) \<noteq> None"
  using demo_inv [of None "[Sent 2]"]
  by (auto simp: demo_sender_def demo_entry_def good_entry_def is_int32_def good_match_def IvyBindingExec_def
      first_char_engine_def good_span_def demo_def)

lemma demo_sender_stream: "stream 1 demo_sender = []"
  by (simp add: demo_sender_def stream_def demo_def demo_sock_def new_sock_def pending_def)

text \<open>The application it reaches.\<close>

definition demo_receiver :: ivy where
  "demo_receiver = demo_ivy ((demo [] None)\<lparr>arrivals := (\<lambda>_. [])(7 := [Stream (frames [(3, [''a''])])])\<rparr>)
     [demo_peer] [] [\<lparr>mr_ptr = 6, mr_id = 3, mr_regexp = ''(.).*'', mr_callback = True\<rparr>]"

lemma demo_frames: "frames [(3, [''a''])] = [CHR ''2'', CHR '' '', CHR ''3'', CHR 0x02, CHR ''a'', CHR 0x03, CHR 0x0A]"
  by (simp add: frames_def demo_call_line ARG_START_def ARG_END_def NL_def)

lemma demo_receiver_scan: "scan_d_d [CHR ''2'', CHR '' '', CHR ''3'', CHR 0x02, CHR ''a'', CHR 0x03] = Some (2, 3)"
  by (simp add: scan_d_d_def scan_d_def scan_sign_def Let_def is_space_def is_digit_def digits_val_def
      digit_val_def clip_long_def s32_def)

lemma demo_collect: "collect_args [CHR ''a'', CHR 0x03] [] = Inr [''a'']"
  by (simp add: collect_args.simps nextArg_def ARG_END_def MAX_MATCHING_ARGS_def Let_def)

lemma demo_receiver_reads:
  "\<exists>r. reads (ivy_interp token_engine) 1 demo_receiver [call_line (3, [''a''])] r \<and> arrivals r 7 = []"
proof -
  have k: "socks demo_receiver 1 = Some (demo_sock None)" "sk_fd (demo_sock None) = 7"
    by (simp_all add: demo_receiver_def demo_def demo_sock_def new_sock_def)
  have "\<exists>r. HandleSocket (ivy_interp token_engine) 7 1 demo_receiver = Inr r \<and> arrivals r 7 = []"
    by (simp add: HandleSocket_def deref_def demo_receiver_def demo_frames demo_def demo_sock_def new_sock_def
        os_recvfrom_def room_def grow_buffer_def IVY_BUFFER_SIZE_def set_from_def handle_lines_def
        set_sock_def Let_def interpret_line_def ivy_interp_def ARG_START_def NL_def c_string_def
        Receive_def with_app_def find_clnt_def demo_peer_def demo_receiver_scan interpret_msg_def
        receive_Msg_def demo_collect emit_if_def emit_def upd_clnt_def)
  then obtain r where r: "HandleSocket (ivy_interp token_engine) 7 1 demo_receiver = Inr r"
    "arrivals r 7 = []" by blast
  have "reads (ivy_interp token_engine) 1 demo_receiver (call_lines 1 demo_receiver @ []) r"
    by (rule reads_more [OF k(1) _ _ reads_done]) (use r k(2) in \<open>simp_all add: demo_receiver_def\<close>)
  moreover have "call_lines 1 demo_receiver = [call_line (3, [''a''])]"
    by (simp add: call_lines_def demo_receiver_def demo_def demo_sock_def new_sock_def chunk_def room_def
        grow_buffer_def IVY_BUFFER_SIZE_def demo_frames demo_call_line ARG_START_def ARG_END_def)
  ultimately show ?thesis using r(2) by auto
qed

section \<open>Properties\<close>

text \<open>
  C3: \<open>IvySendMsg\<close> brings a message to exactly the subscriptions whose pattern matches, and
  answers their number: the stream of every client is extended by one frame for each of its
  matching subscriptions, with the id of the subscription and the text of the groups, in the
  order of the dictionary, and by nothing else. The kernel may take any part of the bytes at any
  time as long as it reports no error and the emission FIFOs have room.
\<close>
theorem message_reaches_every_match:
  assumes "sock_inv s" and "SendFails \<notin> set (script (net s))" and "fmt \<noteq> []"
    and "\<not> debug_binary_msg s" and "list_all (good_entry rx message) (messSndByRegexp s)"
    and "\<forall>e \<in> set (messSndByRegexp s). \<forall>dc \<in> set (d_clientList e). socks s (dc_client dc) \<noteq> None"
    and "room_for (\<lambda>c. frames (calls rx message (messSndByRegexp s) c)) s"
  shows "\<exists>t. IvySendMsg rx (Some fmt) message s =
             Inr (length (concat (map d_clientList (matching rx message (messSndByRegexp s)))), t) \<and>
           sock_inv t \<and> (\<forall>c. stream c t = stream c s @ frames (calls rx message (messSndByRegexp s) c))"
  using IvySendMsg_ok [OF assms] by (auto simp: delivers_def)

theorem message_reaches_every_match_witness:
  "\<exists>t. IvySendMsg first_char_engine (Some ''%s'') ''ab'' demo_sender = Inr (1, t) \<and>
     stream 1 t = frames [(3, [''a''])]"
  using message_reaches_every_match [OF demo_sender_ok demo_sender_room] demo_sender_stream
  by (auto simp: demo_sender_calls)

lemma lines_on_the_wire:
  assumes "sock_inv s" and "SendFails \<notin> set (script (net s))" and "fmt \<noteq> []"
    and "\<not> debug_binary_msg s" and "list_all (good_entry rx message) (messSndByRegexp s)"
    and "\<forall>e \<in> set (messSndByRegexp s). \<forall>dc \<in> set (d_clientList e). socks s (dc_client dc) \<noteq> None"
    and "room_for (\<lambda>c. frames (calls rx message (messSndByRegexp s) c)) s"
    and "NL \<notin> set message" and "IvySendMsg rx (Some fmt) message s = Inr (n, t)"
    and "reads (ivy_interp rx') c' r ls r'" and "recv_ok c' r" and "socks r c' = Some k"
    and "sk_buffer k = []" and "incoming (arrivals r (sk_fd k)) = drop (length (stream c s)) (stream c t)"
    and "arrivals r' (sk_fd k) = []"
  shows "ls = map call_line (calls rx message (messSndByRegexp s) c)"
proof -
  from IvySendMsg_ok [OF assms(1-7)] assms(9)
  have "delivers s (\<lambda>c. frames (calls rx message (messSndByRegexp s) c)) t" by auto
  then have "incoming (arrivals r (sk_fd k)) = frames (calls rx message (messSndByRegexp s) c)"
    by (simp add: assms(14) delivers_def)
  moreover have "\<forall>(i, as) \<in> set (calls rx message (messSndByRegexp s) c). \<forall>a \<in> set as. NL \<notin> set a"
    using calls_chars assms(8) by fastforce
  ultimately show ?thesis
    using lines.reads_lines [OF assms(10-12)] assms(13,15) delivered_lines
    by (auto simp: incoming_def split_lines_none NL_def)
qed

text \<open>
  A message from end to end. What \<open>IvySendMsg\<close> added to the stream of a subscriber, read by
  the subscriber in pieces of any size, gives one line for each of its matching subscriptions,
  in order: the header with the id of the subscription and the captured arguments.
\<close>
theorem message_crosses_the_wire:
  assumes "sock_inv s" and "SendFails \<notin> set (script (net s))" and "fmt \<noteq> []"
    and "\<not> debug_binary_msg s" and "list_all (good_entry rx message) (messSndByRegexp s)"
    and "\<forall>e \<in> set (messSndByRegexp s). \<forall>dc \<in> set (d_clientList e). socks s (dc_client dc) \<noteq> None"
    and "room_for (\<lambda>c. frames (calls rx message (messSndByRegexp s) c)) s"
    and "NL \<notin> set message" and "IvySendMsg rx (Some fmt) message s = Inr (n, t)"
    and "reads (ivy_interp rx') c' r ls r'" and "recv_ok c' r" and "socks r c' = Some k"
    and "sk_buffer k = []" and "incoming (arrivals r (sk_fd k)) = drop (length (stream c s)) (stream c t)"
    and "arrivals r' (sk_fd k) = []"
  shows "ls = map call_line (calls rx message (messSndByRegexp s) c)"
  using assms by (rule lines_on_the_wire)

theorem message_crosses_the_wire_witness:
  "\<exists>t r. IvySendMsg first_char_engine (Some ''%s'') ''ab'' demo_sender = Inr (1, t) \<and>
     reads (ivy_interp token_engine) 1 demo_receiver [call_line (3, [''a''])] r \<and>
     [call_line (3, [''a''])] = map call_line (calls first_char_engine ''ab'' (messSndByRegexp demo_sender) 1)"
proof -
  from IvySendMsg_ok [OF demo_sender_ok demo_sender_room] obtain t where
    t: "IvySendMsg first_char_engine (Some ''%s'') ''ab'' demo_sender = Inr (1, t)"
      "stream 1 t = frames [(3, [''a''])]"
    using demo_sender_stream by (auto simp: demo_sender_calls delivers_def)
  from demo_receiver_reads obtain r where r: "arrivals r 7 = []"
    "reads (ivy_interp token_engine) 1 demo_receiver [call_line (3, [''a''])] r" by blast
  have k: "socks demo_receiver 1 = Some (demo_sock None)" "sk_fd (demo_sock None) = 7"
    "sk_buffer (demo_sock None) = []"
    by (simp_all add: demo_receiver_def demo_def demo_sock_def new_sock_def)
  have ok: "recv_ok 1 demo_receiver"
    by (auto simp: recv_ok_def k demo_receiver_def demo_frames stream_only_def fresh_ok_def demo_def
        demo_sock_def new_sock_def IVY_BUFFER_SIZE_def)
  have inc: "incoming (arrivals demo_receiver (sk_fd (demo_sock None))) =
      drop (length (stream 1 demo_sender)) (stream 1 t)"
    by (simp add: k(2) t(2) demo_sender_stream incoming_def demo_receiver_def del: One_nat_def)
  have nl: "NL \<notin> set ''ab''" by (simp add: NL_def)
  have "[call_line (3, [''a''])] = map call_line (calls first_char_engine ''ab'' (messSndByRegexp demo_sender) 1)"
    using message_crosses_the_wire [OF demo_sender_ok demo_sender_room nl t(1) r(2) ok k(1,3) inc] r(1) k(2)
    by simp
  with t(1) r(2) show ?thesis by (intro exI conjI)
qed

end
