(* ===== verification/IvyInvariant.thy ===== *)
theory IvyInvariant
  imports IvyDelivery
begin

text \<open>
  The invariant of the core: the nodes of \<open>allClients\<close>, the data of the sockets and the
  dictionary of subscriptions agree. Every step of the protocol, every event of the loop and
  every call of the application keeps it.
\<close>

section \<open>The invariant\<close>

text \<open>
  The nodes of \<open>allClients\<close> are allocated, and each is on a live socket; the data of a socket is
  an allocated address, and if it is a node, the node of that socket.
\<close>

definition nodes_inv :: "ivy \<Rightarrow> bool" where
  "nodes_inv s \<longleftrightarrow> fresh_ok s \<and> clients_inv s \<and>
     (\<forall>x \<in> set (allClients s). 0 < c_ptr x \<and> c_ptr x < fresh s \<and> c_client x \<noteq> 0 \<and>
        map_option sk_handle_delete (socks s (c_client x)) = Some True) \<and>
     (\<forall>c k. socks s c = Some k \<longrightarrow> sk_data k < fresh s \<and>
        (\<forall>x \<in> set (allClients s). c_ptr x = sk_data k \<longrightarrow> c_client x = c))"

text \<open>
  Every entry of the dictionary has a client, is compiled, and is known under one key; every
  subscription is one of a connected application, under an id of 32 bits. \<open>A\<close> holds the sockets
  whose subscriptions are still to be removed, and is empty between the steps of the loop.
\<close>

definition subs_inv :: "regex_engine \<Rightarrow> nat set \<Rightarrow> ivy \<Rightarrow> bool" where
  "subs_inv rx A s \<longleftrightarrow> dict_inv (messSndByRegexp s) \<and> bind_ok rx (messSndByRegexp s) \<and>
     (\<forall>x \<in> subs (messSndByRegexp s). is_int32 (snd (snd x)) \<and> fst (snd x) \<in> A \<union> c_client ` set (allClients s))"

definition core_inv :: "regex_engine \<Rightarrow> nat set \<Rightarrow> ivy \<Rightarrow> bool" where
  "core_inv rx A s \<longleftrightarrow> nodes_inv s \<and> subs_inv rx A s"

text \<open>What a step may do without a new node.\<close>

definition same_data :: "ivy \<Rightarrow> ivy \<Rightarrow> bool" where
  "same_data s t \<longleftrightarrow> fresh s \<le> fresh t \<and>
     (\<forall>c. map_option (\<lambda>k. (sk_data k, sk_handle_delete k)) (socks t c) =
          map_option (\<lambda>k. (sk_data k, sk_handle_delete k)) (socks s c))"

lemma same_data_refl: "fresh s \<le> fresh t \<Longrightarrow> socks t = socks s \<Longrightarrow> same_data s t"
  by (simp add: same_data_def)

lemma same_data_cases:
  assumes "same_data s t"
  obtains "socks s c = None" "socks t c = None"
    | k k' where "socks s c = Some k" "socks t c = Some k'" "sk_data k' = sk_data k"
        "sk_handle_delete k' = sk_handle_delete k"
  using assms by (cases "socks s c"; cases "socks t c") (auto simp: same_data_def dest!: spec [of _ c])

lemma same_data_None: "same_data s t \<Longrightarrow> socks t c = None \<longleftrightarrow> socks s c = None"
  by (erule same_data_cases [of _ _ c]) auto

lemma same_data_fresh_ok: "same_data s t \<Longrightarrow> fresh_ok s \<Longrightarrow> fresh_ok t"
  by (auto simp: fresh_ok_def same_data_None) (auto simp: same_data_def)

lemma talk_same_data:
  assumes "talk s t"
  shows "same_data s t"
proof -
  let ?d = "\<lambda>k. (sk_data k, sk_handle_delete k)" and ?f = "sk_ifb_update (\<lambda>_. None)"
  have "map_option ?d (socks t c) = map_option ?d (socks s c)" for c
  proof -
    have "map_option ?f (socks t c) = map_option ?f (socks s c)"
      using assms by (simp add: talk_def send_frame_def)
    then have "map_option (?d \<circ> ?f) (socks t c) = map_option (?d \<circ> ?f) (socks s c)"
      by (metis option.map_comp)
    then show ?thesis by (simp add: comp_def)
  qed
  then show ?thesis using talk_fields(7) [OF assms] by (simp add: same_data_def)
qed

text \<open>New contents of the nodes, with the same addresses and sockets.\<close>

lemma nodes_inv_same:
  assumes "nodes_inv s" and "same_data s t"
    and "map (\<lambda>x. (c_ptr x, c_client x)) (allClients t) = map (\<lambda>x. (c_ptr x, c_client x)) (allClients s)"
    and "\<forall>x \<in> set (allClients t). distinct (map gr_addr (c_srcRegList x)) \<and>
           (\<forall>g \<in> set (c_srcRegList x). gr_addr g < fresh t)"
  shows "nodes_inv t"
proof -
  let ?k = "\<lambda>x. (c_ptr x, c_client x)"
  have ps: "map c_ptr (allClients t) = map c_ptr (allClients s)"
    "map c_client (allClients t) = map c_client (allClients s)"
    using arg_cong [OF assms(3), of "map fst"] arg_cong [OF assms(3), of "map snd"] by (simp_all add: comp_def)
  have mem: "\<exists>y \<in> set (allClients s). ?k y = ?k x" if "x \<in> set (allClients t)" for x
    using that assms(3) by (metis (no_types, lifting) image_iff list.set_map)
  have "clients_inv t" using assms(1,4) ps by (simp add: nodes_inv_def clients_inv_def)
  moreover have "fresh_ok t" using assms(1,2) same_data_fresh_ok by (simp add: nodes_inv_def)
  moreover have "0 < c_ptr x \<and> c_ptr x < fresh t \<and> c_client x \<noteq> 0 \<and>
      map_option sk_handle_delete (socks t (c_client x)) = Some True"
    if x: "x \<in> set (allClients t)" for x
  proof -
    from mem [OF x] obtain y where y: "y \<in> set (allClients s)" "c_ptr y = c_ptr x" "c_client y = c_client x" by auto
    then have "0 < c_ptr x \<and> c_ptr x < fresh s \<and> c_client x \<noteq> 0 \<and>
        map_option sk_handle_delete (socks s (c_client x)) = Some True"
      using assms(1) unfolding nodes_inv_def by metis
    with assms(2) show ?thesis
      by (cases rule: same_data_cases [OF assms(2), of "c_client x"]) (auto simp: same_data_def)
  qed
  moreover have "sk_data k < fresh t \<and> (\<forall>x \<in> set (allClients t). c_ptr x = sk_data k \<longrightarrow> c_client x = c)"
    if k: "socks t c = Some k" for c k
  proof -
    obtain k' where k': "socks s c = Some k'" "sk_data k = sk_data k'"
      using k by (cases rule: same_data_cases [OF assms(2), of c]) auto
    then have "sk_data k' < fresh s" "\<forall>y \<in> set (allClients s). c_ptr y = sk_data k' \<longrightarrow> c_client y = c"
      using assms(1) by (auto simp: nodes_inv_def)
    then show ?thesis using assms(2) mem k'(2) by (force simp: same_data_def)
  qed
  ultimately show ?thesis by (simp add: nodes_inv_def)
qed

lemma nodes_inv_talk: "nodes_inv s \<Longrightarrow> talk s t \<Longrightarrow> nodes_inv t"
  using talk_fields [of s t] talk_same_data [of s t]
  by (intro nodes_inv_same [of s t]) (auto simp: nodes_inv_def clients_inv_def)

lemma subs_inv_same:
  "subs_inv rx A s \<Longrightarrow> messSndByRegexp t = messSndByRegexp s \<Longrightarrow>
     map c_client (allClients t) = map c_client (allClients s) \<Longrightarrow> subs_inv rx A t"
  unfolding subs_inv_def by (metis list.set_map)

lemma core_inv_talk: "core_inv rx A s \<Longrightarrow> talk s t \<Longrightarrow> core_inv rx A t"
  using nodes_inv_talk [of s t] subs_inv_same [of rx A s t] talk_fields(1,2) [of s t] by (simp add: core_inv_def)

lemma core_inv_eq:
  "core_inv rx A s \<Longrightarrow> same_data s t \<Longrightarrow> allClients t = allClients s \<Longrightarrow>
     messSndByRegexp t = messSndByRegexp s \<Longrightarrow> core_inv rx A t"
  using nodes_inv_same [of s t] subs_inv_same [of rx A s t]
  by (force simp: core_inv_def nodes_inv_def clients_inv_def same_data_def)

lemma upd_clnt_maps:
  assumes "\<And>x. x \<in> set (allClients s) \<Longrightarrow> c_ptr x = p \<Longrightarrow> c_ptr (f x) = p \<and> c_client (f x) = c_client x"
  shows "map (\<lambda>x. (c_ptr x, c_client x)) (allClients (upd_clnt p f s)) =
         map (\<lambda>x. (c_ptr x, c_client x)) (allClients s)"
  using assms by (auto simp: upd_clnt_def)

lemma core_inv_nodes:
  assumes "core_inv rx A s" and "same_data s t" and "messSndByRegexp t = messSndByRegexp s"
    and maps: "map (\<lambda>x. (c_ptr x, c_client x)) (allClients t) = map (\<lambda>x. (c_ptr x, c_client x)) (allClients s)"
    and "\<forall>x \<in> set (allClients t). distinct (map gr_addr (c_srcRegList x)) \<and>
           (\<forall>g \<in> set (c_srcRegList x). gr_addr g < fresh t)"
  shows "core_inv rx A t"
proof -
  have "nodes_inv s" "subs_inv rx A s" using assms(1) by (simp_all add: core_inv_def)
  moreover have "map c_client (allClients t) = map c_client (allClients s)"
    using arg_cong [OF maps, of "map snd"] by (simp add: comp_def)
  ultimately show ?thesis
    unfolding core_inv_def using nodes_inv_same [OF _ assms(2,4,5)] subs_inv_same [OF _ assms(3)] by simp
qed

lemma core_regs_bound:
  "core_inv rx A s \<Longrightarrow> x \<in> set (allClients s) \<Longrightarrow>
     distinct (map gr_addr (c_srcRegList x)) \<and> (\<forall>g \<in> set (c_srcRegList x). gr_addr g < fresh s)"
  by (simp add: core_inv_def nodes_inv_def clients_inv_def)

lemma core_inv_upd:
  assumes "core_inv rx A s"
    and "\<And>x. x \<in> set (allClients s) \<Longrightarrow> c_ptr x = p \<Longrightarrow>
      c_ptr (f x) = p \<and> c_client (f x) = c_client x \<and> c_srcRegList (f x) = c_srcRegList x"
  shows "core_inv rx A (upd_clnt p f s)"
proof -
  let ?t = "upd_clnt p f s"
  have maps: "map (\<lambda>x. (c_ptr x, c_client x)) (allClients ?t) = map (\<lambda>x. (c_ptr x, c_client x)) (allClients s)"
    by (rule upd_clnt_maps) (use assms(2) in simp)
  have regs: "map c_srcRegList (allClients ?t) = map c_srcRegList (allClients s)"
    using assms(2) by (simp add: upd_clnt_def)
  have "\<forall>l \<in> set (map c_srcRegList (allClients ?t)). distinct (map gr_addr l) \<and> (\<forall>g \<in> set l. gr_addr g < fresh s)"
    unfolding regs using core_regs_bound [OF assms(1)] by simp
  then have "\<forall>x \<in> set (allClients ?t). distinct (map gr_addr (c_srcRegList x)) \<and>
      (\<forall>g \<in> set (c_srcRegList x). gr_addr g < fresh ?t)" by simp
  then show ?thesis using maps by (intro core_inv_nodes [OF assms(1)]) (simp_all add: same_data_def)
qed

lemma core_inv_frame [simp]:
  "core_inv rx A (emit_if b e s) = core_inv rx A s" "core_inv rx A (emit e s) = core_inv rx A s"
  "core_inv rx A (s\<lparr>exited := x\<rparr>) = core_inv rx A s" "core_inv rx A (s\<lparr>msg_recv := ms\<rparr>) = core_inv rx A s"
  "core_inv rx A (s\<lparr>arrivals := a\<rparr>) = core_inv rx A s" "core_inv rx A (s\<lparr>lp := l\<rparr>) = core_inv rx A s"
  by (simp_all add: core_inv_def nodes_inv_def subs_inv_def fresh_ok_def clients_inv_def)


section \<open>Subscriptions\<close>

lemma dict_update_nodes [simp]: "nodes_inv (s\<lparr>messSndByRegexp := d\<rparr>) = nodes_inv s"
  by (simp add: nodes_inv_def clients_inv_def fresh_ok_def)

lemma bind_ok_map_filter:
  "bind_ok rx d \<Longrightarrow> (\<And>e e'. f e = Some e' \<Longrightarrow> d_binding e' = d_binding e \<and> d_regexp_src e' = d_regexp_src e) \<Longrightarrow>
     bind_ok rx (List.map_filter f d)"
  by (fastforce simp: bind_ok_def map_filter_def)

lemma purge_entry_binding:
  "purge_entry P e = Some e' \<Longrightarrow> d_binding e' = d_binding e \<and> d_regexp_src e' = d_regexp_src e"
  by (auto simp: purge_entry_def Let_def split: if_splits)

lemma bind_ok_remove:
  "bind_ok rx d \<Longrightarrow> bind_ok rx (delRegexpForOneClientFromDictionary r c i d)"
  by (auto simp: delRegexpForOneClientFromDictionary_def delOneIvyClientFromDictionaryEntry_def
      split: option.split if_splits intro!: bind_ok_map_filter dest: purge_entry_binding)

lemma bind_ok_purge: "bind_ok rx d \<Longrightarrow> bind_ok rx (purge_client c d)"
  by (auto simp: purge_client_def delOneClientFromDictionaryEntry_def
      intro!: bind_ok_map_filter dest: purge_entry_binding)

lemma addRegexpToDictionary_core:
  assumes "core_inv rx A s" and "addRegexpToDictionary rx r cl s = Inr t"
    and "is_int32 (c_id cl)" and "c_client cl \<in> c_client ` set (allClients s)"
  shows "core_inv rx A t" and "allClients t = allClients s" and "fresh t = fresh s"
proof -
  have inv: "nodes_inv s" "subs_inv rx A s" using assms(1) by (simp_all add: core_inv_def)
  from addRegexpToDictionary_ok [OF assms(2)] inv(2) obtain u d where
    u: "talk s u" "t = u\<lparr>messSndByRegexp := d\<rparr>" "dict_inv d" "bind_ok rx d"
      "subs d = insert (r, c_client cl, c_id cl) (subs (messSndByRegexp s))"
    by (auto simp: subs_inv_def)
  have fr: "allClients u = allClients s" "fresh u = fresh s" using talk_fields [OF u(1)] by simp_all
  then show "allClients t = allClients s" "fresh t = fresh s" using u(2) by simp_all
  have "nodes_inv t" using nodes_inv_talk [OF inv(1) u(1)] u(2) by simp
  moreover have "subs_inv rx A t"
    using inv(2) u assms(3,4) fr by (auto simp: subs_inv_def)
  ultimately show "core_inv rx A t" by (simp add: core_inv_def)
qed

text \<open>New regexps for one node.\<close>

lemma core_inv_regs:
  assumes "core_inv rx A s" and "x \<in> set (allClients s)"
    and "distinct (map gr_addr (f (c_srcRegList x)))" and "fresh s \<le> n"
    and "\<forall>g \<in> set (f (c_srcRegList x)). gr_addr g < n"
  shows "core_inv rx A (upd_clnt (c_ptr x) (\<lambda>c. c\<lparr>c_srcRegList := f (c_srcRegList c)\<rparr>) (s\<lparr>fresh := n\<rparr>))"
proof -
  let ?t = "upd_clnt (c_ptr x) (\<lambda>c. c\<lparr>c_srcRegList := f (c_srcRegList c)\<rparr>) (s\<lparr>fresh := n\<rparr>)"
  have maps: "map (\<lambda>x. (c_ptr x, c_client x)) (allClients ?t) = map (\<lambda>x. (c_ptr x, c_client x)) (allClients s)"
    by (simp add: upd_clnt_def)
  have inv: "clients_inv s" using assms(1) by (simp add: core_inv_def nodes_inv_def)
  have eq: "y = x" if "y \<in> set (allClients s)" "c_ptr y = c_ptr x" for y
    using that assms(2) inv unfolding clients_inv_def by (metis distinct_map inj_onD)
  have "distinct (map gr_addr (c_srcRegList z)) \<and> (\<forall>g \<in> set (c_srcRegList z). gr_addr g < n)"
    if z: "z \<in> set (allClients ?t)" for z
  proof -
    from z obtain y where y: "y \<in> set (allClients s)"
      "z = (if c_ptr y = c_ptr x then y\<lparr>c_srcRegList := f (c_srcRegList y)\<rparr> else y)"
      by (auto simp: upd_clnt_def)
    show ?thesis
    proof (cases "c_ptr y = c_ptr x")
      case True
      with eq [OF y(1)] have "y = x" by blast
      with y(2) assms(3,5) show ?thesis by simp
    next
      case False
      with y core_regs_bound [OF assms(1) y(1)] assms(4) show ?thesis by auto
    qed
  qed
  then have "\<forall>z \<in> set (allClients ?t). distinct (map gr_addr (c_srcRegList z)) \<and>
      (\<forall>g \<in> set (c_srcRegList z). gr_addr g < fresh ?t)" by simp
  then show ?thesis using maps assms(4) by (intro core_inv_nodes [OF assms(1)]) (simp_all add: same_data_def)
qed

lemma find_by_socket_Some: "find_by_socket c s = Some x \<Longrightarrow> x \<in> set (allClients s) \<and> c_client x = c"
  unfolding find_by_socket_def by (rule find_Some_mem)

lemma addRegexp_core:
  assumes "core_inv rx A s" and "addRegexp rx r cl s = Inr t"
    and "is_int32 (c_id cl)" and "c_client cl \<in> c_client ` set (allClients s)"
  shows "core_inv rx A t"
proof -
  from assms(2) obtain u x where u: "addRegexpToDictionary rx r cl s = Inr u"
    "find_by_socket (c_client cl) u = Some x"
    and t: "t = emit_if (bind_cb u) (BindEvent (c_ptr cl) (c_id cl) r IvyAddBind)
      (upd_clnt (c_ptr x) (\<lambda>c. c\<lparr>c_srcRegList :=
           \<lparr>gr_addr = fresh u, gr_str_regexp = r, gr_id = c_id cl\<rparr> # c_srcRegList c\<rparr>)
        (u\<lparr>fresh := fresh u + 1\<rparr>))"
    by (auto simp: addRegexp_def bindR_eq_Inr split: option.splits)
  note core = addRegexpToDictionary_core [OF assms(1) u(1) assms(3,4)]
  have x: "x \<in> set (allClients u)" using find_by_socket_Some [OF u(2)] by simp
  from core_regs_bound [OF core(1) x] show ?thesis
    unfolding t core_inv_frame
    by (intro core_inv_regs [OF core(1) x, of "\<lambda>l. \<lparr>gr_addr = fresh u, gr_str_regexp = r, gr_id = c_id cl\<rparr> # l"])
      (auto simp: less_Suc_eq)
qed

lemma changeRegexp_core:
  assumes "core_inv rx A s" and "changeRegexp rx r cl s = Inr t"
    and "is_int32 (c_id cl)" and "c_client cl \<in> c_client ` set (allClients s)"
  shows "core_inv rx A t"
proof -
  let ?s = "s\<lparr>messSndByRegexp :=
    delRegexpForOneClientFromDictionary r (c_client cl) (c_id cl) (messSndByRegexp s)\<rparr>"
  from assms(2) obtain u where u: "addRegexpToDictionary rx r cl ?s = Inr u"
    by (auto simp: changeRegexp_def changeRegexpInDictionary_def bindR_eq_Inr)
  have "core_inv rx A ?s"
    using assms(1) remove_subs [of "messSndByRegexp s" r "c_client cl" "c_id cl"] bind_ok_remove
    by (auto simp: core_inv_def subs_inv_def)
  note core = addRegexpToDictionary_core [OF this u assms(3)]
  have cu: "core_inv rx A u" using core(1) assms(4) by simp
  show ?thesis
  proof (cases "find_by_socket (c_client cl) u")
    case None
    with assms(2) u cu show ?thesis
      by (auto simp: changeRegexp_def changeRegexpInDictionary_def)
  next
    case (Some x)
    then have x: "x \<in> set (allClients u)" using find_by_socket_Some by blast
    define f :: "greg list \<Rightarrow> greg list" where "f = map (\<lambda>g. if gr_id g = c_id cl then g\<lparr>gr_str_regexp := r\<rparr> else g)"
    have addrs: "map gr_addr (f l) = map gr_addr l" for l unfolding f_def by (induction l) auto
    then have "gr_addr ` set (f l) = gr_addr ` set l" for l by (metis list.set_map)
    then have "\<forall>a \<in> gr_addr ` set (f (c_srcRegList x)). a < fresh u"
      using core_regs_bound [OF cu x] by simp
    then have "core_inv rx A (upd_clnt (c_ptr x) (\<lambda>c. c\<lparr>c_srcRegList := f (c_srcRegList c)\<rparr>) (u\<lparr>fresh := fresh u\<rparr>))"
      using core_regs_bound [OF cu x] addrs by (intro core_inv_regs [OF cu x]) simp_all
    moreover have "t = emit_if (bind_cb u) (BindEvent (c_ptr cl) (c_id cl) r IvyChangeBind)
        (upd_clnt (c_ptr x) (\<lambda>c. c\<lparr>c_srcRegList := f (c_srcRegList c)\<rparr>) (u\<lparr>fresh := fresh u\<rparr>))"
      using assms(2) u Some by (simp add: changeRegexp_def changeRegexpInDictionary_def f_def)
    ultimately show ?thesis by simp
  qed
qed

lemma addOrChangeRegexp_core:
  assumes "core_inv rx A s" and "addOrChangeRegexp rx r cl s = Inr t"
    and "is_int32 (c_id cl)" and "c_client cl \<in> c_client ` set (allClients s)"
  shows "core_inv rx A t"
  using assms(2) addRegexp_core [OF assms(1) _ assms(3,4)] changeRegexp_core [OF assms(1) _ assms(3,4)]
  by (auto simp: addOrChangeRegexp_def split: option.splits if_splits)


section \<open>Removal\<close>

lemma core_inv_dict:
  assumes "core_inv rx A s" and "dict_inv d" and "bind_ok rx d" and "subs d \<subseteq> subs (messSndByRegexp s)"
  shows "core_inv rx A (s\<lparr>messSndByRegexp := d\<rparr>)"
  using assms unfolding core_inv_def subs_inv_def by auto

lemma bind_ok_fold_remove:
  "bind_ok rx d \<Longrightarrow> bind_ok rx (fold (\<lambda>g. delRegexpForOneClientFromDictionary (f g) c i) gs d)"
  by (induction gs arbitrary: d) (simp_all add: bind_ok_remove)

lemma delRegexp_core:
  assumes "core_inv rx A s"
  shows "core_inv rx A (snd (delRegexpForOneClient cl i s))"
proof (cases "find_by_socket (c_client cl) s")
  case (Some x)
  then have x: "x \<in> set (allClients s)" using find_by_socket_Some by blast
  define d where "d = fold (\<lambda>g. delRegexpForOneClientFromDictionary (gr_str_regexp g) (c_client cl) (c_id cl))
      (filter (\<lambda>g. gr_id g = i) (c_srcRegList x)) (messSndByRegexp s)"
  have "dict_inv (messSndByRegexp s)" "bind_ok rx (messSndByRegexp s)"
    using assms by (simp_all add: core_inv_def subs_inv_def)
  then have "dict_inv d" "subs d \<subseteq> subs (messSndByRegexp s)" "bind_ok rx d"
    using st.fold_remove [of "messSndByRegexp s" gr_str_regexp "c_client cl" "c_id cl"
        "filter (\<lambda>g. gr_id g = i) (c_srcRegList x)"] bind_ok_fold_remove [of rx "messSndByRegexp s"]
    by (auto simp: d_def)
  then have c: "core_inv rx A (s\<lparr>messSndByRegexp := d\<rparr>)" using core_inv_dict [OF assms] by blast
  have x': "x \<in> set (allClients (s\<lparr>messSndByRegexp := d\<rparr>))" using x by simp
  have "core_inv rx A (upd_clnt (c_ptr x) (\<lambda>c. c\<lparr>c_srcRegList := filter (\<lambda>g. gr_id g \<noteq> i) (c_srcRegList c)\<rparr>)
      (s\<lparr>messSndByRegexp := d\<rparr>\<lparr>fresh := fresh s\<rparr>))"
    using core_regs_bound [OF assms x]
    by (intro core_inv_regs [OF c x']) (simp_all add: distinct_map_fst_filter)
  then show ?thesis using Some by (simp add: delRegexpForOneClient_def Let_def d_def)
qed (use assms in \<open>simp add: delRegexpForOneClient_def\<close>)

text \<open>The node and the socket of every client.\<close>

definition nodes :: "ivy \<Rightarrow> (nat \<times> nat) list" where
  "nodes s = map (\<lambda>x. (c_ptr x, c_client x)) (allClients s)"

lemma upd_nodes:
  "(\<And>x. c_ptr (f x) = c_ptr x \<and> c_client (f x) = c_client x) \<Longrightarrow> nodes (upd_clnt p f s) = nodes s"
  by (simp add: nodes_def upd_clnt_def)

lemma delRegexp_nodes: "nodes (snd (delRegexpForOneClient cl i s)) = nodes s"
  by (auto simp: delRegexpForOneClient_def Let_def nodes_def upd_clnt_def split: option.split)

lemma core_inv_filter:
  assumes "core_inv rx A s" and "\<And>x. x \<in> set (allClients s) \<Longrightarrow> \<not> P x \<Longrightarrow> c_client x \<in> A"
  shows "core_inv rx A (s\<lparr>allClients := filter P (allClients s)\<rparr>)"
proof -
  have "nodes_inv (s\<lparr>allClients := filter P (allClients s)\<rparr>)"
    using assms(1) by (auto simp: core_inv_def nodes_inv_def fresh_ok_def clients_inv_def distinct_map_fst_filter)
  moreover have "subs_inv rx A (s\<lparr>allClients := filter P (allClients s)\<rparr>)"
  proof -
    have "c \<in> A \<union> c_client ` set (filter P (allClients s))" if "c \<in> A \<union> c_client ` set (allClients s)" for c
      using that assms(2) by auto
    with assms(1) show ?thesis unfolding core_inv_def subs_inv_def by simp
  qed
  ultimately show ?thesis by (simp add: core_inv_def)
qed

lemma core_inv_mono: "core_inv rx A s \<Longrightarrow> A \<subseteq> B \<Longrightarrow> core_inv rx B s"
  unfolding core_inv_def subs_inv_def by blast

lemma drop_reg_core: "drop_reg p a s = Inr t \<Longrightarrow> core_inv rx A s \<Longrightarrow> core_inv rx A t \<and> nodes t = nodes s"
  by (auto simp: drop_reg_def delRegexp_core delRegexp_nodes split: option.splits)

lemma nodes_unique:
  assumes "core_inv rx A s" and "x \<in> set (allClients s)" and "y \<in> set (allClients s)" and "c_ptr y = c_ptr x"
  shows "y = x"
  using assms unfolding core_inv_def nodes_inv_def clients_inv_def by (metis distinct_map inj_onD)

lemma drop_client_core:
  assumes "drop_client client p s = Inr t" and "core_inv rx A s" and "client \<in> A"
  shows "core_inv rx A t \<and> set (nodes t) \<subseteq> set (nodes s) \<and> (p, client) \<notin> set (nodes t)"
proof -
  from assms(1) obtain c where c: "find_clnt p s = Some c" by (auto simp: drop_client_def split: option.splits)
  then have cm: "c \<in> set (allClients s)" "c_ptr c = p" using find_clnt_Some by auto
  show ?thesis
  proof (cases "c_client c = client")
    case False
    have "(p, client) \<notin> set (nodes s)"
      using nodes_unique [OF assms(2) cm(1)] cm(2) False by (auto simp: nodes_def)
    with False assms c show ?thesis by (auto simp: drop_client_def)
  next
    case True
    with assms c obtain u where u: "IVY_LIST_EACH_SAFE (reg_addrs p) (drop_reg p) s = Inr u"
      "t = u\<lparr>allClients := filter (\<lambda>c. c_ptr c \<noteq> p) (allClients u)\<rparr>"
      by (auto simp: drop_client_def bindR_eq_Inr)
    have u2: "core_inv rx A u \<and> nodes u = nodes s"
      using u(1) unfolding IVY_LIST_EACH_SAFE_def
      by (rule each_safe_invariant [where I = "\<lambda>u. core_inv rx A u \<and> nodes u = nodes s"])
        (use assms(2) drop_reg_core in auto)
    have "c_client x \<in> A" if "x \<in> set (allClients u)" "\<not> c_ptr x \<noteq> p" for x
    proof -
      from that have "(p, c_client x) \<in> set (nodes u)" by (force simp: nodes_def)
      then have "(p, c_client x) \<in> set (nodes s)" using u2 by simp
      then obtain y where "y \<in> set (allClients s)" "c_ptr y = p" "c_client y = c_client x"
        by (auto simp: nodes_def)
      with nodes_unique [OF assms(2) cm(1)] cm(2) True assms(3) show ?thesis by auto
    qed
    then have "core_inv rx A t" unfolding u(2) using u2 by (intro core_inv_filter) blast+
    moreover have "nodes t = filter (\<lambda>k. fst k \<noteq> p) (nodes u)"
      by (simp add: nodes_def u(2) filter_map comp_def)
    ultimately show ?thesis using u2 by auto
  qed
qed

lemma drop_clients_core:
  assumes "foldR (drop_client client) ps s = Inr t" and "core_inv rx A s" and "client \<in> A"
  shows "core_inv rx A t \<and> set (nodes t) \<subseteq> set (nodes s) \<and> (\<forall>p \<in> set ps. (p, client) \<notin> set (nodes t))"
  using assms(1,2)
proof (induction ps arbitrary: s)
  case (Cons p ps)
  then obtain u where u: "drop_client client p s = Inr u" "foldR (drop_client client) ps u = Inr t"
    by (auto simp: bindR_eq_Inr)
  from drop_client_core [OF u(1) Cons.prems(2) assms(3)] Cons.IH [OF u(2)] show ?case by auto
qed simp

lemma delOneClient_core:
  assumes "delOneClient client s = Inr t" and "core_inv rx A s"
  shows "core_inv rx A t \<and> client \<notin> c_client ` set (allClients t)"
proof -
  have ci: "clients_inv s" using assms(2) by (simp add: core_inv_def nodes_inv_def)
  from assms(1) obtain u where u: "foldR (drop_client client) (client_ptrs s) s = Inr u"
    "t = u\<lparr>messSndByRegexp := purge_client client (messSndByRegexp u)\<rparr>"
    by (auto simp: delOneClient_def bindR_eq_Inr drop_clients_foldR [OF ci])
  have "core_inv rx (insert client A) s" by (rule core_inv_mono [OF assms(2)]) auto
  from drop_clients_core [OF u(1) this] have
    c: "core_inv rx (insert client A) u" and n: "set (nodes u) \<subseteq> set (nodes s)"
      "\<forall>p \<in> set (client_ptrs s). (p, client) \<notin> set (nodes u)" by auto
  have gone: "client \<notin> c_client ` set (allClients u)"
  proof
    assume "client \<in> c_client ` set (allClients u)"
    then obtain x where "x \<in> set (allClients u)" "c_client x = client" by auto
    then have "(c_ptr x, client) \<in> set (nodes u)" by (force simp: nodes_def)
    moreover from this n(1) have "c_ptr x \<in> set (client_ptrs s)"
      by (force simp: nodes_def client_ptrs_def)
    ultimately show False using n(2) by blast
  qed
  have d: "dict_inv (messSndByRegexp u)" "bind_ok rx (messSndByRegexp u)"
    using c by (simp_all add: core_inv_def subs_inv_def)
  have "core_inv rx A t"
    using c purge_subs [OF d(1), of client] bind_ok_purge [OF d(2), of client]
    unfolding core_inv_def subs_inv_def u(2) by auto
  with gone u(2) show ?thesis by simp
qed


section \<open>Steps of the protocol\<close>

lemma core_msg_to: "msg_to p c t i m s = Inr u \<Longrightarrow> core_inv rx A s \<Longrightarrow> core_inv rx A u"
  using core_inv_talk msg_to_talk by blast

lemma core_on_loop: "on_loop f s = Inr t \<Longrightarrow> core_inv rx A s \<Longrightarrow> core_inv rx A t"
  by (auto simp: on_loop_def bindR_eq_Inr)

lemma core_SocketClose: "SocketClose c s = Inr t \<Longrightarrow> core_inv rx A s \<Longrightarrow> core_inv rx A t"
  by (auto simp: SocketClose_def deref_eq_Inr split: if_splits dest: core_on_loop)

lemma core_send_ready: "send_ready rx p s = Inr t \<Longrightarrow> core_inv rx' A s \<Longrightarrow> core_inv rx' A t"
  using core_inv_talk send_ready_talk by blast

lemma core_bad_format:
  assumes "bad_format cl c s = Inr t" and "core_inv rx A s"
    and "\<And>x. x \<in> set (allClients s) \<Longrightarrow> c_ptr x = c_ptr cl \<Longrightarrow> c_client x = c"
  shows "core_inv rx A t"
proof -
  have "core_inv rx A (upd_clnt (c_ptr cl) (\<lambda>x. x\<lparr>c_client := c\<rparr>) s)"
    using assms(2,3) by (intro core_inv_upd) auto
  with assms(1) show ?thesis
    by (auto simp: bad_format_def bindR_eq_Inr dest!: core_msg_to core_SocketClose)
qed

lemma core_refuse: "refuse x s = Inr t \<Longrightarrow> core_inv rx A s \<Longrightarrow> core_inv rx A t"
  by (auto simp: refuse_def IvySendError_def bindR_eq_Inr dest!: core_msg_to core_SocketClose intro: core_inv_upd)

lemma core_StartRegexp: "receive_StartRegexp cl i a s = Inr t \<Longrightarrow> core_inv rx A s \<Longrightarrow> core_inv rx A t"
proof -
  let ?s = "upd_clnt (c_ptr cl) (\<lambda>c. c\<lparr>c_app_name := a, c_app_port := u16 i\<rparr>) s"
  assume a: "receive_StartRegexp cl i a s = Inr t" "core_inv rx A s"
  then have "core_inv rx A ?s" by (intro core_inv_upd) auto
  moreover from a(1) have "t = ?s \<or> (\<exists>x. refuse x ?s = Inr t)"
    by (auto simp: receive_StartRegexp_def bindR_eq_Inr Let_def split: option.splits)
  ultimately show ?thesis using core_refuse by blast
qed

lemma core_EndRegexp:
  "receive_EndRegexp rx cl s = Inr t \<Longrightarrow> core_inv rx' A s \<Longrightarrow> core_inv rx' A t"
  by (auto simp: receive_EndRegexp_def dest!: core_send_ready intro!: core_inv_upd)

lemma core_AddRegexp:
  "receive_AddRegexp rx cl i a s = Inr t \<Longrightarrow> core_inv rx A s \<Longrightarrow> is_int32 (c_id cl) \<Longrightarrow>
     c_client cl \<in> c_client ` set (allClients s) \<Longrightarrow> core_inv rx A t"
  by (auto simp: receive_AddRegexp_def bindR_eq_Inr split: if_splits intro: addOrChangeRegexp_core)

lemma core_DelRegexp: "core_inv rx A s \<Longrightarrow> core_inv rx A (receive_DelRegexp cl i a s)"
  using delRegexp_core by (simp add: receive_DelRegexp_def split_beta)

lemma core_Msg: "receive_Msg cl i a s = Inr t \<Longrightarrow> core_inv rx A s \<Longrightarrow> core_inv rx A t"
  by (auto simp: receive_Msg_def bindR_eq_Inr split: option.splits)

lemma core_Pong: "core_inv rx A s \<Longrightarrow> core_inv rx A (receive_Pong cl i s)"
  by (auto simp: receive_Pong_def Let_def intro: core_inv_upd)

text \<open>Shutting down: the nodes go one by one, after the dictionary has no use any more.\<close>

lemma core_say_bye:
  assumes "say_bye c s = Inr t" and "core_inv rx UNIV s"
  shows "core_inv rx UNIV t"
proof -
  from assms(1) obtain u v where u: "msg_to (c_ptr c) (c_client c) Bye 0 [] s = Inr u"
    "SocketClose (c_client c) u = Inr v" "t = v\<lparr>allClients := filter (\<lambda>x. c_ptr x \<noteq> c_ptr c) (allClients v)\<rparr>"
    by (auto simp: say_bye_def bindR_eq_Inr)
  have "core_inv rx UNIV v" using u(1,2) assms(2) core_msg_to core_SocketClose by blast
  then show ?thesis unfolding u(3) by (rule core_inv_filter) simp
qed

lemma core_SocketServerClose: "SocketServerClose c s = Inr t \<Longrightarrow> core_inv rx A s \<Longrightarrow> core_inv rx A t"
  by (auto simp: SocketServerClose_def split: if_splits option.splits dest: core_on_loop)

lemma core_IvyCleanup:
  assumes "IvyCleanup s = Inr t" and "core_inv rx A s"
  shows "core_inv rx A t"
proof -
  from assms(1) obtain u v where u: "foldR say_bye (allClients s) s = Inr u"
    "SocketServerClose (srv u) (delAllRegexpsFromDictionary u) = Inr v" "SocketClose (bcast v) v = Inr t"
    by (auto simp: IvyCleanup_def bindR_eq_Inr)
  have "core_inv rx UNIV u"
    using u(1) by (rule foldR_invariant [where I = "core_inv rx UNIV"])
      (use assms(2) core_inv_mono core_say_bye in blast)+
  then have "core_inv rx A (delAllRegexpsFromDictionary u)"
    by (simp add: core_inv_def subs_inv_def delAllRegexpsFromDictionary_def dict_inv_def bind_ok_def subs_def)
  with u(2,3) show ?thesis using core_SocketServerClose core_SocketClose by blast
qed

lemma core_Die: "receive_Die cl i s = Inr t \<Longrightarrow> core_inv rx A s \<Longrightarrow> core_inv rx A t"
  by (auto simp: receive_Die_def bindR_eq_Inr dest!: core_IvyCleanup)

lemma core_interpret_msg:
  assumes "interpret_msg rx cl c kind i a s = Inr t" and "core_inv rx A s" and "is_int32 (c_id cl)"
    and "c_client cl \<in> c_client ` set (allClients s)"
  shows "core_inv rx A t"
  using assms unfolding interpret_msg_def
  by (auto simp: core_DelRegexp core_Pong split: if_splits
      dest: core_SocketClose core_AddRegexp core_StartRegexp core_EndRegexp core_Msg core_Die core_msg_to)

lemma s32_range: "is_int32 (s32 x)"
  by (simp add: s32_def is_int32_def)

lemma scan_d_int32: "scan_d l = Some (i, r) \<Longrightarrow> is_int32 i"
  by (auto simp: scan_d_def Let_def s32_range split: prod.splits if_splits)

lemma scan_d_d_int32: "scan_d_d l = Some (k, i) \<Longrightarrow> is_int32 i"
  by (auto simp: scan_d_d_def bind_eq_Some_conv dest: scan_d_int32)

lemma Receive_cases:
  assumes "Receive rx c p line s = Inr t"
  obtains (ignored) cl where "find_clnt p s = Some cl" "t = s"
    | (bad) cl where "find_clnt p s = Some cl" "bad_format cl c s = Inr t"
    | (msg) cl kind i a where "find_clnt p s = Some cl" "scan_d_d line = Some (kind, i)"
        "interpret_msg rx (cl\<lparr>c_id := i\<rparr>) c kind i a (upd_clnt p (\<lambda>c. c\<lparr>c_id := i\<rparr>) s) = Inr t"
proof -
  have p: "p \<noteq> 0" using assms by (cases "p = 0") (simp_all add: Receive_def with_app_def)
  obtain cl where cl: "find_clnt p s = Some cl"
    using assms p by (cases "find_clnt p s") (simp_all add: Receive_def with_app_def)
  note r = assms [unfolded Receive_def with_app_def if_not_P [OF p] cl option.case]
  show thesis
  proof (cases "c_ignore_subsequent_msg cl")
    case True
    with r show thesis by (intro ignored [OF cl]) simp
  next
    case False
    note r = r [unfolded if_not_P [OF False]]
    show thesis
    proof (cases "scan_d_d line")
      case None
      with r show thesis by (intro bad [OF cl]) simp
    next
      case (Some ki)
      obtain kind i where ki: "ki = (kind, i)" by fastforce
      show thesis
      proof (cases "strstr line [ARG_START]")
        case None
        with Some ki r show thesis by (intro bad [OF cl]) simp
      next
        case a: (Some a)
        show thesis
          by (rule msg [OF cl]) (use Some ki a r in simp_all)
      qed
    qed
  qed
qed

lemma clients_upd:
  assumes "\<And>x. c_client (f x) = c_client x"
  shows "c_client ` set (allClients (upd_clnt p f s)) = c_client ` set (allClients s)"
proof -
  have "map c_client (allClients (upd_clnt p f s)) = map c_client (allClients s)"
    using assms by (simp add: upd_clnt_def)
  then show ?thesis by (metis list.set_map)
qed

lemma core_Receive:
  assumes "Receive rx c p line s = Inr t" and "core_inv rx A s"
    and "\<And>x. x \<in> set (allClients s) \<Longrightarrow> c_ptr x = p \<Longrightarrow> c_client x = c"
  shows "core_inv rx A t"
  using assms(1)
proof (cases rule: Receive_cases)
  case (bad cl)
  then have p: "c_ptr cl = p" using find_clnt_Some by blast
  show ?thesis using bad(2) assms(2) by (rule core_bad_format) (use assms(3) p in simp)
next
  case (msg cl kind i a)
  then have mem: "cl \<in> set (allClients s)" using find_clnt_Some by blast
  have "core_inv rx A (upd_clnt p (\<lambda>c. c\<lparr>c_id := i\<rparr>) s)"
    by (rule core_inv_upd [OF assms(2)]) simp
  moreover have "is_int32 (c_id (cl\<lparr>c_id := i\<rparr>))" using scan_d_d_int32 [OF msg(2)] by simp
  moreover have "c_client (cl\<lparr>c_id := i\<rparr>) \<in> c_client ` set (allClients (upd_clnt p (\<lambda>c. c\<lparr>c_id := i\<rparr>) s))"
    using mem by (simp add: clients_upd)
  ultimately show ?thesis by (rule core_interpret_msg [OF msg(3)])
qed (use assms(2) in simp)


section \<open>Connections\<close>

lemma core_inv_sockst [simp]:
  "core_inv rx A (s\<lparr>accepts := a\<rparr>) = core_inv rx A s"
  "core_inv rx A (s\<lparr>connects := b\<rparr>) = core_inv rx A s"
  "core_inv rx A (s\<lparr>dialled := c\<rparr>) = core_inv rx A s"
  "core_inv rx A (s\<lparr>closed_fds := d\<rparr>) = core_inv rx A s"
  "core_inv rx A (s\<lparr>clients_list := e\<rparr>) = core_inv rx A s"
  "core_inv rx A (s\<lparr>net := n\<rparr>) = core_inv rx A s"
  "core_inv rx A (fresh_wire fd s) = core_inv rx A s"
  "core_inv rx A (link_client x s) = core_inv rx A s"
  by (simp_all add: core_inv_def nodes_inv_def subs_inv_def fresh_ok_def clients_inv_def fresh_wire_def
      link_client_def)

text \<open>A new socket is no client's yet, and has no data.\<close>

lemma core_invD:
  assumes "core_inv rx A s"
  shows "fresh_ok s" "clients_inv s" "subs_inv rx A s"
    "\<And>x. x \<in> set (allClients s) \<Longrightarrow> 0 < c_ptr x \<and> c_ptr x < fresh s \<and> c_client x \<noteq> 0 \<and>
        map_option sk_handle_delete (socks s (c_client x)) = Some True"
    "\<And>c k. socks s c = Some k \<Longrightarrow> sk_data k < fresh s \<and>
        (\<forall>x \<in> set (allClients s). c_ptr x = sk_data k \<longrightarrow> c_client x = c)"
  using assms by (auto simp: core_inv_def nodes_inv_def)

lemma core_invI:
  assumes "fresh_ok s" "clients_inv s" "subs_inv rx A s"
    "\<And>x. x \<in> set (allClients s) \<Longrightarrow> 0 < c_ptr x \<and> c_ptr x < fresh s \<and> c_client x \<noteq> 0 \<and>
        map_option sk_handle_delete (socks s (c_client x)) = Some True"
    "\<And>c k. socks s c = Some k \<Longrightarrow> sk_data k < fresh s \<and>
        (\<forall>x \<in> set (allClients s). c_ptr x = sk_data k \<longrightarrow> c_client x = c)"
  shows "core_inv rx A s"
  using assms by (simp add: core_inv_def nodes_inv_def)

lemma alloc_other: "c \<noteq> fresh s \<Longrightarrow> socks (alloc_client mk fd s) c = socks s c"
  by (auto simp: alloc_client_def Let_def)

lemma alloc_new:
  "socks (alloc_client mk fd s) (fresh s) = Some (mk (fresh s + 1))"
  "fresh (alloc_client mk fd s) = fresh s + 2" "allClients (alloc_client mk fd s) = allClients s"
  "messSndByRegexp (alloc_client mk fd s) = messSndByRegexp s"
  by (simp_all add: alloc_client_def Let_def)

lemma core_fresh:
  assumes "core_inv rx A s"
  shows "fresh s \<noteq> 0" "socks s (fresh s) = None" "fresh s \<notin> c_client ` set (allClients s)"
proof -
  note inv = core_invD [OF assms]
  show none: "fresh s \<noteq> 0" "socks s (fresh s) = None" using inv(1) by (simp_all add: fresh_ok_def)
  show "fresh s \<notin> c_client ` set (allClients s)"
  proof
    assume "fresh s \<in> c_client ` set (allClients s)"
    then obtain x where x: "x \<in> set (allClients s)" "c_client x = fresh s" by auto
    with inv(4) [OF x(1)] none(2) show False by simp
  qed
qed

lemma core_alloc:
  assumes "core_inv rx A s" and "\<And>ch. sk_data (mk ch) = 0"
  shows "core_inv rx A (alloc_client mk fd s)"
proof (rule core_invI)
  note inv = core_invD [OF assms(1)] and eqs = alloc_new [of mk fd s]
  show "fresh_ok (alloc_client mk fd s)"
    using inv(1) by (simp add: fresh_ok_def eqs alloc_other)
  show "clients_inv (alloc_client mk fd s)" using inv(2) by (simp add: clients_inv_def eqs) fastforce
  show "subs_inv rx A (alloc_client mk fd s)"
    by (rule subs_inv_same [OF inv(3)]) (simp_all add: eqs)
  fix x assume "x \<in> set (allClients (alloc_client mk fd s))"
  then have x: "x \<in> set (allClients s)" by (simp add: eqs)
  with core_fresh(3) [OF assms(1)] have "c_client x \<noteq> fresh s" by (metis imageI)
  then show "0 < c_ptr x \<and> c_ptr x < fresh (alloc_client mk fd s) \<and> c_client x \<noteq> 0 \<and>
      map_option sk_handle_delete (socks (alloc_client mk fd s) (c_client x)) = Some True"
    using inv(4) [OF x] by (simp add: eqs alloc_other)
next
  note inv = core_invD [OF assms(1)] and eqs = alloc_new [of mk fd s]
  fix c k assume k: "socks (alloc_client mk fd s) c = Some k"
  show "sk_data k < fresh (alloc_client mk fd s) \<and>
      (\<forall>x \<in> set (allClients (alloc_client mk fd s)). c_ptr x = sk_data k \<longrightarrow> c_client x = c)"
  proof (cases "c = fresh s")
    case True
    from k [unfolded True eqs(1)] have "k = mk (fresh s + 1)" by simp
    then have "sk_data k = 0" by (simp only: assms(2))
    moreover have "0 < c_ptr x" if "x \<in> set (allClients s)" for x using inv(4) [OF that] by simp
    ultimately show ?thesis by (force simp: eqs)
  next
    case False
    with k have "socks s c = Some k" by (simp add: alloc_other)
    from inv(5) [OF this] show ?thesis by (simp add: eqs)
  qed
qed

text \<open>The handshake adds the node of a socket that had none.\<close>

lemma core_add_node:
  assumes "core_inv rx A s" and "fresh s = Suc p" and "map_option sk_handle_delete (socks s c) = Some True"
    and "c \<noteq> 0" and "c \<notin> c_client ` set (allClients s)" and "0 < p"
    and "p \<notin> c_ptr ` set (allClients s)" and "\<And>c' k. socks s c' = Some k \<Longrightarrow> sk_data k < p"
    and "c_ptr x = p" "c_client x = c" "c_srcRegList x = []"
  shows "core_inv rx A (s\<lparr>allClients := x # allClients s\<rparr>)"
proof -
  note inv = core_invD [OF assms(1)]
  show ?thesis
  proof (rule core_invI)
    show "fresh_ok (s\<lparr>allClients := x # allClients s\<rparr>)" using inv(1) by (simp add: fresh_ok_def)
    show "clients_inv (s\<lparr>allClients := x # allClients s\<rparr>)"
      using inv(2) assms(5,7,9-11) by (simp add: clients_inv_def)
    show "subs_inv rx A (s\<lparr>allClients := x # allClients s\<rparr>)" using inv(3) by (auto simp: subs_inv_def)
    fix y assume "y \<in> set (allClients (s\<lparr>allClients := x # allClients s\<rparr>))"
    then show "0 < c_ptr y \<and> c_ptr y < fresh (s\<lparr>allClients := x # allClients s\<rparr>) \<and> c_client y \<noteq> 0 \<and>
        map_option sk_handle_delete (socks (s\<lparr>allClients := x # allClients s\<rparr>) (c_client y)) = Some True"
      using inv(4) [of y] assms(2-4,6,9,10) by auto
  next
    fix c' k assume "socks (s\<lparr>allClients := x # allClients s\<rparr>) c' = Some k"
    then have k: "socks s c' = Some k" by simp
    show "sk_data k < fresh (s\<lparr>allClients := x # allClients s\<rparr>) \<and>
        (\<forall>y \<in> set (allClients (s\<lparr>allClients := x # allClients s\<rparr>)). c_ptr y = sk_data k \<longrightarrow> c_client y = c')"
      using inv(5) [OF k] assms(8) [OF k] assms(9) by simp
  qed
qed

lemma core_SendService:
  assumes "SendService rx c n s = Inr (p, t)" and "core_inv rx A s"
    and "map_option sk_handle_delete (socks s c) = Some True" and "c \<noteq> 0" and "c \<notin> c_client ` set (allClients s)"
  shows "core_inv rx A t \<and> p = fresh s \<and> p < fresh t \<and> (p, c) \<in> set (nodes t)"
proof -
  let ?s = "s\<lparr>fresh := fresh s + 1\<rparr>"
  from assms(1) obtain s1 s2 s3 x where
    1: "msg_to (fresh s) c StartRegexp (int (ApplicationPort ?s)) (app_name ?s) ?s = Inr s1"
      "foldR (\<lambda>m. msg_to (fresh s) c AddRegexp (mr_id m) (mr_regexp m)) (msg_recv s1) s1 = Inr s2"
      "msg_to (fresh s) c EndRegexp 0 [] s2 = Inr s3" "p = fresh s"
      "send_ready rx (fresh s) (s3\<lparr>allClients := x # allClients s3\<rparr>) = Inr t"
    and x: "c_ptr x = fresh s" "c_client x = c" "c_srcRegList x = []"
    by (auto simp: SendService_def Let_def bindR_eq_Inr)
  have inv: "core_inv rx A ?s" using assms(2) by (rule core_inv_eq) (simp_all add: same_data_def)
  have "talk s1 s2" using 1(2) by (rule talk_foldR) (rule msg_to_talk)
  then have talk: "talk ?s s3" using 1(1,3) by (meson msg_to_talk talk_trans)
  note fr = talk_fields [OF talk] and sd = talk_same_data [OF talk]
  have old: "0 < fresh s" "fresh s \<notin> c_ptr ` set (allClients s)"
    and data: "socks s c' = Some k \<Longrightarrow> sk_data k < fresh s" for c' k
    using assms(2) by (auto simp: core_inv_def nodes_inv_def fresh_ok_def)
  have "core_inv rx A (s3\<lparr>allClients := x # allClients s3\<rparr>)"
  proof (rule core_add_node [OF core_inv_talk [OF inv talk] _ _ assms(4) _ old(1) _ _ x])
    show "map_option sk_handle_delete (socks s3 c) = Some True"
      using assms(3) by (cases rule: same_data_cases [OF sd, of c]) auto
    show "sk_data k < fresh s" if "socks s3 c' = Some k" for c' k
      using that data by (cases rule: same_data_cases [OF sd, of c']) auto
  qed (use fr old assms(5) in simp_all)
  then have "core_inv rx A t" using 1(5) core_send_ready by blast
  moreover have "talk (s3\<lparr>allClients := x # allClients s3\<rparr>) t" using 1(5) by (rule send_ready_talk)
  from talk_fields [OF this] x fr have "fresh s < fresh t" "(fresh s, c) \<in> set (nodes t)"
    by (simp_all add: nodes_def)
  ultimately show ?thesis using 1(4) by simp
qed

lemma core_set_data:
  assumes "core_inv rx A s" and "socks s c = Some k" and "d < fresh s"
    and "\<And>x. x \<in> set (allClients s) \<Longrightarrow> c_ptr x = d \<Longrightarrow> c_client x = c"
  shows "core_inv rx A (set_sock c (k\<lparr>sk_data := d\<rparr>) s)"
proof -
  let ?t = "set_sock c (k\<lparr>sk_data := d\<rparr>) s"
  have eqs: "allClients ?t = allClients s" "fresh ?t = fresh s" "messSndByRegexp ?t = messSndByRegexp s"
    by (simp_all add: set_sock_def)
  have "map_option sk_handle_delete (socks ?t c') = map_option sk_handle_delete (socks s c')" for c'
    using assms(2) by simp
  moreover have "sk_data k' < fresh s \<and> (\<forall>x \<in> set (allClients s). c_ptr x = sk_data k' \<longrightarrow> c_client x = c')"
    if "socks ?t c' = Some k'" for c' k'
    using that assms by (auto simp: core_inv_def nodes_inv_def split: if_splits)
  moreover have "fresh_ok ?t" using assms(1,2) by (auto simp: core_inv_def nodes_inv_def fresh_ok_def eqs)
  ultimately have "nodes_inv ?t"
    using assms(1) by (simp add: core_inv_def nodes_inv_def eqs clients_inv_def del: set_sock_socks)
  moreover have "subs_inv rx A ?t" using assms(1) by (simp add: core_inv_def subs_inv_def eqs)
  ultimately show ?thesis by (simp add: core_inv_def)
qed

text \<open>Changes of a socket that keep its data.\<close>

lemma core_set_sock:
  assumes "core_inv rx A s" and "socks s c = Some k"
    and "sk_data k' = sk_data k" and "sk_handle_delete k' = sk_handle_delete k"
  shows "core_inv rx A (set_sock c k' s)"
  using assms(1) by (rule core_inv_eq) (use assms(2-) in \<open>auto simp: same_data_def set_sock_def\<close>)

lemma core_SetUuid: "SocketSetUuid c u s = Inr t \<Longrightarrow> core_inv rx A s \<Longrightarrow> core_inv rx A t"
  by (auto simp: SocketSetUuid_def deref_eq_Inr intro: core_set_sock)

lemma SocketConnectAddr_cases:
  assumes "SocketConnectAddr v6 a p d f s = (c, t)"
  obtains "c = 0" "t = s\<lparr>connects := connects t, dialled := dialled t\<rparr>"
    | mk fd u where "c = fresh s" "\<And>ch. sk_data (mk ch) = d" "\<And>ch. sk_handle_delete (mk ch)"
        "u = fresh_wire fd (s\<lparr>connects := connects t, dialled := dialled t\<rparr>)"
        "t = link_client c (alloc_client mk fd u)"
proof (cases "connects s")
  case Nil
  with assms that(1) show thesis by (simp add: SocketConnectAddr_def)
next
  case (Cons x xs)
  show thesis
  proof (cases x)
    case None
    with assms Cons that(1) show thesis by (auto simp: SocketConnectAddr_def Let_def)
  next
    case (Some hl)
    with assms Cons show thesis
      by (intro that(2) [of "\<lambda>ch. new_sock (fst hl) ch v6 no_addr (snd hl) 0 f True d
              ''init by SocketConnectAddr''" _ "fst hl"])
        (auto simp: SocketConnectAddr_def Let_def new_sock_def fresh_wire_def alloc_client_def link_client_def
          split: prod.splits)
  qed
qed


text \<open>\<open>client\<close> is a socket of which the core may make a client.\<close>

definition new_client :: "ivy \<Rightarrow> nat \<Rightarrow> bool" where
  "new_client s c \<longleftrightarrow> c \<noteq> 0 \<and> c \<notin> c_client ` set (allClients s) \<and>
     map_option sk_handle_delete (socks s c) = Some True"

lemma core_connect_service:
  assumes "connect_service rx port appid name addr s = Inr t" and "core_inv rx A s"
  shows "core_inv rx A t"
proof -
  obtain c u where u: "SocketConnectAddr (ipv6 s) addr port 0 InterpReceive s = (c, u)" by fastforce
  from u show ?thesis
  proof (cases rule: SocketConnectAddr_cases)
    case 1
    have "core_inv rx A u" using assms(2) by (subst 1(2)) simp
    then show ?thesis using assms(1) u 1(1) by (simp add: connect_service_def)
  next
    case (2 mk fd v)
    have v: "core_inv rx A v" "fresh v = fresh s" using assms(2) 2(4) by (simp_all add: fresh_wire_def)
    have uc: "core_inv rx A u" unfolding 2(5) core_inv_sockst by (rule core_alloc [OF v(1) 2(2)])
    note fr = core_fresh [OF v(1)]
    have c: "c \<noteq> 0" "c \<notin> c_client ` set (allClients u)"
      "map_option sk_handle_delete (socks u c) = Some True"
      using fr(1,3) 2(1,3) v(2) alloc_new [of mk fd v] unfolding 2(5) by (simp_all add: link_client_def)
    from assms(1) u c(1) obtain p w x where w: "SendService rx c name u = Inr (p, w)"
      "SocketSetData c p w = Inr x" "SocketSetUuid c appid x = Inr t"
      by (auto simp: connect_service_def bindR_eq_Inr)
    from core_SendService [OF w(1) uc c(3,1,2)] have
      cw: "core_inv rx A w" "p < fresh w" "(p, c) \<in> set (nodes w)" by auto
    from w(2) c(1) obtain k where k: "socks w c = Some k" "x = set_sock c (k\<lparr>sk_data := p\<rparr>) w"
      by (auto simp: SocketSetData_def deref_eq_Inr)
    have "c_client y = c" if "y \<in> set (allClients w)" "c_ptr y = p" for y
      using cw(3) nodes_unique [OF cw(1)] that by (fastforce simp: nodes_def)
    then have "core_inv rx A x" unfolding k(2) using core_set_data [OF cw(1) k(1) cw(2)] by blast
    with w(3) show ?thesis by (rule core_SetUuid)
  qed
qed

lemma core_BroadcastReceive:
  assumes "BroadcastReceive rx c line s = Inr t" and "core_inv rx A s"
  shows "core_inv rx A t"
proof (cases "scan_supervision line")
  case (Some r)
  obtain version port appid name where r: "r = (version, port, appid, name)" by (metis prod.collapse)
  from assms(1) have "t = s \<or> (\<exists>addr. connect_service rx port appid name addr s = Inr t)"
    by (simp add: BroadcastReceive_def Some r bindR_eq_Inr split: if_splits option.splits) blast+
  then show ?thesis using core_connect_service assms(2) by blast
qed (use assms in \<open>simp add: BroadcastReceive_def\<close>)

lemma core_interp:
  assumes "ivy_interp rx c f p line s = Inr t" and "core_inv rx A s"
    and "socks s c = Some k" and "p = sk_data k"
  shows "core_inv rx A t"
  using assms core_invD(5) [OF assms(2,3)]
  by (auto simp: ivy_interp_def split: if_splits interp_fun.splits intro: core_BroadcastReceive core_Receive)

lemma core_ClientCreate:
  assumes "ClientCreate rx g c s = Inr (p, t)" and "core_inv rx A s" and "new_client s c"
  shows "core_inv rx A t \<and> p < fresh t \<and> (p = 0 \<or> (p, c) \<in> set (nodes t))"
proof -
  from assms(1) obtain r where r: "SocketGetRemoteHost c s = Inr r"
    unfolding ClientCreate_def bindR_eq_Inr by blast
  with assms(1) have "r \<noteq> None" by (cases r) (simp_all add: ClientCreate_def)
  then obtain host port where "r = Some (host, port)" by auto
  with r have h: "SocketGetRemoteHost c s = Inr (Some (host, port))" by simp
  define name where "name = take 63 (CHR '' '' # host @ CHR '':'' # show_nat (case port of None \<Rightarrow> g | Some p \<Rightarrow> p))"
  from assms(1) obtain other where other: "CheckConnected c s = Inr other"
    "(case other of Some _ \<Rightarrow> bindR (SocketClose c s) (\<lambda>s. Inr (0, s))
      | None \<Rightarrow> SendService rx c name s) = Inr (p, t)"
    unfolding ClientCreate_def h bindR_simps option.case prod.case Let_def name_def [symmetric] bindR_eq_Inr
    by blast
  then consider "p = 0" "SocketClose c s = Inr t" | "SendService rx c name s = Inr (p, t)"
    by (cases other) (auto simp: bindR_eq_Inr)
  then show ?thesis
  proof cases
    case 1
    then have "core_inv rx A t" using core_SocketClose assms(2) by blast
    with core_fresh(1) [OF this] 1(1) show ?thesis by simp
  next
    case 2
    from core_SendService [OF 2 assms(2)] assms(3) show ?thesis by (auto simp: new_client_def)
  qed
qed

lemma core_HandleServer:
  assumes "HandleServer (ClientCreate rx g) sv s = Inr t" and "core_inv rx A s"
  shows "core_inv rx A t"
proof -
  from assms(1) obtain v where v: "servers s sv = Some v"
    by (auto simp: HandleServer_def split: option.splits)
  show ?thesis
  proof (cases "accepts s")
    case Nil
    with assms v show ?thesis by (simp add: HandleServer_def)
  next
    case (Cons x r)
    show ?thesis
    proof (cases x)
      case None
      with assms v Cons show ?thesis by (auto simp: HandleServer_def)
    next
      case (Some y)
      obtain ns remote local where y: "y = (ns, remote, local)" by (metis prod_cases3)
      define mk where "mk = (\<lambda>ch. new_sock ns ch (sv_ipv6 v) remote local 16 InterpReceive True 0
        ''init by HandleServer'')"
      define u where "u = fresh_wire ns (s\<lparr>accepts := r\<rparr>)"
      have mk: "sk_data (mk ch) = 0" "sk_handle_delete (mk ch)" for ch by (simp_all add: mk_def new_sock_def)
      have u: "core_inv rx A u" "fresh u = fresh s" using assms(2) by (simp_all add: u_def fresh_wire_def)
      let ?c = "fresh s" and ?a = "alloc_client mk ns u"
      from assms(1) v Cons Some y obtain p w k where w: "ClientCreate rx g ?c ?a = Inr (p, w)"
        "socks w ?c = Some k" "t = link_client ?c (set_sock ?c (k\<lparr>sk_data := p\<rparr>) w)"
        by (auto simp: HandleServer_def Let_def bindR_eq_Inr deref_eq_Inr mk_def u_def)
      have ac: "core_inv rx A ?a" by (rule core_alloc [OF u(1) mk(1)])
      have "new_client ?a ?c"
        using core_fresh [OF u(1)] alloc_new [of mk ns u] mk(2) u(2) by (simp add: new_client_def)
      from core_ClientCreate [OF w(1) ac this] have
        cw: "core_inv rx A w" "p < fresh w" "p = 0 \<or> (p, ?c) \<in> set (nodes w)" by auto
      have "c_client z = ?c" if "z \<in> set (allClients w)" "c_ptr z = p" for z
        using cw(3) core_invD(4) [OF cw(1) that(1)] nodes_unique [OF cw(1)] that by (fastforce simp: nodes_def)
      then have "core_inv rx A (set_sock ?c (k\<lparr>sk_data := p\<rparr>) w)"
        using core_set_data [OF cw(1) w(2) cw(2)] by blast
      then show ?thesis unfolding w(3) by simp
    qed
  qed
qed


section \<open>The loop\<close>

lemma core_interpret_line:
  "interpret_line (ivy_interp rx) c l s = Inr t \<Longrightarrow> core_inv rx A s \<Longrightarrow> core_inv rx A t"
  by (auto simp: interpret_line_def deref_eq_Inr dest: core_interp)

lemma core_HandleSocket:
  assumes "HandleSocket (ivy_interp rx) fd c s = Inr t" and "core_inv rx A s"
  shows "core_inv rx A t"
proof -
  from assms(1) obtain k where k: "c \<noteq> 0" "socks s c = Some k" by (auto simp: HandleSocket_def deref_eq_Inr)
  obtain nb sender u where u: "os_recvfrom fd (room k) s = (nb, sender, u)" by (metis prod_cases3)
  then have a: "u = s\<lparr>arrivals := arrivals u\<rparr>"
    by (auto simp: os_recvfrom_def split: list.splits recv.splits)
  define k1 where "k1 = set_from sender (grow_buffer k)"
  have k1: "sk_data k1 = sk_data k" "sk_handle_delete k1 = sk_handle_delete k"
    by (auto simp: k1_def set_from_def grow_buffer_def split: option.split)
  have "core_inv rx A (s\<lparr>arrivals := arrivals u\<rparr>)" "socks (s\<lparr>arrivals := arrivals u\<rparr>) c = Some k"
    using assms(2) k by simp_all
  then have uk: "core_inv rx A u" "socks u c = Some k" unfolding a [symmetric] by simp_all
  consider "on_loop (IvyChannelRemove (sk_channel k1)) (set_sock c k1 u) = Inr t"
    | ls rest bytes where "handle_lines (ivy_interp rx) c ls rest (set_sock c (k1\<lparr>sk_buffer := bytes\<rparr>) u) = Inr t"
    using assms(1) k u by (auto simp: HandleSocket_def Let_def k1_def split: if_splits prod.splits)
  then show ?thesis
  proof cases
    case 1
    have "core_inv rx A (set_sock c k1 u)" by (rule core_set_sock [OF uk k1])
    with 1 show ?thesis by (rule core_on_loop)
  next
    case 2
    then obtain v kv where v: "foldR (interpret_line (ivy_interp rx) c) ls (set_sock c (k1\<lparr>sk_buffer := bytes\<rparr>) u) = Inr v"
      "socks v c = Some kv" "t = set_sock c (kv\<lparr>sk_buffer := rest\<rparr>) v"
      by (auto simp: handle_lines_def bindR_eq_Inr deref_eq_Inr)
    have "core_inv rx A (set_sock c (k1\<lparr>sk_buffer := bytes\<rparr>) u)"
      by (rule core_set_sock [OF uk]) (simp_all add: k1)
    then have "core_inv rx A v"
      using foldR_invariant [OF v(1), of "core_inv rx A"] core_interpret_line by blast
    then show ?thesis unfolding v(3) by (rule core_set_sock [OF _ v(2)]) simp_all
  qed
qed

lemma core_HandleCongestionWrite:
  assumes "HandleCongestionWrite ClientDecongestion ch fd c s = Inr t" and "core_inv rx A s"
  shows "core_inv rx A t"
proof -
  from assms(1) obtain k where k0: "c \<noteq> 0" "socks s c = Some k"
    by (auto simp: HandleCongestionWrite_def deref_eq_Inr)
  with assms(1) obtain f where f: "sk_ifb k = Some f"
    by (cases "sk_ifb k") (auto simp: HandleCongestionWrite_def)
  with assms(1) k0 obtain r where r: "IvyFifoSendSocket f fd (net s) = Some r"
    by (cases "IvyFifoSendSocket f fd (net s)") (auto simp: HandleCongestionWrite_def)
  obtain count g n where "r = (count, g, n)" by (metis prod_cases3)
  with assms(1) k0 f r have k: "socks s c = Some k"
    "(if count = 0
      then bindR (on_loop (IvyChannelClearWritableEvent ch) (set_sock c (k\<lparr>sk_ifb := None\<rparr>) (s\<lparr>net := n\<rparr>)))
             (\<lambda>s. if sk_handle_decongestion k then ClientDecongestion c (sk_data k) s else Inr s)
      else Inr (set_sock c (k\<lparr>sk_ifb := Some g\<rparr>) (s\<lparr>net := n\<rparr>))) = Inr t"
    by (simp_all add: HandleCongestionWrite_def)
  have set: "core_inv rx A (set_sock c (k\<lparr>sk_ifb := x\<rparr>) (s\<lparr>net := n\<rparr>))" for x
    by (rule core_set_sock [where k = k]) (use assms(2) k(1) in simp_all)
  show ?thesis
  proof (cases "count = 0")
    case True
    with k(2) obtain u where u: "on_loop (IvyChannelClearWritableEvent ch) (set_sock c (k\<lparr>sk_ifb := None\<rparr>) (s\<lparr>net := n\<rparr>)) = Inr u"
      "(if sk_handle_decongestion k then ClientDecongestion c (sk_data k) u else Inr u) = Inr t"
      by (auto simp: bindR_eq_Inr)
    from core_on_loop [OF u(1) set] u(2) show ?thesis
      by (auto simp: ClientDecongestion_def split: if_splits)
  qed (use k(2) set in auto)
qed

text \<open>A socket that is nobody's client any more goes.\<close>

lemma core_drop_sock:
  assumes "core_inv rx A s" and "c \<notin> c_client ` set (allClients s)"
  shows "core_inv rx A (s\<lparr>socks := (socks s)(c := None)\<rparr>)"
proof (rule core_invI)
  note inv = core_invD [OF assms(1)]
  let ?t = "s\<lparr>socks := (socks s)(c := None)\<rparr>"
  show "fresh_ok ?t" "clients_inv ?t" "subs_inv rx A ?t"
    using inv(1-3) by (simp_all add: fresh_ok_def clients_inv_def subs_inv_def)
  show "0 < c_ptr x \<and> c_ptr x < fresh ?t \<and> c_client x \<noteq> 0 \<and>
      map_option sk_handle_delete (socks ?t (c_client x)) = Some True" if "x \<in> set (allClients ?t)" for x
  proof -
    from that have x: "x \<in> set (allClients s)" by simp
    with assms(2) have "c_client x \<noteq> c" by (metis imageI)
    with inv(4) [OF x] show ?thesis by simp
  qed
  show "sk_data k < fresh ?t \<and> (\<forall>x \<in> set (allClients ?t). c_ptr x = sk_data k \<longrightarrow> c_client x = c')"
    if "socks ?t c' = Some k" for c' k
    using that inv(5) [of c' k] by (simp split: if_splits)
qed

lemma core_DeleteSocket:
  assumes "DeleteSocket ClientDelete c s = Inr t" and "core_inv rx A s"
  shows "core_inv rx A t"
proof -
  from assms(1) obtain k u ku where u: "socks s c = Some k"
    "(if sk_handle_delete k then ClientDelete c (sk_data k) s else Inr s) = Inr u" "socks u c = Some ku"
    "t = unlink_client c (set_sock c (ku\<lparr>sk_ifb := None\<rparr>) (u\<lparr>closed_fds := sk_fd ku # closed_fds u\<rparr>))"
    by (auto simp: DeleteSocket_def deref_eq_Inr bindR_eq_Inr)
  have cu: "core_inv rx A u \<and> c \<notin> c_client ` set (allClients u)"
  proof (cases "sk_handle_delete k")
    case True
    with u(2) have "delOneClient c (emit_if (app_cb s) (AppEvent (AppNode (sk_data k)) IvyApplicationDisconnected) s) = Inr u"
      by (simp add: ClientDelete_def)
    then show ?thesis by (rule delOneClient_core) (use assms(2) in simp)
  next
    case False
    have "c \<notin> c_client ` set (allClients s)"
      using core_invD(4) [OF assms(2)] u(1) False by fastforce
    with False u(2) assms(2) show ?thesis by simp
  qed
  define v where "v = set_sock c (ku\<lparr>sk_ifb := None\<rparr>) (u\<lparr>closed_fds := sk_fd ku # closed_fds u\<rparr>)"
  have "core_inv rx A v" unfolding v_def
    by (rule core_set_sock [where k = ku]) (use cu u(3) in simp_all)
  moreover have "c \<notin> c_client ` set (allClients v)" using cu by (simp add: v_def set_sock_def)
  ultimately have "core_inv rx A (v\<lparr>clients_list := remove1 c (clients_list v), socks := (socks v)(c := None)\<rparr>)"
    "core_inv rx A v" using core_drop_sock [of rx A "v\<lparr>clients_list := remove1 c (clients_list v)\<rparr>" c] by simp_all
  then show ?thesis unfolding u(4) v_def [symmetric] by (simp add: unlink_client_def)
qed

lemma core_servers [simp]:
  "core_inv rx A (s\<lparr>servers := v\<rparr>) = core_inv rx A s"
  "core_inv rx A (s\<lparr>servers_list := l\<rparr>) = core_inv rx A s"
  by (simp_all add: core_inv_def nodes_inv_def subs_inv_def fresh_ok_def clients_inv_def)

lemma core_ivy_delete: "ivy_delete d s = Inr t \<Longrightarrow> core_inv rx A s \<Longrightarrow> core_inv rx A t"
  by (cases d) (auto simp: ivy_delete_def DeleteServerSocket_def split: option.splits dest: core_DeleteSocket)

section \<open>The loop and the calls of the application\<close>

lemma core_inv_core [simp]:
  "core_inv rx A (s\<lparr>tmr := x1\<rparr>) = core_inv rx A s"
  "core_inv rx A (s\<lparr>filters := x2\<rparr>) = core_inv rx A s"
  "core_inv rx A (s\<lparr>debug_filter := x3\<rparr>) = core_inv rx A s"
  "core_inv rx A (s\<lparr>direct_cb := x4\<rparr>) = core_inv rx A s"
  "core_inv rx A (s\<lparr>bind_cb := x5\<rparr>) = core_inv rx A s"
  "core_inv rx A (s\<lparr>pong_cb := x6\<rparr>) = core_inv rx A s"
  "core_inv rx A (s\<lparr>recv_id := x7\<rparr>) = core_inv rx A s"
  "core_inv rx A (s\<lparr>now := x8\<rparr>) = core_inv rx A s"
  "core_inv rx A (upd_lp f s) = core_inv rx A s"
  by (simp_all add: core_inv_def nodes_inv_def subs_inv_def fresh_ok_def clients_inv_def upd_lp_def)

lemma core_timers: "ivy_timers s = Inr t \<Longrightarrow> core_inv rx A s \<Longrightarrow> core_inv rx A t"
  unfolding ivy_timers_def TimerScan_def bindR_eq_Inr IVY_LIST_EACH_SAFE_def
  by (auto simp: fire_due_def split: option.splits if_splits elim!: each_safe_invariant)

interpretation core: handler_contract lp upd_lp "ivy_handlers rx g" "core_inv rx A" for rx g A
proof unfold_locales
  fix p fd d s t
  show "h_read (ivy_handlers rx g) p fd d s = Inr t \<Longrightarrow> core_inv rx A s \<Longrightarrow> core_inv rx A t"
    by (auto simp: ivy_handlers_def ivy_read_def split: chan_data.splits
        dest: core_HandleSocket core_HandleServer)
  show "h_write (ivy_handlers rx g) p fd d s = Inr t \<Longrightarrow> core_inv rx A s \<Longrightarrow> core_inv rx A t"
    by (auto simp: ivy_handlers_def ivy_write_def split: chan_data.splits
        dest: core_HandleCongestionWrite)
qed (auto simp: ivy_handlers_def ivy_timeout_def dest: core_ivy_delete core_timers)

text \<open>What the application may call between two turns of the loop.\<close>

inductive app_call :: "regex_engine \<Rightarrow> ivy \<Rightarrow> ivy \<Rightarrow> bool" for rx where
    call_send: "IvySendMsg rx fmt body s = Inr (n, t) \<Longrightarrow> app_call rx s t"
  | call_bind: "IvyBindMsg callback regexp s = Inr (m, t) \<Longrightarrow> app_call rx s t"
  | call_change: "IvyChangeMsg m regexp s = Inr t \<Longrightarrow> app_call rx s t"
  | call_unbind: "IvyUnbindMsg m s = Inr t \<Longrightarrow> app_call rx s t"
  | call_error: "IvySendError p c i body s = Inr t \<Longrightarrow> app_call rx s t"
  | call_direct: "IvySendDirectMsg app i body s = Inr t \<Longrightarrow> app_call rx s t"
  | call_die: "IvySendDieMsg app s = Inr t \<Longrightarrow> app_call rx s t"
  | call_ping: "IvySendPing app s = Inr t \<Longrightarrow> app_call rx s t"
  | call_cleanup: "IvyCleanup s = Inr t \<Longrightarrow> app_call rx s t"
  | call_filter: "app_call rx s (IvySetFilter rx env argv s)"
  | call_add_filter: "app_call rx s (IvyAddFilter rx env arg s)"
  | call_callbacks: "app_call rx s (IvyBindDirectMsg b1 (IvySetBindCallback b2 (IvySetPongCallback b3 s)))"
  | call_stop: "app_call rx s (IvyStop s)"
  | call_timer: "app_call rx s (s\<lparr>tmr := ts\<rparr>)"
  | call_clock: "app_call rx s (s\<lparr>now := n\<rparr>)"

lemma core_to_all: "to_all k i m s = Inr t \<Longrightarrow> core_inv rx A s \<Longrightarrow> core_inv rx A t"
  unfolding to_all_def by (erule foldR_invariant [where I = "core_inv rx A"]) (auto dest: core_msg_to)

lemma core_fresh_up: "core_inv rx A s \<Longrightarrow> core_inv rx A (s\<lparr>fresh := fresh s + 1\<rparr>)"
  by (erule core_inv_eq) (simp_all add: same_data_def)

lemma core_BindMsg: "IvyBindMsg cb r s = Inr (m, t) \<Longrightarrow> core_inv rx A s \<Longrightarrow> core_inv rx A t"
  using core_fresh_up [of rx A s]
  by (auto simp: IvyBindMsg_def Let_def bindR_eq_Inr dest!: core_to_all [where A = A and rx = rx])

lemma with_app_Inr: "with_app app f s = Inr t \<Longrightarrow> \<exists>c. find_clnt app s = Some c \<and> f c = Inr t"
  by (auto simp: with_app_def split: if_splits option.splits)

lemma with_msg_Inr: "with_msg m f s = Inr t \<Longrightarrow> \<exists>x. f x = Inr t"
  by (auto simp: with_msg_def split: if_splits option.splits)

lemma core_SendPing:
  assumes "IvySendPing app s = Inr t" and "core_inv rx A s"
  shows "core_inv rx A t"
proof (cases "pong_cb s")
  case True
  then have "with_app app (\<lambda>c. msg_to app (c_client c) Ping (s32 (c_ping_id c + 1)) []
      (upd_clnt app (\<lambda>x. x\<lparr>c_ping_ts := now s, c_ping_id := s32 (c_ping_id c + 1)\<rparr>) s)) s = Inr t"
    using assms(1) by (simp add: IvySendPing_def Let_def)
  from with_app_Inr [OF this] obtain c :: clnt where "msg_to app (c_client c) Ping (s32 (c_ping_id c + 1)) []
      (upd_clnt app (\<lambda>x. x\<lparr>c_ping_ts := now s, c_ping_id := s32 (c_ping_id c + 1)\<rparr>) s) = Inr t"
    by blast
  moreover have "core_inv rx A (upd_clnt app (\<lambda>x. x\<lparr>c_ping_ts := now s, c_ping_id := i\<rparr>) s)" for i
    by (rule core_inv_upd [OF assms(2)]) simp
  ultimately show ?thesis by (rule core_msg_to)
qed (use assms in \<open>simp add: IvySendPing_def\<close>)

lemma core_app_call:
  assumes "app_call rx' s t" and "core_inv rx A s"
  shows "core_inv rx A t"
  using assms(1)
proof cases
  case call_send
  then show ?thesis using core_inv_talk IvySendMsg_talk assms(2) by blast
next
  case call_bind
  then show ?thesis using core_BindMsg assms(2) by blast
next
  case (call_change m regexp)
  then show ?thesis
    using assms(2) by (auto simp: IvyChangeMsg_def bindR_eq_Inr dest!: with_msg_Inr core_to_all [where A = A and rx = rx])
next
  case (call_unbind m)
  then show ?thesis
    using assms(2) by (auto simp: IvyUnbindMsg_def bindR_eq_Inr dest!: with_msg_Inr core_to_all [where A = A and rx = rx])
next
  case call_error
  then show ?thesis using core_msg_to assms(2) by (auto simp: IvySendError_def)
next
  case call_direct
  then show ?thesis using core_msg_to assms(2) by (auto simp: IvySendDirectMsg_def dest!: with_app_Inr)
next
  case call_die
  then show ?thesis using core_msg_to assms(2) by (auto simp: IvySendDieMsg_def dest!: with_app_Inr)
next
  case call_ping
  then show ?thesis using core_SendPing assms(2) by blast
next
  case call_cleanup
  then show ?thesis using core_IvyCleanup assms(2) by blast
qed (use assms(2) in \<open>simp_all add: IvySetFilter_def IvyAddFilter_def IvyBindDirectMsg_def
    IvySetBindCallback_def IvySetPongCallback_def IvyStop_def\<close>)

text \<open>The states an application can be in, from a state \<open>s0\<close> on.\<close>

inductive reachable :: "regex_engine \<Rightarrow> nat \<Rightarrow> ivy \<Rightarrow> ivy \<Rightarrow> bool" for rx g s0 where
    at_start: "reachable rx g s0 s0"
  | after_turn: "reachable rx g s0 s \<Longrightarrow>
      IvyMainLoop_turn lp upd_lp (ivy_handlers rx g) r s = Inr (go, t) \<Longrightarrow> reachable rx g s0 t"
  | after_call: "reachable rx g s0 s \<Longrightarrow> app_call rx s t \<Longrightarrow> reachable rx g s0 t"

lemma reachable_core: "reachable rx g s0 s \<Longrightarrow> core_inv rx {} s0 \<Longrightarrow> core_inv rx {} s"
  by (induction rule: reachable.induct) (auto dest: core.turn_keeps core_app_call)

section \<open>A state for the examples\<close>

lemma demo_sender_core: "core_inv first_char_engine {} demo_sender"
proof (rule core_invI)
  show "fresh_ok demo_sender" "clients_inv demo_sender"
    by (auto simp: demo_sender_def fresh_ok_def demo_def clients_inv_def demo_peer_def)
  show "subs_inv first_char_engine {} demo_sender"
    by (simp add: subs_inv_def demo_sender_def demo_entry_def dict_inv_def bind_ok_def subs_def
        entry_subs_def is_int32_def IvyBindingCompile_def first_char_engine_def demo_peer_def)
  show "0 < c_ptr x \<and> c_ptr x < fresh demo_sender \<and> c_client x \<noteq> 0 \<and>
      map_option sk_handle_delete (socks demo_sender (c_client x)) = Some True"
    if "x \<in> set (allClients demo_sender)" for x
    using that by (simp add: demo_sender_def demo_peer_def demo_def demo_sock_def new_sock_def)
  show "sk_data k < fresh demo_sender \<and>
      (\<forall>x \<in> set (allClients demo_sender). c_ptr x = sk_data k \<longrightarrow> c_client x = c)"
    if "socks demo_sender c = Some k" for c k
    using that by (auto simp: demo_sender_def demo_peer_def demo_def demo_sock_def new_sock_def split: if_splits)
qed

lemma demo_reachable: "reachable first_char_engine 0 demo_sender (IvyStop demo_sender)"
  by (intro after_call [OF at_start] call_stop)

section \<open>Properties\<close>

text \<open>
  C8: the invariant of the core in every state an application can reach, whatever peers send,
  whatever \<open>select\<close>, \<open>accept\<close>, \<open>connect\<close> and \<open>send\<close> answer, and whatever the application calls
  between the turns of the loop: every subscription of the dictionary is that of a connected
  application, on a live socket, and has an id that fits in 32 bits; so a message is never sent to
  a socket that was freed.
\<close>
theorem subscribers_are_connected:
  assumes "reachable rx g s0 s" and "core_inv rx {} s0"
    and "e \<in> set (messSndByRegexp s)" and "dc \<in> set (d_clientList e)"
  shows "is_int32 (dc_id dc) \<and> (\<exists>x \<in> set (allClients s). c_client x = dc_client dc) \<and>
         dc_client dc \<noteq> 0 \<and> (\<exists>k. socks s (dc_client dc) = Some k)"
proof -
  have inv: "core_inv rx {} s" by (rule reachable_core [OF assms(1,2)])
  have "(d_regexp_src e, dc_client dc, dc_id dc) \<in> subs (messSndByRegexp s)"
    using assms(3,4) by (auto simp: subs_def entry_subs_def)
  then have "is_int32 (dc_id dc)" "dc_client dc \<in> c_client ` set (allClients s)"
    using core_invD(3) [OF inv] unfolding subs_inv_def by force+
  moreover from this(2) obtain x where "x \<in> set (allClients s)" "c_client x = dc_client dc" by auto
  ultimately show ?thesis using core_invD(4) [OF inv] by force
qed

theorem subscribers_are_connected_witness:
  "\<exists>dc. d_clientList demo_entry = [dc] \<and> (\<exists>k. socks (IvyStop demo_sender) (dc_client dc) = Some k)"
proof -
  have "demo_entry \<in> set (messSndByRegexp (IvyStop demo_sender))"
    by (simp add: IvyStop_def demo_sender_def)
  from subscribers_are_connected [OF demo_reachable demo_sender_core this] show ?thesis
    by (simp add: demo_entry_def)
qed

text \<open>
  C25: the entries of the dictionary in every reachable state: no pattern has two entries, no
  entry is without a subscriber, and the binding of an entry is what its pattern compiles to.
\<close>
theorem dictionary_stays_well_formed:
  assumes "reachable rx g s0 s" and "core_inv rx {} s0"
  shows "distinct (map d_regexp_src (messSndByRegexp s)) \<and>
         (\<forall>e \<in> set (messSndByRegexp s). d_clientList e \<noteq> [] \<and> d_binding e =
            (case IvyBindingCompile rx (d_regexp_src e) of Inl _ \<Rightarrow> None | Inr b \<Rightarrow> Some b))"
  using core_invD(3) [OF reachable_core [OF assms]]
  by (simp add: subs_inv_def dict_inv_def bind_ok_def)

theorem dictionary_stays_well_formed_witness:
  "distinct (map d_regexp_src (messSndByRegexp (IvyStop demo_sender)))"
  using dictionary_stays_well_formed [OF demo_reachable demo_sender_core] by blast

end
