(* ===== verification/IvySubscriptions.thy ===== *)
theory IvySubscriptions
  imports IvyInvariant
begin

text \<open>
  The subscriptions of the peers: what \<open>AddRegexp\<close> and \<open>DelRegexp\<close> lines and a disconnection do to
  the dictionary, seen as a set of patterns with a socket and an id.
\<close>

section \<open>One subscription\<close>

lemma addRegexpToDictionary_total:
  assumes "rx_compile rx r = None"
  shows "addRegexpToDictionary rx r cl s = Inr (s\<lparr>messSndByRegexp := subscribe r (dict_client cl)
     (case hash_find r (messSndByRegexp s) of Some _ \<Rightarrow> messSndByRegexp s
      | None \<Rightarrow> messSndByRegexp s @ [\<lparr>d_regexp_src = r, d_clientList = [],
          d_binding = Some \<lparr>bd_regexp = r, bd_nb_match = 0, bd_ovector = []\<rparr>\<rparr>])\<rparr>)"
  using assms by (simp add: addRegexpToDictionary_def new_entry_def IvyBindingCompile_def split: option.split)

text \<open>The node after \<open>addRegexp\<close>.\<close>

definition with_regexp :: "nat \<Rightarrow> int \<Rightarrow> string \<Rightarrow> clnt \<Rightarrow> clnt" where
  "with_regexp a i r c = c\<lparr>c_id := i, c_srcRegList :=
     \<lparr>gr_addr = a, gr_str_regexp = r, gr_id = i\<rparr> # c_srcRegList c\<rparr>"

lemma find_by_socket_upd:
  assumes "clients_inv s" and "cl \<in> set (allClients s)" and "\<And>x. c_client (f x) = c_client x \<and> c_ptr (f x) = c_ptr x"
  shows "find_by_socket (c_client cl) (upd_clnt (c_ptr cl) f s) = Some (f cl)"
proof -
  have "find_by_socket (c_client cl) (upd_clnt (c_ptr cl) f s) =
      map_option (\<lambda>c. if c_ptr c = c_ptr cl then f c else c) (find_by_socket (c_client cl) s)"
    unfolding find_by_socket_def upd_clnt_def using assms(3)
    by (simp add: find_map_inv)
  with find_by_socket_mem [OF assms(1,2)] show ?thesis by simp
qed

lemma with_regexp_inv:
  assumes "clients_inv s"
    and "allClients t = map (\<lambda>x. if c_ptr x = p then with_regexp (fresh s) i r x else x) (allClients s)"
    and "fresh t = fresh s + 1"
  shows "clients_inv t"
proof -
  have "map c_ptr (allClients t) = map c_ptr (allClients s)"
    "map c_client (allClients t) = map c_client (allClients s)"
    by (simp_all add: assms(2) with_regexp_def)
  moreover have "distinct (map gr_addr (c_srcRegList y)) \<and> (\<forall>g \<in> set (c_srcRegList y). gr_addr g < fresh t)"
    if y: "y \<in> set (allClients t)" for y
  proof -
    from y obtain x where x: "x \<in> set (allClients s)"
      "y = (if c_ptr x = p then with_regexp (fresh s) i r x else x)" by (auto simp: assms(2))
    then have "distinct (map gr_addr (c_srcRegList x))" "\<forall>g \<in> set (c_srcRegList x). gr_addr g < fresh s"
      using assms(1) by (auto simp: clients_inv_def)
    with x(2) show ?thesis by (auto simp: with_regexp_def assms(3) less_Suc_eq)
  qed
  ultimately show ?thesis using assms(1) by (simp add: clients_inv_def)
qed

lemma receive_new_regexp:
  assumes inv: "clients_inv s" "dict_inv (messSndByRegexp s)"
    and cl: "cl \<in> set (allClients s)" "c_ptr cl \<noteq> 0" "\<not> c_ignore_subsequent_msg cl" and i: "is_int32 i"
    and rx: "IvyBindingFilter rx (filters s) r = Inr True" "rx_compile rx r = None"
    and new: "(r, c_client cl, i) \<notin> subs (messSndByRegexp s)"
  shows "\<exists>t. Receive rx c (c_ptr cl) (wire_header AddRegexp i @ r) s = Inr t \<and>
           dict_inv (messSndByRegexp t) \<and>
           subs (messSndByRegexp t) = insert (r, c_client cl, i) (subs (messSndByRegexp s)) \<and>
           allClients t = map (\<lambda>x. if c_ptr x = c_ptr cl then with_regexp (fresh s) i r x else x) (allClients s) \<and>
           fresh t = fresh s + 1 \<and> filters t = filters s \<and> socks t = socks s \<and> exited t = exited s \<and>
           ready_message t = ready_message s \<and> (dict_full rx (messSndByRegexp s) \<longrightarrow> dict_full rx (messSndByRegexp t))"
proof -
  define cl' where "cl' = cl\<lparr>c_id := i\<rparr>"
  define u where "u = upd_clnt (c_ptr cl) (\<lambda>c. c\<lparr>c_id := i\<rparr>) s"
  have fs: "find_by_socket (c_client cl) u = Some cl'"
    unfolding u_def cl'_def by (rule find_by_socket_upd [OF inv(1) cl(1)]) simp
  have fr: "messSndByRegexp u = messSndByRegexp s" "filters u = filters s" "fresh u = fresh s"
    by (simp_all add: u_def upd_clnt_def)
  have "Receive rx c (c_ptr cl) (wire_header AddRegexp i @ r) s = addOrChangeRegexp rx r cl' u"
    using receive_start [OF i cl(2) find_clnt_mem [OF inv(1) cl(1)] cl(3)] rx(1)
    by (simp add: interpret_msg_def receive_AddRegexp_def u_def cl'_def upd_clnt_def)
  also have "\<dots> = addRegexp rx r cl' u"
  proof (cases "hash_find r (messSndByRegexp s)")
    case (Some e)
    then have e: "e \<in> set (messSndByRegexp s)" "d_regexp_src e = r" using hash_find_Some by auto
    show ?thesis
    proof (cases "find (\<lambda>c. dc_client c = c_client cl') (d_clientList e)")
      case None
      with Some fr show ?thesis by (simp add: addOrChangeRegexp_def)
    next
      case (Some dc)
      from find_Some_mem [OF Some] have dc: "dc \<in> set (d_clientList e)" "dc_client dc = c_client cl"
        by (auto simp: cl'_def)
      then have "(r, c_client cl, dc_id dc) \<in> subs (messSndByRegexp s)"
        using e by (auto simp: subs_def entry_subs_def intro!: bexI [of _ e] image_eqI [of _ _ dc])
      with new have "dc_id dc \<noteq> c_id cl'" by (auto simp: cl'_def)
      with Some \<open>hash_find r (messSndByRegexp s) = Some e\<close> fr show ?thesis by (simp add: addOrChangeRegexp_def)
    qed
  qed (simp add: addOrChangeRegexp_def fr)
  finally have run: "Receive rx c (c_ptr cl) (wire_header AddRegexp i @ r) s = addRegexp rx r cl' u" .
  obtain d where d: "addRegexpToDictionary rx r cl' u = Inr (u\<lparr>messSndByRegexp := d\<rparr>)"
    using addRegexpToDictionary_total [OF rx(2)] by blast
  from addRegexpToDictionary_ok [OF d] inv(2) have
    dd: "dict_inv d" "subs d = insert (r, c_client cl, i) (subs (messSndByRegexp s))"
    by (simp_all add: fr cl'_def)
  have full: "dict_full rx (messSndByRegexp s) \<longrightarrow> dict_full rx d"
    using addRegexpToDictionary_full [OF d] new by (simp add: fr cl'_def)
  define t where "t = emit_if (bind_cb u) (BindEvent (c_ptr cl) i r IvyAddBind)
     (upd_clnt (c_ptr cl) (\<lambda>c. c\<lparr>c_srcRegList :=
         \<lparr>gr_addr = fresh s, gr_str_regexp = r, gr_id = i\<rparr> # c_srcRegList c\<rparr>)
        (u\<lparr>messSndByRegexp := d, fresh := fresh s + 1\<rparr>))"
  have "find_by_socket (c_client cl) (u\<lparr>messSndByRegexp := d\<rparr>) = Some cl'"
    using fs by (simp add: find_by_socket_def)
  then have "addRegexp rx r cl' u = Inr t"
    using d by (simp add: addRegexp_def t_def cl'_def fr)
  moreover have "allClients t = map (\<lambda>x. if c_ptr x = c_ptr cl then with_regexp (fresh s) i r x else x) (allClients s)"
    by (simp add: t_def u_def upd_clnt_def with_regexp_def)
  moreover have "messSndByRegexp t = d" "fresh t = fresh s + 1" by (simp_all add: t_def)
  moreover have "filters t = filters s" "socks t = socks s" "exited t = exited s"
    "ready_message t = ready_message s"
    by (simp_all add: t_def u_def upd_clnt_def emit_if_def emit_def)
  ultimately show ?thesis using run dd full by (intro exI [of _ t]) simp
qed

lemma receive_DelRegexp_ok:
  assumes inv: "clients_inv s" "dict_inv (messSndByRegexp s)"
    and cl: "cl \<in> set (allClients s)" "c_ptr cl \<noteq> 0" "\<not> c_ignore_subsequent_msg cl" and i: "is_int32 i"
  shows "\<exists>t. Receive rx c (c_ptr cl) (wire_header DelRegexp i @ a) s = Inr t \<and>
           dict_inv (messSndByRegexp t) \<and>
           subs (messSndByRegexp t) = subs (messSndByRegexp s) -
             {(gr_str_regexp g, c_client cl, i) | g. g \<in> set (c_srcRegList cl) \<and> gr_id g = i}"
proof -
  define cl' where "cl' = cl\<lparr>c_id := i\<rparr>"
  define u where "u = upd_clnt (c_ptr cl) (\<lambda>c. c\<lparr>c_id := i\<rparr>) s"
  have fs: "find_by_socket (c_client cl) u = Some cl'"
    unfolding u_def cl'_def by (rule find_by_socket_upd [OF inv(1) cl(1)]) simp
  let ?found = "filter (\<lambda>g. gr_id g = i) (c_srcRegList cl)"
  let ?d = "fold (\<lambda>g. delRegexpForOneClientFromDictionary (gr_str_regexp g) (c_client cl) i)
      ?found (messSndByRegexp s)"
  have "messSndByRegexp (snd (delRegexpForOneClient cl' i u)) = ?d"
    using fs by (simp add: delRegexpForOneClient_def cl'_def Let_def u_def)
  moreover have "Receive rx c (c_ptr cl) (wire_header DelRegexp i @ a) s = Inr (receive_DelRegexp cl' i a u)"
    using receive_start [OF i cl(2) find_clnt_mem [OF inv(1) cl(1)] cl(3)]
    by (simp add: interpret_msg_def u_def cl'_def)
  moreover have "messSndByRegexp (receive_DelRegexp cl' i a u) =
      messSndByRegexp (snd (delRegexpForOneClient cl' i u))"
    by (simp add: receive_DelRegexp_def split_beta)
  moreover from st.fold_remove [OF inv(2), of gr_str_regexp "c_client cl" i ?found]
  have "dict_inv ?d \<and> subs ?d = subs (messSndByRegexp s) -
      {(gr_str_regexp g, c_client cl, i) | g. g \<in> set (c_srcRegList cl) \<and> gr_id g = i}" by simp
  ultimately show ?thesis by auto
qed

text \<open>Two patterns under one id, as \<open>IvyChangeMsg\<close> makes a peer send.\<close>

lemma receive_two_regexps:
  assumes inv: "clients_inv s" "dict_inv (messSndByRegexp s)"
    and cl: "cl \<in> set (allClients s)" "c_ptr cl \<noteq> 0" "\<not> c_ignore_subsequent_msg cl" and i: "is_int32 i"
    and rx: "IvyBindingFilter rx (filters s) r1 = Inr True" "rx_compile rx r1 = None"
      "IvyBindingFilter rx (filters s) r2 = Inr True" "rx_compile rx r2 = None"
    and new: "\<And>j. (r1, c_client cl, j) \<notin> subs (messSndByRegexp s)"
      "\<And>j. (r2, c_client cl, j) \<notin> subs (messSndByRegexp s)" and "r1 \<noteq> r2"
  shows "\<exists>t u. Receive rx c (c_ptr cl) (wire_header AddRegexp i @ r1) s = Inr t \<and>
           Receive rx c (c_ptr cl) (wire_header AddRegexp i @ r2) t = Inr u \<and>
           clients_inv u \<and> dict_inv (messSndByRegexp u) \<and>
           subs (messSndByRegexp u) =
             {(r2, c_client cl, i), (r1, c_client cl, i)} \<union> subs (messSndByRegexp s) \<and>
           with_regexp (fresh s + 1) i r2 (with_regexp (fresh s) i r1 cl) \<in> set (allClients u)"
proof -
  from receive_new_regexp [OF inv cl i rx(1,2) new(1)] obtain t where
    t: "Receive rx c (c_ptr cl) (wire_header AddRegexp i @ r1) s = Inr t"
      "dict_inv (messSndByRegexp t)"
      "subs (messSndByRegexp t) = insert (r1, c_client cl, i) (subs (messSndByRegexp s))"
      "allClients t = map (\<lambda>x. if c_ptr x = c_ptr cl then with_regexp (fresh s) i r1 x else x) (allClients s)"
      "fresh t = fresh s + 1" "filters t = filters s" by blast
  have ci: "clients_inv t" by (rule with_regexp_inv [OF inv(1) t(4,5)])
  let ?c1 = "with_regexp (fresh s) i r1 cl"
  have c1: "?c1 \<in> set (allClients t)" using cl(1) by (simp add: t(4))
  have eqs: "c_ptr ?c1 = c_ptr cl" "c_client ?c1 = c_client cl"
    "c_ignore_subsequent_msg ?c1 = c_ignore_subsequent_msg cl" by (simp_all add: with_regexp_def)
  have n2: "(r2, c_client ?c1, j) \<notin> subs (messSndByRegexp t)" for j
    using new(2) assms(13) by (simp add: t(3) eqs)
  have p1: "c_ptr ?c1 \<noteq> 0" "\<not> c_ignore_subsequent_msg ?c1" using cl by (simp_all add: eqs)
  have f2: "IvyBindingFilter rx (filters t) r2 = Inr True" using rx(3) by (simp add: t(6))
  from receive_new_regexp [OF ci t(2) c1 p1 i f2 rx(4) n2] obtain u where
    u: "Receive rx c (c_ptr ?c1) (wire_header AddRegexp i @ r2) t = Inr u"
      "dict_inv (messSndByRegexp u)"
      "subs (messSndByRegexp u) = insert (r2, c_client ?c1, i) (subs (messSndByRegexp t))"
      "allClients u = map (\<lambda>x. if c_ptr x = c_ptr ?c1 then with_regexp (fresh t) i r2 x else x) (allClients t)"
      "fresh u = fresh t + 1" by blast
  have cu: "clients_inv u" by (rule with_regexp_inv [OF ci u(4,5)])
  have "(if c_ptr ?c1 = c_ptr ?c1 then with_regexp (fresh t) i r2 ?c1 else ?c1) \<in> set (allClients u)"
    unfolding u(4) set_map by (rule imageI [OF c1])
  then have mem: "with_regexp (fresh s + 1) i r2 ?c1 \<in> set (allClients u)" by (simp add: t(5))
  have "subs (messSndByRegexp u) = {(r2, c_client cl, i), (r1, c_client cl, i)} \<union> subs (messSndByRegexp s)"
    by (simp add: u(3) eqs t(3))
  with t(1) u(1,2) cu mem show ?thesis unfolding eqs by blast
qed

section \<open>States for the examples\<close>

text \<open>A peer without subscriptions, and one with a subscription under the id 3.\<close>

definition demo_idle :: ivy where
  "demo_idle = demo_ivy (demo [] None) [demo_peer] [] []"

definition demo_subscriber :: clnt where
  "demo_subscriber = demo_peer\<lparr>c_srcRegList := [\<lparr>gr_addr = 8, gr_str_regexp = ''(.).*'', gr_id = 3\<rparr>]\<rparr>"

definition demo_subscribed :: ivy where
  "demo_subscribed = demo_ivy (demo [] None) [demo_subscriber] [demo_entry] []"

lemma demo_idle_ok:
  "clients_inv demo_idle" "dict_inv (messSndByRegexp demo_idle)" "demo_peer \<in> set (allClients demo_idle)"
  "c_ptr demo_peer \<noteq> 0" "\<not> c_ignore_subsequent_msg demo_peer"
  by (simp_all add: demo_idle_def demo_peer_def clients_inv_def dict_inv_def)

lemma demo_idle_eqs:
  "messSndByRegexp demo_idle = []" "subs [] = {}" "c_ptr demo_peer = 5" "c_client demo_peer = 1"
  by (simp_all add: demo_idle_def subs_def demo_peer_def)

lemma demo_idle_accepts:
  "IvyBindingFilter rx (filters demo_idle) r = Inr True" "rx_compile first_char_engine r = None"
  by (simp_all add: demo_idle_def IvyBindingFilter_def no_filter_def first_char_engine_def)

lemma demo_subscribed_ok:
  "clients_inv demo_subscribed" "dict_inv (messSndByRegexp demo_subscribed)"
  "demo_subscriber \<in> set (allClients demo_subscribed)" "c_ptr demo_subscriber \<noteq> 0"
  "\<not> c_ignore_subsequent_msg demo_subscriber"
  by (simp_all add: demo_subscribed_def demo_subscriber_def demo_peer_def clients_inv_def dict_inv_def
      demo_entry_def demo_def)

lemma demo_subscribed_eqs:
  "subs (messSndByRegexp demo_subscribed) = {(''(.).*'', 1, 3)}" "allClients demo_subscribed = [demo_subscriber]"
  "c_ptr demo_subscriber = 5" "c_client demo_subscriber = 1" "app_cb demo_subscribed"
  "c_srcRegList demo_subscriber = [\<lparr>gr_addr = 8, gr_str_regexp = ''(.).*'', gr_id = 3\<rparr>]"
  by (simp_all add: demo_subscribed_def demo_subscriber_def demo_peer_def subs_def entry_subs_def demo_entry_def)

section \<open>Properties\<close>

text \<open>
  C11: the dictionary refines a set of subscriptions. When a peer asks for a pattern it does not
  have yet under the id of the message, the filter accepts it and it compiles, the set grows by
  exactly that pattern with the peer's socket and the id.
\<close>
theorem subscribing_adds_one:
  assumes "clients_inv s" and "dict_inv (messSndByRegexp s)"
    and "cl \<in> set (allClients s)" and "c_ptr cl \<noteq> 0" and "\<not> c_ignore_subsequent_msg cl" and "is_int32 i"
    and "IvyBindingFilter rx (filters s) r = Inr True" and "rx_compile rx r = None"
    and "(r, c_client cl, i) \<notin> subs (messSndByRegexp s)"
  shows "\<exists>t. Receive rx c (c_ptr cl) (wire_header AddRegexp i @ r) s = Inr t \<and>
           dict_inv (messSndByRegexp t) \<and>
           subs (messSndByRegexp t) = insert (r, c_client cl, i) (subs (messSndByRegexp s))"
  using receive_new_regexp [OF assms] by blast

theorem subscribing_adds_one_witness:
  "\<exists>t. Receive first_char_engine 1 5 (wire_header AddRegexp 3 @ ''(.*)'') demo_idle = Inr t \<and>
     subs (messSndByRegexp t) = {(''(.*)'', 1, 3)}"
  using subscribing_adds_one [OF demo_idle_ok, of 3 first_char_engine "''(.*)''" 1]
  by (auto simp: demo_idle_accepts demo_idle_eqs is_int32_def)

text \<open>
  C12: when a peer withdraws an id, the set loses exactly the patterns that the peer had under
  that id, and nothing of any other peer or id.
\<close>
theorem unsubscribing_removes_the_id:
  assumes "clients_inv s" and "dict_inv (messSndByRegexp s)"
    and "cl \<in> set (allClients s)" and "c_ptr cl \<noteq> 0" and "\<not> c_ignore_subsequent_msg cl" and "is_int32 i"
  shows "\<exists>t. Receive rx c (c_ptr cl) (wire_header DelRegexp i @ a) s = Inr t \<and>
           dict_inv (messSndByRegexp t) \<and>
           subs (messSndByRegexp t) = subs (messSndByRegexp s) -
             {(gr_str_regexp g, c_client cl, i) | g. g \<in> set (c_srcRegList cl) \<and> gr_id g = i}"
  by (rule receive_DelRegexp_ok [OF assms])

theorem unsubscribing_removes_the_id_witness:
  "\<exists>t. Receive first_char_engine 1 5 (wire_header DelRegexp 3) demo_subscribed = Inr t \<and>
     subs (messSndByRegexp t) = {}"
  using unsubscribing_removes_the_id [OF demo_subscribed_ok, of 3 first_char_engine 1 "[]"]
  by (auto simp: demo_subscribed_eqs is_int32_def)

text \<open>
  \<open>IvyChangeMsg\<close> announces its new pattern as an \<open>AddRegexp\<close> with the id of the old one. The
  peer that receives it looks the new pattern up, does not find the id under it, and adds it: the
  old pattern stays subscribed under the same id, so that messages that match it are still sent.
\<close>
theorem change_keeps_the_old_pattern:
  assumes "clients_inv s" and "dict_inv (messSndByRegexp s)"
    and "cl \<in> set (allClients s)" and "c_ptr cl \<noteq> 0" and "\<not> c_ignore_subsequent_msg cl" and "is_int32 i"
    and "IvyBindingFilter rx (filters s) r1 = Inr True" and "rx_compile rx r1 = None"
    and "IvyBindingFilter rx (filters s) r2 = Inr True" and "rx_compile rx r2 = None"
    and "\<And>j. (r1, c_client cl, j) \<notin> subs (messSndByRegexp s)"
    and "\<And>j. (r2, c_client cl, j) \<notin> subs (messSndByRegexp s)" and "r1 \<noteq> r2"
  shows "\<exists>t u. Receive rx c (c_ptr cl) (wire_header AddRegexp i @ r1) s = Inr t \<and>
           Receive rx c (c_ptr cl) (wire_header AddRegexp i @ r2) t = Inr u \<and>
           {(r1, c_client cl, i), (r2, c_client cl, i)} \<subseteq> subs (messSndByRegexp u)"
  using receive_two_regexps [OF assms] by blast

theorem change_keeps_the_old_pattern_witness:
  "\<exists>t u. Receive first_char_engine 1 5 (wire_header AddRegexp 3 @ ''a(.*)'') demo_idle = Inr t \<and>
     Receive first_char_engine 1 5 (wire_header AddRegexp 3 @ ''b(.*)'') t = Inr u \<and>
     {(''a(.*)'', 1, 3), (''b(.*)'', 1, 3)} \<subseteq> subs (messSndByRegexp u)"
  using change_keeps_the_old_pattern [OF demo_idle_ok, of 3 first_char_engine "''a(.*)''" "''b(.*)''" 1]
  by (auto simp: demo_idle_accepts demo_idle_eqs is_int32_def)

text \<open>
  C37: when a peer sent two patterns under one id, as it does when it changes a
  subscription, its disconnection is undefined behaviour: \<open>delOneClient\<close>
  walks the list of its patterns with a saved successor, and the removal of the first pattern
  frees the second, which has the same id and is the saved one.
\<close>
theorem disconnect_after_change_dangles:
  assumes "clients_inv s" and "dict_inv (messSndByRegexp s)"
    and "cl \<in> set (allClients s)" and "c_ptr cl \<noteq> 0" and "\<not> c_ignore_subsequent_msg cl" and "is_int32 i"
    and "IvyBindingFilter rx (filters s) r1 = Inr True" and "rx_compile rx r1 = None"
    and "IvyBindingFilter rx (filters s) r2 = Inr True" and "rx_compile rx r2 = None"
    and "\<And>j. (r1, c_client cl, j) \<notin> subs (messSndByRegexp s)"
    and "\<And>j. (r2, c_client cl, j) \<notin> subs (messSndByRegexp s)" and "r1 \<noteq> r2"
  shows "\<exists>t u. Receive rx c (c_ptr cl) (wire_header AddRegexp i @ r1) s = Inr t \<and>
           Receive rx c (c_ptr cl) (wire_header AddRegexp i @ r2) t = Inr u \<and>
           delOneClient (c_client cl) u = Inl UseAfterFree"
proof -
  from receive_two_regexps [OF assms, of c] obtain t u where
    u: "Receive rx c (c_ptr cl) (wire_header AddRegexp i @ r1) s = Inr t"
      "Receive rx c (c_ptr cl) (wire_header AddRegexp i @ r2) t = Inr u" "clients_inv u"
      "dict_inv (messSndByRegexp u)"
      "with_regexp (fresh s + 1) i r2 (with_regexp (fresh s) i r1 cl) \<in> set (allClients u)" by blast
  let ?g2 = "\<lparr>gr_addr = fresh s + 1, gr_str_regexp = r2, gr_id = i\<rparr>"
    and ?g1 = "\<lparr>gr_addr = fresh s, gr_str_regexp = r1, gr_id = i\<rparr>"
  have "delOneClient (c_client (with_regexp (fresh s + 1) i r2 (with_regexp (fresh s) i r1 cl))) u = Inl UseAfterFree"
    by (rule delOneClient_dangles [OF u(3,5) _ _ u(4), of ?g2 ?g1 "c_srcRegList cl"])
      (simp_all add: with_regexp_def)
  with u(1,2) show ?thesis by (simp add: with_regexp_def)
qed

theorem disconnect_after_change_dangles_witness:
  "\<exists>t u. Receive first_char_engine 1 5 (wire_header AddRegexp 3 @ ''a(.*)'') demo_idle = Inr t \<and>
     Receive first_char_engine 1 5 (wire_header AddRegexp 3 @ ''b(.*)'') t = Inr u \<and>
     delOneClient 1 u = Inl UseAfterFree"
  using disconnect_after_change_dangles [OF demo_idle_ok, of 3 first_char_engine "''a(.*)''" "''b(.*)''" 1]
  by (auto simp: demo_idle_accepts demo_idle_eqs is_int32_def)

text \<open>
  C14: the disconnection of a peer whose subscriptions have different ids removes its node and
  exactly its subscriptions; the application is told, the other peers keep theirs.
\<close>
theorem disconnect_removes_the_subscriptions:
  assumes "clients_inv s" and "dict_inv (messSndByRegexp s)" and "cl \<in> set (allClients s)"
    and "distinct (map gr_id (c_srcRegList cl))" and "app_cb s"
  shows "\<exists>t. ClientDelete (c_client cl) data s = Inr t \<and>
           allClients t = filter (\<lambda>x. c_client x \<noteq> c_client cl) (allClients s) \<and>
           subs (messSndByRegexp t) = {x \<in> subs (messSndByRegexp s). fst (snd x) \<noteq> c_client cl} \<and>
           events t = events s @ [AppEvent (AppNode data) IvyApplicationDisconnected]"
proof -
  let ?s = "emit (AppEvent (AppNode data) IvyApplicationDisconnected) s"
  have "clients_inv ?s" "cl \<in> set (allClients ?s)" "dict_inv (messSndByRegexp ?s)"
    using assms(1-3) by (simp_all add: clients_inv_def emit_def)
  from delOneClient_ok [OF this(1,2) assms(4) this(3)] assms(5) show ?thesis
    by (auto simp: ClientDelete_def emit_if_def emit_def)
qed

theorem disconnect_removes_the_subscriptions_witness:
  "\<exists>t. ClientDelete 1 5 demo_subscribed = Inr t \<and> allClients t = [] \<and> subs (messSndByRegexp t) = {}"
  using disconnect_removes_the_subscriptions [OF demo_subscribed_ok(1-3), of 5]
  by (auto simp: demo_subscribed_eqs)

end
