(* ===== verification/IvySession.thy ===== *)
theory IvySession
  imports IvySubscriptions
begin

text \<open>
  The life of a connection: the announcement of the application on a new connection, the ready
  message, the announcement of a later subscription, and the end after a malformed line.
\<close>

section \<open>Protocol messages\<close>

definition message_line :: "MsgType \<Rightarrow> int \<Rightarrow> string \<Rightarrow> string" where
  "message_line t i m = wire_header t i @ m @ [NL]"

text \<open>All that is delivered goes to one client.\<close>

definition delivers_to :: "nat \<Rightarrow> ivy \<Rightarrow> string \<Rightarrow> ivy \<Rightarrow> bool" where
  "delivers_to c s out t \<longleftrightarrow> delivers s (\<lambda>c'. if c' = c then out else []) t"

lemma delivers_to_trans:
  assumes "delivers_to c s a t" and "delivers_to c t b u"
  shows "delivers_to c s (a @ b) u"
proof -
  have "(\<lambda>c'. (if c' = c then a else []) @ (if c' = c then b else [])) = (\<lambda>c'. if c' = c then a @ b else [])"
    by auto
  with delivers_trans [of s "\<lambda>c'. if c' = c then a else []" t "\<lambda>c'. if c' = c then b else []" u] assms
  show ?thesis by (simp add: delivers_to_def)
qed

lemma delivers_to_refl: "ready_to_send s \<Longrightarrow> delivers_to c s [] s"
  using delivers_refl by (simp add: delivers_to_def)

lemma delivers_toD:
  assumes "delivers_to c s a t"
  shows "ready_to_send t" "talk s t" "stream c t = stream c s @ a"
    "socks t c = None \<longleftrightarrow> socks s c = None"
    "roomy c (length a + n) s \<Longrightarrow> roomy c n t"
  using assms talk_fields(16) [of s t c] by (auto simp: delivers_to_def delivers_def ready_to_send_def)

lemma delivers_to_other: "delivers_to c s a t \<Longrightarrow> c' \<noteq> c \<Longrightarrow> stream c' t = stream c' s"
  by (simp add: delivers_to_def delivers_def)

lemma delivers_to_emit: "delivers_to c s a t \<Longrightarrow> delivers_to c s a (emit_if b e t)"
  unfolding delivers_to_def by (rule delivers_emit)

lemma msg_to_ok:
  assumes "ready_to_send s" and "socks s c \<noteq> None" and "roomy c (length (message_line ty i m)) s"
  shows "\<exists>t. msg_to p c ty i m s = Inr t \<and> delivers_to c s (message_line ty i m) t"
proof -
  obtain k where k: "socks s c = Some k" using assms(2) by blast
  have c: "c \<noteq> 0" using sock_invD [OF _ k] assms(1) by (simp add: ready_to_send_def)
  from delivers_step [OF assms(1) k assms(3)] obtain st u where
    u: "BufferizedSocketSendRaw c (message_line ty i m) s = Inr (st, u)"
      "delivers_to c s (message_line ty i m) u" "st \<noteq> SendStateFifoFull"
    unfolding delivers_to_def by blast
  have "msg_to p c ty i m s = Inr (if st = SendStateChangeToCongestion
      then emit_if (app_cb u) (AppEvent (AppNode p) IvyApplicationCongestion) u else u)"
    using u(1,3) c by (simp add: msg_to_def MsgSendTo_def SocketSend_def SocketSendRaw_def message_line_def)
  moreover have "delivers_to c s (message_line ty i m)
      (if st = SendStateChangeToCongestion
      then emit_if (app_cb u) (AppEvent (AppNode p) IvyApplicationCongestion) u else u)"
    using u(2) delivers_to_emit [OF u(2)] by simp
  ultimately show ?thesis by blast
qed

lemma msgs_to_ok:
  assumes "ready_to_send s" and "socks s c \<noteq> None"
    and "roomy c (length (concat (map (\<lambda>m. message_line ty (f m) (g m)) ms)) + n) s"
  shows "\<exists>t. foldR (\<lambda>m. msg_to p c ty (f m) (g m)) ms s = Inr t \<and>
           delivers_to c s (concat (map (\<lambda>m. message_line ty (f m) (g m)) ms)) t"
  using assms
proof (induction ms arbitrary: s)
  case Nil
  then show ?case using delivers_to_refl by simp
next
  case (Cons m ms)
  have "roomy c (length (message_line ty (f m) (g m))) s" by (rule roomy_mono [OF Cons.prems(3)]) simp
  from msg_to_ok [OF Cons.prems(1,2) this] obtain t where
    t: "msg_to p c ty (f m) (g m) s = Inr t" "delivers_to c s (message_line ty (f m) (g m)) t" by blast
  have "roomy c (length (concat (map (\<lambda>m. message_line ty (f m) (g m)) ms)) + n) t"
    by (rule delivers_toD(5) [OF t(2)]) (use Cons.prems(3) in \<open>simp add: add.assoc\<close>)
  with Cons.IH [OF delivers_toD(1) [OF t(2)]] delivers_toD(4) [OF t(2)] Cons.prems(2) obtain u where
    "foldR (\<lambda>m. msg_to p c ty (f m) (g m)) ms t = Inr u"
    "delivers_to c t (concat (map (\<lambda>m. message_line ty (f m) (g m)) ms)) u" by auto
  with t delivers_to_trans [OF t(2)] show ?case by auto
qed

section \<open>Opening and closing a connection\<close>

text \<open>The announcement on a new connection: name and port, subscriptions, end.\<close>

definition announcement :: "nat \<Rightarrow> string \<Rightarrow> msg_rcv list \<Rightarrow> string" where
  "announcement port name ms = message_line StartRegexp (int port) name @
     concat (map (\<lambda>m. message_line AddRegexp (mr_id m) (mr_regexp m)) ms) @ message_line EndRegexp 0 []"

lemma ready_fresh [simp]:
  "ready_to_send (s\<lparr>fresh := n\<rparr>) = ready_to_send s" "stream c (s\<lparr>fresh := n\<rparr>) = stream c s"
  "stream c (s\<lparr>allClients := cs\<rparr>) = stream c s"
  for s :: ivy
  by (simp_all add: ready_to_send_def sock_inv_def stream_def split: option.split)

lemma app_name_fresh [simp]: "app_name (s\<lparr>fresh := n\<rparr>) = app_name s"
  by (simp add: app_name_def)

lemma SendService_run:
  assumes "ready_to_send s" and "socks s c \<noteq> None"
    and "roomy c (length (announcement (ApplicationPort s) (app_name s) (msg_recv s))) s"
  shows "\<exists>t x. SendService rx c appname s = Inr (fresh s, t) \<and> allClients t = x # allClients s \<and>
           c_ptr x = fresh s \<and> c_client x = c \<and> c_readyToSend x = 1 \<and> c_app_name x = appname \<and>
           stream c t = stream c s @ announcement (ApplicationPort s) (app_name s) (msg_recv s) \<and>
           (\<forall>c'. c' \<noteq> c \<longrightarrow> stream c' t = stream c' s) \<and> sock_inv t \<and> ready_to_send t \<and> socks t c \<noteq> None \<and>
           (\<forall>n. roomy c (length (announcement (ApplicationPort s) (app_name s) (msg_recv s)) + n) s \<longrightarrow> roomy c n t)"
proof -
  let ?s = "s\<lparr>fresh := fresh s + 1\<rparr>"
  let ?l1 = "message_line StartRegexp (int (ApplicationPort s)) (app_name s)"
    and ?l2 = "concat (map (\<lambda>m. message_line AddRegexp (mr_id m) (mr_regexp m)) (msg_recv s))"
    and ?l3 = "message_line EndRegexp 0 []"
  have s: "ready_to_send ?s" "socks ?s c \<noteq> None" using assms(1,2) by simp_all
  have room: "roomy c (length ?l1 + (length ?l2 + length ?l3)) ?s"
    using assms(3) by (simp add: announcement_def roomy_def split: option.splits)
  from msg_to_ok [OF s roomy_mono [OF room le_add1]] obtain s1 where
    s1: "msg_to (fresh s) c StartRegexp (int (ApplicationPort s)) (app_name s) ?s = Inr s1"
      "delivers_to c ?s ?l1 s1" by blast
  note d1 = delivers_toD [OF s1(2)]
  have r1: "roomy c (length ?l2 + length ?l3) s1" using d1(5) room by blast
  have k1: "socks s1 c \<noteq> None" using d1(4) s(2) by simp
  from msgs_to_ok [OF d1(1) k1 r1] obtain s2 where
    s2: "foldR (\<lambda>m. msg_to (fresh s) c AddRegexp (mr_id m) (mr_regexp m)) (msg_recv s) s1 = Inr s2"
      "delivers_to c s1 ?l2 s2" by blast
  note d2 = delivers_toD [OF s2(2)]
  have r2: "roomy c (length ?l3) s2" using d2(5) r1 by simp
  have k2: "socks s2 c \<noteq> None" using d2(4) k1 by simp
  from msg_to_ok [OF d2(1) k2 r2] obtain s3 where
    s3: "msg_to (fresh s) c EndRegexp 0 [] s2 = Inr s3" "delivers_to c s2 ?l3 s3" by blast
  have d: "delivers_to c ?s (announcement (ApplicationPort s) (app_name s) (msg_recv s)) s3"
    unfolding announcement_def using delivers_to_trans [OF s1(2) delivers_to_trans [OF s2(2) s3(2)]] .
  have fields: "msg_recv s1 = msg_recv s" "allClients s3 = allClients s"
    using talk_fields [OF d1(2)] talk_fields [OF delivers_toD(2) [OF d]] by simp_all
  define x where "x = \<lparr>c_ptr = fresh s, c_client = c, c_app_name = appname, c_app_port = 0, c_id = 0,
              c_srcRegList = [], c_readyToSend = 1, c_ignore_subsequent_msg = False,
              c_ping_ts = (0, 0), c_ping_id = 0\<rparr>"
  define t where "t = s3\<lparr>allClients := x # allClients s3\<rparr>"
  have "send_ready rx (fresh s) t = Inr t"
    by (simp add: send_ready_def t_def find_clnt_def x_def split: option.split)
  then have "SendService rx c appname s = Inr (fresh s, t)"
    using s1(1) s2(1) s3(1) fields(1)
    by (simp add: SendService_def Let_def t_def x_def fields(2))
  moreover have "stream c t = stream c s @ announcement (ApplicationPort s) (app_name s) (msg_recv s)"
    using delivers_toD(3) [OF d] by (simp add: t_def)
  moreover have "stream c' t = stream c' s" if "c' \<noteq> c" for c'
    using delivers_to_other [OF d that] by (simp add: t_def)
  moreover have "sock_inv t" "ready_to_send t" using delivers_toD(1) [OF d] by (simp_all add: ready_to_send_def sock_inv_def t_def)
  moreover have "socks t c \<noteq> None" using delivers_toD(4) [OF d] s(2) by (simp add: t_def)
  moreover have "roomy c n t"
    if "roomy c (length (announcement (ApplicationPort s) (app_name s) (msg_recv s)) + n) s" for n
    using delivers_toD(5) [OF d, of n] that by (simp add: t_def roomy_def split: option.splits)
  ultimately show ?thesis using fields(2) by (intro exI [of _ t] exI [of _ x]) (simp add: t_def x_def)
qed

lemma SendService_ok:
  assumes "ready_to_send s" and "socks s c \<noteq> None"
    and "roomy c (length (announcement (ApplicationPort s) (app_name s) (msg_recv s))) s"
  shows "\<exists>t x. SendService rx c appname s = Inr (fresh s, t) \<and> allClients t = x # allClients s \<and>
           c_ptr x = fresh s \<and> c_client x = c \<and> c_readyToSend x = 1 \<and> c_app_name x = appname \<and>
           stream c t = stream c s @ announcement (ApplicationPort s) (app_name s) (msg_recv s) \<and>
           (\<forall>c'. c' \<noteq> c \<longrightarrow> stream c' t = stream c' s) \<and> sock_inv t"
  using SendService_run [OF assms, of rx appname] by blast

text \<open>Closing marks the channel of the client; the loop deletes it later.\<close>

definition marked :: "nat \<Rightarrow> ivy \<Rightarrow> bool" where
  "marked c s \<longleftrightarrow> (\<exists>k. socks s c = Some k \<and>
     (\<exists>ch \<in> set (channels_list (lp s)). ch_ptr ch = sk_channel k \<and> ch_tobedeleted ch))"

lemma SocketClose_ok:
  assumes "sock_inv s" and "socks s c = Some k"
  shows "\<exists>l. SocketClose c s = Inr (s\<lparr>lp := l\<rparr>) \<and> sock_inv (s\<lparr>lp := l\<rparr>) \<and> marked c (s\<lparr>lp := l\<rparr>) \<and>
           (\<forall>c'. marked c' s \<longrightarrow> marked c' (s\<lparr>lp := l\<rparr>))"
proof -
  from sock_invD [OF assms] obtain ch where ch: "c \<noteq> 0" "ch \<in> set (channels_list (lp s))"
    "ch_ptr ch = sk_channel k" by (auto simp: sock_ok_def)
  let ?f = "\<lambda>c. if ch_ptr c = sk_channel k then c\<lparr>ch_tobedeleted := True\<rparr> else c"
  define l where "l = (lp s)\<lparr>channels_list := map ?f (channels_list (lp s))\<rparr>"
  have li: "loop_inv (lp s)" using assms(1) by (simp add: sock_inv_def)
  with ch have "find_channel (sk_channel k) (lp s) = Some ch"
    using find_channel_unique [of "lp s" ch] by (auto simp: loop_inv_def)
  then have run: "IvyChannelRemove (sk_channel k) (lp s) = Inr l"
    by (simp add: IvyChannelRemove_def l_def)
  have "sock_ok l c' k'" if "socks s c' = Some k'" for c' k'
  proof -
    from sock_invD [OF assms(1) that] obtain ch' where c1: "ch' \<in> set (channels_list (lp s))"
      "ch_ptr ch' = sk_channel k'" "ch_fd ch' = sk_fd k'" "ch_data ch' = ClientData c'"
      by (auto simp: sock_ok_def)
    have "?f ch' \<in> set (channels_list l)" using c1(1) by (simp add: l_def)
    moreover have "ch_ptr (?f ch') = sk_channel k'" "ch_fd (?f ch') = sk_fd k'" "ch_data (?f ch') = ClientData c'"
      using c1 by auto
    moreover have "wrdy_fds l = wrdy_fds (lp s)" by (simp add: l_def)
    ultimately show ?thesis using sock_invD [OF assms(1) that] unfolding sock_ok_def by auto
  qed
  then have "sock_inv (s\<lparr>lp := l\<rparr>)"
    using assms(1) loop_inv_Remove [OF li run] by (auto simp: sock_inv_def)
  moreover have "SocketClose c s = Inr (s\<lparr>lp := l\<rparr>)"
    using assms(2) ch(1) run by (simp add: SocketClose_def on_loop_def)
  moreover have "?f ch \<in> set (channels_list l)" using ch(2) by (simp add: l_def)
  then have "marked c (s\<lparr>lp := l\<rparr>)"
    using assms(2) ch(3) by (auto simp: marked_def intro!: bexI [of _ "?f ch"])
  moreover have "marked c' (s\<lparr>lp := l\<rparr>)" if "marked c' s" for c'
  proof -
    from that obtain k' ch' where c1: "socks s c' = Some k'" "ch' \<in> set (channels_list (lp s))"
      "ch_ptr ch' = sk_channel k'" "ch_tobedeleted ch'" by (auto simp: marked_def)
    have "?f ch' \<in> set (channels_list l)" using c1(2) by (simp add: l_def)
    moreover have "ch_ptr (?f ch') = sk_channel k'" "ch_tobedeleted (?f ch')" using c1 by auto
    ultimately show ?thesis using c1(1) by (auto simp: marked_def)
  qed
  ultimately show ?thesis by blast
qed

lemma lp_irrelevant [simp]: "stream c (s\<lparr>lp := l\<rparr>) = stream c s" "roomy c n (s\<lparr>lp := l\<rparr>) = roomy c n s"
  by (simp_all add: stream_def roomy_def split: option.split)

lemma upd_clnt_irrelevant [simp]:
  "ready_to_send (upd_clnt p f s) = ready_to_send s" "stream c (upd_clnt p f s) = stream c s"
  "roomy c n (upd_clnt p f s) = roomy c n s"
  by (simp_all add: ready_to_send_def sock_inv_def stream_def roomy_def upd_clnt_def split: option.split)

lemma bad_format_ok:
  assumes "ready_to_send s" and "socks s c \<noteq> None"
    and "roomy c (length (message_line Error 3 expected_format @ message_line Bye 0 [])) s"
  shows "\<exists>t. bad_format cl c s = Inr t \<and> marked c t \<and>
           stream c t = stream c s @
             message_line Error 3 expected_format @ message_line Bye 0 []"
proof -
  let ?e = "message_line Error 3 expected_format" and ?b = "message_line Bye 0 []"
  let ?s = "upd_clnt (c_ptr cl) (\<lambda>x. x\<lparr>c_client := c\<rparr>) s"
  have s: "ready_to_send ?s" "socks ?s c \<noteq> None" "roomy c (length ?e + length ?b) ?s"
    using assms by simp_all
  from msg_to_ok [OF s(1,2) roomy_mono [OF s(3) le_add1]] obtain u where
    u: "msg_to (c_ptr cl) c Error 3 expected_format ?s = Inr u"
      "delivers_to c ?s ?e u" by blast
  note du = delivers_toD [OF u(2)]
  have "socks u c \<noteq> None" "roomy c (length ?b) u" using du(4,5) s(2,3) by simp_all
  from msg_to_ok [OF du(1) this] obtain v where
    v: "msg_to (c_ptr cl) c Bye 0 [] u = Inr v" "delivers_to c u ?b v" by blast
  note dv = delivers_toD [OF v(2)]
  from dv(4) \<open>socks u c \<noteq> None\<close> obtain k where k: "socks v c = Some k" by auto
  from SocketClose_ok [OF _ k] dv(1) obtain l where
    "SocketClose c v = Inr (v\<lparr>lp := l\<rparr>)" "marked c (v\<lparr>lp := l\<rparr>)" by (auto simp: ready_to_send_def)
  with u(1) v(1) dv(3) du(3) show ?thesis
    by (intro exI [of _ "v\<lparr>lp := l\<rparr>"]) (simp add: bad_format_def)
qed

lemma Receive_bad:
  assumes "p \<noteq> 0" and "find_clnt p s = Some cl" and "\<not> c_ignore_subsequent_msg cl"
    and "scan_d_d line = None \<or> ARG_START \<notin> set line"
  shows "Receive rx c p line s = bad_format cl c s"
proof (cases "scan_d_d line")
  case None
  with assms show ?thesis by (simp add: Receive_def with_app_def)
next
  case (Some ki)
  with assms(4) have "strstr line [ARG_START] = None" by (simp add: strstr_char)
  with assms(1-3) Some show ?thesis by (cases ki) (simp add: Receive_def with_app_def)
qed


section \<open>Subscribing\<close>

lemma concat_one:
  "distinct (map f xs) \<Longrightarrow> x \<in> set xs \<Longrightarrow> concat (map (\<lambda>y. if f x = f y then l else []) xs) = l"
proof (induction xs)
  case (Cons y xs)
  show ?case
  proof (cases "x = y")
    case True
    with Cons.prems have "\<forall>z \<in> set xs. f x \<noteq> f z" by auto
    then have "concat (map (\<lambda>y. if f x = f y then l else []) xs) = []" by (auto simp: concat_eq_Nil_conv)
    with True show ?thesis by simp
  next
    case False
    with Cons.prems have x: "x \<in> set xs" "f y \<notin> f ` set xs" by auto
    then have "f x \<noteq> f y" by (metis imageI)
    with x Cons show ?thesis by simp
  qed
qed simp

lemma to_all_delivers:
  assumes "ready_to_send s" and "distinct (map c_client (allClients s))"
    and "\<forall>x \<in> set (allClients s). socks s (c_client x) \<noteq> None \<and> roomy (c_client x) (length (message_line ty i m)) s"
  shows "\<exists>t. to_all ty i m s = Inr t \<and>
           delivers s (\<lambda>c. if c \<in> c_client ` set (allClients s) then message_line ty i m else []) t"
proof -
  let ?l = "message_line ty i m"
  let ?out = "\<lambda>x c. if c = c_client x then ?l else []"
  have out: "concat (map (\<lambda>y. ?out y c) (allClients s)) = (if c \<in> c_client ` set (allClients s) then ?l else [])" for c
    using concat_one [OF assms(2)] by (auto simp: concat_eq_Nil_conv)
  have room: "room_for (\<lambda>c. concat (map (\<lambda>x. ?out x c) (allClients s))) s"
    using assms(3) by (auto simp: room_for_def out)
  have "\<exists>t. foldR (\<lambda>x. msg_to (c_ptr x) (c_client x) ty i m) (allClients s) s = Inr t \<and>
      delivers s (\<lambda>c. concat (map (\<lambda>x. ?out x c) (allClients s))) t"
  proof (rule deliver_foldR [OF _ assms(1) room])
    fix x u assume x: "x \<in> set (allClients s)" and u: "talk s u" "ready_to_send u" "room_for (?out x) u"
    have "socks u (c_client x) \<noteq> None" using talk_fields(16) [OF u(1), of "c_client x"] assms(3) x by simp
    moreover have "roomy (c_client x) (length ?l) u"
      using room_forD [OF u(3), of "c_client x"] by (simp add: message_line_def wire_header_def)
    ultimately show "\<exists>t. msg_to (c_ptr x) (c_client x) ty i m u = Inr t \<and> delivers u (?out x) t"
      using msg_to_ok [OF u(2)] unfolding delivers_to_def by blast
  qed
  then show ?thesis by (simp only: to_all_def out)
qed

lemma to_all_ok:
  assumes "ready_to_send s" and "distinct (map c_client (allClients s))"
    and "\<forall>x \<in> set (allClients s). socks s (c_client x) \<noteq> None \<and> roomy (c_client x) (length (message_line ty i m)) s"
  shows "\<exists>t. to_all ty i m s = Inr t \<and> talk s t \<and> ready_to_send t \<and>
           (\<forall>x \<in> set (allClients s). stream (c_client x) t = stream (c_client x) s @ message_line ty i m)"
  using to_all_delivers [OF assms] delivers_ready by (fastforce simp: delivers_def)

text \<open>What a subscription of the application changes in its own state.\<close>

definition subscribed :: "ivy \<Rightarrow> msg_rcv \<Rightarrow> ivy" where
  "subscribed s m = s\<lparr>fresh := fresh s + 1, recv_id := s32 (recv_id s + 1), msg_recv := m # msg_recv s\<rparr>"

lemma subscribed_views [simp]:
  "ready_to_send (subscribed s m) = ready_to_send s" "stream c (subscribed s m) = stream c s"
  "roomy c n (subscribed s m) = roomy c n s" "socks (subscribed s m) = socks s"
  "allClients (subscribed s m) = allClients s" "msg_recv (subscribed s m) = m # msg_recv s"
  by (simp_all add: subscribed_def ready_to_send_def sock_inv_def stream_def roomy_def split: option.split)

text \<open>To every connected application, and to nobody else.\<close>

definition to_everyone :: "ivy \<Rightarrow> string \<Rightarrow> nat \<Rightarrow> string" where
  "to_everyone s line c = (if c \<in> c_client ` set (allClients s) then line else [])"

lemma to_everyone_eq: "to_everyone s l = (\<lambda>c. if c \<in> c_client ` set (allClients s) then l else [])"
  by (simp add: fun_eq_iff to_everyone_def)

lemma bind_unbind_ok:
  assumes "substituteInterval pattern = Inr regexp" and "ready_to_send s"
    and "distinct (map c_client (allClients s))" and "\<forall>m \<in> set (msg_recv s). mr_ptr m \<noteq> fresh s"
    and "fresh s \<noteq> 0" and "\<forall>x \<in> set (allClients s). socks s (c_client x) \<noteq> None \<and>
           roomy (c_client x) (length (message_line AddRegexp (recv_id s) regexp) +
             length (message_line DelRegexp (recv_id s) [])) s"
  shows "\<exists>t u. IvyBindMsg callback pattern s = Inr (fresh s, t) \<and> IvyUnbindMsg (fresh s) t = Inr u \<and>
           msg_recv u = msg_recv s \<and>
           delivers (subscribed s \<lparr>mr_ptr = fresh s, mr_id = recv_id s, mr_regexp = regexp, mr_callback = callback\<rparr>)
             (to_everyone s (message_line AddRegexp (recv_id s) regexp)) t \<and>
           (\<forall>c. stream c u = stream c t @ to_everyone s (message_line DelRegexp (recv_id s) []) c)"
proof -
  let ?m = "\<lparr>mr_ptr = fresh s, mr_id = recv_id s, mr_regexp = regexp, mr_callback = callback\<rparr>"
  let ?add = "message_line AddRegexp (recv_id s) regexp" and ?del = "message_line DelRegexp (recv_id s) []"
  have "\<forall>x \<in> set (allClients s). roomy (c_client x) (length ?add) s"
    using assms(6) roomy_mono by fastforce
  then obtain t where t: "to_all AddRegexp (recv_id s) regexp (subscribed s ?m) = Inr t"
    "delivers (subscribed s ?m) (to_everyone s ?add) t"
    using to_all_delivers [of "subscribed s ?m" AddRegexp "recv_id s" regexp] assms(2,3,6)
    by (auto simp: to_everyone_eq)
  have bind: "IvyBindMsg callback pattern s = Inr (fresh s, t)"
    using assms(1) t(1) by (simp add: IvyBindMsg_def Let_def subscribed_def)
  have talk: "talk (subscribed s ?m) t" and ready: "ready_to_send t"
    using t(2) delivers_ready [OF t(2)] by (simp_all add: delivers_def)
  note same = talk_fields(1,3) [OF talk] talk_fields(16) [OF talk]
  have "roomy (c_client x) (length ?del) t" if "x \<in> set (allClients s)" for x
    using t(2) assms(6) that by (simp add: delivers_def to_everyone_def)
  then obtain v where v: "to_all DelRegexp (recv_id s) [] t = Inr v"
    "delivers t (to_everyone s ?del) v"
    using to_all_delivers [of t DelRegexp "recv_id s" "[]"] assms(3,6) ready same
    by (auto simp: to_everyone_eq)
  let ?u = "v\<lparr>msg_recv := filter (\<lambda>m. mr_ptr m \<noteq> fresh s) (msg_recv v)\<rparr>"
  have mv: "msg_recv v = ?m # msg_recv s" using v(2) talk_fields(3) [of t v] same by (simp add: delivers_def)
  have "IvyUnbindMsg (fresh s) t = Inr ?u"
    using v(1) assms(5) same by (simp add: IvyUnbindMsg_def with_msg_def)
  moreover have "msg_recv ?u = msg_recv s" using mv assms(4) by (auto simp: filter_id_conv)
  moreover have "stream c ?u = stream c t @ to_everyone s ?del c" for c
  proof -
    have "stream c ?u = stream c v" by (simp add: stream_def split: option.split)
    with v(2) show ?thesis by (simp add: delivers_def)
  qed
  ultimately show ?thesis using bind t(2) by blast
qed

section \<open>States for the examples\<close>

lemma demo_idle_ready: "ready_to_send demo_idle" "socks demo_idle 1 = Some (demo_sock None)"
  "n < 33554432 \<Longrightarrow> roomy 1 n demo_idle" "msg_recv demo_idle = []" "app_name demo_idle = ''me''"
  "allClients demo_idle = [demo_peer]" "stream 1 demo_idle = []" "ApplicationPort demo_idle = 2011"
  "find_clnt 5 demo_idle = Some demo_peer"
  using demo_inv [of None "[]"]
  by (simp_all add: demo_idle_def ready_to_send_def roomy_def fifo_size_defs app_name_def find_clnt_def
      demo_peer_def)
    (simp_all add: demo_def demo_sock_def new_sock_def stream_def pending_def fifo_size_defs)

section \<open>Properties\<close>

text \<open>
  The handshake on a new connection: the new node waits for the peer's announcement, and the
  peer is sent the name and the port of the application, one \<open>AddRegexp\<close> for every subscription
  with its id, and the end mark, in this order, and nothing else; no other client is sent
  anything.
\<close>
theorem new_connection_is_announced:
  assumes "sock_inv s" and "SendFails \<notin> set (script (net s))" and "socks s c \<noteq> None"
    and "roomy c (length (announcement (ApplicationPort s) (app_name s) (msg_recv s))) s"
  shows "\<exists>t x. SendService rx c appname s = Inr (fresh s, t) \<and> allClients t = x # allClients s \<and>
           c_ptr x = fresh s \<and> c_client x = c \<and> c_readyToSend x = 1 \<and> c_app_name x = appname \<and>
           stream c t = stream c s @ announcement (ApplicationPort s) (app_name s) (msg_recv s) \<and>
           (\<forall>c'. c' \<noteq> c \<longrightarrow> stream c' t = stream c' s) \<and> sock_inv t"
  using SendService_ok [OF _ assms(3,4)] assms(1,2) by (simp add: ready_to_send_def)

theorem new_connection_is_announced_witness:
  "\<exists>t. SendService first_char_engine 1 ''peer'' demo_idle = Inr (10, t) \<and>
     stream 1 t = message_line StartRegexp 2011 ''me'' @ message_line EndRegexp 0 []"
proof -
  have "roomy 1 (length (announcement 2011 ''me'' [])) demo_idle"
    by (rule demo_idle_ready) (simp add: announcement_def message_line_def wire_header_def show_int_def
        show_nat.simps)
  moreover have "fresh demo_idle = 10" by (simp add: demo_idle_def demo_def)
  ultimately show ?thesis
    using new_connection_is_announced [of demo_idle 1 first_char_engine "''peer''"] demo_idle_ready
    by (auto simp: ready_to_send_def announcement_def)
qed

text \<open>
  C16: \<open>IvyBindMsg\<close> tells every connected application about the new subscription: the binding
  gets the value of the counter as its id and the counter goes up by one, so that ids are given out
  one after the other; the binding heads the list of bindings, and each client is sent one
  \<open>AddRegexp\<close> with that id and the pattern in which the intervals are substituted.
\<close>
theorem binding_is_announced:
  assumes "substituteInterval pattern = Inr regexp" and "sock_inv s" and "SendFails \<notin> set (script (net s))"
    and "distinct (map c_client (allClients s))"
    and "\<forall>x \<in> set (allClients s). socks s (c_client x) \<noteq> None \<and>
           roomy (c_client x) (length (message_line AddRegexp (recv_id s) regexp)) s"
  shows "\<exists>t. IvyBindMsg callback pattern s = Inr (fresh s, t) \<and>
           msg_recv t = \<lparr>mr_ptr = fresh s, mr_id = recv_id s, mr_regexp = regexp, mr_callback = callback\<rparr>
             # msg_recv s \<and>
           recv_id t = s32 (recv_id s + 1) \<and>
           (\<forall>x \<in> set (allClients s). stream (c_client x) t =
              stream (c_client x) s @ message_line AddRegexp (recv_id s) regexp)"
proof -
  let ?m = "\<lparr>mr_ptr = fresh s, mr_id = recv_id s, mr_regexp = regexp, mr_callback = callback\<rparr>"
  let ?s = "s\<lparr>fresh := fresh s + 1, recv_id := s32 (recv_id s + 1), msg_recv := ?m # msg_recv s\<rparr>"
  have str: "stream c ?s = stream c s" "roomy c n ?s = roomy c n s" for c n
    by (simp_all add: stream_def roomy_def split: option.split)
  have "ready_to_send ?s" using assms(2,3) by (simp add: ready_to_send_def sock_inv_def)
  from to_all_ok [OF this, of AddRegexp "recv_id s" regexp] assms(4,5) str obtain t where
    "to_all AddRegexp (recv_id s) regexp ?s = Inr t" "talk ?s t"
    "\<forall>x \<in> set (allClients s). stream (c_client x) t =
       stream (c_client x) s @ message_line AddRegexp (recv_id s) regexp" by auto
  with talk_fields(3) [of ?s t] talk_recv_id [of ?s t] assms(1) show ?thesis by (simp add: IvyBindMsg_def Let_def)
qed

theorem binding_is_announced_witness:
  "\<exists>t. IvyBindMsg True ''a(.*)'' demo_idle = Inr (10, t) \<and> recv_id t = 1 \<and>
     stream 1 t = message_line AddRegexp 0 ''a(.*)''"
proof -
  have "roomy 1 (length (message_line AddRegexp 0 ''a(.*)'')) demo_idle"
    by (rule demo_idle_ready) (simp add: message_line_def wire_header_def show_int_def show_nat.simps)
  moreover have "fresh demo_idle = 10" "recv_id demo_idle = 0" "c_client demo_peer = 1"
    by (simp_all add: demo_idle_def demo_def demo_peer_def)
  moreover have plain: "substituteInterval ''a(.*)'' = Inr ''a(.*)''"
    by (simp add: substituteInterval_def interval_mark_def)
  ultimately show ?thesis
    using binding_is_announced [of "''a(.*)''" "''a(.*)''" demo_idle True] demo_idle_ready plain
    by (auto simp: ready_to_send_def s32_def)
qed

text \<open>
  C36: the feature the intervals are for never works: subscribing to a pattern with an interval of
  two different bounds is undefined behaviour, whatever the bounds. The loops of \<open>nextMax\<close> count
  down with an unsigned index and the test \<open>i >= 0\<close>, and run out of their arrays; between the
  bounds 0 and 1 the text is appended to a buffer that was never initialised.
\<close>
theorem interval_binding_is_undefined:
  assumes "CHR ''('' \<notin> set pre" and "is_int32 a" and "is_int32 b" and "a \<noteq> b"
    and "\<not> is_digit k" and "k \<noteq> CHR '')''" and "length pre \<le> 8192"
  shows "IvyBindMsg callback (pre @ interval_text a b k @ rest) s \<in> {Inl OutOfBounds, Inl Uninitialised}"
  using interval_undefined [OF assms, of rest] by (auto simp: IvyBindMsg_def)

theorem interval_binding_is_undefined_witness:
  "IvyBindMsg True ''speed (?I3#120i)'' demo_idle \<in> {Inl OutOfBounds, Inl Uninitialised}"
proof -
  have "show_int 3 = ''3''" "show_int 120 = ''120''" by code_simp+
  then show ?thesis
    using interval_binding_is_undefined [of "''speed ''" 3 120 "CHR ''i''" True "[]" demo_idle]
    by (simp add: interval_text_def interval_mark_def is_int32_def is_digit_def)
qed

text \<open>
  C29: a line that is not of the form \<open>type id\<close>, \<open>ARG_START\<close>, text is answered with an error and
  \<open>Bye\<close>, and the connection is marked to be deleted; it is not interpreted in any other way.
\<close>
theorem malformed_line_closes:
  assumes "sock_inv s" and "SendFails \<notin> set (script (net s))" and "socks s c \<noteq> None"
    and "p \<noteq> 0" and "find_clnt p s = Some cl" and "\<not> c_ignore_subsequent_msg cl"
    and "scan_d_d line = None \<or> ARG_START \<notin> set line"
    and "roomy c (length (message_line Error 3 expected_format @
           message_line Bye 0 [])) s"
  shows "\<exists>t. Receive rx c p line s = Inr t \<and> marked c t \<and>
           stream c t = stream c s @
             message_line Error 3 expected_format @ message_line Bye 0 []"
  using bad_format_ok [OF _ assms(3,8)] Receive_bad [OF assms(4-7)] assms(1,2)
  by (simp add: ready_to_send_def)

theorem malformed_line_closes_witness:
  "\<exists>t. Receive first_char_engine 1 5 ''hello'' demo_idle = Inr t \<and> marked 1 t"
proof -
  have "roomy 1 (length (message_line Error 3 expected_format @
      message_line Bye 0 [])) demo_idle"
    by (rule demo_idle_ready) (simp add: expected_format_def message_line_def wire_header_def show_int_def show_nat.simps)
  moreover have "\<not> c_ignore_subsequent_msg demo_peer" by (simp add: demo_peer_def)
  ultimately show ?thesis
    using malformed_line_closes [of demo_idle 1 5 demo_peer "''hello''"] demo_idle_ready
    by (auto simp: ready_to_send_def ARG_START_def)
qed

end
