(* ===== verification/IvyBus.thy ===== *)
theory IvyBus imports IvySession begin

text \<open>
  Two applications and the bytes between them: what the lines of a connection do to the
  application that reads them in pieces of any size. A message sent by one calls the callbacks of
  the other; the announcement sent by one enters its bindings in the dictionary of the other.
\<close>

section \<open>What the lines of a connection do\<close>

text \<open>
  What the reading changes in a client: the buffer of what is not yet a line, within its size.
\<close>

definition rebuffered :: "sock \<Rightarrow> sock \<Rightarrow> bool" where
  "rebuffered k k' \<longleftrightarrow>
     k'\<lparr>sk_from_len := 0, sk_buffer_size := 0, sk_buffer := []\<rparr> =
       k\<lparr>sk_from_len := 0, sk_buffer_size := 0, sk_buffer := []\<rparr> \<and>
     sk_buffer_size k \<le> sk_buffer_size k' \<and> length (sk_buffer k') \<le> sk_buffer_size k'"

context line_client begin

text \<open>
  A relation between the lines interpreted so far and the state that every line carries on and
  that the reading leaves alone holds of all the lines read.
\<close>

lemma fold_steps:
  assumes "\<And>ds l s k t. Q ds s \<Longrightarrow> socks s c = Some k \<Longrightarrow>
      interp c (sk_interpretation k) (sk_data k) (c_string l) s = Inr t \<Longrightarrow> Q (ds @ [l]) t"
    and "foldR (interpret_line interp c) ls s = Inr t" and "Q ds s"
  shows "Q (ds @ ls) t"
  using assms(2,3)
proof (induction ls arbitrary: ds s)
  case (Cons l ls)
  from Cons.prems(1) obtain u where u: "interpret_line interp c l s = Inr u" "foldR (interpret_line interp c) ls u = Inr t"
    by (auto simp: bindR_eq_Inr)
  from u(1) obtain k where "socks s c = Some k" "interp c (sk_interpretation k) (sk_data k) (c_string l) s = Inr u"
    by (auto simp: interpret_line_def deref_eq_Inr)
  from Cons.IH [OF u(2) assms(1) [OF Cons.prems(2) this]] show ?case by simp
qed simp

lemma reads_steps:
  assumes "reads interp c s ls t" and "recv_ok c s" and "Q ds s"
    and sock: "\<And>ds s k k'. Q ds s \<Longrightarrow> socks s c = Some k \<Longrightarrow> sk_data k' = sk_data k \<Longrightarrow>
      sk_interpretation k' = sk_interpretation k \<Longrightarrow> sk_from k' = sk_from k \<Longrightarrow> rebuffered k k' \<Longrightarrow> Q ds (set_sock c k' s)"
    and arr: "\<And>ds s a. Q ds s \<Longrightarrow> Q ds (s\<lparr>arrivals := a\<rparr>)"
    and step: "\<And>ds l s k t. Q ds s \<Longrightarrow> socks s c = Some k \<Longrightarrow>
      interp c (sk_interpretation k) (sk_data k) (c_string l) s = Inr t \<Longrightarrow> Q (ds @ [l]) t"
  shows "Q (ds @ ls) t"
  using assms(1-3)
proof (induction arbitrary: ds rule: reads.induct)
  case (reads_more s k t ls u)
  let ?text = "sk_buffer k @ chunk k (arrivals s (sk_fd k))"
  obtain kk a where h: "HandleSocket interp (sk_fd k) c s =
        handle_lines interp c (call_lines c s) (snd (split_lines (sk_terminator k) ?text))
          (set_sock c kk (s\<lparr>arrivals := a\<rparr>))"
      "kk = (grow_buffer k)\<lparr>sk_from_len := 0, sk_buffer := ?text\<rparr>"
      "recv_ok c (set_sock c kk (s\<lparr>arrivals := a\<rparr>))" "length ?text \<le> sk_buffer_size kk"
    using HandleSocket_stream [OF reads_more.prems(1) reads_more.hyps(1,2) refl] by auto
  have kk: "sk_data kk = sk_data k" "sk_interpretation kk = sk_interpretation k"
    "sk_from kk = sk_from k"
    by (simp_all add: h(2) grow_buffer_def)
  have q0: "Q ds (set_sock c kk (s\<lparr>arrivals := a\<rparr>))"
    by (rule sock [OF arr [OF reads_more.prems(2)] _ kk])
      (use h(4) in \<open>simp_all add: reads_more.hyps(1) h(2) rebuffered_def grow_buffer_def\<close>)
  from reads_more.hyps(3) [unfolded h(1)] obtain v k2 where
    v: "foldR (interpret_line interp c) (call_lines c s) (set_sock c kk (s\<lparr>arrivals := a\<rparr>)) = Inr v"
      "socks v c = Some k2" "t = set_sock c (k2\<lparr>sk_buffer := snd (split_lines (sk_terminator k) ?text)\<rparr>) v"
    by (auto simp: handle_lines_def bindR_eq_Inr deref_eq_Inr)
  have len: "length (snd (split_lines (sk_terminator k) ?text)) \<le> sk_buffer_size kk"
    using length_split_rest le_trans h(4) by blast
  note kept = handle_lines_keeps [OF reads_more.hyps(3) [unfolded h(1)] h(3) _ len]
  have "sk_buffer_size k2 = sk_buffer_size kk"
    using kept(1) v(3) by (auto simp: set_sock_def dest: arg_cong [of _ _ sk_buffer_size])
  then have "Q (ds @ call_lines c s) t"
    unfolding v(3) using len by (intro sock [OF fold_steps [where Q = Q, OF step v(1) q0] v(2)]) (simp_all add: rebuffered_def)
  moreover have "recv_ok c t" by (rule kept(2)) (simp add: set_sock_def)
  ultimately have "Q ((ds @ call_lines c s) @ ls) u" using reads_more.IH by blast
  then show ?case by simp
qed simp

end

section \<open>A message from the sender to the callbacks\<close>

definition call_event :: "nat \<Rightarrow> int \<times> string list \<Rightarrow> event" where
  "call_event p = (\<lambda>(i, as). MsgEvent p i as)"

definition receives :: "nat \<Rightarrow> nat \<Rightarrow> msg_rcv list \<Rightarrow> ivy \<Rightarrow> bool" where
  "receives c p ms s \<longleftrightarrow> p \<noteq> 0 \<and> \<not> exited s \<and> msg_recv s = ms \<and>
     (\<exists>cl. find_clnt p s = Some cl \<and> \<not> c_ignore_subsequent_msg cl) \<and>
     (\<exists>k. socks s c = Some k \<and> sk_data k = p \<and> sk_interpretation k = InterpReceive)"

definition has_callback :: "msg_rcv list \<Rightarrow> int \<times> string list \<Rightarrow> bool" where
  "has_callback ms = (\<lambda>(i, as). is_int32 i \<and> length as \<le> MAX_MATCHING_ARGS \<and>
     (\<exists>rcv. find (\<lambda>m. mr_id m = i) ms = Some rcv \<and> mr_callback rcv) \<and>
     (\<forall>a \<in> set as. ARG_END \<notin> set a \<and> CHR 0x00 \<notin> set a))"

lemma call_line_text:
  assumes "\<forall>a \<in> set (snd q). CHR 0x00 \<notin> set a"
  shows "c_string (call_line q) = call_line q"
proof -
  have "CHR 0x00 \<noteq> ARG_END" "CHR 0x00 \<noteq> ARG_START" "\<not> is_digit (CHR 0x00)"
    by (simp_all add: ARG_END_def ARG_START_def is_digit_def)
  then have "CHR 0x00 \<notin> set (call_line q)"
    using assms show_int_chars [of "CHR 0x00"] by (auto simp: call_line_def wire_header_def join_args_def)
  then show ?thesis by (auto simp: c_string_def takeWhile_eq_all_conv)
qed

lemma find_clnt_upd:
  "find_clnt p s = Some cl \<Longrightarrow> (\<And>x. c_ptr (f x) = c_ptr x) \<Longrightarrow> find_clnt p (upd_clnt p f s) = Some (f cl)"
proof -
  assume a: "find_clnt p s = Some cl" "\<And>x. c_ptr (f x) = c_ptr x"
  have "find (\<lambda>c. c_ptr c = p) (map (\<lambda>c. if c_ptr c = p then f c else c) cs) =
      map_option f (find (\<lambda>c. c_ptr c = p) cs)" for cs
    by (induction cs) (auto simp: a(2))
  then show ?thesis using a(1) by (simp add: find_clnt_def upd_clnt_def)
qed

lemma call_received:
  assumes "receives c p ms s" and "has_callback ms q" and "socks s c = Some k"
    and "ivy_interp rx c (sk_interpretation k) (sk_data k) (c_string (call_line q)) s = Inr t"
  shows "receives c p ms t" "events t = events s @ [call_event p q]"
proof -
  obtain i as where q: "q = (i, as)" by (cases q)
  from assms(1) obtain cl where cl: "find_clnt p s = Some cl" "\<not> c_ignore_subsequent_msg cl" "p \<noteq> 0"
    "\<not> exited s" "msg_recv s = ms" "sk_data k = p" "sk_interpretation k = InterpReceive"
    using assms(3) by (auto simp: receives_def)
  from assms(2) obtain rcv where rcv: "is_int32 i" "length as \<le> MAX_MATCHING_ARGS"
    "find (\<lambda>m. mr_id m = i) (msg_recv s) = Some rcv" "mr_callback rcv"
    "\<forall>a \<in> set as. ARG_END \<notin> set a" "\<forall>a \<in> set (snd q). CHR 0x00 \<notin> set a"
    by (auto simp: has_callback_def q cl(5))
  have t: "t = emit (MsgEvent p i as) (upd_clnt p (\<lambda>c. c\<lparr>c_id := i\<rparr>) s)"
    using assms(4) Receive_Msg_ok [OF rcv(1) cl(3,1,2) rcv(3,4,5,2)] call_line_text [OF rcv(6)] cl(4,6,7)
    by (simp add: ivy_interp_def call_line_def q)
  have "find_clnt p (upd_clnt p (\<lambda>c. c\<lparr>c_id := i\<rparr>) s) = Some (cl\<lparr>c_id := i\<rparr>)"
    using cl(1) by (rule find_clnt_upd) simp
  then have "find_clnt p t = Some (cl\<lparr>c_id := i\<rparr>)" by (simp add: t find_clnt_def emit_def)
  then show "receives c p ms t" using cl assms(3) by (simp add: receives_def) (simp add: t emit_def upd_clnt_def)
  show "events t = events s @ [call_event p q]" by (simp add: t emit_def upd_clnt_def call_event_def q)
qed

lemma calls_received:
  assumes "reads (ivy_interp rx) c r (map call_line qs) t" and "recv_ok c r" and "receives c p ms r"
    and "\<forall>q \<in> set qs. has_callback ms q"
  shows "events t = events r @ map (call_event p) qs"
proof -
  define Q where "Q ds s \<longleftrightarrow> (\<forall>us vs. qs = us @ vs \<and> ds = map call_line us \<longrightarrow>
      receives c p ms s \<and> events s = events r @ map (call_event p) us)" for ds s
  have "Q ([] @ map call_line qs) t"
  proof (rule lines.reads_steps [OF assms(1,2)])
    show "Q [] r" using assms(3) by (simp add: Q_def)
  next
    fix ds s and k k' :: sock assume "Q ds s" "socks s c = Some k" "sk_data k' = sk_data k"
      "sk_interpretation k' = sk_interpretation k"
    then show "Q ds (set_sock c k' s)"
      by (auto simp: Q_def receives_def set_sock_def find_clnt_def)
  next
    fix ds s a assume "Q ds s"
    then show "Q ds (s\<lparr>arrivals := a\<rparr>)" by (auto simp: Q_def receives_def find_clnt_def)
  next
    fix ds l s t and k :: sock assume q: "Q ds s" and k: "socks s c = Some k"
      and run: "ivy_interp rx c (sk_interpretation k) (sk_data k) (c_string l) s = Inr t"
    show "Q (ds @ [l]) t"
      unfolding Q_def
    proof (intro allI impI, elim conjE)
      fix us vs assume qs: "qs = us @ vs" and "ds @ [l] = map call_line us"
      then obtain us' u where u: "us = us' @ [u]" "ds = map call_line us'" "l = call_line u"
        by (cases us rule: rev_cases) auto
      have "qs = us' @ (u # vs)" by (simp add: qs u(1))
      with q u(2) have s: "receives c p ms s" "events s = events r @ map (call_event p) us'"
        unfolding Q_def by blast+
      have "has_callback ms u" using assms(4) qs u(1) by simp
      from call_received [OF s(1) this k run [unfolded u(3)]] s(2) u(1)
      show "receives c p ms t \<and> events t = events r @ map (call_event p) us" by simp
    qed
  qed
  then show ?thesis by (simp add: Q_def)
qed

text \<open>
  C4: publication and subscription from end to end. What \<open>IvySendMsg\<close> sends to a subscriber, read
  by the subscriber in pieces of any size, calls exactly one callback for each of its subscriptions
  that match, in order, with the captured groups as arguments, and reports nothing else to the
  application.
\<close>
theorem publication_calls_the_callbacks:
  assumes "sock_inv s" and "SendFails \<notin> set (script (net s))" and "fmt \<noteq> []"
    and "\<not> debug_binary_msg s" and "list_all (good_entry rx message) (messSndByRegexp s)"
    and "\<forall>e \<in> set (messSndByRegexp s). \<forall>dc \<in> set (d_clientList e). socks s (dc_client dc) \<noteq> None"
    and "room_for (\<lambda>c. frames (calls rx message (messSndByRegexp s) c)) s"
    and "NL \<notin> set message" and "IvySendMsg rx (Some fmt) message s = Inr (n, t)"
    and "reads (ivy_interp rx') c' r ls r'" and "recv_ok c' r" and "socks r c' = Some k"
    and "sk_buffer k = []" and "incoming (arrivals r (sk_fd k)) = drop (length (stream c s)) (stream c t)"
    and "arrivals r' (sk_fd k) = []"
    and "receives c' p (msg_recv r) r"
    and "\<forall>q \<in> set (calls rx message (messSndByRegexp s) c). has_callback (msg_recv r) q"
  shows "events r' = events r @ map (\<lambda>(i, as). MsgEvent p i as) (calls rx message (messSndByRegexp s) c)"
proof -
  have ls: "ls = map call_line (calls rx message (messSndByRegexp s) c)"
    by (rule lines_on_the_wire [OF assms(1-15)])
  show ?thesis
    using calls_received [OF assms(10) [unfolded ls] assms(11,16,17)] by (simp add: call_event_def [abs_def])
qed

theorem publication_calls_the_callbacks_witness:
  "\<exists>t r. IvySendMsg first_char_engine (Some ''%s'') ''ab'' demo_sender = Inr (1, t) \<and>
     reads (ivy_interp token_engine) 1 demo_receiver [call_line (3, [''a''])] r \<and>
     incoming (arrivals demo_receiver 7) = stream 1 t \<and> events r = [MsgEvent 5 3 [''a'']]"
proof -
  from IvySendMsg_ok [OF demo_sender_ok demo_sender_room] obtain t where
    t: "IvySendMsg first_char_engine (Some ''%s'') ''ab'' demo_sender = Inr (1, t)"
      "stream 1 t = frames [(3, [''a''])]"
    using demo_sender_stream by (auto simp: demo_sender_calls delivers_def)
  from demo_receiver_reads obtain r where r: "arrivals r 7 = []"
    "reads (ivy_interp token_engine) 1 demo_receiver [call_line (3, [''a''])] r" by blast
  have k: "socks demo_receiver 1 = Some (demo_sock None)" "sk_fd (demo_sock None) = 7"
    "sk_buffer (demo_sock None) = []"
    by (simp_all add: demo_receiver_def demo_def demo_sock_def new_sock_def)
  have ok: "recv_ok 1 demo_receiver"
    by (auto simp: recv_ok_def k demo_receiver_def demo_frames stream_only_def fresh_ok_def demo_def
        demo_sock_def new_sock_def IVY_BUFFER_SIZE_def)
  have inc: "incoming (arrivals demo_receiver (sk_fd (demo_sock None))) =
      drop (length (stream 1 demo_sender)) (stream 1 t)"
    by (simp add: k(2) t(2) demo_sender_stream incoming_def demo_receiver_def del: One_nat_def)
  have rcv: "receives 1 5 (msg_recv demo_receiver) demo_receiver"
    by (simp add: receives_def k(1) del: One_nat_def)
      (simp add: demo_receiver_def find_clnt_def demo_peer_def demo_def demo_sock_def new_sock_def)
  have cb: "\<forall>q \<in> set (calls first_char_engine ''ab'' (messSndByRegexp demo_sender) 1). has_callback (msg_recv demo_receiver) q"
    by (simp add: demo_sender_calls has_callback_def is_int32_def MAX_MATCHING_ARGS_def ARG_END_def demo_receiver_def)
  have nl: "NL \<notin> set ''ab''" by (simp add: NL_def)
  have "arrivals r (sk_fd (demo_sock None)) = []" using r(1) k(2) by simp
  from publication_calls_the_callbacks [OF demo_sender_ok demo_sender_room nl t(1) r(2) ok k(1,3) inc this rcv cb]
  have "events r = [MsgEvent 5 3 [''a'']]"
    by (simp only: demo_sender_calls) (simp add: demo_receiver_def)
  moreover have "incoming (arrivals demo_receiver 7) = stream 1 t"
    using inc k(2) demo_sender_stream by simp
  ultimately show ?thesis using t(1) r(2) by blast
qed

section \<open>An announcement, from the new connection to the dictionary of the peer\<close>

definition announced :: "nat \<Rightarrow> string \<Rightarrow> msg_rcv list \<Rightarrow> string list" where
  "announced port name ms = (wire_header StartRegexp (int port) @ name) #
     map (\<lambda>m. wire_header AddRegexp (mr_id m) @ mr_regexp m) ms @ [wire_header EndRegexp 0]"

lemma header_chars:
  "c \<in> set (wire_header ty i) \<longleftrightarrow> c \<in> set (show_int (msg_code ty)) \<or> c = CHR '' '' \<or> c \<in> set (show_int i) \<or> c = ARG_START"
  by (auto simp: wire_header_def)

lemma control_chars [simp]:
  "NL \<noteq> ARG_START" "NL \<noteq> CHR '' ''" "NL \<noteq> CHR ''-''" "CHR 0x00 \<noteq> ARG_START" "\<not> is_digit NL" "\<not> is_digit (CHR 0x00)"
  by (simp_all add: NL_def ARG_START_def is_digit_def)

lemma announcement_lines:
  assumes "NL \<notin> set name" and "\<forall>m \<in> set ms. NL \<notin> set (mr_regexp m)"
  shows "split_lines NL (announcement port name ms) = (announced port name ms, [])"
proof -
  have "NL \<notin> set l" if "l \<in> set (announced port name ms)" for l
    using assms that show_int_chars [of NL] by (auto simp: announced_def header_chars)
  then have "split_lines NL (concat (map (\<lambda>l. l @ [NL]) (announced port name ms))) = (announced port name ms, [])"
    by (intro split_lines_concat) blast
  then show ?thesis by (simp add: announcement_def announced_def message_line_def comp_def)
qed

text \<open>
  The node of a peer on connection \<open>c\<close>, while nobody else is known under its port.
\<close>

definition peer_at :: "nat \<Rightarrow> nat \<Rightarrow> clnt \<Rightarrow> ivy \<Rightarrow> bool" where
  "peer_at c p cl s \<longleftrightarrow> clients_inv s \<and> dict_inv (messSndByRegexp s) \<and> cl \<in> set (allClients s) \<and>
     c_ptr cl = p \<and> p \<noteq> 0 \<and> c_client cl = c \<and> c \<noteq> 0 \<and> \<not> c_ignore_subsequent_msg cl \<and> \<not> exited s \<and>
     (\<exists>k. socks s c = Some k \<and> sk_data k = p \<and> sk_interpretation k = InterpReceive \<and>
        (\<forall>x \<in> set (allClients s). c_client x \<noteq> c \<longrightarrow> c_app_port x \<noteq> sa_port (sk_from k)))"

lemma check_clients_none:
  "\<forall>x \<in> set cs. c_client x \<noteq> c \<longrightarrow> c_app_port x \<noteq> rp \<Longrightarrow> check_clients c rp cs s = Inr None"
  by (induction cs) auto

lemma peer_at_upd:
  assumes "peer_at c p cl s" and "\<And>x. c_ptr (f x) = c_ptr x \<and> c_client (f x) = c_client x \<and>
      c_srcRegList (f x) = c_srcRegList x \<and> c_ignore_subsequent_msg (f x) = c_ignore_subsequent_msg x"
  shows "peer_at c p (f cl) (upd_clnt p f s)"
proof -
  have "clients_inv (upd_clnt p f s)"
    using assms by (auto simp: peer_at_def clients_inv_def upd_clnt_def comp_def if_distrib [of c_ptr]
        if_distrib [of c_client] cong: if_cong)
  moreover have "c_client x \<noteq> c \<Longrightarrow> c_ptr x \<noteq> p" if "x \<in> set (allClients s)" for x
    using assms(1) that by (auto simp: peer_at_def clients_inv_def distinct_map inj_on_def)
  ultimately show ?thesis using assms by (auto simp: peer_at_def upd_clnt_def)
qed

lemma peer_at_fields:
  assumes "peer_at c p cl s" and "allClients t = allClients s" and "messSndByRegexp t = messSndByRegexp s"
    and "fresh t = fresh s" and "socks t = socks s" and "exited t = exited s"
  shows "peer_at c p cl t"
  using assms by (simp add: peer_at_def clients_inv_def)

lemma peer_at_data: "peer_at c p cl s \<Longrightarrow> socks s c = Some k \<Longrightarrow> sk_data k = p \<and> sk_interpretation k = InterpReceive"
  by (simp add: peer_at_def)

lemma peer_at_run:
  assumes "peer_at c p cl s" and "socks s c = Some k"
    and "ivy_interp rx c (sk_interpretation k) (sk_data k) l s = Inr t"
  shows "Receive rx c p l s = Inr t"
  using assms by (simp add: ivy_interp_def peer_at_data) (simp add: peer_at_def)

lemma wire_text: "CHR 0x00 \<notin> set a \<Longrightarrow> c_string (wire_header ty i @ a) = wire_header ty i @ a"
proof -
  assume a: "CHR 0x00 \<notin> set a"
  have "CHR 0x00 \<notin> set (wire_header ty i @ a)"
    using a show_int_chars [of "CHR 0x00"] by (auto simp: header_chars)
  then show ?thesis by (auto simp: c_string_def takeWhile_eq_all_conv)
qed

lemma start_read:
  assumes "peer_at c p cl s" and "port < 65536"
  shows "\<exists>t cl'. Receive rx c p (wire_header StartRegexp (int port) @ name) s = Inr t \<and> peer_at c p cl' t \<and>
           c_app_name cl' = name \<and> c_app_port cl' = port \<and> messSndByRegexp t = messSndByRegexp s \<and>
           filters t = filters s \<and> ready_message t = ready_message s"
proof -
  define f where "f x = x\<lparr>c_id := int port, c_app_name := name, c_app_port := port\<rparr>" for x :: clnt
  have i: "is_int32 (int port)" "u16 (int port) = port"
    using assms(2) by (simp_all add: is_int32_def u16_def)
  from assms(1) have cl: "find_clnt p s = Some cl" "p \<noteq> 0" "\<not> c_ignore_subsequent_msg cl" "c_client cl = c" "c \<noteq> 0"
    "c_ptr cl = p"
    using find_clnt_mem [of s cl] by (auto simp: peer_at_def)
  have at: "peer_at c p (f cl) (upd_clnt p f s)" by (rule peer_at_upd [OF assms(1)]) (simp add: f_def)
  then obtain k where k: "socks (upd_clnt p f s) c = Some k"
    "\<forall>x \<in> set (allClients (upd_clnt p f s)). c_client x \<noteq> c \<longrightarrow> c_app_port x \<noteq> sa_port (sk_from k)"
    by (auto simp: peer_at_def)
  have "CheckConnected c (upd_clnt p f s) = Inr None"
    using k cl(5) check_clients_none [OF k(2)] by (simp add: CheckConnected_def SocketGetRemotePort_def deref_def)
  moreover have "upd_clnt p (\<lambda>c. c\<lparr>c_app_name := name, c_app_port := port\<rparr>) (upd_clnt p (\<lambda>c. c\<lparr>c_id := int port\<rparr>) s) =
      upd_clnt p f s"
    by (simp add: upd_clnt_def f_def comp_def if_distrib cong: if_cong)
  ultimately have "Receive rx c p (wire_header StartRegexp (int port) @ name) s = Inr (upd_clnt p f s)"
    using receive_start [OF i(1) cl(2,1,3)] cl(4,6)
    by (simp add: interpret_msg_def receive_StartRegexp_def i(2))
  with at show ?thesis
    by (intro exI [of _ "upd_clnt p f s"] exI [of _ "f cl"]) (simp add: f_def upd_clnt_def)
qed

lemma add_read:
  assumes "peer_at c p cl s" and "is_int32 i" and "IvyBindingFilter rx (filters s) r = Inr True"
    and "rx_compile rx r = None" and "(r, c, i) \<notin> subs (messSndByRegexp s)"
  shows "\<exists>t cl'. Receive rx c p (wire_header AddRegexp i @ r) s = Inr t \<and> peer_at c p cl' t \<and>
           c_app_name cl' = c_app_name cl \<and> c_app_port cl' = c_app_port cl \<and>
           subs (messSndByRegexp t) = insert (r, c, i) (subs (messSndByRegexp s)) \<and>
           filters t = filters s \<and> ready_message t = ready_message s \<and>
           (dict_full rx (messSndByRegexp s) \<longrightarrow> dict_full rx (messSndByRegexp t))"
proof -
  from assms(1) have cl: "clients_inv s" "dict_inv (messSndByRegexp s)" "cl \<in> set (allClients s)" "c_ptr cl \<noteq> 0"
    "\<not> c_ignore_subsequent_msg cl" "c_ptr cl = p" "c_client cl = c"
    by (auto simp: peer_at_def)
  from receive_new_regexp [OF cl(1-5) assms(2-4), of c] assms(5) cl(6,7) obtain t where
    t: "Receive rx c p (wire_header AddRegexp i @ r) s = Inr t" "dict_inv (messSndByRegexp t)"
      "subs (messSndByRegexp t) = insert (r, c, i) (subs (messSndByRegexp s))"
      "allClients t = map (\<lambda>x. if c_ptr x = p then with_regexp (fresh s) i r x else x) (allClients s)"
      "fresh t = fresh s + 1" "filters t = filters s" "socks t = socks s" "exited t = exited s"
      "ready_message t = ready_message s" "dict_full rx (messSndByRegexp s) \<longrightarrow> dict_full rx (messSndByRegexp t)"
    by auto
  have "with_regexp (fresh s) i r cl \<in> set (allClients t)" using cl(3,6) by (force simp: t(4))
  then have "peer_at c p (with_regexp (fresh s) i r cl) t"
    using assms(1) with_regexp_inv [OF cl(1) t(4,5)] t by (auto simp: peer_at_def with_regexp_def)
  then show ?thesis
    by (intro exI [of _ t] exI [of _ "with_regexp (fresh s) i r cl"]) (use t in \<open>simp add: with_regexp_def\<close>)
qed

lemma end_read:
  assumes "peer_at c p cl s" and "ready_message s = None"
  shows "\<exists>t cl'. Receive rx c p (wire_header EndRegexp 0) s = Inr t \<and> peer_at c p cl' t \<and>
           c_app_name cl' = c_app_name cl \<and> c_app_port cl' = c_app_port cl \<and>
           messSndByRegexp t = messSndByRegexp s \<and> filters t = filters s \<and> ready_message t = None"
proof -
  define f where "f x = x\<lparr>c_id := 0, c_readyToSend := s32 (c_readyToSend x + 1)\<rparr>" for x :: clnt
  define u where "u = emit_if (app_cb s) (AppEvent (AppNode p) IvyApplicationConnected) (upd_clnt p f s)"
  from assms(1) have cl: "find_clnt p s = Some cl" "p \<noteq> 0" "\<not> c_ignore_subsequent_msg cl" "c_ptr cl = p"
    using find_clnt_mem [of s cl] by (auto simp: peer_at_def)
  have f: "c_ptr (f x) = c_ptr x" for x by (simp add: f_def)
  have fu: "find_clnt p u = Some (f cl)"
    using find_clnt_upd [OF cl(1), of f] f by (simp add: u_def find_clnt_def emit_if_def emit_def)
  have "upd_clnt p (\<lambda>c. c\<lparr>c_readyToSend := s32 (c_readyToSend c + 1)\<rparr>)
      (emit_if (app_cb (upd_clnt p (\<lambda>c. c\<lparr>c_id := 0\<rparr>) s)) (AppEvent (AppNode p) IvyApplicationConnected)
        (upd_clnt p (\<lambda>c. c\<lparr>c_id := 0\<rparr>) s)) = u"
    by (simp add: u_def emit_if_def emit_def upd_clnt_def f_def comp_def if_distrib cong: if_cong)
  moreover have rm: "ready_message u = None" using assms(2) by (simp add: u_def emit_if_def emit_def upd_clnt_def)
  ultimately have "Receive rx c p (wire_header EndRegexp 0) s = Inr u"
    using receive_start [of 0, OF _ cl(2,1,3), of rx c EndRegexp "[]"] cl(4) fu
    by (simp add: is_int32_def interpret_msg_def receive_EndRegexp_def send_ready_def)
  moreover have "peer_at c p (f cl) u"
    by (rule peer_at_fields [OF peer_at_upd [OF assms(1), of f]])
      (simp_all add: f_def u_def emit_if_def emit_def)
  moreover have "messSndByRegexp u = messSndByRegexp s" "filters u = filters s"
    by (simp_all add: u_def emit_if_def emit_def upd_clnt_def)
  ultimately show ?thesis using rm by (intro exI [of _ u] exI [of _ "f cl"]) (simp add: f_def)
qed

definition acceptable :: "regex_engine \<Rightarrow> nat \<Rightarrow> ivy \<Rightarrow> msg_rcv \<Rightarrow> bool" where
  "acceptable rx c s m \<longleftrightarrow> is_int32 (mr_id m) \<and> IvyBindingFilter rx (filters s) (mr_regexp m) = Inr True \<and>
     rx_compile rx (mr_regexp m) = None \<and> (mr_regexp m, c, mr_id m) \<notin> subs (messSndByRegexp s) \<and>
     NL \<notin> set (mr_regexp m) \<and> CHR 0x00 \<notin> set (mr_regexp m)"

text \<open>What the peer knows after the first \<open>n\<close> lines of the announcement.\<close>

definition knows ::
    "regex_engine \<Rightarrow> nat \<Rightarrow> nat \<Rightarrow> nat \<Rightarrow> string \<Rightarrow> msg_rcv list \<Rightarrow> ivy \<Rightarrow> nat \<Rightarrow> ivy \<Rightarrow> bool" where
  "knows rx c p port name ms r n s \<longleftrightarrow>
     (\<exists>cl. peer_at c p cl s \<and> (n \<noteq> 0 \<longrightarrow> c_app_name cl = name \<and> c_app_port cl = port)) \<and>
     filters s = filters r \<and> ready_message s = None \<and>
     (dict_full rx (messSndByRegexp r) \<longrightarrow> dict_full rx (messSndByRegexp s)) \<and>
     subs (messSndByRegexp s) = subs (messSndByRegexp r) \<union> (\<lambda>m. (mr_regexp m, c, mr_id m)) ` set (take (n - 1) ms)"

lemma knows_next:
  assumes "knows rx c p port name ms r n s" and "n < length (announced port name ms)"
    and "port < 65536" and "CHR 0x00 \<notin> set name" and "\<forall>m \<in> set ms. acceptable rx c r m"
    and "distinct (map (\<lambda>m. (mr_regexp m, mr_id m)) ms)"
  shows "\<exists>t. Receive rx c p (c_string (announced port name ms ! n)) s = Inr t \<and>
           knows rx c p port name ms r (Suc n) t"
proof -
  from assms(1) obtain cl where k: "peer_at c p cl s" "n \<noteq> 0 \<longrightarrow> c_app_name cl = name \<and> c_app_port cl = port"
    "filters s = filters r" "ready_message s = None"
    "dict_full rx (messSndByRegexp r) \<longrightarrow> dict_full rx (messSndByRegexp s)"
    "subs (messSndByRegexp s) = subs (messSndByRegexp r) \<union> (\<lambda>m. (mr_regexp m, c, mr_id m)) ` set (take (n - 1) ms)"
    by (auto simp: knows_def)
  from assms(2) consider "n = 0" | i where "n = Suc i" "i < length ms" | "n = Suc (length ms)"
    by (cases n) (auto simp: announced_def less_Suc_eq)
  then show ?thesis
  proof cases
    case 1
    then have "c_string (announced port name ms ! n) = wire_header StartRegexp (int port) @ name"
      using assms(4) by (simp add: announced_def wire_text)
    with start_read [OF k(1) assms(3), of rx name] k(3-6) 1 show ?thesis by (auto simp: knows_def)
  next
    case (2 i)
    let ?m = "ms ! i"
    have a: "acceptable rx c r ?m" using assms(5) 2(2) by simp
    then have l: "c_string (announced port name ms ! n) = wire_header AddRegexp (mr_id ?m) @ mr_regexp ?m"
      using 2 by (simp add: announced_def nth_append wire_text acceptable_def)
    have "(mr_regexp ?m, mr_id ?m) \<noteq> (mr_regexp m, mr_id m)" if "m \<in> set (take i ms)" for m
    proof -
      from that obtain j where "j < i" "m = ms ! j" by (auto simp: in_set_conv_nth)
      then show ?thesis using nth_eq_iff_index_eq [OF assms(6), of i j] 2(2) by simp
    qed
    then have new: "(mr_regexp ?m, c, mr_id ?m) \<notin> subs (messSndByRegexp s)"
      using a k(6) 2(1) by (auto simp: acceptable_def)
    have "is_int32 (mr_id ?m)" "IvyBindingFilter rx (filters s) (mr_regexp ?m) = Inr True"
      "rx_compile rx (mr_regexp ?m) = None"
      using a k(3) by (simp_all add: acceptable_def)
    from add_read [OF k(1) this new] obtain t cl' where
      t: "Receive rx c p (c_string (announced port name ms ! n)) s = Inr t" "peer_at c p cl' t"
        "c_app_name cl' = name" "c_app_port cl' = port" "filters t = filters s" "ready_message t = ready_message s"
        "subs (messSndByRegexp t) = insert (mr_regexp ?m, c, mr_id ?m) (subs (messSndByRegexp s))"
        "dict_full rx (messSndByRegexp s) \<longrightarrow> dict_full rx (messSndByRegexp t)"
      using k(2) 2(1) unfolding l by auto
    from t(7) k(6) 2 have "subs (messSndByRegexp t) = subs (messSndByRegexp r) \<union>
        (\<lambda>m. (mr_regexp m, c, mr_id m)) ` set (take n ms)"
      by (simp add: take_Suc_conv_app_nth)
    then show ?thesis using t k(3-5) by (intro exI [of _ t]) (auto simp: knows_def)
  next
    case 3
    then have "c_string (announced port name ms ! n) = wire_header EndRegexp 0"
      using wire_text [of "[]" EndRegexp 0] by (simp add: announced_def nth_append)
    with end_read [OF k(1,4), of rx] k(2-6) 3 show ?thesis by (auto simp: knows_def)
  qed
qed

lemma peer_at_sock:
  assumes "peer_at c p cl s" and "socks s c = Some k" and "sk_data k' = sk_data k"
    and "sk_interpretation k' = sk_interpretation k" and "sk_from k' = sk_from k"
  shows "peer_at c p cl (set_sock c k' s)"
  using assms by (auto simp: peer_at_def set_sock_def clients_inv_def)

lemma announcement_read:
  assumes "reads (ivy_interp rx) c r (announced port name ms) t" and "recv_ok c r"
    and "peer_at c p cl r" and "ready_message r = None" and "port < 65536" and "CHR 0x00 \<notin> set name"
    and "\<forall>m \<in> set ms. acceptable rx c r m" and "distinct (map (\<lambda>m. (mr_regexp m, mr_id m)) ms)"
  shows "knows rx c p port name ms r (length ms + 2) t"
proof -
  define Q where "Q ds s \<longleftrightarrow> (\<forall>vs. ds @ vs = announced port name ms \<longrightarrow>
      knows rx c p port name ms r (length ds) s)" for ds s
  have "Q ([] @ announced port name ms) t"
  proof (rule lines.reads_steps [OF assms(1,2)])
    show "Q [] r" using assms(3,4) by (auto simp: Q_def knows_def)
  next
    fix ds s and k k' :: sock assume q: "Q ds s" "socks s c = Some k" "sk_data k' = sk_data k"
      "sk_interpretation k' = sk_interpretation k" "sk_from k' = sk_from k"
    then show "Q ds (set_sock c k' s)"
      using peer_at_sock [OF _ q(2-5)] by (fastforce simp: Q_def knows_def set_sock_def)
  next
    fix ds s a assume "Q ds s"
    then show "Q ds (s\<lparr>arrivals := a\<rparr>)"
      using peer_at_fields [of c p _ s "s\<lparr>arrivals := a\<rparr>"] by (auto simp: Q_def knows_def)
  next
    fix ds l s t and k :: sock assume q: "Q ds s" and k: "socks s c = Some k"
      and run: "ivy_interp rx c (sk_interpretation k) (sk_data k) (c_string l) s = Inr t"
    show "Q (ds @ [l]) t"
      unfolding Q_def
    proof (intro allI impI)
      fix vs assume vs: "(ds @ [l]) @ vs = announced port name ms"
      with q have kn: "knows rx c p port name ms r (length ds) s" by (auto simp: Q_def)
      then obtain cl where "peer_at c p cl s" by (auto simp: knows_def)
      from peer_at_run [OF this k run] have "Receive rx c p (c_string l) s = Inr t" .
      moreover have "announced port name ms ! length ds = l" by (simp flip: vs)
      moreover have "length ds < length (announced port name ms)" by (simp flip: vs)
      ultimately show "knows rx c p port name ms r (length (ds @ [l])) t"
        using knows_next [OF kn _ assms(5-8)] by fastforce
    qed
  qed
  then show ?thesis by (simp add: Q_def announced_def)
qed

lemma announcement_heard:
  assumes "sock_inv s" and "SendFails \<notin> set (script (net s))" and "socks s c' \<noteq> None"
    and "roomy c' (length (announcement (ApplicationPort s) (app_name s) (msg_recv s))) s"
    and "SendService rx' c' appname s = Inr (n, t)"
    and "reads (ivy_interp rx) c r ls r'" and "recv_ok c r" and "socks r c = Some k"
    and "sk_buffer k = []" and "incoming (arrivals r (sk_fd k)) = drop (length (stream c' s)) (stream c' t)"
    and "arrivals r' (sk_fd k) = []"
    and "peer_at c p cl r" and "ready_message r = None" and "ApplicationPort s < 65536"
    and "NL \<notin> set (app_name s)" and "CHR 0x00 \<notin> set (app_name s)"
    and "\<forall>m \<in> set (msg_recv s). acceptable rx c r m"
    and "distinct (map (\<lambda>m. (mr_regexp m, mr_id m)) (msg_recv s))"
  shows "knows rx c p (ApplicationPort s) (app_name s) (msg_recv s) r (length (msg_recv s) + 2) r'"
proof -
  have "stream c' t = stream c' s @ announcement (ApplicationPort s) (app_name s) (msg_recv s)"
    using SendService_ok [OF _ assms(3,4), of rx' appname] assms(1,2,5) by (auto simp: ready_to_send_def)
  then have "incoming (arrivals r (sk_fd k)) = announcement (ApplicationPort s) (app_name s) (msg_recv s)"
    by (simp add: assms(10))
  moreover have "\<forall>m \<in> set (msg_recv s). NL \<notin> set (mr_regexp m)"
    using assms(17) by (simp add: acceptable_def)
  ultimately have "ls = announced (ApplicationPort s) (app_name s) (msg_recv s)"
    using lines.reads_lines [OF assms(6-8)] assms(9,11) announcement_lines [OF assms(15)]
    by (auto simp: incoming_def split_lines_none NL_def)
  from announcement_read [OF assms(6) [unfolded this] assms(7,12-14,16-18)] show ?thesis .
qed

text \<open>
  C5: bindings from end to end. What an application sends on a new connection, read by the peer in
  pieces of any size, adds to the peer's set of subscriptions exactly the bindings of the
  application, with their ids, and gives its node there the name and the port of the application.
\<close>
theorem announcement_reaches_the_peer:
  assumes "sock_inv s" and "SendFails \<notin> set (script (net s))" and "socks s c' \<noteq> None"
    and "roomy c' (length (announcement (ApplicationPort s) (app_name s) (msg_recv s))) s"
    and "SendService rx' c' appname s = Inr (n, t)"
    and "reads (ivy_interp rx) c r ls r'" and "recv_ok c r" and "socks r c = Some k"
    and "sk_buffer k = []" and "incoming (arrivals r (sk_fd k)) = drop (length (stream c' s)) (stream c' t)"
    and "arrivals r' (sk_fd k) = []"
    and "peer_at c p cl r" and "ready_message r = None" and "ApplicationPort s < 65536"
    and "NL \<notin> set (app_name s)" and "CHR 0x00 \<notin> set (app_name s)"
    and "\<forall>m \<in> set (msg_recv s). acceptable rx c r m"
    and "distinct (map (\<lambda>m. (mr_regexp m, mr_id m)) (msg_recv s))"
  shows "subs (messSndByRegexp r') = subs (messSndByRegexp r) \<union>
           {(mr_regexp m, c, mr_id m) | m. m \<in> set (msg_recv s)} \<and>
         (\<exists>cl'. find_clnt p r' = Some cl' \<and> c_app_name cl' = app_name s \<and> c_app_port cl' = ApplicationPort s)"
  using announcement_heard [OF assms] find_clnt_mem by (auto simp: knows_def peer_at_def)

definition demo_teller :: ivy where
  "demo_teller = demo_ivy (demo [] None) [] [] [\<lparr>mr_ptr = 6, mr_id = 3, mr_regexp = ''(.).*'', mr_callback = True\<rparr>]"

definition demo_listener :: ivy where
  "demo_listener = (demo_ivy ((demo [] None)\<lparr>arrivals := (\<lambda>_. [])(7 :=
     [Stream (announcement 2011 ''me'' (msg_recv demo_teller))])\<rparr>) [demo_peer] [] [])\<lparr>ready_message := None\<rparr>"

text \<open>Such an announcement can always be read.\<close>

lemma announced_lines_read:
  assumes "knows rx c p port name ms r n s" and "port < 65536" and "CHR 0x00 \<notin> set name"
    and "\<forall>m \<in> set ms. acceptable rx c r m" and "distinct (map (\<lambda>m. (mr_regexp m, mr_id m)) ms)"
  shows "\<exists>t. foldR (interpret_line (ivy_interp rx) c) (drop n (announced port name ms)) s = Inr t \<and> socks t c \<noteq> None"
  using assms(1)
proof (induction "length (announced port name ms) - n" arbitrary: n s)
  case (Suc d)
  then have n: "n < length (announced port name ms)" by simp
  from knows_next [OF Suc.prems n assms(2-5)] obtain t where
    t: "Receive rx c p (c_string (announced port name ms ! n)) s = Inr t" "knows rx c p port name ms r (Suc n) t" by blast
  from Suc.prems have "interpret_line (ivy_interp rx) c (announced port name ms ! n) s = Inr t"
    using t(1) by (auto simp: knows_def interpret_line_def deref_def ivy_interp_def peer_at_def)
  moreover from Suc.hyps(1) [OF _ t(2)] Suc.hyps(2) obtain u where
    "foldR (interpret_line (ivy_interp rx) c) (drop (Suc n) (announced port name ms)) t = Inr u" "socks u c \<noteq> None" by fastforce
  ultimately show ?case using Cons_nth_drop_Suc [OF n, symmetric] by simp
qed (auto simp: knows_def peer_at_def)

lemma announcement_can_be_read:
  assumes "recv_ok c r" and "socks r c = Some k" and "sk_buffer k = []"
    and "arrivals r (sk_fd k) = [Stream (announcement port name ms)]"
    and "length (announcement port name ms) \<le> room k" and "NL \<notin> set name"
    and "peer_at c p cl r" and "ready_message r = None" and "port < 65536" and "CHR 0x00 \<notin> set name"
    and "\<forall>m \<in> set ms. acceptable rx c r m" and "distinct (map (\<lambda>m. (mr_regexp m, mr_id m)) ms)"
  shows "\<exists>t. reads (ivy_interp rx) c r (announced port name ms) t \<and> arrivals t (sk_fd k) = []"
proof -
  let ?text = "announcement port name ms"
  have ch: "chunk k (arrivals r (sk_fd k)) = ?text" using assms(4,5) by (simp add: chunk_def)
  have sp: "split_lines NL ?text = (announced port name ms, [])"
    using announcement_lines [OF assms(6)] assms(11) by (simp add: acceptable_def)
  have tm: "sk_terminator k = NL" using assms(1,2) by (simp add: recv_ok_def NL_def)
  have cl: "call_lines c r = announced port name ms"
    using assms(2,3) ch sp tm by (simp add: call_lines_def)
  obtain k1 a where h: "HandleSocket (ivy_interp rx) (sk_fd k) c r =
        handle_lines (ivy_interp rx) c (announced port name ms) [] (set_sock c k1 (r\<lparr>arrivals := a\<rparr>))"
      "k1 = (grow_buffer k)\<lparr>sk_from_len := 0, sk_buffer := ?text\<rparr>" "?text = ?text @ incoming (a (sk_fd k))"
      "recv_ok c (set_sock c k1 (r\<lparr>arrivals := a\<rparr>))"
    using lines.HandleSocket_stream [where rx = rx, OF assms(1,2) _ refl] assms(3,4) ch sp tm cl by (auto simp: incoming_def)
  have fd: "sk_fd k1 = sk_fd k" "sk_data k1 = sk_data k" "sk_interpretation k1 = sk_interpretation k"
    "sk_from k1 = sk_from k" by (simp_all add: h(2) grow_buffer_def)
  have "peer_at c p cl (set_sock c k1 (r\<lparr>arrivals := a\<rparr>))"
    by (rule peer_at_sock [of _ _ _ _ k, OF peer_at_fields [OF assms(7)]]) (simp_all add: assms(2) fd)
  then have "knows rx c p port name ms r 0 (set_sock c k1 (r\<lparr>arrivals := a\<rparr>))"
    using assms(8) by (auto simp: knows_def set_sock_def)
  from announced_lines_read [OF this assms(9-12)] obtain v k2 where
    "foldR (interpret_line (ivy_interp rx) c) (announced port name ms) (set_sock c k1 (r\<lparr>arrivals := a\<rparr>)) = Inr v"
    "socks v c = Some k2" by auto
  then obtain t where t: "HandleSocket (ivy_interp rx) (sk_fd k) c r = Inr t"
    using assms(1) by (auto simp: h(1) handle_lines_def deref_def recv_ok_def)
  have "arrivals t = a"
    using lines.handle_lines_keeps(3) [OF t [unfolded h(1)] h(4)] by (simp add: set_sock_def)
  moreover have "a (sk_fd k) = []"
    using h(3,4) fd by (cases "a (sk_fd k)") (auto simp: recv_ok_def stream_only_def incoming_def set_sock_def split: recv.splits)
  moreover have "reads (ivy_interp rx) c r (call_lines c r @ []) t"
    by (rule reads_more [OF assms(2) _ t reads_done]) (simp add: assms(4))
  ultimately show ?thesis by (auto simp: cl)
qed

theorem announcement_reaches_the_peer_witness:
  "\<exists>t r. SendService first_char_engine 1 ''peer'' demo_teller = Inr (10, t) \<and>
     incoming (arrivals demo_listener 7) = stream 1 t \<and>
     reads (ivy_interp first_char_engine) 1 demo_listener (announced 2011 ''me'' (msg_recv demo_teller)) r \<and>
     subs (messSndByRegexp r) = {(''(.).*'', 1, 3)}"
proof -
  let ?ms = "[\<lparr>mr_ptr = 6, mr_id = 3, mr_regexp = ''(.).*'', mr_callback = True\<rparr>]"
  have teller: "sock_inv demo_teller" "SendFails \<notin> set (script (net demo_teller))" "socks demo_teller 1 \<noteq> None"
    "app_name demo_teller = ''me''" "ApplicationPort demo_teller = 2011" "msg_recv demo_teller = ?ms"
    "stream 1 demo_teller = []" "fresh demo_teller = 10"
    using demo_idle_ready unfolding ready_to_send_def
    by (simp_all add: demo_teller_def demo_idle_def app_name_def) (simp add: demo_def)
  have len: "length (announcement 2011 ''me'' ?ms) = 25"
    by (simp add: announcement_def message_line_def wire_header_def show_int_def show_nat.simps)
  then have ne: "announcement 2011 ''me'' ?ms \<noteq> []" by fastforce
  have room: "roomy 1 (length (announcement 2011 ''me'' ?ms)) demo_teller"
    using demo_idle_ready(3) [of "length (announcement 2011 ''me'' ?ms)"] len
    by (simp add: demo_teller_def demo_idle_def roomy_def del: One_nat_def)
  obtain t where t: "SendService first_char_engine 1 ''peer'' demo_teller = Inr (10, t)"
    "stream 1 t = announcement 2011 ''me'' ?ms"
    using SendService_ok [of demo_teller 1 first_char_engine "''peer''"] teller room
    by (auto simp: ready_to_send_def)
  have k: "socks demo_listener 1 = Some (demo_sock None)" "sk_fd (demo_sock None) = 7"
    "sk_buffer (demo_sock None) = []" "room (demo_sock None) = 4096"
    by (simp_all add: demo_listener_def demo_def demo_sock_def new_sock_def room_def grow_buffer_def IVY_BUFFER_SIZE_def)
  have arr: "arrivals demo_listener 7 = [Stream (announcement 2011 ''me'' ?ms)]"
    by (simp add: demo_listener_def teller(6))
  have ok: "recv_ok 1 demo_listener"
    unfolding recv_ok_def k(1)
    by (simp add: k(2,3) arr stream_only_def ne del: One_nat_def)
      (simp add: demo_listener_def fresh_ok_def demo_def demo_sock_def new_sock_def IVY_BUFFER_SIZE_def)
  have at: "peer_at 1 5 demo_peer demo_listener"
    unfolding peer_at_def k(1)
    by (simp add: demo_listener_def demo_peer_def clients_inv_def dict_inv_def demo_def demo_sock_def new_sock_def)
  have acc: "\<forall>m \<in> set ?ms. acceptable first_char_engine 1 demo_listener m"
    by (simp add: acceptable_def is_int32_def demo_listener_def IvyBindingFilter_def no_filter_def
        first_char_engine_def subs_def NL_def)
  have misc: "ready_message demo_listener = None" "messSndByRegexp demo_listener = []"
    by (simp_all add: demo_listener_def)
  obtain r where r: "reads (ivy_interp first_char_engine) 1 demo_listener (announced 2011 ''me'' ?ms) r"
    "arrivals r 7 = []"
    using announcement_can_be_read [OF ok k(1,3) _ _ _ at misc(1) _ _ acc, of 2011 "''me''"] arr len
    by (auto simp: k NL_def)
  have "subs (messSndByRegexp r) = subs (messSndByRegexp demo_listener) \<union>
      {(mr_regexp m, 1, mr_id m) | m. m \<in> set (msg_recv demo_teller)}"
    by (rule announcement_reaches_the_peer [THEN conjunct1, OF teller(1-3) _ t(1) r(1) ok k(1,3) _ _ at misc(1)])
      (use room arr t(2) r(2) acc in \<open>simp_all add: teller k incoming_def NL_def del: One_nat_def\<close>)
  then have "subs (messSndByRegexp r) = {(''(.).*'', 1, 3)}" by (simp add: teller(6) misc(2) subs_def)
  then show ?thesis using t r(1) arr by (intro exI [of _ t] exI [of _ r]) (simp add: teller(6) incoming_def del: One_nat_def)
qed

end
