(* ===== verification/IvyExchange.thy ===== *)
theory IvyExchange imports IvyBus IvyInvariant begin

text \<open>
  Two applications and one line between them: direct messages, pings and \<open>Die\<close>, from the call of one
  application to what the other one does when it reads the line in pieces of any size.
\<close>

section \<open>One line, however it is cut\<close>

text \<open>The states while a line is being read: only the buffer of its client and what is to come differ.\<close>

definition same_reading :: "nat \<Rightarrow> 'z sockst_scheme \<Rightarrow> 'z sockst_scheme \<Rightarrow> bool" where
  "same_reading c s u \<longleftrightarrow> (\<exists>a f. (\<forall>k. f k = k \<or> rebuffered k (f k)) \<and>
     u = s\<lparr>arrivals := a, socks := (socks s)(c := map_option f (socks s c))\<rparr>)"

lemma rebufferedD:
  assumes "k' = k \<or> rebuffered k k'"
  shows "sk_fd k' = sk_fd k" "sk_ifb k' = sk_ifb k" "sk_channel k' = sk_channel k" "sk_data k' = sk_data k"
    "sk_interpretation k' = sk_interpretation k"
proof -
  have e: "k'\<lparr>sk_from_len := 0, sk_buffer_size := 0, sk_buffer := []\<rparr> =
       k\<lparr>sk_from_len := 0, sk_buffer_size := 0, sk_buffer := []\<rparr>"
    using assms by (auto simp: rebuffered_def)
  show "sk_fd k' = sk_fd k" using arg_cong [OF e, of sk_fd] by simp
  show "sk_ifb k' = sk_ifb k" using arg_cong [OF e, of sk_ifb] by simp
  show "sk_channel k' = sk_channel k" using arg_cong [OF e, of sk_channel] by simp
  show "sk_data k' = sk_data k" using arg_cong [OF e, of sk_data] by simp
  show "sk_interpretation k' = sk_interpretation k" using arg_cong [OF e, of sk_interpretation] by simp
qed

lemma rebuffered_trans: "rebuffered k k' \<Longrightarrow> rebuffered k' k'' \<Longrightarrow> rebuffered k k''"
  by (simp add: rebuffered_def)

lemma same_reading_refl: "same_reading c s s"
  unfolding same_reading_def by (intro exI [of _ "arrivals s"] exI [of _ "\<lambda>k. k"]) (simp add: option.map_ident)

lemma same_reading_sock:
  assumes "same_reading c s u" and "socks u c = Some k" and "rebuffered k k'"
  shows "same_reading c s (set_sock c k' u)"
proof -
  from assms(1) obtain a f where f: "\<forall>k. f k = k \<or> rebuffered k (f k)"
    "u = s\<lparr>arrivals := a, socks := (socks s)(c := map_option f (socks s c))\<rparr>" by (auto simp: same_reading_def)
  from assms(2) f(2) obtain k0 where k0: "socks s c = Some k0" "f k0 = k" by auto
  define g where "g = f(k0 := k')"
  have "set_sock c k' u = s\<lparr>arrivals := a, socks := (socks s)(c := map_option g (socks s c))\<rparr>"
    by (simp add: set_sock_def f(2) k0(1) g_def)
  moreover have "g x = x \<or> rebuffered x (g x)" for x
    using f(1) [rule_format, of x] k0(2) assms(3) rebuffered_trans [of k0 k k'] by (auto simp: g_def)
  ultimately show ?thesis unfolding same_reading_def by blast
qed

lemma same_reading_arrivals: "same_reading c s u \<Longrightarrow> same_reading c s (u\<lparr>arrivals := a\<rparr>)"
proof -
  assume "same_reading c s u"
  then obtain b f where f: "\<forall>k. f k = k \<or> rebuffered k (f k)"
    "u = s\<lparr>arrivals := b, socks := (socks s)(c := map_option f (socks s c))\<rparr>" by (auto simp: same_reading_def)
  then have "u\<lparr>arrivals := a\<rparr> = s\<lparr>arrivals := a, socks := (socks s)(c := map_option f (socks s c))\<rparr>" by simp
  then show ?thesis using f(1) unfolding same_reading_def by blast
qed

context line_client begin

lemma one_line_read:
  assumes "reads interp c s [l] t" and "recv_ok c s"
  shows "\<exists>u v k. same_reading c s u \<and> socks u c = Some k \<and>
    interp c (sk_interpretation k) (sk_data k) (c_string l) u = Inr v \<and> same_reading c v t"
proof -
  define P where "P t \<longleftrightarrow> (\<exists>u v k. same_reading c s u \<and> socks u c = Some k \<and>
    interp c (sk_interpretation k) (sk_data k) (c_string l) u = Inr v \<and> same_reading c v t)" for t
  define Q where "Q ds x \<longleftrightarrow> (ds = [] \<longrightarrow> same_reading c s x) \<and> (ds = [l] \<longrightarrow> P x)" for ds x
  have "Q ([] @ [l]) t"
  proof (rule reads_steps [OF assms])
    show "Q [] s" by (simp add: Q_def same_reading_refl)
  next
    fix ds x and k k' :: sock assume "Q ds x" "socks x c = Some k" "rebuffered k k'"
    then show "Q ds (set_sock c k' x)"
      unfolding Q_def P_def using same_reading_sock by blast
  next
    fix ds x a assume "Q ds x"
    then show "Q ds (x\<lparr>arrivals := a\<rparr>)"
      unfolding Q_def P_def using same_reading_arrivals by blast
  next
    fix ds l' x y and k :: sock assume "Q ds x" "socks x c = Some k"
      "interp c (sk_interpretation k) (sk_data k) (c_string l') x = Inr y"
    moreover have "same_reading c y y" by (rule same_reading_refl)
    ultimately have "ds = [] \<Longrightarrow> l' = l \<Longrightarrow> P y" unfolding Q_def P_def by blast
    then show "Q (ds @ [l']) y" by (auto simp: Q_def)
  qed
  then show ?thesis by (simp add: Q_def P_def)
qed

text \<open>Such a line can always be read.\<close>

lemma one_line_can_be_read:
  assumes "recv_ok c r" and "socks r c = Some k" and "sk_buffer k = []"
    and "arrivals r (sk_fd k) = [Stream (l @ [NL])]" and "length (l @ [NL]) \<le> room k" and "NL \<notin> set l"
    and "\<And>u. same_reading c r u \<Longrightarrow> \<exists>v. interp c (sk_interpretation k) (sk_data k) (c_string l) u = Inr v \<and> socks v c \<noteq> None"
  shows "\<exists>t. reads interp c r [l] t \<and> arrivals t (sk_fd k) = []"
proof -
  have ch: "chunk k (arrivals r (sk_fd k)) = l @ [NL]" using assms(4,5) by (simp add: chunk_def)
  have sp: "split_lines NL (l @ [NL]) = ([l], [])" using assms(6) split_lines_concat [of "[l]" NL] by simp
  have tm: "sk_terminator k = NL" using assms(1,2) by (simp add: recv_ok_def NL_def)
  have cl: "call_lines c r = [l]" using assms(2,3) ch sp tm by (simp add: call_lines_def)
  obtain k1 a where h: "HandleSocket interp (sk_fd k) c r =
        handle_lines interp c [l] [] (set_sock c k1 (r\<lparr>arrivals := a\<rparr>))"
      "k1 = (grow_buffer k)\<lparr>sk_from_len := 0, sk_buffer := l @ [NL]\<rparr>" "l @ [NL] = (l @ [NL]) @ incoming (a (sk_fd k))"
      "recv_ok c (set_sock c k1 (r\<lparr>arrivals := a\<rparr>))" "length (l @ [NL]) \<le> sk_buffer_size k1"
    using HandleSocket_stream [OF assms(1,2) _ refl] assms(3,4) ch sp tm cl by (auto simp: incoming_def)
  have fd: "sk_fd k1 = sk_fd k" "sk_data k1 = sk_data k" "sk_interpretation k1 = sk_interpretation k"
    by (simp_all add: h(2) grow_buffer_def)
  have "rebuffered k k1" using h(5) by (simp add: h(2) rebuffered_def grow_buffer_def)
  then have "same_reading c r (set_sock c k1 (r\<lparr>arrivals := a\<rparr>))"
    using same_reading_sock [OF same_reading_arrivals [OF same_reading_refl]] assms(2) by auto
  from assms(7) [OF this] obtain v where v: "interp c (sk_interpretation k) (sk_data k) (c_string l)
      (set_sock c k1 (r\<lparr>arrivals := a\<rparr>)) = Inr v" "socks v c \<noteq> None" by blast
  have "c \<noteq> 0" using assms(1) by (simp add: recv_ok_def)
  with v fd obtain t where t: "HandleSocket interp (sk_fd k) c r = Inr t"
    by (auto simp: h(1) handle_lines_def interpret_line_def deref_def set_sock_def)
  have "arrivals t = a" using handle_lines_keeps(3) [OF t [unfolded h(1)] h(4)] by (simp add: set_sock_def)
  moreover have "a (sk_fd k) = []"
    using h(3,4) fd by (cases "a (sk_fd k)") (auto simp: recv_ok_def stream_only_def incoming_def set_sock_def split: recv.splits)
  moreover have "reads interp c r (call_lines c r @ []) t"
    by (rule reads_more [OF assms(2) _ t reads_done]) (simp add: assms(4))
  ultimately show ?thesis by (auto simp: cl)
qed

end

lemma same_reading_fields:
  assumes "same_reading c s (u :: ivy)"
  shows "find_clnt p u = find_clnt p s" "allClients u = allClients s" "messSndByRegexp u = messSndByRegexp s"
    "events u = events s" "exited u = exited s" "now u = now s" "pong_cb u = pong_cb s" "direct_cb u = direct_cb s"
    "die_cb u = die_cb s" "srv u = srv s" "bcast u = bcast s" "socks u c' = None \<longleftrightarrow> socks s c' = None"
proof -
  obtain a f where "u = s\<lparr>arrivals := a, socks := (socks s)(c := map_option f (socks s c))\<rparr>"
    using assms by (auto simp: same_reading_def)
  then show "find_clnt p u = find_clnt p s" "allClients u = allClients s" "messSndByRegexp u = messSndByRegexp s"
    "events u = events s" "exited u = exited s" "now u = now s" "pong_cb u = pong_cb s" "direct_cb u = direct_cb s"
    "die_cb u = die_cb s" "srv u = srv s" "bcast u = bcast s" "socks u c' = None \<longleftrightarrow> socks s c' = None"
    by (simp_all add: find_clnt_def)
qed

lemma same_reading_client:
  assumes "same_reading c s (u :: ivy)" and "socks u c = Some k'"
  shows "\<exists>k. socks s c = Some k \<and> (k' = k \<or> rebuffered k k')"
proof -
  obtain a f where f: "\<forall>k. f k = k \<or> rebuffered k (f k)"
    "u = s\<lparr>arrivals := a, socks := (socks s)(c := map_option f (socks s c))\<rparr>"
    using assms(1) by (auto simp: same_reading_def)
  then show ?thesis using assms(2) by (simp add: f(2)) (metis f(1))
qed

lemma same_reading_stream:
  assumes "same_reading c s (u :: ivy)"
  shows "stream c' u = stream c' s" "roomy c' n u = roomy c' n s"
proof -
  obtain a f where f: "\<And>k. f k = k \<or> rebuffered k (f k)"
    "u = s\<lparr>arrivals := a, socks := (socks s)(c := map_option f (socks s c))\<rparr>"
    using assms by (auto simp: same_reading_def)
  note e = rebufferedD(1,2) [OF f(1)]
  show "stream c' u = stream c' s" "roomy c' n u = roomy c' n s"
    by (auto simp: f(2) e stream_def roomy_def pending_def split: option.split)
qed

lemma same_reading_ready:
  assumes "same_reading c s (u :: ivy)" and "ready_to_send s"
  shows "ready_to_send u"
proof -
  obtain a f where f: "\<And>k. f k = k \<or> rebuffered k (f k)"
    "u = s\<lparr>arrivals := a, socks := (socks s)(c := map_option f (socks s c))\<rparr>"
    using assms by (auto simp: same_reading_def)
  have ok: "sock_ok l c' (f k)" if "sock_ok l c' k" for l c' k
    using that f(1) [of k] rebufferedD(1-3) [OF f(1), of k] by (auto simp: sock_ok_def rebuffered_def)
  then have "sock_ok (lp s) c' k'" if "socks u c' = Some k'" for c' k'
    using assms(2) that by (auto simp: f(2) ready_to_send_def sock_inv_def split: if_splits)
  then show ?thesis using assms(2) by (auto simp: f(2) ready_to_send_def sock_inv_def)
qed

section \<open>What an application reads\<close>

text \<open>The application reads exactly \<open>bytes\<close> on a connection, in pieces of any size.\<close>

definition gets :: "regex_engine \<Rightarrow> nat \<Rightarrow> ivy \<Rightarrow> string \<Rightarrow> ivy \<Rightarrow> bool" where
  "gets rx c r bytes r' \<longleftrightarrow> recv_ok c r \<and> (\<exists>ls k. reads (ivy_interp rx) c r ls r' \<and> socks r c = Some k \<and>
     sk_buffer k = [] \<and> incoming (arrivals r (sk_fd k)) = bytes \<and> arrivals r' (sk_fd k) = [])"

text \<open>The connection \<open>c\<close> is that of the node \<open>p\<close>, which is known and not ignored.\<close>

definition hears :: "nat \<Rightarrow> nat \<Rightarrow> clnt \<Rightarrow> ivy \<Rightarrow> bool" where
  "hears c p cl s \<longleftrightarrow> p \<noteq> 0 \<and> \<not> exited s \<and> find_clnt p s = Some cl \<and> c_ptr cl = p \<and> c_client cl = c \<and>
     \<not> c_ignore_subsequent_msg cl \<and> (\<exists>k. socks s c = Some k \<and> sk_data k = p \<and> sk_interpretation k = InterpReceive)"

lemma gets_line:
  assumes "gets rx c r (message_line ty i a) r'" and "hears c p cl r" and "is_int32 i"
    and "NL \<notin> set a" and "CHR 0x00 \<notin> set a"
  shows "\<exists>u v. same_reading c r u \<and> same_reading c v r' \<and>
    interpret_msg rx (cl\<lparr>c_id := i\<rparr>) c (msg_code ty) i a (upd_clnt p (\<lambda>c. c\<lparr>c_id := i\<rparr>) u) = Inr v"
proof -
  let ?l = "wire_header ty i @ a"
  from assms(1) obtain ls k where g: "recv_ok c r" "reads (ivy_interp rx) c r ls r'" "socks r c = Some k" "sk_buffer k = []"
    "incoming (arrivals r (sk_fd k)) = ?l @ [NL]" "arrivals r' (sk_fd k) = []"
    by (auto simp: gets_def message_line_def)
  have "NL \<notin> set ?l" using assms(4) show_int_chars [of NL] by (auto simp: header_chars)
  then have "split_lines NL (?l @ [NL]) = ([?l], [])" using split_lines_concat [of "[?l]" NL] by simp
  then have ls: "ls = [?l]"
    using lines.reads_lines [OF g(2,1,3)] g(4-6) by (auto simp: incoming_def split_lines_none NL_def)
  from lines.one_line_read [OF g(2) [unfolded ls] g(1)] obtain u v k1 where u: "same_reading c r u" "socks u c = Some k1"
    "ivy_interp rx c (sk_interpretation k1) (sk_data k1) (c_string ?l) u = Inr v" "same_reading c v r'" by blast
  from assms(2) have h: "p \<noteq> 0" "\<not> exited u" "find_clnt p u = Some cl" "\<not> c_ignore_subsequent_msg cl"
    "sk_data k = p" "sk_interpretation k = InterpReceive"
    using same_reading_fields [OF u(1)] g(3) by (auto simp: hears_def)
  have reb: "k1 = k \<or> rebuffered k k1" using same_reading_client [OF u(1,2)] g(3) by simp
  have "sk_data k1 = p" "sk_interpretation k1 = InterpReceive"
    using rebufferedD(4,5) [OF reb] h(5,6) by simp_all
  then have "Receive rx c p ?l u = Inr v" using u(3) h(2) wire_text [OF assms(5)] by (simp add: ivy_interp_def)
  then show ?thesis using receive_start [OF assms(3) h(1,3,4)] u(1,4) by auto
qed

lemma line_can_be_got:
  assumes "recv_ok c r" and "socks r c = Some k" and "sk_buffer k = []"
    and "arrivals r (sk_fd k) = [Stream (message_line ty i a)]" and "length (message_line ty i a) \<le> room k"
    and "hears c p cl r" and "is_int32 i" and "NL \<notin> set a" and "CHR 0x00 \<notin> set a"
    and "\<And>u. same_reading c r u \<Longrightarrow> \<exists>v. interpret_msg rx (cl\<lparr>c_id := i\<rparr>) c (msg_code ty) i a
      (upd_clnt p (\<lambda>c. c\<lparr>c_id := i\<rparr>) u) = Inr v \<and> socks v c \<noteq> None"
  shows "\<exists>t. gets rx c r (message_line ty i a) t"
proof -
  let ?l = "wire_header ty i @ a"
  have nl: "NL \<notin> set ?l" using assms(8) show_int_chars [of NL] by (auto simp: header_chars)
  have k: "sk_data k = p" "sk_interpretation k = InterpReceive" using assms(2,6) by (auto simp: hears_def)
  have "\<exists>v. ivy_interp rx c (sk_interpretation k) (sk_data k) (c_string ?l) u = Inr v \<and> socks v c \<noteq> None"
    if u: "same_reading c r u" for u
  proof -
    from assms(6) have h: "p \<noteq> 0" "\<not> exited u" "find_clnt p u = Some cl" "\<not> c_ignore_subsequent_msg cl"
      using same_reading_fields [OF u] by (auto simp: hears_def)
    show ?thesis using assms(10) [OF u] h(2) wire_text [OF assms(9)] receive_start [OF assms(7) h(1,3,4), of rx c ty a] k
      by (simp add: ivy_interp_def)
  qed
  with lines.one_line_can_be_read [OF assms(1-3) _ _ nl] assms(4,5)
  obtain t where "reads (ivy_interp rx) c r [?l] t" "arrivals t (sk_fd k) = []" by (auto simp: message_line_def)
  then show ?thesis using assms(1-4) by (auto simp: gets_def incoming_def)
qed

text \<open>The application of the examples, about to read \<open>line\<close> from its peer.\<close>

definition demo_about_to_read :: "string \<Rightarrow> ivy" where
  "demo_about_to_read line = demo_idle\<lparr>arrivals := (\<lambda>_. [])(7 := [Stream line])\<rparr>"

lemma demo_about_facts:
  "ready_to_send (demo_about_to_read line)" "socks (demo_about_to_read line) 1 = Some (demo_sock None)"
  "n < IVY_FIFO_MAX_ALLOC_SIZE \<Longrightarrow> roomy 1 n (demo_about_to_read line)" "stream 1 (demo_about_to_read line) = []"
  "arrivals (demo_about_to_read line) 7 = [Stream line]" "events (demo_about_to_read line) = []"
  "allClients (demo_about_to_read line) = [demo_peer]" "direct_cb (demo_about_to_read line)" "die_cb (demo_about_to_read line)"
  "pong_cb (demo_about_to_read line)" "srv (demo_about_to_read line) = 0" "bcast (demo_about_to_read line) = 0"
  "hears 1 5 demo_peer (demo_about_to_read line)" "line \<noteq> [] \<Longrightarrow> recv_ok 1 (demo_about_to_read line)"
  "sk_fd (demo_sock None) = 7" "sk_buffer (demo_sock None) = []" "room (demo_sock None) = 4096"
proof -
  show k: "sk_fd (demo_sock None) = 7" "sk_buffer (demo_sock None) = []" "room (demo_sock None) = 4096"
    "socks (demo_about_to_read line) 1 = Some (demo_sock None)"
    by (simp_all add: demo_about_to_read_def demo_idle_ready room_def grow_buffer_def IVY_BUFFER_SIZE_def
        del: One_nat_def)
      (simp_all add: demo_sock_def new_sock_def IVY_BUFFER_SIZE_def)
  show "ready_to_send (demo_about_to_read line)" "stream 1 (demo_about_to_read line) = []"
    using demo_idle_ready by (simp_all add: demo_about_to_read_def ready_to_send_def sock_inv_def stream_def)
  show "n < IVY_FIFO_MAX_ALLOC_SIZE \<Longrightarrow> roomy 1 n (demo_about_to_read line)"
    using k(4) by (simp add: roomy_def demo_sock_def)
  show "arrivals (demo_about_to_read line) 7 = [Stream line]" "events (demo_about_to_read line) = []"
    "allClients (demo_about_to_read line) = [demo_peer]" "direct_cb (demo_about_to_read line)" "die_cb (demo_about_to_read line)"
    "pong_cb (demo_about_to_read line)" "srv (demo_about_to_read line) = 0" "bcast (demo_about_to_read line) = 0"
    by (simp_all add: demo_about_to_read_def demo_idle_def)
      (simp_all add: demo_ivy_def ivy.defs sockst.defs)
  show "hears 1 5 demo_peer (demo_about_to_read line)"
    using k(4) demo_idle_ready by (simp add: hears_def) (simp add: demo_about_to_read_def demo_idle_def demo_peer_def
        find_clnt_def demo_sock_def new_sock_def)
  show "recv_ok 1 (demo_about_to_read line)" if "line \<noteq> []"
    using that unfolding recv_ok_def k(4)
    by (simp add: k(1,2) demo_about_to_read_def stream_only_def del: One_nat_def)
      (simp add: demo_idle_def fresh_ok_def demo_def demo_sock_def new_sock_def IVY_BUFFER_SIZE_def)
qed

section \<open>Direct messages\<close>

text \<open>
  A direct message from end to end. What \<open>IvySendDirectMsg\<close> sends, read by the other application in
  pieces of any size, calls its callback once, with the id and the text, and reports nothing else.
\<close>
theorem direct_message_arrives:
  assumes "sock_inv s" and "SendFails \<notin> set (script (net s))" and "p \<noteq> 0" and "find_clnt p s = Some cl"
    and "socks s (c_client cl) \<noteq> None" and "roomy (c_client cl) (length (message_line DirectMsg i text)) s"
    and "IvySendDirectMsg p i text s = Inr t"
    and "gets rx c r (drop (length (stream (c_client cl) s)) (stream (c_client cl) t)) r'" and "hears c q ql r"
    and "is_int32 i" and "NL \<notin> set text" and "CHR 0x00 \<notin> set text"
  shows "events r' = events r @ (if direct_cb r then [DirectEvent q i text] else [])"
proof -
  have "delivers_to (c_client cl) s (message_line DirectMsg i text) t"
    using msg_to_ok [OF _ assms(5,6), of p] assms(1-4,7) by (auto simp: ready_to_send_def IvySendDirectMsg_def with_app_def)
  then have "gets rx c r (message_line DirectMsg i text) r'" using assms(8) by (simp add: delivers_toD(3))
  from gets_line [OF this assms(9-12)] obtain u v where u: "same_reading c r u" "same_reading c v r'"
    "interpret_msg rx (ql\<lparr>c_id := i\<rparr>) c (msg_code DirectMsg) i text (upd_clnt q (\<lambda>c. c\<lparr>c_id := i\<rparr>) u) = Inr v" by blast
  have "c_ptr ql = q" using assms(9) by (simp add: hears_def)
  then have "events v = events u @ (if direct_cb u then [DirectEvent q i text] else [])"
    using u(3) by (auto simp: interpret_msg_def emit_if_def emit_def upd_clnt_def)
  then show ?thesis using same_reading_fields [OF u(1)] same_reading_fields [OF u(2)] by simp
qed

theorem direct_message_arrives_witness:
  "\<exists>t r'. IvySendDirectMsg 5 7 ''hello'' demo_idle = Inr t \<and>
     gets first_char_engine 1 (demo_about_to_read (stream 1 t)) (stream 1 t) r' \<and> events r' = [DirectEvent 5 7 ''hello'']"
proof -
  let ?m = "message_line DirectMsg 7 ''hello''"
  have len: "length ?m = 10" by (simp add: message_line_def wire_header_def show_int_def show_nat.simps)
  have room: "roomy 1 (length ?m) demo_idle" by (rule demo_idle_ready(3)) (simp add: len)
  have s: "sock_inv demo_idle" "SendFails \<notin> set (script (net demo_idle))"
    using demo_idle_ready(1) unfolding ready_to_send_def by blast+
  have c: "c_client demo_peer = 1" "socks demo_idle 1 \<noteq> None" by (simp_all add: demo_peer_def demo_idle_ready(2) del: One_nat_def)
  obtain t where t: "IvySendDirectMsg 5 7 ''hello'' demo_idle = Inr t" "stream 1 t = ?m"
    using msg_to_ok [of demo_idle 1 DirectMsg 7 "''hello''" 5] demo_idle_ready(1,7,9) c room
    by (auto simp: IvySendDirectMsg_def with_app_def simp del: One_nat_def dest!: delivers_toD(3))
  let ?r = "demo_about_to_read ?m"
  have "?m \<noteq> []" using len by auto
  then obtain r' where r': "gets first_char_engine 1 ?r ?m r'"
    using line_can_be_got [OF demo_about_facts(14,2,16) _ _ demo_about_facts(13), of ?m DirectMsg 7 "''hello''" first_char_engine]
      len demo_about_facts(2,5,15,17) same_reading_fields(12) [of 1 ?r _ 1]
    by (auto simp: is_int32_def NL_def interpret_msg_def simp del: One_nat_def)
  have nl: "NL \<notin> set ''hello''" by (simp add: NL_def)
  from direct_message_arrives [OF s _ demo_idle_ready(9) _ _ t(1) _ demo_about_facts(13) _ nl, of first_char_engine ?m r']
    r' t(2) c room demo_idle_ready(7)
  have "events r' = [DirectEvent 5 7 ''hello'']" by (simp add: demo_about_facts is_int32_def del: One_nat_def)
  then show ?thesis using t r' by auto
qed

section \<open>Pings\<close>









section \<open>Die\<close>

lemma send_frame_same_events:
  assumes "send_frame (s :: ivy) t"
  shows "events t = events s"
proof -
  obtain l n k where "t = s\<lparr>lp := l, net := n, socks := k\<rparr>" using assms by (auto simp: send_frame_def)
  then show ?thesis by simp
qed

lemma msg_to_events:
  assumes "msg_to p c ty i m s = Inr t"
  shows "\<exists>es. events t = events s @ es"
proof -
  obtain st u where u: "SocketSend c (wire_header ty i @ m @ [NL]) s = Inr (st, u)"
    "t = u \<or> (\<exists>e b. t = emit_if b e u)"
    using assms by (auto simp: msg_to_def MsgSendTo_def bindR_eq_Inr split: if_splits)
  from u(1) have "send_frame s u" unfolding SocketSend_def by (auto dest!: Raw_frame split: if_splits)
  then have "events u = events s" by (rule send_frame_same_events)
  then show ?thesis using u(2) by (auto simp: emit_if_def emit_def)
qed

lemma on_loop_only_lp: "on_loop f s = Inr t \<Longrightarrow> \<exists>l. t = s\<lparr>lp := l\<rparr>"
  by (auto simp: on_loop_def bindR_eq_Inr)

lemma close_only_lp:
  assumes "SocketClose c s = Inr t \<or> SocketServerClose c s = Inr t"
  shows "\<exists>l. t = s\<lparr>lp := l\<rparr>"
proof (cases "c = 0")
  case True
  then have "t = s\<lparr>lp := lp s\<rparr>" using assms by (auto simp: SocketClose_def SocketServerClose_def)
  then show ?thesis by blast
next
  case False
  then obtain f where "on_loop f s = Inr t"
    using assms by (auto simp: SocketClose_def SocketServerClose_def deref_eq_Inr split: option.splits)
  then show ?thesis by (rule on_loop_only_lp)
qed

lemma nodes_irrelevant [simp]:
  "stream c (s\<lparr>allClients := cs\<rparr>) = stream c s" "roomy c n (s\<lparr>allClients := cs\<rparr>) = roomy c n s"
  "stream c (s\<lparr>messSndByRegexp := d\<rparr>) = stream c s" "stream c (s\<lparr>exited := b\<rparr>) = stream c s"
  "stream c (emit_if b e s) = stream c s" "roomy c n (emit_if b e s) = roomy c n s"
  by (simp_all add: stream_def roomy_def emit_if_def emit_def split: option.split)

lemma say_bye_ok:
  assumes "ready_to_send s" and "socks s (c_client x) \<noteq> None"
    and "roomy (c_client x) (length (message_line Bye 0 [])) s"
  shows "\<exists>t. say_bye x s = Inr t \<and> ready_to_send t \<and>
    (\<forall>c. stream c t = stream c s @ (if c = c_client x then message_line Bye 0 [] else [])) \<and>
    (\<forall>c n. c \<noteq> c_client x \<longrightarrow> roomy c n s \<longrightarrow> roomy c n t) \<and> (\<forall>c. socks t c = None \<longleftrightarrow> socks s c = None) \<and>
    allClients t = filter (\<lambda>y. c_ptr y \<noteq> c_ptr x) (allClients s) \<and> srv t = srv s \<and> bcast t = bcast s \<and>
    (\<exists>es. events t = events s @ es)"
proof -
  from msg_to_ok [OF assms, of "c_ptr x"] obtain u where u: "msg_to (c_ptr x) (c_client x) Bye 0 [] s = Inr u"
    "delivers_to (c_client x) s (message_line Bye 0 []) u" by blast
  note d = delivers_toD [OF u(2)] delivers_to_other [OF u(2)]
  have room: "roomy c n u" if "c \<noteq> c_client x" "roomy c n s" for c n
    using u(2) that by (auto simp: delivers_to_def delivers_def)
  have socks: "socks u c = None \<longleftrightarrow> socks s c = None" for c
    using talk_fields(16) [OF d(2)] .
  from msg_to_events [OF u(1)] obtain es where es: "events u = events s @ es" by blast
  from socks assms(2) obtain k where "socks u (c_client x) = Some k" by (metis not_None_eq)
  with SocketClose_ok [of u "c_client x" k] d(1) obtain l where l: "SocketClose (c_client x) u = Inr (u\<lparr>lp := l\<rparr>)"
    "sock_inv (u\<lparr>lp := l\<rparr>)" by (auto simp: ready_to_send_def)
  have "say_bye x s = Inr (u\<lparr>lp := l, allClients := filter (\<lambda>y. c_ptr y \<noteq> c_ptr x) (allClients u)\<rparr>)"
    using u(1) l(1) by (simp add: say_bye_def)
  then show ?thesis
    using d l(2) room socks es talk_fields(1,12,13) [OF d(2)]
    by (intro exI [of _ "u\<lparr>lp := l, allClients := filter (\<lambda>y. c_ptr y \<noteq> c_ptr x) (allClients u)\<rparr>"])
      (simp add: ready_to_send_def sock_inv_def)
qed

lemma say_byes_ok:
  assumes "ready_to_send s" and "distinct (map c_client cs)"
    and "\<forall>x \<in> set cs. socks s (c_client x) \<noteq> None \<and> roomy (c_client x) (length (message_line Bye 0 [])) s"
  shows "\<exists>t. foldR say_bye cs s = Inr t \<and>
    (\<forall>c. stream c t = stream c s @ (if c \<in> c_client ` set cs then message_line Bye 0 [] else [])) \<and>
    allClients t = filter (\<lambda>y. c_ptr y \<notin> c_ptr ` set cs) (allClients s) \<and> (\<exists>es. events t = events s @ es) \<and>
    (\<forall>c. socks t c = None \<longleftrightarrow> socks s c = None) \<and> srv t = srv s \<and> bcast t = bcast s"
  using assms
proof (induction cs arbitrary: s)
  case (Cons x cs)
  from say_bye_ok [of s x] Cons.prems obtain u where u: "say_bye x s = Inr u" "ready_to_send u"
    "\<forall>c. stream c u = stream c s @ (if c = c_client x then message_line Bye 0 [] else [])"
    "\<forall>c n. c \<noteq> c_client x \<longrightarrow> roomy c n s \<longrightarrow> roomy c n u" "\<forall>c. socks u c = None \<longleftrightarrow> socks s c = None"
    "allClients u = filter (\<lambda>y. c_ptr y \<noteq> c_ptr x) (allClients s)" "\<exists>es. events u = events s @ es" "srv u = srv s" "bcast u = bcast s" by auto
  have "\<forall>y \<in> set cs. c_client y \<noteq> c_client x" using Cons.prems(2) by (auto simp: image_iff)
  then have "\<forall>y \<in> set cs. socks u (c_client y) \<noteq> None \<and> roomy (c_client y) (length (message_line Bye 0 [])) u"
    using Cons.prems(3) u(4,5) by auto
  from Cons.IH [OF u(2) _ this] Cons.prems(2) obtain t where t: "foldR say_bye cs u = Inr t"
    "\<forall>c. stream c t = stream c u @ (if c \<in> c_client ` set cs then message_line Bye 0 [] else [])"
    "allClients t = filter (\<lambda>y. c_ptr y \<notin> c_ptr ` set cs) (allClients u)" "\<exists>es. events t = events u @ es"
    "\<forall>c. socks t c = None \<longleftrightarrow> socks u c = None" "srv t = srv u" "bcast t = bcast u" by auto
  have "stream c t = stream c s @ (if c \<in> c_client ` set (x # cs) then message_line Bye 0 [] else [])" for c
    using t(2) u(3) Cons.prems(2) by (auto simp: image_iff)
  moreover have "filter (\<lambda>y. c_ptr y \<notin> c_ptr ` set cs) (allClients u) =
      filter (\<lambda>y. c_ptr y \<notin> c_ptr ` set (x # cs)) (allClients s)"
    unfolding u(6) filter_filter by (rule filter_cong) auto
  ultimately show ?case using t(1,3-7) u(1,5,7-9) by auto
qed simp

text \<open>
  C7: \<open>Die\<close> from end to end. The application that reads it, in pieces of any size, calls its die
  callback, says goodbye to every application it knows with exactly one \<open>Bye\<close>, forgets them and their
  subscriptions, and exits.
\<close>
theorem die_ends_the_peer:
  assumes "sock_inv s" and "SendFails \<notin> set (script (net s))" and "p \<noteq> 0" and "find_clnt p s = Some cl"
    and "socks s (c_client cl) \<noteq> None" and "roomy (c_client cl) (length (message_line Die 0 [])) s"
    and "IvySendDieMsg p s = Inr t"
    and "gets rx c r (drop (length (stream (c_client cl) s)) (stream (c_client cl) t)) r'" and "hears c q ql r"
    and "sock_inv r" and "SendFails \<notin> set (script (net r))" and "distinct (map c_client (allClients r))"
    and "\<forall>x \<in> set (allClients r). socks r (c_client x) \<noteq> None \<and> roomy (c_client x) (length (message_line Bye 0 [])) r"
  shows "exited r' \<and> allClients r' = [] \<and> messSndByRegexp r' = [] \<and>
    (\<forall>c'. stream c' r' = stream c' r @ (if c' \<in> c_client ` set (allClients r) then message_line Bye 0 [] else [])) \<and>
    (\<exists>es. events r' = events r @ (if die_cb r then [DieEvent q 0] else []) @ es)"
proof -
  have "delivers_to (c_client cl) s (message_line Die 0 []) t"
    using msg_to_ok [OF _ assms(5,6), of p] assms(1-4,7) by (auto simp: ready_to_send_def IvySendDieMsg_def with_app_def)
  then have "gets rx c r (message_line Die 0 []) r'" using assms(8) by (simp add: delivers_toD(3))
  from gets_line [OF this assms(9)] obtain u v where u: "same_reading c r u" "same_reading c v r'"
    "interpret_msg rx (ql\<lparr>c_id := 0\<rparr>) c (msg_code Die) 0 [] (upd_clnt q (\<lambda>c. c\<lparr>c_id := 0\<rparr>) u) = Inr v"
    by (auto simp: is_int32_def)
  define w where "w = emit_if (die_cb u) (DieEvent q 0) (upd_clnt q (\<lambda>c. c\<lparr>c_id := 0\<rparr>) u)"
  have "c_ptr ql = q" using assms(9) by (simp add: hears_def)
  then obtain x where x: "IvyCleanup w = Inr x" "v = x\<lparr>exited := True\<rparr>"
    using u(3) by (auto simp: interpret_msg_def receive_Die_def bindR_eq_Inr w_def upd_clnt_def)
  have "ready_to_send r" using assms(10,11) by (simp add: ready_to_send_def)
  from same_reading_ready [OF u(1) this] have w: "ready_to_send w"
    by (simp add: w_def emit_if_def emit_def ready_to_send_def sock_inv_def upd_clnt_def)
  have clients: "map c_client (allClients w) = map c_client (allClients r)"
    using same_reading_fields(2) [OF u(1)]
    by (simp add: w_def emit_if_def emit_def upd_clnt_def comp_def if_distrib [of c_client] cong: if_cong)
  have str: "stream c' w = stream c' r" "roomy c' n w = roomy c' n r" "socks w c' = None \<longleftrightarrow> socks r c' = None" for c' n
    using same_reading_stream [OF u(1)] same_reading_fields(12) [OF u(1)]
    by (simp_all add: w_def)
  have "\<forall>y \<in> set (allClients w). socks w (c_client y) \<noteq> None \<and> roomy (c_client y) (length (message_line Bye 0 [])) w"
  proof
    fix y assume "y \<in> set (allClients w)"
    then have "c_client y \<in> c_client ` set (allClients r)" using arg_cong [OF clients, of set] by auto
    then show "socks w (c_client y) \<noteq> None \<and> roomy (c_client y) (length (message_line Bye 0 [])) w"
      using assms(13) str by auto
  qed
  with say_byes_ok [OF w, of "allClients w"] assms(12) clients obtain y where y: "foldR say_bye (allClients w) w = Inr y"
    "\<forall>c'. stream c' y = stream c' w @ (if c' \<in> c_client ` set (allClients w) then message_line Bye 0 [] else [])"
    "allClients y = filter (\<lambda>z. c_ptr z \<notin> c_ptr ` set (allClients w)) (allClients w)" "\<exists>es. events y = events w @ es"
    by auto
  have "allClients y = []" using y(3) by (simp add: filter_empty_conv)
  moreover obtain l where l: "x = y\<lparr>messSndByRegexp := [], lp := l\<rparr>"
  proof -
    obtain z where z: "SocketServerClose (srv y) (y\<lparr>messSndByRegexp := []\<rparr>) = Inr z" "SocketClose (bcast z) z = Inr x"
      using x(1) y(1) by (auto simp: IvyCleanup_def bindR_eq_Inr delAllRegexpsFromDictionary_def)
    from z(1) have "\<exists>l. z = y\<lparr>messSndByRegexp := []\<rparr>\<lparr>lp := l\<rparr>" by (intro close_only_lp) blast
    moreover from z(2) have "\<exists>l. x = z\<lparr>lp := l\<rparr>" by (intro close_only_lp) blast
    ultimately obtain l1 l2 where "z = y\<lparr>messSndByRegexp := []\<rparr>\<lparr>lp := l1\<rparr>" "x = z\<lparr>lp := l2\<rparr>" by blast
    then have "x = y\<lparr>messSndByRegexp := [], lp := l2\<rparr>" by simp
    then show ?thesis by (rule that)
  qed
  moreover have "c_client ` set (allClients w) = c_client ` set (allClients r)" using arg_cong [OF clients, of set] by simp
  moreover have "events w = events r @ (if die_cb r then [DieEvent q 0] else [])"
    using same_reading_fields(4,9) [OF u(1)] by (simp add: w_def emit_if_def emit_def upd_clnt_def)
  moreover have "stream c' v = stream c' y" for c' by (simp add: x(2) l)
  ultimately show ?thesis
    using same_reading_fields(2-5) [OF u(2)] same_reading_stream(1) [OF u(2)] y(2,4) str(1) by (auto simp: x(2) l)
qed

theorem die_ends_the_peer_witness:
  "\<exists>t r'. IvySendDieMsg 5 demo_idle = Inr t \<and>
     gets first_char_engine 1 (demo_about_to_read (stream 1 t)) (stream 1 t) r' \<and> exited r' \<and> allClients r' = [] \<and>
     stream 1 r' = message_line Bye 0 [] \<and> DieEvent 5 0 \<in> set (events r')"
proof -
  let ?m = "message_line Die 0 []" and ?b = "message_line Bye 0 []"
  let ?r = "demo_about_to_read ?m"
  have len: "length ?m = 5" "length ?b = 5" by (simp_all add: message_line_def wire_header_def show_int_def show_nat.simps)
  have room: "roomy 1 (length ?m) demo_idle" "roomy 1 (length ?b) ?r"
    by (rule demo_idle_ready(3) demo_about_facts(3); simp add: len fifo_size_defs)+
  have s: "sock_inv demo_idle" "SendFails \<notin> set (script (net demo_idle))"
    using demo_idle_ready(1) unfolding ready_to_send_def by blast+
  have c: "c_client demo_peer = 1" "c_ptr demo_peer = 5" "socks demo_idle 1 \<noteq> None"
    by (simp_all add: demo_peer_def demo_idle_ready(2) del: One_nat_def)
  obtain t where t: "IvySendDieMsg 5 demo_idle = Inr t" "stream 1 t = ?m"
    using msg_to_ok [of demo_idle 1 Die 0 "[]" 5] demo_idle_ready(1,7,9) c room
    by (auto simp: IvySendDieMsg_def with_app_def simp del: One_nat_def dest!: delivers_toD(3))
  have ne: "?m \<noteq> []" by (simp add: message_line_def)
  have cleanup: "\<exists>v. interpret_msg first_char_engine (demo_peer\<lparr>c_id := 0\<rparr>) 1 (msg_code Die) 0 []
      (upd_clnt 5 (\<lambda>c. c\<lparr>c_id := 0\<rparr>) u) = Inr v \<and> socks v 1 \<noteq> None" if u: "same_reading 1 ?r u" for u
  proof -
    define w where "w = emit_if (die_cb u) (DieEvent 5 0) (upd_clnt 5 (\<lambda>c. c\<lparr>c_id := 0\<rparr>) u)"
    have "allClients w = [demo_peer\<lparr>c_id := 0\<rparr>]" "srv w = 0" "bcast w = 0"
      using same_reading_fields(2,10,11) [OF u] demo_about_facts(7,11,12) c(2)
      by (simp_all add: w_def emit_if_def emit_def upd_clnt_def)
    moreover have "ready_to_send w" "roomy 1 (length ?b) w" "socks w 1 \<noteq> None"
      using same_reading_ready [OF u demo_about_facts(1)] same_reading_stream(2) [OF u, of 1] room(2)
        same_reading_fields(12) [OF u, of 1] demo_about_facts(2)
      by (simp_all add: w_def del: One_nat_def) (simp_all add: emit_if_def emit_def ready_to_send_def sock_inv_def)
    moreover from this obtain y where "foldR say_bye [demo_peer\<lparr>c_id := 0\<rparr>] w = Inr y"
      "\<forall>c. socks y c = None \<longleftrightarrow> socks w c = None" "srv y = srv w" "bcast y = bcast w"
      using say_byes_ok [of w "[demo_peer\<lparr>c_id := 0\<rparr>]"] c(1) by (auto simp del: foldR.simps One_nat_def)
    ultimately have y: "foldR say_bye (allClients w) w = Inr y" "srv y = 0" "bcast y = 0" "socks y 1 \<noteq> None"
      by (simp_all del: foldR.simps One_nat_def not_None_eq)
    then have "IvyCleanup w = Inr (y\<lparr>messSndByRegexp := []\<rparr>)" "socks y 1 \<noteq> None"
      by (simp_all add: IvyCleanup_def SocketServerClose_def SocketClose_def delAllRegexpsFromDictionary_def)
    then show ?thesis
      by (simp add: interpret_msg_def receive_Die_def c(2) w_def upd_clnt_def del: One_nat_def)
  qed
  obtain r' where r': "gets first_char_engine 1 ?r ?m r'"
    using line_can_be_got [OF demo_about_facts(14) [OF ne] demo_about_facts(2,16) _ _ demo_about_facts(13) _ _ _ cleanup]
      demo_about_facts(5,15,17) len by (auto simp: is_int32_def simp del: One_nat_def)
  have ready: "sock_inv ?r" "SendFails \<notin> set (script (net ?r))"
    using demo_about_facts(1) [of ?m] unfolding ready_to_send_def by blast+
  from die_ends_the_peer [where rx = first_char_engine and r' = r', OF s _ demo_idle_ready(9) _ _ t(1) _ demo_about_facts(13) ready]
    r' t(2) c room demo_idle_ready(7) demo_about_facts(2,4,6,7,9)
  have "exited r' \<and> allClients r' = [] \<and> stream 1 r' = ?b \<and> (\<exists>es. events r' = [DieEvent 5 0] @ es)"
    by (simp del: One_nat_def)
  then show ?thesis using t r' by (intro exI [of _ t] exI [of _ r']) (auto simp del: One_nat_def)
qed

end
