(* ===== verification/IvyPubSub.thy ===== *)
theory IvyPubSub
  imports IvyExchange "HOL-Library.Multiset"
begin

text \<open>
  The whole way of a message on the bus. An application announces its bindings on a new connection,
  another one reads them and later sends a message to everybody, the first one reads what has
  arrived and calls its callbacks. Between the two programs there are two streams, the dictionary of
  the sender (\<open>IvyDict\<close>) and the bindings of the receiver (\<open>IvyBind\<close>): the theorem at the end says
  that the callbacks called are, as a multiset, those of the bindings whose pattern matches.
\<close>

section \<open>The calls of a message, from the set of subscriptions\<close>

text \<open>A pattern that compiles and matches, and the groups of the match.\<close>

definition rx_call :: "regex_engine \<Rightarrow> string \<Rightarrow> string \<Rightarrow> bool" where
  "rx_call rx message r \<longleftrightarrow> rx_compile rx r = None \<and> 1 \<le> fst (rx_exec rx r message)"

definition rx_groups :: "regex_engine \<Rightarrow> string \<Rightarrow> string \<Rightarrow> string list" where
  "rx_groups rx message r =
     (let (n, ov) = rx_exec rx r message in map (\<lambda>i. capture message (ov ! i)) [1..<nat n])"

definition entry_keys :: "nat \<Rightarrow> dentry \<Rightarrow> (string \<times> int) list" where
  "entry_keys c e = map (\<lambda>dc. (d_regexp_src e, dc_id dc)) (filter (\<lambda>dc. dc_client dc = c) (d_clientList e))"

definition dict_keys :: "nat \<Rightarrow> dentry list \<Rightarrow> (string \<times> int) list" where
  "dict_keys c d = concat (map (entry_keys c) d)"

lemma entry_calls_keys:
  assumes "d_binding e = (case IvyBindingCompile rx (d_regexp_src e) of Inl _ \<Rightarrow> None | Inr b \<Rightarrow> Some b)"
  shows "entry_calls rx message e c = map (\<lambda>(r, i). (i, rx_groups rx message r))
    (filter (\<lambda>(r, i). rx_call rx message r) (entry_keys c e))"
proof (cases "rx_compile rx (d_regexp_src e)")
  case None
  obtain n ov where x: "rx_exec rx (d_regexp_src e) message = (n, ov)" by fastforce
  show ?thesis
    using assms None x
    by (cases "n < 1") (simp_all add: entry_calls_def IvyBindingCompile_def IvyBindingExec_def entry_keys_def
        rx_call_def rx_groups_def captures_def filter_map comp_def)
next
  case (Some err)
  then show ?thesis
    using assms by (simp add: entry_calls_def IvyBindingCompile_def IvyBindingExec_def entry_keys_def rx_call_def filter_map comp_def)
qed

lemma calls_keys:
  assumes "bind_ok rx d"
  shows "calls rx message d c = map (\<lambda>(r, i). (i, rx_groups rx message r))
    (filter (\<lambda>(r, i). rx_call rx message r) (dict_keys c d))"
  using assms
  by (induction d) (simp_all add: calls_def dict_keys_def bind_ok_def entry_calls_keys)

lemma set_dict_keys: "set (dict_keys c d) = {(r, i). (r, c, i) \<in> subs d}"
  by (force simp: dict_keys_def entry_keys_def subs_def entry_subs_def)

lemma distinct_dict_keys:
  assumes "dict_full rx d"
  shows "distinct (dict_keys c d)"
proof -
  have d: "distinct (map d_regexp_src d)"
    "\<forall>e \<in> set d. distinct (map (\<lambda>dc. (dc_client dc, dc_id dc)) (d_clientList e))"
    using assms by (simp_all add: dict_full_def dict_inv_def)
  have one: "distinct (entry_keys c e)" if "distinct (map (\<lambda>dc. (dc_client dc, dc_id dc)) (d_clientList e))" for e
    using that unfolding entry_keys_def by (induction "d_clientList e" arbitrary: e) (auto simp: distinct_map inj_on_def)
  show ?thesis
    using d
  proof (induction d)
    case (Cons e d)
    then have "distinct (dict_keys c d)" "distinct (entry_keys c e)" using one by simp_all
    moreover have "set (entry_keys c e) \<inter> set (dict_keys c d) = {}"
      using Cons.prems(1) by (force simp: entry_keys_def dict_keys_def)
    ultimately show ?case by (simp add: dict_keys_def)
  qed (simp add: dict_keys_def)
qed

text \<open>
  A dictionary in which the connection \<open>c\<close> has the bindings \<open>ms\<close>: what a message calls there is one
  call for each of them that matches.
\<close>

lemma calls_of_bindings:
  assumes "dict_full rx d" and "{(r, i). (r, c, i) \<in> subs d} = (\<lambda>m. (mr_regexp m, mr_id m)) ` set ms"
    and "distinct (map (\<lambda>m. (mr_regexp m, mr_id m)) ms)"
  shows "mset (calls rx message d c) =
    mset (map (\<lambda>m. (mr_id m, rx_groups rx message (mr_regexp m))) (filter (\<lambda>m. rx_call rx message (mr_regexp m)) ms))"
proof -
  have "bind_ok rx d" using assms(1) by (simp add: dict_full_def)
  have "set (dict_keys c d) = set (map (\<lambda>m. (mr_regexp m, mr_id m)) ms)" using assms(2) by (simp add: set_dict_keys)
  then have keys: "mset (dict_keys c d) = mset (map (\<lambda>m. (mr_regexp m, mr_id m)) ms)"
    by (rule iffD1 [OF set_eq_iff_mset_eq_distinct [OF distinct_dict_keys [OF assms(1)] assms(3)]])
  have "mset (calls rx message d c) = image_mset (\<lambda>(r, i). (i, rx_groups rx message r))
      (filter_mset (\<lambda>(r, i). rx_call rx message r) (mset (dict_keys c d)))"
    by (simp add: calls_keys [OF \<open>bind_ok rx d\<close>])
  also have "\<dots> = mset (map (\<lambda>(r, i). (i, rx_groups rx message r)) (filter (\<lambda>(r, i). rx_call rx message r)
      (map (\<lambda>m. (mr_regexp m, mr_id m)) ms)))"
    by (simp add: keys)
  also have "\<dots> = mset (map (\<lambda>m. (mr_id m, rx_groups rx message (mr_regexp m))) (filter (\<lambda>m. rx_call rx message (mr_regexp m)) ms))"
    by (simp add: filter_map comp_def)
  finally show ?thesis .
qed

section \<open>From a binding to its callback\<close>

text \<open>What an application needs to announce itself on a connection, and to publish a message.\<close>

definition can_announce :: "nat \<Rightarrow> ivy \<Rightarrow> bool" where
  "can_announce d s \<longleftrightarrow> ready_to_send s \<and> socks s d \<noteq> None \<and>
     roomy d (length (announcement (ApplicationPort s) (app_name s) (msg_recv s))) s \<and>
     ApplicationPort s < 65536 \<and> NL \<notin> set (app_name s) \<and> CHR 0x00 \<notin> set (app_name s) \<and>
     distinct (map (\<lambda>m. (mr_regexp m, mr_id m)) (msg_recv s))"

definition can_publish :: "regex_engine \<Rightarrow> string \<Rightarrow> ivy \<Rightarrow> bool" where
  "can_publish rx message s \<longleftrightarrow> ready_to_send s \<and> \<not> debug_binary_msg s \<and>
     list_all (good_entry rx message) (messSndByRegexp s) \<and>
     list_all (\<lambda>e. list_all (\<lambda>dc. socks s (dc_client dc) \<noteq> None) (d_clientList e)) (messSndByRegexp s) \<and>
     room_for (\<lambda>c. frames (calls rx message (messSndByRegexp s) c)) s \<and>
     NL \<notin> set message \<and> CHR 0x00 \<notin> set message \<and> ARG_END \<notin> set message"

text \<open>A connection on which nothing was received yet: its node, and none of its subscriptions.\<close>

definition new_peer :: "regex_engine \<Rightarrow> nat \<Rightarrow> nat \<Rightarrow> clnt \<Rightarrow> ivy \<Rightarrow> bool" where
  "new_peer rx c p cl s \<longleftrightarrow> peer_at c p cl s \<and> ready_message s = None \<and> dict_full rx (messSndByRegexp s) \<and>
     list_all (\<lambda>e. list_all (\<lambda>dc. dc_client dc \<noteq> c) (d_clientList e)) (messSndByRegexp s)"

lemma new_peer_subs: "new_peer rx c p cl s \<Longrightarrow> (r, c, i) \<notin> subs (messSndByRegexp s)"
  by (auto simp: new_peer_def subs_def entry_subs_def list_all_iff)

lemma bindings_announced:
  assumes "can_announce d s" and "SendService rx' d appname s = Inr (n, t)"
    and "gets rx c r (drop (length (stream d s)) (stream d t)) r'" and "new_peer rx c p cl r"
    and "\<forall>m \<in> set (msg_recv s). acceptable rx c r m"
  shows "dict_full rx (messSndByRegexp r')"
    "subs (messSndByRegexp r') = subs (messSndByRegexp r) \<union> (\<lambda>m. (mr_regexp m, c, mr_id m)) ` set (msg_recv s)"
    "{(e, i). (e, c, i) \<in> subs (messSndByRegexp r')} = (\<lambda>m. (mr_regexp m, mr_id m)) ` set (msg_recv s)"
proof -
  from assms(3) obtain ls k where g: "recv_ok c r" "reads (ivy_interp rx) c r ls r'" "socks r c = Some k" "sk_buffer k = []"
    "incoming (arrivals r (sk_fd k)) = drop (length (stream d s)) (stream d t)" "arrivals r' (sk_fd k) = []"
    by (auto simp: gets_def)
  from assms(1) have a: "sock_inv s" "SendFails \<notin> set (script (net s))" "socks s d \<noteq> None"
    "roomy d (length (announcement (ApplicationPort s) (app_name s) (msg_recv s))) s"
    "ApplicationPort s < 65536" "NL \<notin> set (app_name s)" "CHR 0x00 \<notin> set (app_name s)"
    "distinct (map (\<lambda>m. (mr_regexp m, mr_id m)) (msg_recv s))"
    by (simp_all add: can_announce_def ready_to_send_def)
  from assms(4) have p: "peer_at c p cl r" "ready_message r = None" "dict_full rx (messSndByRegexp r)"
    by (simp_all add: new_peer_def)
  have k: "knows rx c p (ApplicationPort s) (app_name s) (msg_recv s) r (length (msg_recv s) + 2) r'"
    by (rule announcement_heard [OF a(1-4) assms(2) g(2,1,3-6) p(1,2) a(5-7) assms(5) a(8)])
  then show "dict_full rx (messSndByRegexp r')" using p(3) by (simp add: knows_def)
  from k show subs: "subs (messSndByRegexp r') = subs (messSndByRegexp r) \<union> (\<lambda>m. (mr_regexp m, c, mr_id m)) ` set (msg_recv s)"
    by (simp add: knows_def)
  show "{(e, i). (e, c, i) \<in> subs (messSndByRegexp r')} = (\<lambda>m. (mr_regexp m, mr_id m)) ` set (msg_recv s)"
    unfolding subs using new_peer_subs [OF assms(4)] by auto
qed

lemma published_lines:
  assumes "can_publish rx message s" and "fmt \<noteq> []" and "IvySendMsg rx (Some fmt) message s = Inr (n, t)"
    and "gets rx' c' r (drop (length (stream c s)) (stream c t)) r'"
  shows "reads (ivy_interp rx') c' r (map call_line (calls rx message (messSndByRegexp s) c)) r'" "recv_ok c' r"
proof -
  from assms(4) obtain ls k where g: "recv_ok c' r" "reads (ivy_interp rx') c' r ls r'" "socks r c' = Some k" "sk_buffer k = []"
    "incoming (arrivals r (sk_fd k)) = drop (length (stream c s)) (stream c t)" "arrivals r' (sk_fd k) = []"
    by (auto simp: gets_def)
  from assms(1) have s: "sock_inv s" "SendFails \<notin> set (script (net s))" "\<not> debug_binary_msg s"
    "list_all (good_entry rx message) (messSndByRegexp s)"
    "\<forall>e \<in> set (messSndByRegexp s). \<forall>dc \<in> set (d_clientList e). socks s (dc_client dc) \<noteq> None"
    "room_for (\<lambda>c. frames (calls rx message (messSndByRegexp s) c)) s" "NL \<notin> set message"
    by (simp_all add: can_publish_def ready_to_send_def list_all_iff)
  have "ls = map call_line (calls rx message (messSndByRegexp s) c)"
    by (rule lines_on_the_wire [OF s(1,2) assms(2) s(3-7) assms(3) g(2,1,3-6)])
  with g(1,2) show "reads (ivy_interp rx') c' r (map call_line (calls rx message (messSndByRegexp s) c)) r'" "recv_ok c' r"
    by simp_all
qed

lemma calls_have_callbacks:
  assumes "mset (calls rx message d c) =
      mset (map (\<lambda>m. (mr_id m, rx_groups rx message (mr_regexp m))) (filter (\<lambda>m. rx_call rx message (mr_regexp m)) ms))"
    and "\<forall>m \<in> set ms. mr_callback m \<and> is_int32 (mr_id m) \<and> length (rx_groups rx message (mr_regexp m)) \<le> MAX_MATCHING_ARGS"
    and "CHR 0x00 \<notin> set message" and "ARG_END \<notin> set message" and "q \<in> set (calls rx message d c)"
  shows "has_callback ms q"
proof -
  obtain m where m: "m \<in> set ms" "q = (mr_id m, rx_groups rx message (mr_regexp m))"
    using assms(5) arg_cong [OF assms(1), of set_mset] by auto
  have "find (\<lambda>x. mr_id x = mr_id m) ms \<noteq> None" using m(1) by (auto simp: find_None_iff)
  then obtain x where x: "find (\<lambda>x. mr_id x = mr_id m) ms = Some x" "x \<in> set ms"
    using find_Some_mem by fastforce
  have "ARG_END \<notin> set g \<and> CHR 0x00 \<notin> set g" if "g \<in> set (rx_groups rx message (mr_regexp m))" for g
    using calls_chars [of "mr_id m" "rx_groups rx message (mr_regexp m)" rx message d c g] assms(3-5) that m(2) by auto
  then show ?thesis using assms(2) m x by (auto simp: has_callback_def)
qed

text \<open>
  C1: the software bus. An application announces its bindings on a new connection; the other one reads
  them and publishes a message later, while its dictionary is as it was then; the first one reads what
  it is sent. All reading is in pieces of any size. Then exactly one callback is called for each of its
  bindings whose pattern matches the message, with the groups of the match, and nothing else is
  reported to it.
\<close>
theorem bindings_are_called:
  assumes "can_announce d a" and "SendService rx' d appname a = Inr (n, a')"
    and "gets rx c b (drop (length (stream d a)) (stream d a')) b'" and "new_peer rx c p cl b"
    and "\<forall>m \<in> set (msg_recv a). acceptable rx c b m"
    and "messSndByRegexp b2 = messSndByRegexp b'" and "can_publish rx message b2" and "fmt \<noteq> []"
    and "IvySendMsg rx (Some fmt) message b2 = Inr (k, b3)"
    and "gets rx'' d a2 (drop (length (stream c b2)) (stream c b3)) a3" and "receives d q (msg_recv a) a2"
    and "\<forall>m \<in> set (msg_recv a). mr_callback m \<and> length (rx_groups rx message (mr_regexp m)) \<le> MAX_MATCHING_ARGS"
  shows "\<exists>es. events a3 = events a2 @ es \<and>
    mset es = mset (map (\<lambda>m. MsgEvent q (mr_id m) (rx_groups rx message (mr_regexp m)))
      (filter (\<lambda>m. rx_call rx message (mr_regexp m)) (msg_recv a)))"
proof -
  have "distinct (map (\<lambda>m. (mr_regexp m, mr_id m)) (msg_recv a))" using assms(1) by (simp add: can_announce_def)
  from calls_of_bindings [OF bindings_announced(1,3) [OF assms(1-5)] this, of message] assms(6) have
    calls: "mset (calls rx message (messSndByRegexp b2) c) = mset (map (\<lambda>m. (mr_id m, rx_groups rx message (mr_regexp m)))
      (filter (\<lambda>m. rx_call rx message (mr_regexp m)) (msg_recv a)))" by simp
  have chars: "CHR 0x00 \<notin> set message" "ARG_END \<notin> set message" using assms(7) by (simp_all add: can_publish_def)
  have "\<forall>m \<in> set (msg_recv a). mr_callback m \<and> is_int32 (mr_id m) \<and> length (rx_groups rx message (mr_regexp m)) \<le> MAX_MATCHING_ARGS"
    using assms(5,12) by (simp add: acceptable_def)
  then have "\<forall>x \<in> set (calls rx message (messSndByRegexp b2) c). has_callback (msg_recv a) x"
    using calls_have_callbacks [OF calls _ chars] by blast
  from calls_received [OF published_lines [OF assms(7-10)] assms(11) this]
  have "events a3 = events a2 @ map (call_event q) (calls rx message (messSndByRegexp b2) c)" .
  moreover have "mset (map (call_event q) (calls rx message (messSndByRegexp b2) c)) =
      mset (map (\<lambda>m. MsgEvent q (mr_id m) (rx_groups rx message (mr_regexp m)))
      (filter (\<lambda>m. rx_call rx message (mr_regexp m)) (msg_recv a)))"
    using arg_cong [OF calls, of "image_mset (call_event q)"] by (simp add: comp_def call_event_def multiset.map_comp)
  ultimately show ?thesis by blast
qed

text \<open>The listener of the examples when it publishes: its dictionary is \<open>d\<close>.\<close>

definition demo_publisher :: "dentry list \<Rightarrow> ivy" where
  "demo_publisher d = demo_idle\<lparr>messSndByRegexp := d\<rparr>"

lemma demo_teller_announces:
  "can_announce 1 demo_teller" "msg_recv demo_teller = [\<lparr>mr_ptr = 6, mr_id = 3, mr_regexp = ''(.).*'', mr_callback = True\<rparr>]"
  "stream 1 demo_teller = []"
  "\<exists>t. SendService first_char_engine 1 ''peer'' demo_teller = Inr (10, t) \<and>
     drop (length (stream 1 demo_teller)) (stream 1 t) = announcement 2011 ''me'' (msg_recv demo_teller)"
proof -
  let ?ms = "[\<lparr>mr_ptr = 6, mr_id = 3, mr_regexp = ''(.).*'', mr_callback = True\<rparr>]"
  have f: "ready_to_send demo_teller" "socks demo_teller 1 \<noteq> None"
    "app_name demo_teller = ''me''" "ApplicationPort demo_teller = 2011" "msg_recv demo_teller = ?ms"
    "stream 1 demo_teller = []" "fresh demo_teller = 10"
    using demo_idle_ready unfolding ready_to_send_def
    by (simp_all add: demo_teller_def demo_idle_def app_name_def) (simp add: demo_def)
  have "length (announcement 2011 ''me'' ?ms) = 25"
    by (simp add: announcement_def message_line_def wire_header_def show_int_def show_nat.simps)
  then have room: "roomy 1 (length (announcement 2011 ''me'' ?ms)) demo_teller"
    using demo_idle_ready(3) [of "length (announcement 2011 ''me'' ?ms)"]
    by (simp add: demo_teller_def demo_idle_def roomy_def del: One_nat_def)
  show "msg_recv demo_teller = ?ms" "stream 1 demo_teller = []" by (rule f)+
  show "can_announce 1 demo_teller" using f room by (simp add: can_announce_def NL_def del: One_nat_def)
  show "\<exists>t. SendService first_char_engine 1 ''peer'' demo_teller = Inr (10, t) \<and>
     drop (length (stream 1 demo_teller)) (stream 1 t) = announcement 2011 ''me'' (msg_recv demo_teller)"
    using SendService_ok [of demo_teller 1 first_char_engine "''peer''"] f room by auto
qed

lemma demo_listener_hears:
  "new_peer first_char_engine 1 5 demo_peer demo_listener" "\<forall>m \<in> set (msg_recv demo_teller). acceptable first_char_engine 1 demo_listener m"
  "\<exists>r. gets first_char_engine 1 demo_listener (announcement 2011 ''me'' (msg_recv demo_teller)) r"
proof -
  let ?ms = "[\<lparr>mr_ptr = 6, mr_id = 3, mr_regexp = ''(.).*'', mr_callback = True\<rparr>]"
  note ms = demo_teller_announces(2)
  have len: "length (announcement 2011 ''me'' ?ms) = 25"
    by (simp add: announcement_def message_line_def wire_header_def show_int_def show_nat.simps)
  then have ne: "announcement 2011 ''me'' ?ms \<noteq> []" by fastforce
  have k: "socks demo_listener 1 = Some (demo_sock None)" "sk_fd (demo_sock None) = 7"
    "sk_buffer (demo_sock None) = []" "room (demo_sock None) = 4096"
    by (simp_all add: demo_listener_def demo_def demo_sock_def new_sock_def room_def grow_buffer_def IVY_BUFFER_SIZE_def)
  have arr: "arrivals demo_listener 7 = [Stream (announcement 2011 ''me'' ?ms)]"
    by (simp add: demo_listener_def ms)
  have ok: "recv_ok 1 demo_listener"
    unfolding recv_ok_def k(1)
    by (simp add: k(2,3) arr stream_only_def ne del: One_nat_def)
      (simp add: demo_listener_def fresh_ok_def demo_def demo_sock_def new_sock_def IVY_BUFFER_SIZE_def)
  have at: "peer_at 1 5 demo_peer demo_listener"
    unfolding peer_at_def k(1)
    by (simp add: demo_listener_def demo_peer_def clients_inv_def dict_inv_def demo_def demo_sock_def new_sock_def)
  have misc: "ready_message demo_listener = None" "messSndByRegexp demo_listener = []"
    by (simp_all add: demo_listener_def)
  show "new_peer first_char_engine 1 5 demo_peer demo_listener"
    using at misc by (simp add: new_peer_def dict_full_def dict_inv_def bind_ok_def del: One_nat_def)
  have acc: "\<forall>m \<in> set ?ms. acceptable first_char_engine 1 demo_listener m"
    by (simp add: acceptable_def is_int32_def demo_listener_def IvyBindingFilter_def no_filter_def
        first_char_engine_def subs_def NL_def)
  then show "\<forall>m \<in> set (msg_recv demo_teller). acceptable first_char_engine 1 demo_listener m" by (simp add: ms)
  obtain r where "reads (ivy_interp first_char_engine) 1 demo_listener (announced 2011 ''me'' ?ms) r" "arrivals r 7 = []"
    using announcement_can_be_read [OF ok k(1,3) _ _ _ at misc(1) _ _ acc, of 2011 "''me''"] arr len
    by (auto simp: k NL_def)
  then show "\<exists>r. gets first_char_engine 1 demo_listener (announcement 2011 ''me'' (msg_recv demo_teller)) r"
    unfolding gets_def using ok k arr
    by (intro exI [of _ r] conjI exI [of _ "announced 2011 ''me'' ?ms"] exI [of _ "demo_sock None"])
      (simp_all add: incoming_def ms del: One_nat_def)
qed

lemma demo_publishes:
  assumes "dict_full first_char_engine d" and "subs d = {(''(.).*'', 1, 3)}"
  shows "can_publish first_char_engine ''ab'' (demo_publisher d)" "calls first_char_engine ''ab'' d 1 = [(3, [''a''])]"
    "stream 1 (demo_publisher d) = []" "messSndByRegexp (demo_publisher d) = d"
proof -
  have x: "rx_exec first_char_engine r ''ab'' = (2, [(0, 2), (0, 1)])" "rx_compile first_char_engine r = None" for r
    by (simp_all add: first_char_engine_def)
  have u: "[Suc 0..<2] = [1]" by (simp add: upt_rec)
  have "mset (calls first_char_engine ''ab'' d 1) = mset (map (\<lambda>m. (mr_id m, rx_groups first_char_engine ''ab'' (mr_regexp m)))
      (filter (\<lambda>m. rx_call first_char_engine ''ab'' (mr_regexp m)) (msg_recv demo_teller)))"
    by (rule calls_of_bindings [OF assms(1)]) (auto simp: assms(2) demo_teller_announces(2))
  then show c1: "calls first_char_engine ''ab'' d 1 = [(3, [''a''])]"
    by (simp add: demo_teller_announces(2) rx_groups_def rx_call_def x u capture_def)
  have "dict_keys c d = []" if "c \<noteq> 1" for c
    using set_dict_keys [of c d] that by (auto simp: assms(2))
  then have c2: "calls first_char_engine ''ab'' d c = []" if "c \<noteq> 1" for c
    using calls_keys [of first_char_engine d "''ab''" c] assms(1) that by (simp add: dict_full_def)
  have sub: "dc_client dc = 1 \<and> dc_id dc = 3" if "e \<in> set d" "dc \<in> set (d_clientList e)" for e dc
  proof -
    have "(d_regexp_src e, dc_client dc, dc_id dc) \<in> subs d" using that by (auto simp: subs_def entry_subs_def)
    then show ?thesis by (simp add: assms(2))
  qed
  have "good_entry first_char_engine ''ab'' e" if "e \<in> set d" for e
  proof -
    have "d_binding e = Some \<lparr>bd_regexp = d_regexp_src e, bd_nb_match = 0, bd_ovector = []\<rparr>"
      using assms(1) that by (simp add: dict_full_def bind_ok_def IvyBindingCompile_def x)
    then show ?thesis using sub that by (auto simp: good_entry_def IvyBindingExec_def x good_match_def good_span_def is_int32_def)
  qed
  moreover have room: "room_for (\<lambda>c. frames (calls first_char_engine ''ab'' d c)) (demo_publisher d)"
    unfolding room_for_def
  proof
    fix c
    show "frames (calls first_char_engine ''ab'' d c) = [] \<or>
        roomy c (length (frames (calls first_char_engine ''ab'' d c))) (demo_publisher d)"
    proof (cases "c = 1")
      case True
      have "roomy 1 (length (frames [(3, [''a''])])) demo_idle"
        by (rule demo_idle_ready(3)) (simp add: demo_frames)
      then show ?thesis using c1 True by (simp add: demo_publisher_def roomy_def del: One_nat_def)
    qed (simp add: c2 frames_def)
  qed
  moreover have "ready_to_send (demo_publisher d)" "socks (demo_publisher d) 1 \<noteq> None" "\<not> debug_binary_msg (demo_publisher d)"
    using demo_idle_ready(1,2) by (simp_all add: demo_publisher_def ready_to_send_def sock_inv_def del: One_nat_def)
      (simp add: demo_idle_def)
  ultimately show "can_publish first_char_engine ''ab'' (demo_publisher d)"
    using sub by (auto simp: can_publish_def list_all_iff demo_publisher_def NL_def ARG_END_def simp del: One_nat_def)
  show "stream 1 (demo_publisher d) = []" "messSndByRegexp (demo_publisher d) = d"
    using demo_idle_ready(7) by (simp_all add: demo_publisher_def)
qed

theorem bindings_are_called_witness:
  "\<exists>a' b' b3 a3 n k.
     SendService first_char_engine 1 ''peer'' demo_teller = Inr (n, a') \<and>
     gets first_char_engine 1 demo_listener (stream 1 a') b' \<and>
     IvySendMsg first_char_engine (Some ''%s'') ''ab'' (demo_publisher (messSndByRegexp b')) = Inr (k, b3) \<and>
     gets token_engine 1 demo_receiver (stream 1 b3) a3 \<and> events a3 = [MsgEvent 5 3 [''a'']]"
proof -
  obtain a' where a': "SendService first_char_engine 1 ''peer'' demo_teller = Inr (10, a')"
    "drop (length (stream 1 demo_teller)) (stream 1 a') = announcement 2011 ''me'' (msg_recv demo_teller)"
    using demo_teller_announces(4) by blast
  obtain b' where b': "gets first_char_engine 1 demo_listener (drop (length (stream 1 demo_teller)) (stream 1 a')) b'"
    using demo_listener_hears(3) a'(2) by auto
  note heard = bindings_announced [OF demo_teller_announces(1) a'(1) b' demo_listener_hears(1,2)]
  let ?b2 = "demo_publisher (messSndByRegexp b')"
  have "messSndByRegexp demo_listener = []" by (simp add: demo_listener_def)
  then have "subs (messSndByRegexp b') = {(''(.).*'', 1, 3)}"
    using heard(2) by (simp add: demo_teller_announces(2) subs_def)
  note pub = demo_publishes [OF heard(1) this]
  from pub(1) obtain k b3 where b3: "IvySendMsg first_char_engine (Some ''%s'') ''ab'' ?b2 = Inr (k, b3)"
    "stream 1 b3 = frames [(3, [''a''])]"
    using IvySendMsg_ok [of ?b2 "''%s''" first_char_engine "''ab''"] pub(2-4)
    by (auto simp: can_publish_def ready_to_send_def list_all_iff delivers_def simp del: One_nat_def)
  obtain a3 where a3: "reads (ivy_interp token_engine) 1 demo_receiver [call_line (3, [''a''])] a3" "arrivals a3 7 = []"
    using demo_receiver_reads by blast
  have k: "socks demo_receiver 1 = Some (demo_sock None)" "sk_fd (demo_sock None) = 7" "sk_buffer (demo_sock None) = []"
    "arrivals demo_receiver 7 = [Stream (frames [(3, [''a''])])]" "events demo_receiver = []"
    by (simp_all add: demo_receiver_def demo_def demo_sock_def new_sock_def)
  have ok: "recv_ok 1 demo_receiver"
    unfolding recv_ok_def k(1) by (simp add: k(2-4) stream_only_def demo_frames del: One_nat_def)
      (simp add: demo_receiver_def fresh_ok_def demo_def demo_sock_def new_sock_def IVY_BUFFER_SIZE_def)
  have got: "gets token_engine 1 demo_receiver (drop (length (stream 1 ?b2)) (stream 1 b3)) a3"
    unfolding gets_def using ok k a3 b3(2) pub(3)
    by (intro conjI exI [of _ "[call_line (3, [''a''])]"] exI [of _ "demo_sock None"])
      (simp_all add: incoming_def del: One_nat_def)
  have "receives 1 5 (msg_recv demo_teller) demo_receiver"
    by (simp add: receives_def k(1) del: One_nat_def)
      (simp add: demo_teller_announces(2) demo_receiver_def find_clnt_def demo_peer_def demo_def demo_sock_def new_sock_def)
  from bindings_are_called [OF demo_teller_announces(1) a'(1) b' demo_listener_hears(1,2) pub(4,1) _ b3(1) got this]
  have "\<exists>es. events a3 = [] @ es \<and> mset es = {#MsgEvent 5 3 [''a'']#}"
    by (simp add: k(5) demo_teller_announces(2) rx_groups_def rx_call_def first_char_engine_def capture_def upt_rec MAX_MATCHING_ARGS_def)
  then have "events a3 = [MsgEvent 5 3 [''a'']]" by simp
  moreover have "stream 1 demo_teller = []" by (rule demo_teller_announces)
  ultimately show ?thesis using a'(1) b' b3(1) got pub(3)
    by (intro exI [of _ a'] exI [of _ b'] exI [of _ b3] exI [of _ a3] exI [of _ 10] exI [of _ k]) simp
qed

end
