(* ===== verification/IvyStart.thy ===== *)
theory IvyStart
  imports IvySession "HOL-Library.Word"
begin

text \<open>
  \<open>IvyStart\<close>: the choice of the bus, the parser of its address list, and the opening of the two
  server sockets. The bus is a C string; its end is read as the byte 0.
\<close>

unbundle bit_operations_syntax

section \<open>The address list\<close>

record bus_state =
  bs_mask :: "32 word"
  bs_elem :: "8 word"
  bs_numdigit :: nat
  bs_numelem :: nat
  bs_error :: bool

definition bus_start :: bus_state where
  "bus_start = \<lparr>bs_mask = -1, bs_elem = 0, bs_numdigit = 0, bs_numelem = 0, bs_error = False\<rparr>"

definition ends_address :: "char \<Rightarrow> bool" where
  "ends_address c \<longleftrightarrow> c = CHR '','' \<or> c = CHR '':'' \<or> c = CHR 0x00"

text \<open>The mask with the byte of the current element replaced; a negative shift is undefined.\<close>

definition put_elem :: "bus_state \<Rightarrow> 32 word res" where
  "put_elem b =
     (if bs_numelem b > 3 then Inl BadShift
      else let k = 8 * (3 - bs_numelem b)
           in Inr ((bs_mask b XOR push_bit k 255) OR push_bit k (ucast (bs_elem b))))"

text \<open>One turn of the loop: the addresses it broadcasts on, and the state.\<close>

definition bus_step :: "char \<Rightarrow> bus_state \<Rightarrow> (32 word list \<times> bus_state) res" where
  "bus_step c b =
     (if \<not> bs_error b \<and> is_digit c then
        if bs_numdigit b < 3 \<and> bs_numelem b < 4
        then Inr ([], b\<lparr>bs_elem := 10 * bs_elem b + of_nat (of_char c) - 48\<rparr>)
        else Inr ([], b\<lparr>bs_error := True\<rparr>)
      else if \<not> bs_error b \<and> (c = CHR ''.'' \<or> ends_address c) then
        bindR (put_elem b) (\<lambda>mask.
          if c = CHR ''.''
          then Inr ([], b\<lparr>bs_mask := mask, bs_numelem := bs_numelem b + 1, bs_numdigit := 0,
                          bs_elem := 0\<rparr>)
          else Inr ([mask], b\<lparr>bs_mask := -1, bs_numelem := 0, bs_numdigit := 0, bs_elem := 0\<rparr>))
      else if ends_address c then
        Inr ([], \<lparr>bs_mask = -1, bs_elem = 0, bs_numdigit = 0, bs_numelem = 0, bs_error = False\<rparr>)
      else if c = CHR '' '' then Inr ([], b)
      else Inr ([], b\<lparr>bs_error := True\<rparr>))"

fun bus_loop :: "string \<Rightarrow> bus_state \<Rightarrow> 32 word list res" where
  "bus_loop [] b = bindR (bus_step (CHR 0x00) b) (\<lambda>(out, _). Inr out)"
| "bus_loop (c # cs) b =
     bindR (bus_step c b) (\<lambda>(out, b).
       if c = CHR '':'' then Inr out
       else bindR (bus_loop cs b) (\<lambda>out'. Inr (out @ out')))"

section \<open>Starting\<close>

definition DefaultIvyBus :: string where "DefaultIvyBus = ''127.255.255.255:2010''"
definition IVY_DEFAULT_BUS :: nat where "IVY_DEFAULT_BUS = 2010"

definition given :: "string option \<Rightarrow> bool" where
  "given x \<longleftrightarrow> x \<noteq> None \<and> x \<noteq> Some []"

definition choose_bus :: "string option \<Rightarrow> string option \<Rightarrow> string" where
  "choose_bus bus env =
     (if given bus then the bus else if given env then the env else DefaultIvyBus)"

text \<open>
  The UDP port, the text tried as an IPv6 address (the array \<open>addr\<close>, of 1024 bytes, is left
  uninitialised without a port: \<open>garbage\<close> is what it holds then) and the list to parse.
\<close>

definition bus_port :: "string \<Rightarrow> string \<Rightarrow> (nat \<times> string \<times> string) res" where
  "bus_port garbage p =
     (case strrchr p (CHR '':'') of
        None \<Rightarrow> Inr (IVY_DEFAULT_BUS, garbage, p)
      | Some (before, after) \<Rightarrow>
          let port = u16 (atoi after);
              networks = (if before = [] then DefaultIvyBus else p)
          in if port = 0 then Inr (IVY_DEFAULT_BUS, garbage, networks)
             else if length before \<ge> 1024 then Inl OutOfBounds
             else Inr (port, before, networks))"

definition IN_MULTICAST :: "32 word \<Rightarrow> bool" where
  "IN_MULTICAST a \<longleftrightarrow> a AND 0xf0000000 = 0xe0000000"

definition handshake :: "ivy \<Rightarrow> string" where
  "handshake s = show_int IVYMAJOR_VERSION @ CHR '' '' # show_nat (ApplicationPort s) @
     CHR '' '' # (case ApplicationID s of None \<Rightarrow> ''(null)'' | Some i \<Rightarrow> i) @
     CHR '' '' # app_name s @ [NL]"

definition announce :: "32 word \<Rightarrow> ivy \<Rightarrow> ivy res" where
  "announce a s =
     bindR (if IN_MULTICAST a
            then bindR (SocketAddMember True True (bcast s) (unat a) s) (\<lambda>(_, s). Inr s)
            else Inr s)
       (\<lambda>s. SocketSendBroadcast (bcast s) (unat a) (SupervisionPort s) (handshake s) s)"

text \<open>The IPv6 address is a number of 128 bits; a multicast one starts with the byte \<open>0xff\<close>.\<close>

definition IN6_IS_ADDR_MULTICAST :: "nat \<Rightarrow> bool" where
  "IN6_IS_ADDR_MULTICAST a \<longleftrightarrow> a div 2 ^ 120 = 255"

definition announce6 :: "nat \<Rightarrow> ivy \<Rightarrow> ivy res" where
  "announce6 a s =
     bindR (if IN6_IS_ADDR_MULTICAST a
            then bindR (SocketAddMember6 True (bcast s) a s) (\<lambda>(_, s). Inr s)
            else Inr s)
       (\<lambda>s. SocketSendBroadcast6 (bcast s) a (SupervisionPort s) (handshake s) s)"

text \<open>
  \<open>ipv6\<close> is a static flag that is never cleared: when it was set before and the address is not an
  IPv6 one, \<open>ipv6addr\<close> is read without having been written.
\<close>

text \<open>
  \<open>pton6\<close> is \<open>inet_pton (AF_INET6, ...)\<close>, \<open>tcp\<close> and \<open>udp\<close> the sockets the kernel gives, \<open>rand\<close>
  what \<open>rand\<close> answers first after \<open>srand\<close>.
\<close>

record start_env =
  st_env :: "string option"
  st_garbage :: string
  st_pton6 :: "string \<Rightarrow> nat option"
  st_tcp :: "nat \<times> sockaddr"
  st_udp :: "(nat \<times> sockaddr) option"
  st_rand :: "nat \<Rightarrow> int"

definition GenApplicationUniqueIdentifier :: "(nat \<Rightarrow> int) \<Rightarrow> ivy \<Rightarrow> string" where
  "GenApplicationUniqueIdentifier rand s =
     (let curtime = current_ms s
      in take 127 (show_int (rand (u32 (int curtime))) @ CHR '':'' # show_nat curtime @
           CHR '':'' # show_nat (ApplicationPort s)))"

definition IvyStart :: "start_env \<Rightarrow> string option \<Rightarrow> ivy \<Rightarrow> ivy res" where
  "IvyStart e bus s =
     bindR (bus_port (st_garbage e) (choose_bus bus (st_env e))) (\<lambda>(port, addr, networks).
       let v6 = st_pton6 e addr;
           s = s\<lparr>SupervisionPort := port, ipv6 := ipv6 s \<or> v6 \<noteq> None\<rparr>;
           (sv, s) = SocketServer (ipv6 s) (fst (st_tcp e)) (snd (st_tcp e)) s
       in bindR (SocketServerGetPort sv s) (\<lambda>aport.
          let s = s\<lparr>srv := sv, ApplicationPort := aport\<rparr>;
              s = s\<lparr>ApplicationID := Some (GenApplicationUniqueIdentifier (st_rand e) s)\<rparr>;
              (b, s) = SocketBroadcastCreate (ipv6 s) (st_udp e) 0 s;
              s = s\<lparr>bcast := b\<rparr>
          in if ipv6 s then (case v6 of Some a \<Rightarrow> announce6 a s | None \<Rightarrow> Inl Uninitialised)
             else bindR (bus_loop networks bus_start) (\<lambda>as. foldR announce as s)))"

section \<open>The addresses of a list\<close>

definition address_byte :: "32 word \<Rightarrow> nat \<Rightarrow> 8 word" where
  "address_byte w i = ucast (drop_bit (8 * (3 - i)) w)"

definition address_bytes :: "32 word \<Rightarrow> 8 word list" where
  "address_bytes w = map (address_byte w) [0..<4]"

fun join :: "char \<Rightarrow> string list \<Rightarrow> string" where
  "join c [] = []"
| "join c [x] = x"
| "join c (x # y # xs) = x @ c # join c (y # xs)"

definition addr_text :: "nat list \<Rightarrow> string" where
  "addr_text ns = join (CHR ''.'') (map show_nat ns)"

text \<open>The bytes an address list means: the elements given, and 255 for the missing ones.\<close>

definition addr_bytes :: "nat list \<Rightarrow> 8 word list" where
  "addr_bytes ns = map of_nat ns @ replicate (4 - length ns) 255"

lemma bit_address_byte: "bit (address_byte w i) n \<longleftrightarrow> n < 8 \<and> bit w (8 * (3 - i) + n)"
  by (auto simp: address_byte_def bit_ucast_iff bit_drop_bit_eq exp_eq_zero_iff)

lemma bit_255: "bit (255 :: 'a::len word) n \<longleftrightarrow> n < 8 \<and> n < LENGTH('a)"
proof -
  have e: "(255 :: 'a word) = mask 8" by (simp add: mask_eq_exp_minus_1)
  show ?thesis unfolding e bit_mask_iff possible_bit_word by blast
qed

lemma address_byte_put:
  assumes "k < 4" and "i < 4" and "address_byte m k = 255"
  shows "address_byte ((m XOR push_bit (8 * (3 - k)) 255) OR push_bit (8 * (3 - k)) (ucast (e :: 8 word))) i =
           (if i = k then e else address_byte m i)"
proof (rule bit_word_eqI)
  fix n assume "n < LENGTH(8)"
  then have n: "n < 8" by simp
  have m: "bit m (8 * (3 - k) + j)" if "j < 8" for j
  proof -
    have "bit (255 :: 8 word) j" unfolding bit_255 using that by simp
    then show ?thesis using bit_address_byte [of m k j] unfolding assms(3) by blast
  qed
  show "bit (address_byte ((m XOR push_bit (8 * (3 - k)) 255) OR push_bit (8 * (3 - k)) (ucast e)) i) n =
      bit (if i = k then e else address_byte m i) n"
  proof (cases "i = k")
    case True
    then show ?thesis
      using n m [OF n] assms(1)
      unfolding bit_address_byte bit_or_iff bit_xor_iff bit_push_bit_iff bit_255 bit_ucast_iff by auto
  next
    case False
    with assms(1,2) have "8 * (3 - i) + n < 8 * (3 - k) \<or> 8 * (3 - k) + 8 \<le> 8 * (3 - i) + n"
      using n by arith
    then show ?thesis
      using n False bit_imp_le_length [of e "8 * (3 - i) + n - 8 * (3 - k)"]
      unfolding if_not_P [OF False] bit_address_byte bit_or_iff bit_xor_iff bit_push_bit_iff bit_255 bit_ucast_iff by auto
  qed
qed

lemma bindR_Inr [simp]: "bindR m Inr = m"
  by (cases m) simp_all

section \<open>The parser on a well-formed list\<close>

lemma bus_digits:
  assumes "\<forall>c \<in> set ds. is_digit c" and "\<not> bs_error b" and "bs_numdigit b < 3" and "bs_numelem b < 4"
    and "bs_elem b = of_nat n"
  shows "bus_loop (ds @ rest) b =
           bus_loop rest (b\<lparr>bs_elem := of_nat (foldl (\<lambda>a c. 10 * a + digit_val c) n ds)\<rparr>)"
  using assms
proof (induction ds arbitrary: b n)
  case Nil
  then have "b\<lparr>bs_elem := of_nat n\<rparr> = b" by (cases b) simp
  then show ?case by simp
next
  case (Cons c ds)
  then have c: "is_digit c" by simp
  then have "48 \<le> (of_char c :: nat)" by (simp add: is_digit_def)
  then have "(of_nat (of_char c) :: 8 word) - 48 = of_nat (digit_val c)"
    by (simp add: digit_val_def of_nat_diff)
  then have e: "10 * bs_elem b + of_nat (of_char c) - 48 = of_nat (10 * n + digit_val c)"
    using Cons.prems(5) by (simp add: algebra_simps)
  let ?b = "b\<lparr>bs_elem := of_nat (10 * n + digit_val c)\<rparr>"
  have "c \<noteq> CHR '':''" using c by (auto simp: is_digit_def)
  then have "bus_loop ((c # ds) @ rest) b = bus_loop (ds @ rest) ?b"
    using Cons.prems(2-4) c e by (cases "bus_loop (ds @ rest) ?b") (simp_all add: bus_step_def)
  also have "\<dots> = bus_loop rest (?b\<lparr>bs_elem := of_nat (foldl (\<lambda>a c. 10 * a + digit_val c) (10 * n + digit_val c) ds)\<rparr>)"
    using Cons.prems by (intro Cons.IH) simp_all
  finally show ?case by simp
qed

lemma bus_number:
  assumes "\<not> bs_error b" and "bs_numdigit b = 0" and "bs_numelem b < 4" and "bs_elem b = 0"
  shows "bus_loop (show_nat n @ rest) b = bus_loop rest (b\<lparr>bs_elem := of_nat n\<rparr>)"
  using bus_digits [of "show_nat n" b 0 rest] show_nat_digits assms digits_val_show_nat [of n]
  by (simp add: digits_val_def)

definition bus_at :: "nat list \<Rightarrow> bus_state \<Rightarrow> bool" where
  "bus_at ns b \<longleftrightarrow> \<not> bs_error b \<and> bs_numdigit b = 0 \<and> bs_numelem b = length ns \<and> bs_elem b = 0 \<and>
     address_bytes (bs_mask b) = addr_bytes ns"

lemma address_bytes_nth: "address_bytes w = xs \<Longrightarrow> i < 4 \<Longrightarrow> address_byte w i = xs ! i"
  by (auto simp: address_bytes_def)

lemma put_elem_at:
  assumes "bus_at ns b" and "length ns < 4"
  shows "\<exists>m. put_elem (b\<lparr>bs_elem := of_nat n\<rparr>) = Inr m \<and> address_bytes m = addr_bytes (ns @ [n])"
proof -
  let ?k = "length ns"
  let ?m = "(bs_mask b XOR push_bit (8 * (3 - ?k)) 255) OR push_bit (8 * (3 - ?k)) (ucast (of_nat n :: 8 word))"
  have run: "put_elem (b\<lparr>bs_elem := of_nat n\<rparr>) = Inr ?m"
    using assms by (simp add: put_elem_def bus_at_def Let_def)
  have at: "address_byte (bs_mask b) i = addr_bytes ns ! i" if "i < 4" for i
    using assms(1) that by (intro address_bytes_nth) (simp_all add: bus_at_def)
  have "address_byte (bs_mask b) ?k = 255"
    using at [OF assms(2)] assms(2) by (simp add: addr_bytes_def nth_append)
  then have put: "address_byte ?m i = (if i = ?k then of_nat n else address_byte (bs_mask b) i)" if "i < 4" for i
    using assms(2) that by (intro address_byte_put)
  have "address_bytes ?m ! i = addr_bytes (ns @ [n]) ! i" if "i < 4" for i
    using put [OF that] at [OF that] that assms(2)
    by (auto simp: address_bytes_def addr_bytes_def nth_append nth_Cons' )
  then have "address_bytes ?m = addr_bytes (ns @ [n])"
    using assms(2) by (intro nth_equalityI) (simp_all add: address_bytes_def addr_bytes_def)
  with run show ?thesis by blast
qed

text \<open>The elements of one address, the last one closed by \<open>c\<close>.\<close>

lemma bus_element:
  assumes "bus_at ns b" and "length ns < 4"
  shows "\<exists>b'. bus_loop (show_nat n @ CHR ''.'' # rest) b = bus_loop rest b' \<and> bus_at (ns @ [n]) b'"
proof -
  from put_elem_at [OF assms, of n] obtain m where m: "put_elem (b\<lparr>bs_elem := of_nat n\<rparr>) = Inr m"
    "address_bytes m = addr_bytes (ns @ [n])" by blast
  let ?b = "b\<lparr>bs_mask := m, bs_numelem := Suc (length ns), bs_numdigit := 0, bs_elem := 0\<rparr>"
  have "bus_loop (show_nat n @ CHR ''.'' # rest) b = bus_loop (CHR ''.'' # rest) (b\<lparr>bs_elem := of_nat n\<rparr>)"
    using assms by (intro bus_number) (simp_all add: bus_at_def)
  also have "\<dots> = bus_loop rest ?b"
    using m(1) assms(1)
    by (cases "bus_loop rest ?b") (simp_all add: bus_step_def is_digit_def bus_at_def)
  finally show ?thesis using m(2) assms(1) by (auto simp: bus_at_def)
qed

lemma bus_at_start: "bus_at [] bus_start"
proof -
  have "address_byte (-1) i = 255" for i
    by (rule bit_word_eqI, unfold bit_address_byte bit_255) auto
  moreover have "addr_bytes [] = [255, 255, 255, 255]" by (simp add: addr_bytes_def eval_nat_numeral)
  ultimately show ?thesis by (simp add: bus_at_def bus_start_def address_bytes_def upt_rec)
qed

lemma bus_last:
  assumes "bus_at ns b" and "length ns < 4" and "c = CHR '','' \<or> c = CHR '':''"
  shows "\<exists>m. address_bytes m = addr_bytes (ns @ [n]) \<and>
     bus_loop (show_nat n @ c # rest) b =
       (if c = CHR '':'' then Inr [m] else bindR (bus_loop rest bus_start) (\<lambda>out. Inr (m # out)))"
proof -
  from put_elem_at [OF assms(1,2), of n] obtain m where m: "put_elem (b\<lparr>bs_elem := of_nat n\<rparr>) = Inr m"
    "address_bytes m = addr_bytes (ns @ [n])" by blast
  have start: "(b\<lparr>bs_elem := of_nat n\<rparr>)\<lparr>bs_mask := -1, bs_numelem := 0, bs_numdigit := 0, bs_elem := 0\<rparr> = bus_start"
    using assms(1) by (cases b) (simp add: bus_start_def bus_at_def)
  have "bus_loop (show_nat n @ c # rest) b = bus_loop (c # rest) (b\<lparr>bs_elem := of_nat n\<rparr>)"
    using assms by (intro bus_number) (simp_all add: bus_at_def)
  also have "bus_step c (b\<lparr>bs_elem := of_nat n\<rparr>) = Inr ([m], bus_start)"
    using m(1) assms(1,3) start by (auto simp: bus_step_def is_digit_def bus_at_def ends_address_def)
  then have "bus_loop (c # rest) (b\<lparr>bs_elem := of_nat n\<rparr>) =
      (if c = CHR '':'' then Inr [m] else bindR (bus_loop rest bus_start) (\<lambda>out. Inr (m # out)))"
    by simp
  finally show ?thesis using m(2) by blast
qed

lemma bus_address:
  assumes "bus_at ns b" and "ms \<noteq> []" and "length ns + length ms \<le> 4" and "c = CHR '','' \<or> c = CHR '':''"
  shows "\<exists>m. address_bytes m = addr_bytes (ns @ ms) \<and>
     bus_loop (addr_text ms @ c # rest) b =
       (if c = CHR '':'' then Inr [m] else bindR (bus_loop rest bus_start) (\<lambda>out. Inr (m # out)))"
  using assms
proof (induction ms arbitrary: ns b)
  case (Cons n ms)
  show ?case
  proof (cases ms)
    case Nil
    with bus_last [OF Cons.prems(1) _ Cons.prems(4)] Cons.prems(3) show ?thesis by (simp add: addr_text_def)
  next
    case (Cons n' ms')
    with Cons.prems(3) obtain b' where b': "bus_loop (show_nat n @ CHR ''.'' # addr_text ms @ c # rest) b =
        bus_loop (addr_text ms @ c # rest) b'" "bus_at (ns @ [n]) b'"
      using bus_element [OF Cons.prems(1), of n "addr_text ms @ c # rest"] by auto
    have t: "addr_text (n # ms) = show_nat n @ CHR ''.'' # addr_text ms" by (simp add: addr_text_def Cons)
    have "ms \<noteq> []" "length (ns @ [n]) + length ms \<le> 4" using Cons Cons.prems(3) by simp_all
    from Cons.IH [OF b'(2) this Cons.prems(4)] show ?thesis using b'(1) by (simp add: t)
  qed
qed simp

lemma bus_addresses:
  assumes "nss \<noteq> []" and "\<forall>ns \<in> set nss. ns \<noteq> [] \<and> length ns \<le> 4"
  shows "\<exists>as. bus_loop (join (CHR '','') (map addr_text nss) @ CHR '':'' # rest) bus_start = Inr as \<and>
           map address_bytes as = map addr_bytes nss"
  using assms
proof (induction nss)
  case (Cons ns nss)
  then have ns: "ns \<noteq> []" "length [] + length ns \<le> 4" by simp_all
  show ?case
  proof (cases nss)
    case Nil
    with bus_address [OF bus_at_start ns, of "CHR '':''" rest] show ?thesis by auto
  next
    case nss: (Cons n' ns')
    with Cons obtain as where "bus_loop (join (CHR '','') (map addr_text nss) @ CHR '':'' # rest) bus_start = Inr as"
      "map address_bytes as = map addr_bytes nss" by auto
    with bus_address [OF bus_at_start ns, of "CHR '',''" "join (CHR '','') (map addr_text nss) @ CHR '':'' # rest"]
    show ?thesis by (auto simp: nss)
  qed
qed simp

text \<open>
  C30: the address list of the bus: the addresses of a well-formed list, separated by commas and
  closed by the colon of the port, are broadcast on in order, each with the bytes given, most
  significant first, and the bytes 255 for the elements left out. The test on the number of
  digits never fires, since the digits are not counted: a number above 255 is taken modulo 256.
\<close>
theorem bus_addresses_are_parsed:
  assumes "nss \<noteq> []" and "\<forall>ns \<in> set nss. ns \<noteq> [] \<and> length ns \<le> 4"
  shows "\<exists>as. bus_loop (join (CHR '','') (map addr_text nss) @ CHR '':'' # port) bus_start = Inr as \<and>
           map address_bytes as = map (\<lambda>ns. map of_nat ns @ replicate (4 - length ns) 255) nss"
  using bus_addresses [OF assms, of port] unfolding addr_bytes_def .

theorem bus_addresses_are_parsed_witness:
  "\<exists>as. bus_loop (join (CHR '','') (map addr_text [[127], [224, 1, 2, 300]]) @ '':2010'') bus_start = Inr as \<and>
     map address_bytes as = [[127, 255, 255, 255], [224, 1, 2, 44]]"
proof -
  have "(300 :: 8 word) = 44" "replicate 3 (255 :: 8 word) = [255, 255, 255]" by (simp_all add: numeral_3_eq_3)
  with bus_addresses_are_parsed [of "[[127], [224, 1, 2, 300]]" "''2010''"] show ?thesis by simp
qed

lemma bus_dots:
  assumes "bus_at ns b" and "length ns + length ms \<le> 4"
  shows "\<exists>b'. bus_loop (concat (map (\<lambda>n. show_nat n @ ''.'') ms) @ rest) b = bus_loop rest b' \<and>
           bus_at (ns @ ms) b'"
  using assms
proof (induction ms arbitrary: ns b)
  case (Cons n ms)
  then obtain b' where b': "bus_loop (show_nat n @ CHR ''.'' # concat (map (\<lambda>n. show_nat n @ ''.'') ms) @ rest) b =
      bus_loop (concat (map (\<lambda>n. show_nat n @ ''.'') ms) @ rest) b'" "bus_at (ns @ [n]) b'"
    using bus_element [OF Cons.prems(1), of n "concat (map (\<lambda>n. show_nat n @ ''.'') ms) @ rest"] by auto
  with Cons.IH [OF b'(2)] Cons.prems(2) show ?case by simp
qed auto

text \<open>
  An address with a point after its fourth number is not reported as a bad address: the code
  shifts the mask by a negative number of bits, which is undefined.
\<close>
theorem fifth_element_shifts_negatively:
  assumes "length ns = 4" and "ends_address c"
  shows "bus_loop (concat (map (\<lambda>n. show_nat n @ ''.'') ns) @ c # rest) bus_start = Inl BadShift"
proof -
  from bus_dots [OF bus_at_start, of ns "c # rest"] assms(1) obtain b where
    b: "bus_loop (concat (map (\<lambda>n. show_nat n @ ''.'') ns) @ c # rest) bus_start = bus_loop (c # rest) b"
      "bus_at ns b" by auto
  have "\<not> is_digit c" using assms(2) by (auto simp: ends_address_def is_digit_def)
  then have "bus_step c b = Inl BadShift"
    using assms b(2) by (simp add: bus_step_def bus_at_def put_elem_def)
  then show ?thesis using b(1) by simp
qed

theorem fifth_element_shifts_negatively_witness:
  "bus_loop ''10.0.0.1.:2010'' bus_start = Inl BadShift"
proof -
  have "show_nat 10 = ''10''" "show_nat 0 = ''0''" "show_nat 1 = ''1''" by code_simp+
  with fifth_element_shifts_negatively [of "[10, 0, 0, 1]" "CHR '':''" "''2010''"]
  show ?thesis by (simp add: ends_address_def del: bus_loop.simps One_nat_def)
qed

section \<open>The supervision message\<close>

lemma scan_hu_show_nat:
  assumes "p < 65536" and "rest = [] \<or> \<not> is_digit (hd rest)"
  shows "scan_hu (show_nat p @ rest) = Some (p, rest)"
proof -
  have "scan_sign (dropWhile is_space (show_nat p @ rest)) = (False, show_nat p @ rest)"
    using show_nat_start [of p] by (auto simp: scan_sign_def)
  then show ?thesis
    using takeWhile_digits [OF show_nat_digits assms(2)] assms(1)
    by (simp add: scan_hu_def Let_def u16_def)
qed

lemma scan_hu_space: "scan_hu (CHR '' '' # s) = scan_hu s"
  by (simp add: scan_hu_def is_space_def)

lemma scan_word_word:
  assumes "w \<noteq> []" and "\<forall>c \<in> set w. \<not> is_space c" and "rest = [] \<or> is_space (hd rest)"
  shows "scan_word (CHR '' '' # w @ rest) = Some (w, rest)"
proof -
  have "dropWhile is_space (CHR '' '' # w @ rest) = w @ rest"
    using assms(1,2) by (cases w) (auto simp: is_space_def)
  moreover have "takeWhile (\<lambda>c. \<not> is_space c) (w @ rest) = w" "dropWhile (\<lambda>c. \<not> is_space c) (w @ rest) = rest"
    using assms(2,3) by (cases rest; auto simp: takeWhile_append dropWhile_append)+
  ultimately show ?thesis using assms(1) by (simp add: scan_word_def Let_def)
qed

lemma scan_announcement:
  assumes "is_int32 v" and "p < 65536" and "i \<noteq> []" and "\<forall>c \<in> set i. \<not> is_space c"
    and "rest = [] \<or> is_space (hd rest)"
  shows "scan_supervision (show_int v @ CHR '' '' # show_nat p @ CHR '' '' # i @ rest) =
           Some (v, p, i, takeWhile (\<lambda>c. c \<noteq> NL) (dropWhile is_space rest))"
proof -
  have "scan_d (show_int v @ CHR '' '' # show_nat p @ CHR '' '' # i @ rest) =
      Some (v, CHR '' '' # show_nat p @ CHR '' '' # i @ rest)"
    using assms(1) by (intro scan_d_show_int) (simp_all add: is_digit_def)
  moreover have "scan_hu (CHR '' '' # show_nat p @ CHR '' '' # i @ rest) = Some (p, CHR '' '' # i @ rest)"
    unfolding scan_hu_space using assms(2) by (intro scan_hu_show_nat) (simp_all add: is_digit_def)
  ultimately show ?thesis
    using scan_word_word [OF assms(3-5)] by (simp add: scan_supervision_def)
qed

lemma announcement_understood:
  assumes "ApplicationID s = Some i" and "i \<noteq> []" and "\<forall>c \<in> set i. \<not> is_space c" and "length i < 128"
    and "ApplicationName s = Some n" and "n \<noteq> []" and "\<not> is_space (hd n)" and "NL \<notin> set n"
    and "length n < 2048" and "ApplicationPort s < 65536"
    and "ApplicationID t = Some j" and "SocketGetRemoteAddr client t = Inr (Some a)"
  shows "\<exists>line. handshake s = line @ [NL] \<and> BroadcastReceive rx client line t =
           (if i = j then Inr t else connect_service rx (ApplicationPort s) i n a t)"
proof -
  let ?line = "show_int IVYMAJOR_VERSION @ CHR '' '' # show_nat (ApplicationPort s) @ CHR '' '' # i @ CHR '' '' # n"
  have "takeWhile (\<lambda>c. c \<noteq> NL) (dropWhile is_space (CHR '' '' # n)) = n"
    using assms(6-8) by (cases n) (auto simp: is_space_def)
  then have "scan_supervision ?line = Some (IVYMAJOR_VERSION, ApplicationPort s, i, n)"
    using scan_announcement [of IVYMAJOR_VERSION "ApplicationPort s" i "CHR '' '' # n"] assms(2,3,10)
    by (simp add: is_space_def IVYMAJOR_VERSION_def is_int32_def)
  moreover have "handshake s = ?line @ [NL]"
    using assms(1,5) by (simp add: handshake_def app_name_def)
  ultimately show ?thesis
    using assms(4,9,11,12) by (intro exI [of _ ?line]) (auto simp: BroadcastReceive_def)
qed

text \<open>
  C18: what one application broadcasts, another understands. The line that \<open>IvyStart\<close> sends is
  taken apart by \<open>BroadcastReceive\<close> into the port, the identifier and the name of the sender: an
  application that receives its own announcement ignores it, any other connects to that port of
  the host that sent it.
\<close>
theorem announcements_are_understood:
  assumes "ApplicationID s = Some i" and "i \<noteq> []" and "\<forall>c \<in> set i. \<not> is_space c" and "length i < 128"
    and "ApplicationName s = Some n" and "n \<noteq> []" and "\<not> is_space (hd n)" and "NL \<notin> set n"
    and "length n < 2048" and "ApplicationPort s < 65536"
    and "ApplicationID t = Some j" and "SocketGetRemoteAddr client t = Inr (Some a)"
  shows "\<exists>line. handshake s = line @ [NL] \<and> BroadcastReceive rx client line t =
           (if i = j then Inr t else connect_service rx (ApplicationPort s) i n a t)"
  by (rule announcement_understood [OF assms])

theorem announcements_are_understood_witness:
  "\<exists>line. handshake demo_idle = line @ [NL] \<and> BroadcastReceive first_char_engine 1 line demo_idle = Inr demo_idle"
proof -
  have f: "ApplicationID demo_idle = Some ''7:1:2011''" "ApplicationName demo_idle = Some ''me''"
    "ApplicationPort demo_idle = 2011" "SocketGetRemoteAddr 1 demo_idle = Inr (Some (sk_from (demo_sock None)))"
    by (simp_all add: demo_idle_def SocketGetRemoteAddr_def deref_def demo_def)
  have "\<exists>line. handshake demo_idle = line @ [NL] \<and> BroadcastReceive first_char_engine 1 line demo_idle =
      (if ''7:1:2011'' = ''7:1:2011'' then Inr demo_idle
       else connect_service first_char_engine (ApplicationPort demo_idle) ''7:1:2011'' ''me''
              (sk_from (demo_sock None)) demo_idle)"
    by (rule announcements_are_understood [OF f(1) _ _ _ f(2) _ _ _ _ _ f(1) f(4)])
      (simp_all add: is_space_def f(3) NL_def)
  then show ?thesis by simp
qed

text \<open>
  \<open>BroadcastReceive\<close> scans the identifier of a supervision message with an unbounded \<open>%s\<close> into
  an array of 128 bytes: a datagram of anybody on the network whose third word is longer writes
  past its end.
\<close>
theorem long_identifier_overflows:
  assumes "is_int32 v" and "p < 65536" and "128 \<le> length i" and "\<forall>c \<in> set i. \<not> is_space c"
  shows "BroadcastReceive rx client (show_int v @ CHR '' '' # show_nat p @ CHR '' '' # i) s = Inl OutOfBounds"
proof -
  from assms(3) have "i \<noteq> []" by auto
  from scan_announcement [OF assms(1,2) this assms(4), of "[]"] assms(3) show ?thesis
    by (simp add: BroadcastReceive_def)
qed

theorem long_identifier_overflows_witness:
  "BroadcastReceive first_char_engine 1 (show_int 3 @ CHR '' '' # show_nat 80 @ CHR '' '' # replicate 200 CHR ''x'') demo_idle =
     Inl OutOfBounds"
  using long_identifier_overflows [of 3 80 "replicate 200 CHR ''x''" first_char_engine 1 demo_idle]
  by (simp add: is_int32_def is_space_def del: replicate.simps)

end
