(* ===== verification/IvyMeeting.thy ===== *)
theory IvyMeeting
  imports IvyPubSub IvyStart
begin

text \<open>Two applications meeting (src/src/ivy.c, src/src/ivysocket.c): an
  application that is opened announces itself on the bus, another one hears
  the announcement and connects, the caller sends its bindings and so does the
  called one, and each learns the bindings of the other.  The operations
  are those of IvyCore, IvySocket and IvyStart, composed here in the order in
  which the network makes them happen.\<close>

section \<open>A new connection\<close>

text \<open>
  What an application needs to take a new connection on the descriptor \<open>fd\<close>: its invariants, a
  descriptor and an address for the channel that are not in use, and an announcement that fits.
\<close>

definition can_meet :: "regex_engine \<Rightarrow> nat \<Rightarrow> ivy \<Rightarrow> bool" where
  "can_meet rx fd s \<longleftrightarrow> core_inv rx {} s \<and> ready_to_send s \<and> dict_full rx (messSndByRegexp s) \<and>
     ready_message s = None \<and> \<not> exited s \<and>
     fd \<notin> open_fds (lp s) \<and> fresh s + 1 \<notin> ch_ptr ` set (channels_list (lp s)) \<and>
     ApplicationPort s < 65536 \<and> NL \<notin> set (app_name s) \<and> CHR 0x00 \<notin> set (app_name s) \<and>
     distinct (map (\<lambda>m. (mr_regexp m, mr_id m)) (msg_recv s)) \<and>
     length (announcement (ApplicationPort s) (app_name s) (msg_recv s)) < IVY_FIFO_MAX_ALLOC_SIZE"

text \<open>The state with the new client, before anything is sent to it.\<close>

definition opened :: "(nat \<Rightarrow> sock) \<Rightarrow> nat \<Rightarrow> nat list \<Rightarrow> ivy \<Rightarrow> ivy" where
  "opened mk fd cs s = (alloc_client mk fd (fresh_wire fd s))\<lparr>clients_list := cs\<rparr>"

lemma opened_fields:
  "allClients (opened mk fd cs s) = allClients s" "messSndByRegexp (opened mk fd cs s) = messSndByRegexp s"
  "filters (opened mk fd cs s) = filters s" "msg_recv (opened mk fd cs s) = msg_recv s"
  "ApplicationPort (opened mk fd cs s) = ApplicationPort s" "ApplicationName (opened mk fd cs s) = ApplicationName s"
  "ready_message (opened mk fd cs s) = ready_message s" "exited (opened mk fd cs s) = exited s"
  "fresh (opened mk fd cs s) = fresh s + 2" "script (net (opened mk fd cs s)) = script (net s)"
  "socks (opened mk fd cs s) = (socks s)(fresh s \<mapsto> mk (fresh s + 1))" "app_name (opened mk fd cs s) = app_name s"
  by (simp_all add: opened_def alloc_client_def fresh_wire_def Let_def app_name_def)

lemma opened_sock_inv:
  assumes "can_meet rx fd s" and mk: "mk = (\<lambda>ch. new_sock fd ch v6 from local len InterpReceive True 0 uuid)"
  shows "sock_inv (opened mk fd cs s)"
proof -
  have s: "loop_inv (lp s)" "socks s 0 = None" "\<And>c k. socks s c = Some k \<Longrightarrow> sock_ok (lp s) c k"
    "fd \<notin> open_fds (lp s)" "fresh s + 1 \<notin> ch_ptr ` set (channels_list (lp s))" "core_inv rx {} s"
    using assms(1) by (auto simp: can_meet_def ready_to_send_def sock_inv_def)
  let ?l = "IvyChannelAdd (fresh s + 1) fd (ClientData (fresh s)) True True True (lp s)"
  have lp: "lp (opened mk fd cs s) = ?l"
    by (simp add: opened_def alloc_client_def fresh_wire_def Let_def)
  have "loop_inv ?l" using s(1,4,5) by (intro loop_inv_Add) auto
  moreover have "fresh s \<noteq> 0" using core_fresh(1) [OF s(6)] .
  moreover have "sock_ok ?l c k" if "socks (opened mk fd cs s) c = Some k" for c k
  proof (cases "c = fresh s")
    case True
    have "fd \<notin> wrdy_fds (lp s)" using s(1,4) by (auto simp: loop_inv_def)
    with that True show ?thesis
      by (auto simp: opened_fields mk sock_ok_def IvyChannelAdd_def new_sock_def IVY_BUFFER_SIZE_def)
  next
    case False
    with that s(3) [of c k] show ?thesis by (auto simp: opened_fields sock_ok_def IvyChannelAdd_def)
  qed
  ultimately show ?thesis using s(2) by (simp add: sock_inv_def lp) (simp add: opened_fields)
qed

lemma opened_ready:
  assumes "can_meet rx fd s" and mk: "mk = (\<lambda>ch. new_sock fd ch v6 from local len InterpReceive True 0 uuid)"
  shows "core_inv rx {} (opened mk fd cs s)" "can_announce (fresh s) (opened mk fd cs s)"
    "stream (fresh s) (opened mk fd cs s) = []" "new_client (opened mk fd cs s) (fresh s)"
proof -
  have core: "core_inv rx {} s" using assms(1) by (simp add: can_meet_def)
  have "core_inv rx {} (alloc_client mk fd (fresh_wire fd s))"
    by (rule core_alloc) (simp_all add: core mk new_sock_def)
  then show "core_inv rx {} (opened mk fd cs s)" by (simp add: opened_def)
  show "can_announce (fresh s) (opened mk fd cs s)"
    using assms(1) opened_sock_inv [OF assms, of cs]
    by (simp add: can_announce_def can_meet_def ready_to_send_def roomy_def opened_fields mk new_sock_def)
  have "net (opened mk fd cs s) = (net s)\<lparr>wire := (wire (net s))(fd := [])\<rparr>"
    by (simp add: opened_def alloc_client_def fresh_wire_def Let_def)
  then show "stream (fresh s) (opened mk fd cs s) = []"
    by (simp add: stream_def opened_fields mk new_sock_def pending_def)
  show "new_client (opened mk fd cs s) (fresh s)"
    using core_fresh [OF core] by (simp add: new_client_def opened_fields mk new_sock_def)
qed

text \<open>What \<open>SendService\<close> leaves, beside the announcement.\<close>

lemma SendService_fields:
  assumes "SendService rx c name s = Inr (p, t)"
  shows "p = fresh s" "allClients t = \<lparr>c_ptr = p, c_client = c, c_app_name = name, c_app_port = 0, c_id = 0, c_srcRegList = [],
      c_readyToSend = 1, c_ignore_subsequent_msg = False, c_ping_ts = (0, 0), c_ping_id = 0\<rparr> # allClients s"
    "messSndByRegexp t = messSndByRegexp s" "filters t = filters s" "ready_message t = ready_message s" "exited t = exited s"
    "dialled t = dialled s" "msg_recv t = msg_recv s"
proof -
  let ?s = "s\<lparr>fresh := fresh s + 1\<rparr>"
  let ?x = "\<lparr>c_ptr = fresh s, c_client = c, c_app_name = name, c_app_port = 0, c_id = 0, c_srcRegList = [],
      c_readyToSend = 1, c_ignore_subsequent_msg = False, c_ping_ts = (0, 0), c_ping_id = 0\<rparr>"
  from assms obtain s1 s2 s3 where
    1: "msg_to (fresh s) c StartRegexp (int (ApplicationPort ?s)) (app_name ?s) ?s = Inr s1"
      "foldR (\<lambda>m. msg_to (fresh s) c AddRegexp (mr_id m) (mr_regexp m)) (msg_recv s1) s1 = Inr s2"
      "msg_to (fresh s) c EndRegexp 0 [] s2 = Inr s3" "p = fresh s"
      "send_ready rx (fresh s) (s3\<lparr>allClients := ?x # allClients s3\<rparr>) = Inr t"
    by (auto simp: SendService_def Let_def bindR_eq_Inr)
  have "talk s1 s2" using 1(2) by (rule talk_foldR) (rule msg_to_talk)
  then have k: "talk ?s s3" using 1(1,3) by (meson msg_to_talk talk_trans)
  have l: "talk (s3\<lparr>allClients := ?x # allClients s3\<rparr>) t" using 1(5) by (rule send_ready_talk)
  have d: "dialled b = dialled a" if "talk a b" for a b :: ivy using that by (elim talkE) simp
  show "p = fresh s" "allClients t = \<lparr>c_ptr = p, c_client = c, c_app_name = name, c_app_port = 0, c_id = 0, c_srcRegList = [],
      c_readyToSend = 1, c_ignore_subsequent_msg = False, c_ping_ts = (0, 0), c_ping_id = 0\<rparr> # allClients s"
    "messSndByRegexp t = messSndByRegexp s" "filters t = filters s" "ready_message t = ready_message s" "exited t = exited s"
    "dialled t = dialled s" "msg_recv t = msg_recv s"
    using talk_fields [OF k] talk_fields [OF l] d [OF k] d [OF l] 1(4) by simp_all
qed

text \<open>The connection \<open>c\<close> is open on the descriptor \<open>fd\<close>, and nothing was received on it.\<close>

definition open_on :: "nat \<Rightarrow> nat \<Rightarrow> ivy \<Rightarrow> bool" where
  "open_on fd c s \<longleftrightarrow> c \<noteq> 0 \<and> fresh_ok s \<and> (\<exists>k. socks s c = Some k \<and> sk_fd k = fd \<and> sk_buffer k = [] \<and>
     sk_buffer_size k = IVY_BUFFER_SIZE \<and> sk_terminator k = NL)"

text \<open>
  The announcement on a new connection: the client is then one from which nothing was received,
  when none of the connected applications has its port.
\<close>

lemma announced_on_new:
  assumes "can_meet rx fd s" and mk: "mk = (\<lambda>ch. new_sock fd ch v6 from local len InterpReceive True 0 uuid)"
    and "\<forall>x \<in> set (allClients s). c_app_port x \<noteq> sa_port from"
    and "SendService rx (fresh s) name (opened mk fd cs s) = Inr (p, w)" and "socks w (fresh s) = Some k"
    and "socks t = (socks w)(fresh s \<mapsto> k')" and "sk_view k' = sk_view k" and "sk_data k' = p"
    and "allClients t = allClients w" and "messSndByRegexp t = messSndByRegexp w" and "fresh t = fresh w" and "exited t = exited w"
    and "ready_message t = ready_message w"
  shows "\<exists>cl. new_peer rx (fresh s) p cl t" and "open_on fd (fresh s) t"
proof -
  let ?c = "fresh s" and ?u = "opened mk fd cs s"
  note o = opened_ready [OF assms(1) mk, of cs] and f = SendService_fields [OF assms(4)]
  let ?x = "hd (allClients w)"
  have core: "core_inv rx {} s" using assms(1) by (simp add: can_meet_def)
  from core_SendService [OF assms(4) o(1)] o(4) have w: "core_inv rx {} w" by (auto simp: new_client_def)
  have x: "?x \<in> set (allClients w)" "c_ptr ?x = p" "c_client ?x = ?c" "\<not> c_ignore_subsequent_msg ?x" by (simp_all add: f(2))
  have inv: "clients_inv t" "dict_inv (messSndByRegexp t)"
    using core_invD(2,3) [OF w] assms(9-11) by (simp_all add: clients_inv_def subs_inv_def)
  have "keeps ?u w" by (rule SendService_keeps [OF assms(4)])
  moreover have "fresh_ok ?u" "socks ?u ?c = Some (mk (?c + 1))" by (simp_all add: core_invD(1) [OF o(1)] opened_fields)
  ultimately obtain kk where "socks w ?c = Some kk" "sk_view kk = sk_view (mk (?c + 1))" unfolding keeps_def by blast
  then have "sk_view k = sk_view (mk (?c + 1))" using assms(5) by simp
  then have view: "sk_view k' = sk_view (mk (?c + 1))" by (simp add: assms(7))
  then have "sk_interpretation (sk_view k') = InterpReceive" "sk_from (sk_view k') = from" by (simp_all add: mk new_sock_def sk_view_def)
  then have k': "sk_interpretation k' = InterpReceive" "sk_from k' = from" by (simp_all add: sk_view_def)
  have p0: "p \<noteq> 0" "?c \<noteq> 0" using core_invD(4) [OF w x(1)] x(2) core_fresh(1) [OF core] by simp_all
  have "peer_at ?c p ?x t"
    unfolding peer_at_def
    using inv x p0 assms(1,3,6,8,9,12) k' f(2,6) by (auto simp: opened_fields can_meet_def)
  moreover have "dc_client dc \<noteq> ?c" if "e \<in> set (messSndByRegexp s)" "dc \<in> set (d_clientList e)" for e dc
  proof -
    have "(d_regexp_src e, dc_client dc, dc_id dc) \<in> subs (messSndByRegexp s)"
      using that by (auto simp: subs_def entry_subs_def)
    then have "dc_client dc \<in> c_client ` set (allClients s)"
      using core_invD(3) [OF core] by (auto simp: subs_inv_def)
    then show ?thesis using core_fresh(3) [OF core] by auto
  qed
  ultimately show "\<exists>cl. new_peer rx ?c p cl t"
    using assms(1,10,13) f(3,5) by (auto simp: new_peer_def list_all_iff opened_fields can_meet_def)
  from view have "sk_fd (sk_view k') = fd" "sk_buffer (sk_view k') = []" "sk_buffer_size (sk_view k') = IVY_BUFFER_SIZE"
    "sk_terminator (sk_view k') = NL" by (simp_all add: mk new_sock_def sk_view_def NL_def)
  moreover have "fresh_ok t"
    using core_invD(1) [OF w] assms(5,6,11) by (auto simp: fresh_ok_def)
  ultimately show "open_on fd ?c t" using p0(2) assms(6) by (simp add: open_on_def)
qed

text \<open>
  The new connection \<open>c\<close> of the state \<open>t\<close>, made in the state \<open>s\<close>: the announcement was sent on it, nothing was
  received, and what was known is as before.
\<close>

definition greeted :: "regex_engine \<Rightarrow> nat \<Rightarrow> nat \<Rightarrow> ivy \<Rightarrow> ivy \<Rightarrow> bool" where
  "greeted rx fd c s t \<longleftrightarrow> open_on fd c t \<and> stream c t = announcement (ApplicationPort s) (app_name s) (msg_recv s) \<and>
     (\<exists>p cl. new_peer rx c p cl t) \<and> messSndByRegexp t = messSndByRegexp s \<and> filters t = filters s"

lemma can_meet_sockst:
  "can_meet rx fd (s\<lparr>accepts := x\<rparr>) = can_meet rx fd s" "can_meet rx fd (s\<lparr>connects := y, dialled := z\<rparr>) = can_meet rx fd s"
  by (simp_all add: can_meet_def ready_to_send_def sock_inv_def app_name_def)

lemma greeting:
  assumes "can_meet rx fd s" and mk: "mk = (\<lambda>ch. new_sock fd ch v6 from local len InterpReceive True 0 uuid)"
    and "\<forall>x \<in> set (allClients s). c_app_port x \<noteq> sa_port from"
  shows "\<exists>p w k. SendService rx (fresh s) name (opened mk fd cs s) = Inr (p, w) \<and> socks w (fresh s) = Some k \<and> p \<noteq> 0 \<and>
    dialled w = dialled s \<and>
    (\<forall>u cs'. greeted rx fd (fresh s) s ((set_sock (fresh s) (k\<lparr>sk_data := p, sk_uuid := u\<rparr>) w)\<lparr>clients_list := cs'\<rparr>))"
proof -
  let ?c = "fresh s" and ?u = "opened mk fd cs s"
  note o = opened_ready [OF assms(1) mk, of cs]
  from o(2) have a: "ready_to_send ?u" "socks ?u ?c \<noteq> None"
    "roomy ?c (length (announcement (ApplicationPort ?u) (app_name ?u) (msg_recv ?u))) ?u" by (simp_all add: can_announce_def)
  from SendService_ok [OF a, of rx name] obtain w where
    w: "SendService rx ?c name ?u = Inr (fresh ?u, w)"
      "stream ?c w = announcement (ApplicationPort s) (app_name s) (msg_recv s)" by (auto simp: o(3) opened_fields)
  note f = SendService_fields [OF w(1)]
  have "keeps ?u w" by (rule SendService_keeps [OF w(1)])
  with a(2) core_invD(1) [OF o(1)] obtain k where k: "socks w ?c = Some k" unfolding keeps_def by blast
  have "greeted rx fd ?c s ((set_sock ?c (k\<lparr>sk_data := fresh ?u, sk_uuid := u\<rparr>) w)\<lparr>clients_list := cs'\<rparr>)" for u cs'
  proof -
    let ?t = "(set_sock ?c (k\<lparr>sk_data := fresh ?u, sk_uuid := u\<rparr>) w)\<lparr>clients_list := cs'\<rparr>"
    have "(\<exists>cl. new_peer rx ?c (fresh ?u) cl ?t) \<and> open_on fd ?c ?t"
      using announced_on_new [OF assms w(1) k, of ?t "k\<lparr>sk_data := fresh ?u, sk_uuid := u\<rparr>"]
      by (simp add: set_sock_def sk_view_def)
    moreover have "stream ?c ?t = stream ?c w" using k by (simp add: stream_def set_sock_def pending_def)
    ultimately show ?thesis
      using f(3,4) w(2) by (auto simp: greeted_def opened_fields set_sock_def)
  qed
  moreover have "dialled ?u = dialled s" by (simp add: opened_def alloc_client_def fresh_wire_def Let_def)
  ultimately show ?thesis using w(1) k f(7) by (intro exI [of _ "fresh ?u"] exI [of _ w] exI [of _ k]) (simp add: opened_fields)
qed

lemma connecting_greets:
  assumes "can_meet rx h s" and "connects s = Some (h, l) # cs" and "\<forall>x \<in> set (allClients s). c_app_port x \<noteq> 0"
  shows "\<exists>t. connect_service rx port i name addr s = Inr t \<and> greeted rx h (fresh s) s t \<and>
    dialled t = \<lparr>sa_family = (if ipv6 s then AF_INET6 else AF_INET), sa_ip = sa_ip addr, sa_port = htons port\<rparr> # dialled s"
proof -
  let ?r = "\<lparr>sa_family = (if ipv6 s then AF_INET6 else AF_INET), sa_ip = sa_ip addr, sa_port = htons port\<rparr>"
  let ?s = "s\<lparr>connects := cs, dialled := ?r # dialled s\<rparr>" and ?c = "fresh s"
  define mk where "mk = (\<lambda>ch. new_sock h ch (ipv6 s) no_addr l 0 InterpReceive True 0 ''init by SocketConnectAddr'')"
  have meet: "can_meet rx h ?s" using assms(1) by (simp add: can_meet_sockst)
  have port: "\<forall>x \<in> set (allClients ?s). c_app_port x \<noteq> sa_port no_addr" using assms(3) by (simp add: no_addr_def)
  have c: "SocketConnectAddr (ipv6 s) addr port 0 InterpReceive s = (?c, opened mk h (?c # clients_list s) ?s)"
    using assms(2)
    by (simp add: SocketConnectAddr_def opened_def link_client_def mk_def alloc_client_def fresh_wire_def Let_def)
  from greeting [OF meet mk_def port, of name "?c # clients_list s"] obtain p w k where
    w: "SendService rx ?c name (opened mk h (?c # clients_list s) ?s) = Inr (p, w)" "socks w ?c = Some k" "p \<noteq> 0"
      "dialled w = ?r # dialled s"
      "\<And>u cs'. greeted rx h ?c ?s ((set_sock ?c (k\<lparr>sk_data := p, sk_uuid := u\<rparr>) w)\<lparr>clients_list := cs'\<rparr>)" by auto
  have c0: "?c \<noteq> 0" using core_fresh(1) assms(1) by (auto simp: can_meet_def)
  let ?t = "set_sock ?c (k\<lparr>sk_data := p, sk_uuid := take 128 i\<rparr>) w"
  have "connect_service rx port i name addr s = Inr ?t"
    using w(1,2) c c0 by (simp add: connect_service_def SocketSetData_def SocketSetUuid_def deref_def set_sock_def)
  moreover have "greeted rx h ?c ?s ?t" using w(5) [where u = "take 128 i" and cs' = "clients_list ?t"] by simp
  then have "greeted rx h ?c s ?t" by (simp add: greeted_def app_name_def)
  ultimately show ?thesis using w(4) by (intro exI [of _ ?t]) (simp add: set_sock_def)
qed

lemma accepting_greets:
  assumes "can_meet rx ns s" and "servers s sv = Some v" and "accepts s = Some (ns, remote, l) # as"
    and "\<forall>x \<in> set (allClients s). c_app_port x \<noteq> sa_port remote"
  shows "\<exists>t. HandleServer (ClientCreate rx g) sv s = Inr t \<and> greeted rx ns (fresh s) s t"
proof -
  let ?s = "s\<lparr>accepts := as\<rparr>" and ?c = "fresh s"
  define mk where "mk = (\<lambda>ch. new_sock ns ch (sv_ipv6 v) remote l 16 InterpReceive True 0 ''init by HandleServer'')"
  let ?u = "opened mk ns (clients_list s) ?s"
  have meet: "can_meet rx ns ?s" using assms(1) by (simp add: can_meet_sockst)
  have port: "\<forall>x \<in> set (allClients ?s). c_app_port x \<noteq> sa_port remote" using assms(4) by simp
  have c0: "?c \<noteq> 0" using core_fresh(1) assms(1) by (auto simp: can_meet_def)
  have u: "alloc_client mk ns (fresh_wire ns ?s) = ?u"
    by (simp add: opened_def alloc_client_def fresh_wire_def Let_def)
  have k0: "socks ?u ?c = Some (mk (?c + 1))" by (simp add: opened_fields)
  have h: "\<exists>host port. SocketGetRemoteHost ?c ?u = Inr (Some (host, port))"
    using c0 k0 by (auto simp: SocketGetRemoteHost_def deref_def split: option.split)
  then obtain host rport where h: "SocketGetRemoteHost ?c ?u = Inr (Some (host, rport))" by blast
  have "SocketGetRemotePort ?c ?u = Inr (sa_port remote)"
    using c0 k0 by (simp add: SocketGetRemotePort_def deref_def mk_def new_sock_def)
  then have cc: "CheckConnected ?c ?u = Inr None"
    using check_clients_none [of "allClients ?u" ?c "sa_port remote" ?u] port by (simp add: CheckConnected_def opened_fields)
  let ?name = "take 63 (CHR '' '' # host @ CHR '':'' # show_nat (case rport of None \<Rightarrow> g | Some p \<Rightarrow> p))"
  from greeting [OF meet mk_def port, of ?name "clients_list s"] obtain p w k where
    w: "SendService rx ?c ?name ?u = Inr (p, w)" "socks w ?c = Some k"
      "\<And>u cs'. greeted rx ns ?c ?s ((set_sock ?c (k\<lparr>sk_data := p, sk_uuid := u\<rparr>) w)\<lparr>clients_list := cs'\<rparr>)" by auto
  have create: "ClientCreate rx g ?c ?u = Inr (p, w)"
    using h cc w(1) by (simp add: ClientCreate_def Let_def)
  let ?t = "link_client ?c (set_sock ?c (k\<lparr>sk_data := p\<rparr>) w)"
  have "HandleServer (ClientCreate rx g) sv s = bindR (ClientCreate rx g ?c (alloc_client mk ns (fresh_wire ns ?s))) (\<lambda>(data, s).
      deref ?c (\<lambda>k. Inr (link_client ?c (set_sock ?c (k\<lparr>sk_data := data\<rparr>) s))) s)"
    using assms(2,3) by (simp add: HandleServer_def Let_def mk_def)
  also have "\<dots> = Inr ?t" unfolding u create using w(2) c0 by (simp add: deref_def)
  finally have "HandleServer (ClientCreate rx g) sv s = Inr ?t" .
  moreover have "greeted rx ns ?c ?s ?t"
    using w(3) [where u = "sk_uuid k" and cs' = "?c # clients_list (set_sock ?c (k\<lparr>sk_data := p\<rparr>) w)"] by (simp add: link_client_def)
  then have "greeted rx ns ?c s ?t" by (simp add: greeted_def app_name_def)
  ultimately show ?thesis by blast
qed

section \<open>The announcements are read\<close>

lemma greeting_heard:
  assumes "greeted rx fd c s t" and "gets rx c (t\<lparr>arrivals := f\<rparr>) (announcement port name ms) r" and "port < 65536"
    and "NL \<notin> set name" and "CHR 0x00 \<notin> set name" and "distinct (map (\<lambda>m. (mr_regexp m, mr_id m)) ms)"
    and "\<forall>m \<in> set ms. is_int32 (mr_id m) \<and> IvyBindingFilter rx (filters s) (mr_regexp m) = Inr True \<and>
      rx_compile rx (mr_regexp m) = None \<and> NL \<notin> set (mr_regexp m) \<and> CHR 0x00 \<notin> set (mr_regexp m)"
  shows "subs (messSndByRegexp r) = subs (messSndByRegexp s) \<union> (\<lambda>m. (mr_regexp m, c, mr_id m)) ` set ms \<and>
    (\<exists>cl \<in> set (allClients r). c_client cl = c \<and> c_app_name cl = name \<and> c_app_port cl = port)"
proof -
  let ?t = "t\<lparr>arrivals := f\<rparr>"
  from assms(1) obtain p cl where p: "new_peer rx c p cl t" by (auto simp: greeted_def)
  then have at: "peer_at c p cl ?t" using peer_at_fields [of c p cl t ?t] by (simp add: new_peer_def)
  have acc: "\<forall>m \<in> set ms. acceptable rx c ?t m"
    using assms(1,7) new_peer_subs [OF p] by (simp add: acceptable_def greeted_def)
  from assms(2) obtain ls k where g: "recv_ok c ?t" "reads (ivy_interp rx) c ?t ls r" "socks ?t c = Some k" "sk_buffer k = []"
    "incoming (arrivals ?t (sk_fd k)) = announcement port name ms" "arrivals r (sk_fd k) = []"
    unfolding gets_def by blast
  have "\<forall>m \<in> set ms. NL \<notin> set (mr_regexp m)" using assms(7) by simp
  then have "ls = announced port name ms"
    using lines.reads_lines [OF g(2,1,3)] g(4-6) announcement_lines [OF assms(4)]
    by (auto simp: incoming_def split_lines_none NL_def)
  from announcement_read [OF g(2) [unfolded this] g(1) at _ assms(3,5) acc assms(6)] p
  have "knows rx c p port name ms ?t (length ms + 2) r" by (simp add: new_peer_def)
  then show ?thesis using assms(1) by (auto simp: knows_def greeted_def peer_at_def)
qed

text \<open>And they can be.\<close>

lemma greeting_can_be_read:
  assumes "greeted rx fd c s t" and "port < 65536" and "NL \<notin> set name" and "CHR 0x00 \<notin> set name"
    and "distinct (map (\<lambda>m. (mr_regexp m, mr_id m)) ms)"
    and "\<forall>m \<in> set ms. is_int32 (mr_id m) \<and> IvyBindingFilter rx (filters s) (mr_regexp m) = Inr True \<and>
      rx_compile rx (mr_regexp m) = None \<and> NL \<notin> set (mr_regexp m) \<and> CHR 0x00 \<notin> set (mr_regexp m)"
    and "length (announcement port name ms) \<le> 4096" and "f fd = [Stream (announcement port name ms)]"
  shows "\<exists>r. gets rx c (t\<lparr>arrivals := f\<rparr>) (announcement port name ms) r"
proof -
  let ?t = "t\<lparr>arrivals := f\<rparr>" and ?l = "announcement port name ms"
  from assms(1) obtain p cl k where p: "new_peer rx c p cl t" and k: "c \<noteq> 0" "fresh_ok t" "socks t c = Some k" "sk_fd k = fd"
    "sk_buffer k = []" "sk_buffer_size k = IVY_BUFFER_SIZE" "sk_terminator k = NL"
    by (auto simp: greeted_def open_on_def)
  have at: "peer_at c p cl ?t" using p peer_at_fields [of c p cl t ?t] by (simp add: new_peer_def)
  have rm: "ready_message ?t = None" using p by (simp add: new_peer_def)
  have acc: "\<forall>m \<in> set ms. acceptable rx c ?t m"
    using assms(1,6) new_peer_subs [OF p] by (simp add: acceptable_def greeted_def)
  have "?l \<noteq> []" by (simp add: announcement_def message_line_def)
  then have ok: "recv_ok c ?t"
    using k assms(8) by (simp add: recv_ok_def stream_only_def IVY_BUFFER_SIZE_def NL_def fresh_ok_def)
  have rr: "length ?l \<le> room k" using assms(7) k(5,6) by (simp add: room_def grow_buffer_def IVY_BUFFER_SIZE_def)
  have arr: "arrivals ?t (sk_fd k) = [Stream ?l]" using assms(8) k(4) by simp
  have sk: "socks ?t c = Some k" using k(3) by simp
  from announcement_can_be_read [OF ok sk k(5) arr rr assms(3) at rm assms(2,4) acc assms(5)] obtain r where
    "reads (ivy_interp rx) c ?t (announced port name ms) r" "arrivals r (sk_fd k) = []" by blast
  then show ?thesis using ok k(3,5) arr by (auto simp: gets_def incoming_def)
qed

text \<open>The patterns of \<open>ms\<close> are ones the application in the state \<open>s\<close> takes.\<close>

definition takes_bindings :: "regex_engine \<Rightarrow> ivy \<Rightarrow> msg_rcv list \<Rightarrow> bool" where
  "takes_bindings rx s ms \<longleftrightarrow> (\<forall>m \<in> set ms. is_int32 (mr_id m) \<and> IvyBindingFilter rx (filters s) (mr_regexp m) = Inr True \<and>
     rx_compile rx (mr_regexp m) = None \<and> NL \<notin> set (mr_regexp m) \<and> CHR 0x00 \<notin> set (mr_regexp m))"

definition learns :: "nat \<Rightarrow> ivy \<Rightarrow> ivy \<Rightarrow> ivy \<Rightarrow> bool" where
  "learns c peer s t \<longleftrightarrow> subs (messSndByRegexp t) = subs (messSndByRegexp s) \<union>
       (\<lambda>m. (mr_regexp m, c, mr_id m)) ` set (msg_recv peer) \<and>
     (\<exists>cl \<in> set (allClients t). c_client cl = c \<and> c_app_name cl = app_name peer \<and> c_app_port cl = ApplicationPort peer)"

text \<open>
  C2: two applications meet. The line that the application \<open>a\<close> broadcasts makes another one, \<open>b\<close>, connect
  to the port of \<open>a\<close> on the host it came from, and \<open>a\<close> accepts; both announce themselves on the
  connection. When each has read what the other one sent, in pieces of any size, each has exactly the
  bindings of the other one as new subscriptions of this connection, beside those it had, and
  knows its name and its port.
\<close>
theorem two_applications_meet:
  assumes "can_meet rx ns a" and "can_meet rx' h b"
    and "ApplicationID a = Some i" and "i \<noteq> []" and "\<forall>c \<in> set i. \<not> is_space c" and "length i < 128"
    and "ApplicationName a = Some n" and "n \<noteq> []" and "\<not> is_space (hd n)" and "length n < 2048"
    and "ApplicationID b = Some j" and "i \<noteq> j" and "SocketGetRemoteAddr client b = Inr (Some addr)"
    and "connects b = Some (h, l) # cs" and "\<forall>x \<in> set (allClients b). c_app_port x \<noteq> 0"
    and "servers a sv = Some v" and "accepts a = Some (ns, remote, l') # as"
    and "\<forall>x \<in> set (allClients a). c_app_port x \<noteq> sa_port remote"
    and "takes_bindings rx a (msg_recv b)" and "takes_bindings rx' b (msg_recv a)"
  shows "\<exists>line a1 b1. handshake a = line @ [NL] \<and> BroadcastReceive rx' client line b = Inr b1 \<and>
    HandleServer (ClientCreate rx g) sv a = Inr a1 \<and>
    dialled b1 = \<lparr>sa_family = (if ipv6 b then AF_INET6 else AF_INET), sa_ip = sa_ip addr, sa_port = htons (ApplicationPort a)\<rparr> # dialled b \<and>
    (\<forall>f a2. gets rx (fresh a) (a1\<lparr>arrivals := f\<rparr>) (stream (fresh b) b1) a2 \<longrightarrow> learns (fresh a) b a a2) \<and>
    (\<forall>f b2. gets rx' (fresh b) (b1\<lparr>arrivals := f\<rparr>) (stream (fresh a) a1) b2 \<longrightarrow> learns (fresh b) a b b2)"
proof -
  from assms(1) have a: "ApplicationPort a < 65536" "NL \<notin> set (app_name a)" "CHR 0x00 \<notin> set (app_name a)"
    "distinct (map (\<lambda>m. (mr_regexp m, mr_id m)) (msg_recv a))" by (simp_all add: can_meet_def)
  from assms(2) have b: "ApplicationPort b < 65536" "NL \<notin> set (app_name b)" "CHR 0x00 \<notin> set (app_name b)"
    "distinct (map (\<lambda>m. (mr_regexp m, mr_id m)) (msg_recv b))" by (simp_all add: can_meet_def)
  from a(2) have nl: "NL \<notin> set n" by (simp add: app_name_def assms(7))
  from announcement_understood [OF assms(3-9) nl assms(10) a(1) assms(11,13), of rx'] assms(12) obtain line where
    line: "handshake a = line @ [NL]" "BroadcastReceive rx' client line b = connect_service rx' (ApplicationPort a) i n addr b"
    by auto
  from connecting_greets [OF assms(2,14,15)] obtain b1 where
    b1: "connect_service rx' (ApplicationPort a) i n addr b = Inr b1" "greeted rx' h (fresh b) b b1"
      "dialled b1 = \<lparr>sa_family = (if ipv6 b then AF_INET6 else AF_INET), sa_ip = sa_ip addr, sa_port = htons (ApplicationPort a)\<rparr> # dialled b"
    by blast
  from accepting_greets [OF assms(1,16-18)] obtain a1 where
    a1: "HandleServer (ClientCreate rx g) sv a = Inr a1" "greeted rx ns (fresh a) a a1" by blast
  have st: "stream (fresh a) a1 = announcement (ApplicationPort a) (app_name a) (msg_recv a)"
    "stream (fresh b) b1 = announcement (ApplicationPort b) (app_name b) (msg_recv b)"
    using a1(2) b1(2) by (simp_all add: greeted_def)
  have "learns (fresh a) b a a2" if "gets rx (fresh a) (a1\<lparr>arrivals := f\<rparr>) (stream (fresh b) b1) a2" for f a2
    using greeting_heard [OF a1(2) that [unfolded st] b assms(19) [unfolded takes_bindings_def]] by (simp add: learns_def)
  moreover have "learns (fresh b) a b b2" if "gets rx' (fresh b) (b1\<lparr>arrivals := f\<rparr>) (stream (fresh a) a1) b2" for f b2
    using greeting_heard [OF b1(2) that [unfolded st] a assms(20) [unfolded takes_bindings_def]] by (simp add: learns_def)
  ultimately show ?thesis using line b1(1,3) a1(1) by auto
qed

section \<open>An example\<close>

definition demo_alone :: "string \<Rightarrow> string \<Rightarrow> msg_rcv list \<Rightarrow> ivy" where
  "demo_alone i n ms = (demo_ivy (demo [] None) [] [] ms)\<lparr>ready_message := None, ApplicationID := Some i, ApplicationName := Some n\<rparr>"

definition demo_a :: msg_rcv where
  "demo_a = \<lparr>mr_ptr = 6, mr_id = 0, mr_regexp = ''(a)'', mr_callback = True\<rparr>"

definition demo_b :: msg_rcv where
  "demo_b = \<lparr>mr_ptr = 6, mr_id = 3, mr_regexp = ''(b)'', mr_callback = True\<rparr>"

definition demo_caller :: ivy where
  "demo_caller = (demo_alone ''7:1:2011'' ''me'' [demo_a])
     \<lparr>servers := [3 \<mapsto> \<lparr>sv_fd = 4, sv_channel = 5, sv_port = 2011, sv_ipv6 = False\<rparr>], accepts := [Some (8, no_addr, no_addr)]\<rparr>"

definition demo_called :: ivy where
  "demo_called = (demo_alone ''8:1:2012'' ''you'' [demo_b])
     \<lparr>connects := [Some (8, no_addr)]\<rparr>"

lemma demo_alone_core: "core_inv first_char_engine {} (demo_alone i n ms)"
proof (rule core_invI)
  let ?s = "demo_alone i n ms"
  show "fresh_ok ?s" "clients_inv ?s"
    by (auto simp: demo_alone_def fresh_ok_def demo_def clients_inv_def)
  show "subs_inv first_char_engine {} ?s"
    by (simp add: subs_inv_def demo_alone_def dict_inv_def bind_ok_def subs_def)
  show "0 < c_ptr x \<and> c_ptr x < fresh ?s \<and> c_client x \<noteq> 0 \<and> map_option sk_handle_delete (socks ?s (c_client x)) = Some True"
    if "x \<in> set (allClients ?s)" for x using that by (simp add: demo_alone_def)
  show "sk_data k < fresh ?s \<and> (\<forall>x \<in> set (allClients ?s). c_ptr x = sk_data k \<longrightarrow> c_client x = c)"
    if "socks ?s c = Some k" for c k
    using that by (auto simp: demo_alone_def demo_def demo_sock_def new_sock_def split: if_splits)
qed

lemma demo_alone_meets:
  assumes "length (announcement 2011 n ms) < 4096" and "NL \<notin> set n" and "CHR 0x00 \<notin> set n"
    and "distinct (map (\<lambda>m. (mr_regexp m, mr_id m)) ms)"
  shows "can_meet first_char_engine 8 (demo_alone i n ms)"
proof -
  have "sock_inv (demo_alone i n ms)"
    using demo_inv [of None "[]"] by (simp add: demo_alone_def) (simp add: sock_inv_def)
  moreover have "ready_message (demo_alone i n ms) = None" "\<not> exited (demo_alone i n ms)" "messSndByRegexp (demo_alone i n ms) = []"
    "script (net (demo_alone i n ms)) = []" "open_fds (lp (demo_alone i n ms)) = {7}" "fresh (demo_alone i n ms) = 10"
    "ch_ptr ` set (channels_list (lp (demo_alone i n ms))) = {2}" "ApplicationPort (demo_alone i n ms) = 2011"
    "app_name (demo_alone i n ms) = n" "msg_recv (demo_alone i n ms) = ms"
    by (simp_all add: demo_alone_def demo_def demo_channel_def app_name_def)
  ultimately show ?thesis
    using assms demo_alone_core [of i n ms]
    by (simp add: can_meet_def ready_to_send_def dict_full_def dict_inv_def bind_ok_def fifo_size_defs)
qed

lemma demo_callers:
  "can_meet first_char_engine 8 demo_caller" "can_meet first_char_engine 8 demo_called"
  "fresh demo_caller = 10" "fresh demo_called = 10" "ApplicationPort demo_caller = 2011" "ApplicationPort demo_called = 2011"
  "app_name demo_caller = ''me''" "app_name demo_called = ''you''" "msg_recv demo_caller = [demo_a]" "msg_recv demo_called = [demo_b]"
  "messSndByRegexp demo_caller = []" "messSndByRegexp demo_called = []" "filters demo_caller = no_filter" "filters demo_called = no_filter"
  "allClients demo_caller = []" "allClients demo_called = []" "ApplicationID demo_caller = Some ''7:1:2011''"
  "ApplicationID demo_called = Some ''8:1:2012''" "ApplicationName demo_caller = Some ''me''"
  "servers demo_caller 3 = Some \<lparr>sv_fd = 4, sv_channel = 5, sv_port = 2011, sv_ipv6 = False\<rparr>"
  "accepts demo_caller = [Some (8, no_addr, no_addr)]" "connects demo_called = [Some (8, no_addr)]"
  "SocketGetRemoteAddr 1 demo_called = Inr (Some no_addr)"
proof -
  have len: "length (announcement 2011 ''me'' [demo_a]) < 4096" "length (announcement 2011 ''you'' [demo_b]) < 4096"
    by (simp_all add: announcement_def message_line_def wire_header_def show_int_def show_nat.simps demo_a_def demo_b_def)
  have "can_meet rx fd (s\<lparr>servers := x, accepts := y\<rparr>) = can_meet rx fd s" "can_meet rx fd (s\<lparr>connects := z\<rparr>) = can_meet rx fd s"
    for rx fd s x y z
    by (simp_all add: can_meet_def ready_to_send_def sock_inv_def app_name_def core_inv_def nodes_inv_def subs_inv_def
        fresh_ok_def clients_inv_def)
  then show "can_meet first_char_engine 8 demo_caller" "can_meet first_char_engine 8 demo_called"
    using demo_alone_meets [OF len(1)] demo_alone_meets [OF len(2)] by (simp_all add: demo_caller_def demo_called_def NL_def)
  show "SocketGetRemoteAddr 1 demo_called = Inr (Some no_addr)"
    by (simp add: SocketGetRemoteAddr_def deref_def demo_called_def demo_alone_def demo_def demo_sock_def new_sock_def)
qed (simp_all add: demo_caller_def demo_called_def demo_alone_def app_name_def, simp_all add: demo_def)

lemma demo_takes: "takes_bindings first_char_engine demo_caller [demo_b]" "takes_bindings first_char_engine demo_called [demo_a]"
  by (simp_all add: takes_bindings_def demo_callers demo_a_def demo_b_def is_int32_def IvyBindingFilter_def no_filter_def
      first_char_engine_def NL_def)

theorem two_applications_meet_witness:
  "\<exists>line a1 b1 a2 b2. handshake demo_caller = line @ [NL] \<and> BroadcastReceive first_char_engine 1 line demo_called = Inr b1 \<and>
    HandleServer (ClientCreate first_char_engine 0) 3 demo_caller = Inr a1 \<and>
    (\<exists>f. gets first_char_engine 10 (a1\<lparr>arrivals := f\<rparr>) (stream 10 b1) a2) \<and>
    (\<exists>f. gets first_char_engine 10 (b1\<lparr>arrivals := f\<rparr>) (stream 10 a1) b2) \<and>
    subs (messSndByRegexp a2) = {(''(b)'', 10, 3)} \<and> subs (messSndByRegexp b2) = {(''(a)'', 10, 0)}"
proof -
  let ?e = first_char_engine
  note d = demo_callers
  have ids: "\<forall>c \<in> set ''7:1:2011''. \<not> is_space c" "\<not> is_space (hd ''me'')" by (simp_all add: is_space_def)
  from two_applications_meet [OF d(1,2,17) _ ids(1) _ d(19) _ ids(2) _ d(18) _ d(23,22) _ d(20,21), of 0] demo_takes d
  obtain line a1 b1 where
    m: "handshake demo_caller = line @ [NL]" "BroadcastReceive ?e 1 line demo_called = Inr b1"
      "HandleServer (ClientCreate ?e 0) 3 demo_caller = Inr a1"
      "\<And>f a2. gets ?e 10 (a1\<lparr>arrivals := f\<rparr>) (stream 10 b1) a2 \<Longrightarrow> learns 10 demo_called demo_caller a2"
      "\<And>f b2. gets ?e 10 (b1\<lparr>arrivals := f\<rparr>) (stream 10 a1) b2 \<Longrightarrow> learns 10 demo_caller demo_called b2"
    by auto
  have a: "greeted ?e 8 10 demo_caller a1"
    using accepting_greets [OF d(1,20,21), of 0] d(3,15) m(3) by auto
  have nl: "NL \<notin> set ''me''" by (simp add: NL_def)
  from announcement_understood [OF d(17) _ ids(1) _ d(19) _ ids(2) nl _ _ d(18,23), of ?e] d(5) m(1,2)
  have "connect_service ?e 2011 ''7:1:2011'' ''me'' no_addr demo_called = Inr b1" by auto
  with connecting_greets [OF d(2,22)] have b: "greeted ?e 8 10 demo_called b1"
    by (metis Inr_inject d(4,16) empty_iff list.set(1))
  have st: "stream 10 a1 = announcement 2011 ''me'' [demo_a]" "stream 10 b1 = announcement 2011 ''you'' [demo_b]"
    using a b by (simp_all add: greeted_def d)
  have len: "length (announcement 2011 ''me'' [demo_a]) \<le> 4096" "length (announcement 2011 ''you'' [demo_b]) \<le> 4096"
    by (simp_all add: announcement_def message_line_def wire_header_def show_int_def show_nat.simps demo_a_def demo_b_def)
  from greeting_can_be_read [OF a _ _ _ _ demo_takes(1) [unfolded takes_bindings_def] len(2), of "\<lambda>_. [Stream (stream 10 b1)]"]
  obtain a2 where a2: "gets ?e 10 (a1\<lparr>arrivals := \<lambda>_. [Stream (stream 10 b1)]\<rparr>) (stream 10 b1) a2" by (auto simp: st NL_def)
  from greeting_can_be_read [OF b _ _ _ _ demo_takes(2) [unfolded takes_bindings_def] len(1), of "\<lambda>_. [Stream (stream 10 a1)]"]
  obtain b2 where b2: "gets ?e 10 (b1\<lparr>arrivals := \<lambda>_. [Stream (stream 10 a1)]\<rparr>) (stream 10 a1) b2" by (auto simp: st NL_def)
  from m(4) [OF a2] m(5) [OF b2] have "subs (messSndByRegexp a2) = {(''(b)'', 10, 3)}" "subs (messSndByRegexp b2) = {(''(a)'', 10, 0)}"
    by (simp_all add: learns_def d demo_a_def demo_b_def subs_def)
  with m(1-3) a2 b2 show ?thesis by blast
qed

end
