(* ===== verification/IvyReady.thy ===== *)
theory IvyReady
  imports IvyMeeting
begin

text \<open>The ready message (src/src/ivy.c): what \<open>ClientCall\<close> sends to one client, the counter of a
  peer, which goes up when the application has announced itself and at every \<open>EndRegexp\<close> of the peer
  and which no other line changes, and the ready message, sent when it reaches two.\<close>


section \<open>A message to one client\<close>

lemma RegexpCallUnique_ok:
  assumes "ready_to_send s" and "good_entry rx message e" and "socks s c \<noteq> None"
    and "room_for (\<lambda>c'. if c' = c then frames (entry_calls rx message e c) else []) s"
  shows "\<exists>n t. RegexpCallUnique rx e message c s = Inr (n, t) \<and> delivers_to c s (frames (entry_calls rx message e c)) t"
proof -
  obtain rc bind where ex: "IvyBindingExec rx (d_binding e) message = (rc, bind)" by fastforce
  show ?thesis
  proof (cases "rc < 1")
    case True
    then have "entry_calls rx message e c = []" by (simp add: entry_calls_def ex)
    then show ?thesis using True ex delivers_to_refl [OF assms(1)] by (simp add: RegexpCallUnique_def frames_def)
  next
    case False
    let ?args = "join_args (captures bind message rc) @ [NL]"
    let ?u = "filter (\<lambda>dc. dc_client dc = c) (d_clientList e)"
    let ?out = "\<lambda>dc c'. if c' = dc_client dc then wire_header Msg (dc_id dc) @ ?args else []"
    have cap: "captured bind message rc = Inr ?args"
      using assms(2) False ex by (auto simp: good_entry_def intro: captured_ok)
    have out: "(\<lambda>c'. concat (map (\<lambda>dc. ?out dc c') ?u)) = (\<lambda>c'. if c' = c then frames (entry_calls rx message e c) else [])"
    proof (rule ext)
      fix c'
      have m: "map (\<lambda>dc. ?out dc c') ?u = map (\<lambda>dc. if c' = c then wire_header Msg (dc_id dc) @ ?args else []) ?u"
        by (rule map_cong) auto
      then show "concat (map (\<lambda>dc. ?out dc c') ?u) = (if c' = c then frames (entry_calls rx message e c) else [])"
        unfolding m using False by (simp add: entry_calls_def ex frames_def call_line_def comp_def)
    qed
    have "\<exists>t. foldR (send_to_subscriber False ?args) ?u s = Inr t \<and> delivers s (\<lambda>c'. concat (map (\<lambda>dc. ?out dc c') ?u)) t"
    proof (rule deliver_foldR [OF _ assms(1)])
      fix dc u assume "dc \<in> set ?u" "talk s u" "ready_to_send u" "room_for (?out dc) u"
      moreover from this(4) have "roomy (dc_client dc) (length (wire_header Msg (dc_id dc) @ ?args)) u"
        by (drule_tac room_forD [where c = "dc_client dc"]) simp_all
      ultimately show "\<exists>t. send_to_subscriber False ?args dc u = Inr t \<and> delivers u (?out dc) t"
        using assms(2,3) talk_fields(16) [of s u "dc_client dc"]
        by (intro send_to_subscriber_ok) (auto simp: good_entry_def)
    qed (use assms(4) in \<open>simp only: out\<close>)
    then obtain t where "foldR (send_to_subscriber False ?args) ?u s = Inr t"
      "delivers_to c s (frames (entry_calls rx message e c)) t"
      unfolding out delivers_to_def by blast
    then show ?thesis using False ex cap by (auto simp: RegexpCallUnique_def)
  qed
qed

lemma RegexpCallUnique_count:
  "RegexpCallUnique rx e message c s = Inr v \<Longrightarrow>
     fst v = (if 1 \<le> fst (IvyBindingExec rx (d_binding e) message)
              then length (filter (\<lambda>dc. dc_client dc = c) (d_clientList e)) else 0)"
  by (auto simp: RegexpCallUnique_def bindR_eq_Inr Let_def split: prod.splits if_splits)

text \<open>\<open>ClientCall\<close> sends one client one frame for each of its subscriptions that match, and nothing to others.\<close>

lemma ClientCall_ok:
  assumes "ready_to_send s" and "list_all (good_entry rx message) (messSndByRegexp s)"
    and "socks s (c_client cl) \<noteq> None"
    and "roomy (c_client cl) (length (frames (calls rx message (messSndByRegexp s) (c_client cl)))) s"
  shows "\<exists>n t. ClientCall rx cl message s = Inr (n, t) \<and>
           delivers_to (c_client cl) s (frames (calls rx message (messSndByRegexp s) (c_client cl))) t"
proof -
  let ?c = "c_client cl" and ?d = "messSndByRegexp s"
  let ?g = "\<lambda>e s. bindR (RegexpCallUnique rx e message ?c s) (\<lambda>(m, s). Inr s)"
  let ?out = "\<lambda>e c'. if c' = ?c then frames (entry_calls rx message e ?c) else []"
  have out: "(\<lambda>c'. concat (map (\<lambda>e. ?out e c') ?d)) = (\<lambda>c'. if c' = ?c then frames (calls rx message ?d ?c) else [])"
    by (rule ext) (simp add: calls_def frames_concat comp_def)
  have "\<exists>t. foldR ?g ?d s = Inr t \<and> delivers s (\<lambda>c'. concat (map (\<lambda>e. ?out e c') ?d)) t"
  proof (rule deliver_foldR [OF _ assms(1)])
    fix e u assume e: "e \<in> set ?d" and u: "talk s u" "ready_to_send u" "room_for (?out e) u"
    have "good_entry rx message e" using assms(2) e by (simp add: list_all_iff)
    moreover have "socks u ?c \<noteq> None" using assms(3) talk_fields(16) [OF u(1)] by simp
    ultimately show "\<exists>t. ?g e u = Inr t \<and> delivers u (?out e) t"
      using RegexpCallUnique_ok [OF u(2) _ _ u(3)] by (auto simp: delivers_to_def)
  qed (use assms(4) in \<open>simp add: out room_for_def\<close>)
  then obtain t where t: "foldR ?g ?d s = Inr t" "delivers_to ?c s (frames (calls rx message ?d ?c)) t"
    unfolding out delivers_to_def by blast
  let ?n = "\<lambda>e. if 1 \<le> fst (IvyBindingExec rx (d_binding e) message)
      then length (filter (\<lambda>dc. dc_client dc = ?c) (d_clientList e)) else 0"
  have "sum_calls (\<lambda>e. RegexpCallUnique rx e message ?c) ?d s = Inr (sum_list (map ?n ?d), t)"
    by (rule sum_calls_foldR [OF t(1)]) (rule RegexpCallUnique_count)
  then show ?thesis using delivers_to_emit [OF t(2)] by (auto simp: ClientCall_def filter_check_def)
qed

section \<open>The counter of a peer\<close>

text \<open>
  No line but \<open>EndRegexp\<close> changes the counter of a peer, and no line gives a node another client than
  its own or the one the line came from.
\<close>

definition node_kept :: "nat \<Rightarrow> ivy \<Rightarrow> ivy \<Rightarrow> bool" where
  "node_kept c s t \<longleftrightarrow> (\<forall>p y. find_clnt p t = Some y \<longrightarrow> (\<exists>x. find_clnt p s = Some x \<and>
     c_readyToSend y = c_readyToSend x \<and> (c_client y = c_client x \<or> c_client y = c)))"

lemma node_kept_eq: "allClients t = allClients s \<Longrightarrow> node_kept c s t"
  by (simp add: node_kept_def find_clnt_def)

lemma node_kept_trans [trans]: "node_kept c s t \<Longrightarrow> node_kept c t u \<Longrightarrow> node_kept c s u"
  unfolding node_kept_def by metis

lemma node_kept_talk: "talk s t \<Longrightarrow> node_kept c s t"
  by (rule node_kept_eq) (simp add: talk_fields)

lemma find_clnt_updated:
  assumes "\<And>x. c_ptr (f x) = c_ptr x"
  shows "find_clnt q (upd_clnt p f s) = map_option (\<lambda>x. if c_ptr x = p then f x else x) (find_clnt q s)"
  unfolding find_clnt_def upd_clnt_def using assms by (simp add: find_map_inv)

lemma node_kept_upd:
  assumes "\<And>x. c_ptr (f x) = c_ptr x \<and> c_readyToSend (f x) = c_readyToSend x \<and> (c_client (f x) = c_client x \<or> c_client (f x) = c)"
  shows "node_kept c s (upd_clnt p f s)"
  using assms unfolding node_kept_def by (auto simp: find_clnt_updated)

lemma node_kept_emit: "node_kept c s (emit_if b e s)" "node_kept c s (emit e s)"
  by (auto simp: emit_if_def emit_def intro!: node_kept_eq)

lemma node_kept_Close: "SocketClose d s = Inr t \<Longrightarrow> node_kept c s t"
  by (auto simp: SocketClose_def deref_eq_Inr on_loop_def bindR_eq_Inr split: if_splits intro!: node_kept_eq)

lemma node_kept_foldR:
  assumes "foldR f xs s = Inr t" and "\<And>x s t. f x s = Inr t \<Longrightarrow> node_kept c s t"
  shows "node_kept c s t"
  by (rule foldR_invariant [OF assms(1), where I = "node_kept c s"]) (auto intro: node_kept_eq node_kept_trans assms(2))

lemma node_kept_Cleanup: 
  assumes "IvyCleanup s = Inr t"
  shows "node_kept c s t"
proof -
  have bye: "node_kept c s t" if "say_bye x s = Inr t" for x s t
  proof -
    from that obtain u v where u: "msg_to (c_ptr x) (c_client x) Bye 0 [] s = Inr u" "SocketClose (c_client x) u = Inr v"
      "t = v\<lparr>allClients := filter (\<lambda>y. c_ptr y \<noteq> c_ptr x) (allClients v)\<rparr>" by (auto simp: say_bye_def bindR_eq_Inr)
    have "find_clnt p t = (if p = c_ptr x then None else find_clnt p v)" for p
      unfolding find_clnt_def u(3)
      by (auto simp: find_None_iff intro: find_filter_other [of _ "\<lambda>y. c_ptr y \<noteq> c_ptr x"])
    then have "node_kept c v t" by (auto simp: node_kept_def)
    with u(1,2) show ?thesis by (meson msg_to_talk node_kept_talk node_kept_Close node_kept_trans)
  qed
  from assms obtain u v where u: "foldR say_bye (allClients s) s = Inr u"
    "SocketServerClose (srv u) (delAllRegexpsFromDictionary u) = Inr v" "SocketClose (bcast v) v = Inr t"
    by (auto simp: IvyCleanup_def bindR_eq_Inr)
  have mid: "node_kept c u v" using u(2)
    by (auto simp: SocketServerClose_def delAllRegexpsFromDictionary_def on_loop_def bindR_eq_Inr
        split: if_splits option.splits intro!: node_kept_eq)
  show ?thesis
    by (rule node_kept_trans [OF node_kept_trans [OF node_kept_foldR [OF u(1) bye] mid] node_kept_Close [OF u(3)]])
qed

lemma addRegexpToDictionary_clients: "addRegexpToDictionary rx r cl s = Inr t \<Longrightarrow> allClients t = allClients s"
  by (auto simp: addRegexpToDictionary_def bindR_eq_Inr split: option.splits
      dest!: new_entry_ok(1) talk_fields(1))

lemma addRegexpD:
  assumes "addRegexp rx r cl s = Inr t"
  shows "\<exists>u (x :: clnt). addRegexpToDictionary rx r cl s = Inr u \<and>
     t = emit_if (bind_cb u) (BindEvent (c_ptr cl) (c_id cl) r IvyAddBind)
       (upd_clnt (c_ptr x) (\<lambda>c. c\<lparr>c_srcRegList := \<lparr>gr_addr = fresh u, gr_str_regexp = r, gr_id = c_id cl\<rparr> # c_srcRegList c\<rparr>)
         (u\<lparr>fresh := fresh u + 1\<rparr>))"
proof -
  from assms obtain u where u: "addRegexpToDictionary rx r cl s = Inr u"
    "(case find_by_socket (c_client cl) u of None \<Rightarrow> Inl NullDeref
      | Some itr \<Rightarrow> Inr (emit_if (bind_cb u) (BindEvent (c_ptr cl) (c_id cl) r IvyAddBind)
         (upd_clnt (c_ptr itr) (\<lambda>c. c\<lparr>c_srcRegList := \<lparr>gr_addr = fresh u, gr_str_regexp = r, gr_id = c_id cl\<rparr> # c_srcRegList c\<rparr>)
           (u\<lparr>fresh := fresh u + 1\<rparr>)))) = Inr t" unfolding addRegexp_def bindR_eq_Inr by blast
  then obtain x where "find_by_socket (c_client cl) u = Some x" by (cases "find_by_socket (c_client cl) u") simp_all
  with u show ?thesis by (intro exI [of _ u] exI [of _ x]) simp
qed

lemma node_kept_regexp: "addOrChangeRegexp rx r cl s = Inr t \<Longrightarrow> node_kept c s t"
proof -
  have add: "node_kept c s t" if a: "addRegexp rx r cl s = Inr t" for s t
  proof -
    obtain u and x :: clnt where u: "addRegexpToDictionary rx r cl s = Inr u"
      "t = emit_if (bind_cb u) (BindEvent (c_ptr cl) (c_id cl) r IvyAddBind)
         (upd_clnt (c_ptr x) (\<lambda>c. c\<lparr>c_srcRegList := \<lparr>gr_addr = fresh u, gr_str_regexp = r, gr_id = c_id cl\<rparr> # c_srcRegList c\<rparr>)
           (u\<lparr>fresh := fresh u + 1\<rparr>))"
      using addRegexpD [OF a] by blast
    have "node_kept c s (u\<lparr>fresh := fresh u + 1\<rparr>)"
      by (rule node_kept_eq) (simp add: addRegexpToDictionary_clients [OF u(1)])
    also have "node_kept c (u\<lparr>fresh := fresh u + 1\<rparr>) (upd_clnt (c_ptr x)
        (\<lambda>c. c\<lparr>c_srcRegList := \<lparr>gr_addr = fresh u, gr_str_regexp = r, gr_id = c_id cl\<rparr> # c_srcRegList c\<rparr>) (u\<lparr>fresh := fresh u + 1\<rparr>))"
      by (rule node_kept_upd) simp
    finally show ?thesis unfolding u(2) by (rule node_kept_trans) (rule node_kept_emit)
  qed
  have change: "node_kept c s t" if "changeRegexp rx r cl s = Inr t" for s t
  proof -
    from that obtain u where u: "changeRegexpInDictionary rx r cl s = Inr u"
      "t = emit_if (bind_cb u) (BindEvent (c_ptr cl) (c_id cl) r IvyChangeBind)
         (case find_by_socket (c_client cl) u of None \<Rightarrow> u
          | Some itr \<Rightarrow> upd_clnt (c_ptr itr) (\<lambda>c. c\<lparr>c_srcRegList :=
              map (\<lambda>g. if gr_id g = c_id cl then g\<lparr>gr_str_regexp := r\<rparr> else g) (c_srcRegList c)\<rparr>) u)"
      by (auto simp: changeRegexp_def bindR_eq_Inr)
    have "node_kept c s u"
      using addRegexpToDictionary_clients [OF u(1) [unfolded changeRegexpInDictionary_def]] by (intro node_kept_eq) simp
    also have "node_kept c u (case find_by_socket (c_client cl) u of None \<Rightarrow> u
          | Some itr \<Rightarrow> upd_clnt (c_ptr itr) (\<lambda>c. c\<lparr>c_srcRegList :=
              map (\<lambda>g. if gr_id g = c_id cl then g\<lparr>gr_str_regexp := r\<rparr> else g) (c_srcRegList c)\<rparr>) u)"
      by (auto split: option.split intro!: node_kept_upd intro: node_kept_eq)
    finally show ?thesis unfolding u(2) by (rule node_kept_trans) (rule node_kept_emit)
  qed
  assume "addOrChangeRegexp rx r cl s = Inr t"
  then show ?thesis by (auto simp: addOrChangeRegexp_def split: option.splits if_splits dest: add change)
qed

lemma node_kept_msg: "msg_to p d k i m s = Inr t \<Longrightarrow> node_kept c s t"
  by (rule node_kept_talk) (rule msg_to_talk)

lemma node_kept_refuse:
  assumes "refuse x s = Inr t"
  shows "node_kept c s t"
proof -
  from assms obtain u v where u: "IvySendError (c_ptr x) (c_client x) 0 ''Application already connected'' s = Inr u"
    "SocketClose (c_client x) u = Inr v" "t = upd_clnt (c_ptr x) (\<lambda>c. c\<lparr>c_ignore_subsequent_msg := True\<rparr>) v"
    by (auto simp: refuse_def bindR_eq_Inr)
  have "node_kept c s u" using u(1) unfolding IvySendError_def by (rule node_kept_msg)
  also have "node_kept c u v" using u(2) by (rule node_kept_Close)
  also have "node_kept c v t" unfolding u(3) by (rule node_kept_upd) simp
  finally show ?thesis .
qed

lemma node_kept_StartRegexp:
  assumes "receive_StartRegexp cl i a s = Inr t"
  shows "node_kept c s t"
proof -
  let ?u = "upd_clnt (c_ptr cl) (\<lambda>c. c\<lparr>c_app_name := a, c_app_port := u16 i\<rparr>) s"
  have u: "node_kept c s ?u" by (rule node_kept_upd) simp
  have "t = ?u \<or> (\<exists>x. refuse x ?u = Inr t)"
    using assms unfolding receive_StartRegexp_def Let_def by (auto simp: bindR_eq_Inr split: option.splits)
  then show ?thesis
  proof (elim disjE exE)
    fix x assume "refuse x ?u = Inr t"
    from node_kept_trans [OF u node_kept_refuse [OF this]] show ?thesis .
  qed (use u in simp)
qed

lemma node_kept_bad_format:
  assumes "bad_format cl c s = Inr t"
  shows "node_kept c s t"
proof -
  let ?s = "upd_clnt (c_ptr cl) (\<lambda>x. x\<lparr>c_client := c\<rparr>) s"
  from assms obtain u v where u: "msg_to (c_ptr cl) c Error (msg_code Error) expected_format ?s = Inr u"
    "msg_to (c_ptr cl) c Bye 0 [] u = Inr v" "SocketClose c v = Inr t" by (auto simp: bad_format_def bindR_eq_Inr)
  have "node_kept c s ?s" by (rule node_kept_upd) simp
  also have "node_kept c ?s u" using u(1) by (rule node_kept_msg)
  also have "node_kept c u v" using u(2) by (rule node_kept_msg)
  also have "node_kept c v t" using u(3) by (rule node_kept_Close)
  finally show ?thesis .
qed

lemma node_kept_DelRegexp: "node_kept c s (receive_DelRegexp cl i a s)"
proof -
  obtain b u where d: "delRegexpForOneClient cl i s = (b, u)" by fastforce
  have "node_kept c s u"
  proof (cases "find_by_socket (c_client cl) s")
    case None
    with d show ?thesis by (simp add: delRegexpForOneClient_def node_kept_eq)
  next
    case (Some x)
    let ?v = "s\<lparr>messSndByRegexp := fold (\<lambda>g. delRegexpForOneClientFromDictionary (gr_str_regexp g) (c_client cl) (c_id cl))
      (filter (\<lambda>g. gr_id g = i) (c_srcRegList x)) (messSndByRegexp s)\<rparr>"
    have "node_kept c s ?v" by (rule node_kept_eq) simp
    also have "node_kept c ?v (upd_clnt (c_ptr x) (\<lambda>c. c\<lparr>c_srcRegList := filter (\<lambda>g. gr_id g \<noteq> i) (c_srcRegList c)\<rparr>) ?v)"
      by (rule node_kept_upd) simp
    finally show ?thesis using d Some by (simp add: delRegexpForOneClient_def Let_def)
  qed
  then show ?thesis unfolding receive_DelRegexp_def d Let_def prod.case by (rule node_kept_trans) (rule node_kept_emit)
qed

lemma node_kept_Pong: "node_kept c s (receive_Pong cl i s)"
  unfolding receive_Pong_def Let_def
  by (auto intro!: node_kept_trans [OF node_kept_upd node_kept_emit(2)] intro: node_kept_eq)

lemma node_kept_Msg: "receive_Msg cl i a s = Inr t \<Longrightarrow> node_kept c s t"
  by (auto simp: receive_Msg_def bindR_eq_Inr split: option.splits intro: node_kept_eq node_kept_emit)

lemma node_kept_AddRegexp: "receive_AddRegexp rx cl i a s = Inr t \<Longrightarrow> node_kept c s t"
  by (auto simp: receive_AddRegexp_def bindR_eq_Inr split: if_splits intro: node_kept_emit node_kept_regexp)

lemma node_kept_Die:
  assumes "receive_Die cl i s = Inr t"
  shows "node_kept c s t"
proof -
  let ?s = "emit_if (die_cb s) (DieEvent (c_ptr cl) i) s"
  from assms obtain u where u: "IvyCleanup ?s = Inr u" "t = u\<lparr>exited := True\<rparr>"
    by (auto simp: receive_Die_def bindR_eq_Inr)
  have "node_kept c s ?s" by (rule node_kept_emit)
  also have "node_kept c ?s u" using u(1) by (rule node_kept_Cleanup)
  also have "node_kept c u t" by (rule node_kept_eq) (simp add: u(2))
  finally show ?thesis .
qed

lemmas node_kept_steps = node_kept_Close node_kept_AddRegexp node_kept_DelRegexp node_kept_StartRegexp node_kept_Msg
  node_kept_emit node_kept_Die node_kept_msg node_kept_Pong

lemma node_kept_interpret:
  assumes "interpret_msg rx cl d kind i a s = Inr t" and "kind \<noteq> msg_code EndRegexp"
  shows "node_kept c s t"
  using assms unfolding interpret_msg_def
  by (auto split: if_splits intro: node_kept_steps node_kept_eq)

definition is_end :: "string \<Rightarrow> bool" where
  "is_end line \<longleftrightarrow> (case scan_d_d line of None \<Rightarrow> False | Some (kind, i) \<Rightarrow> kind = msg_code EndRegexp)"

lemma node_kept_Receive:
  assumes "Receive rx c p line s = Inr t" and "\<not> is_end line"
  shows "node_kept c s t"
  using assms(1)
proof (cases rule: Receive_cases)
  case (bad cl)
  from bad(2) show ?thesis by (rule node_kept_bad_format)
next
  case (msg cl kind i a)
  have "node_kept c s (upd_clnt p (\<lambda>c. c\<lparr>c_id := i\<rparr>) s)" by (rule node_kept_upd) simp
  moreover have "node_kept c (upd_clnt p (\<lambda>c. c\<lparr>c_id := i\<rparr>) s) t"
    using msg(3) by (rule node_kept_interpret) (use msg(2) assms(2) in \<open>auto simp: is_end_def\<close>)
  ultimately show ?thesis by (rule node_kept_trans)
qed (simp add: node_kept_eq)

text \<open>No line raises a counter by more than one.\<close>

lemma Receive_count:
  assumes "Receive rx c p line s = Inr t" and "find_clnt q t = Some y"
  shows "\<exists>x. find_clnt q s = Some x \<and>
     (c_readyToSend y = c_readyToSend x \<or> c_readyToSend y = s32 (c_readyToSend x + 1))"
proof (cases "is_end line")
  case False
  from node_kept_Receive [OF assms(1) False] assms(2) show ?thesis unfolding node_kept_def by blast
next
  case True
  from assms(1) show ?thesis
  proof (cases rule: Receive_cases)
    case (ignored cl)
    with assms(2) show ?thesis by auto
  next
    case (bad cl)
    from node_kept_bad_format [OF bad(2)] assms(2) show ?thesis unfolding node_kept_def by blast
  next
    case (msg cl kind i a)
    let ?u = "upd_clnt p (\<lambda>c. c\<lparr>c_id := i\<rparr>) s"
    let ?v = "emit_if (app_cb ?u) (AppEvent (AppNode (c_ptr cl)) IvyApplicationConnected) ?u"
    let ?w = "upd_clnt (c_ptr cl) (\<lambda>c. c\<lparr>c_readyToSend := s32 (c_readyToSend c + 1)\<rparr>) ?v"
    have "kind = msg_code EndRegexp" using True msg(2) by (simp add: is_end_def)
    with msg(3) have "send_ready rx (c_ptr cl) ?w = Inr t"
      by (simp add: interpret_msg_def receive_EndRegexp_def)
    then have "talk ?w t" by (rule send_ready_talk)
    then have "find_clnt q t = find_clnt q ?w" by (simp add: find_clnt_def talk_fields)
    moreover have "find_clnt q ?v = find_clnt q ?u" by (simp add: find_clnt_def emit_if_def emit_def)
    ultimately show ?thesis using assms(2) by (cases "find_clnt q s") (auto simp: find_clnt_updated split: if_splits)
  qed
qed

lemma later_count:
  assumes "foldR (Receive rx c p) ls s = Inr t" and "find_clnt q t = Some y"
    and "\<And>x. find_clnt q s = Some x \<Longrightarrow> 2 \<le> c_readyToSend x \<and> c_readyToSend x \<le> n"
    and "n + int (length ls) < 2147483648"
  shows "2 \<le> c_readyToSend y \<and> c_readyToSend y \<le> n + int (length ls)"
  using assms
proof (induction ls arbitrary: s n)
  case (Cons l ls)
  then obtain u where u: "Receive rx c p l s = Inr u" "foldR (Receive rx c p) ls u = Inr t" by (auto simp: bindR_eq_Inr)
  have "2 \<le> c_readyToSend x \<and> c_readyToSend x \<le> n + 1" if x: "find_clnt q u = Some x" for x
  proof -
    from Receive_count [OF u(1) x] obtain z where z: "find_clnt q s = Some z"
      "c_readyToSend x = c_readyToSend z \<or> c_readyToSend x = s32 (c_readyToSend z + 1)" by blast
    from Cons.prems(3) [OF z(1)] have "2 \<le> c_readyToSend z" "c_readyToSend z \<le> n" by simp_all
    moreover from this Cons.prems(4) have "s32 (c_readyToSend z + 1) = c_readyToSend z + 1"
      by (intro s32_id) (simp add: is_int32_def)
    ultimately show ?thesis using z(2) by auto
  qed
  from Cons.IH [OF u(2) Cons.prems(2) this] Cons.prems(4) show ?case by (simp add: algebra_simps)
qed simp

section \<open>The end of a handshake\<close>

lemma EndRegexp_step:
  assumes "p \<noteq> 0" and "find_clnt p s = Some cl" and "\<not> c_ignore_subsequent_msg cl" and "is_int32 i"
  shows "\<exists>u. Receive rx c p (wire_header EndRegexp i @ a) s = send_ready rx p u \<and>
     find_clnt p u = Some (cl\<lparr>c_id := i, c_readyToSend := s32 (c_readyToSend cl + 1)\<rparr>) \<and>
     (\<forall>d. stream d u = stream d s) \<and> (\<forall>d n. roomy d n u = roomy d n s) \<and> ready_to_send u = ready_to_send s \<and>
     messSndByRegexp u = messSndByRegexp s \<and> ready_message u = ready_message s \<and> socks u = socks s \<and>
     events u = events s @ (if app_cb s then [AppEvent (AppNode p) IvyApplicationConnected] else [])"
proof -
  let ?s = "upd_clnt p (\<lambda>c. c\<lparr>c_id := i\<rparr>) s"
  let ?v = "emit_if (app_cb ?s) (AppEvent (AppNode p) IvyApplicationConnected) ?s"
  let ?u = "upd_clnt p (\<lambda>c. c\<lparr>c_readyToSend := s32 (c_readyToSend c + 1)\<rparr>) ?v"
  have p: "c_ptr cl = p" using find_clnt_Some [OF assms(2)] by simp
  have "find_clnt p ?v = find_clnt p ?s" by (simp add: find_clnt_def emit_if_def emit_def)
  then have "find_clnt p ?u = Some (cl\<lparr>c_id := i, c_readyToSend := s32 (c_readyToSend cl + 1)\<rparr>)"
    using assms(2) p by (simp add: find_clnt_updated)
  moreover have "Receive rx c p (wire_header EndRegexp i @ a) s = send_ready rx p ?u"
    using receive_start [OF assms(4,1,2,3)] p by (simp add: interpret_msg_def receive_EndRegexp_def)
  moreover obtain e' where "?v = ?s\<lparr>events := e'\<rparr>" using emit_if_update by blast
  then have "stream d ?v = stream d ?s" "roomy d n ?v = roomy d n ?s" "ready_to_send ?v = ready_to_send ?s" for d n
    by (simp_all add: ready_to_send_def)
  moreover have "messSndByRegexp ?u = messSndByRegexp s" "ready_message ?u = ready_message s" "socks ?u = socks s"
    "events ?u = events s @ (if app_cb s then [AppEvent (AppNode p) IvyApplicationConnected] else [])"
    by (simp_all add: upd_clnt_def emit_if_def emit_def)
  ultimately show ?thesis by (intro exI [of _ ?u]) simp
qed

lemma send_ready_waits:
  assumes "find_clnt p u = Some cl" and "c_readyToSend cl \<noteq> 2"
  shows "send_ready rx p u = Inr u"
  using assms by (simp add: send_ready_def split: option.split)

lemma later_EndRegexp:
  assumes "p \<noteq> 0" and "find_clnt p s = Some cl" and "is_int32 i"
    and "2 \<le> c_readyToSend cl" and "c_readyToSend cl < 2147483647"
  shows "\<exists>t. Receive rx c p (wire_header EndRegexp i @ a) s = Inr t \<and> (\<forall>d. stream d t = stream d s)"
proof (cases "c_ignore_subsequent_msg cl")
  case True
  then show ?thesis using assms(1,2) by (simp add: Receive_def with_app_def)
next
  case False
  from EndRegexp_step [OF assms(1,2) this assms(3), of rx c a] obtain u where
    u: "Receive rx c p (wire_header EndRegexp i @ a) s = send_ready rx p u"
      "find_clnt p u = Some (cl\<lparr>c_id := i, c_readyToSend := s32 (c_readyToSend cl + 1)\<rparr>)"
      "\<forall>d. stream d u = stream d s" by blast
  have "s32 (c_readyToSend cl + 1) = c_readyToSend cl + 1"
    using assms(4,5) by (intro s32_id) (simp add: is_int32_def)
  with send_ready_waits [OF u(2)] u(1,3) assms(4) show ?thesis by simp
qed

section \<open>Property\<close>

text \<open>
  C28: the ready message and the handshake. On a new connection the application sends its own part of
  the handshake (\<open>SendService\<close>), and no ready message. Whatever lines other than \<open>EndRegexp\<close> the peer
  sends then, the first \<open>EndRegexp\<close> brings the peer the ready message: one frame for each of its
  subscriptions that match, with the captured groups, and nothing to anybody else. After that, whatever
  lines follow, no further \<open>EndRegexp\<close> makes the application send anything, for the next two thousand
  million lines (then the counter could come round).
\<close>
theorem ready_message_is_sent_once:
  assumes "ready_to_send s" and "socks s c \<noteq> None"
    and "roomy c (length (announcement (ApplicationPort s) (app_name s) (msg_recv s))) s"
    and "SendService rx c name s = Inr (p, s0)" and "p \<noteq> 0"
    and "foldR (Receive rx c p) before s0 = Inr s1" and "\<forall>l \<in> set before. \<not> is_end l"
    and "find_clnt p s1 = Some cl" and "\<not> c_ignore_subsequent_msg cl" and "is_int32 i"
    and "ready_message s1 = Some m" and "list_all (good_entry rx m) (messSndByRegexp s1)"
    and "ready_to_send s1" and "socks s1 c \<noteq> None"
    and "roomy c (length (frames (calls rx m (messSndByRegexp s1) c))) s1"
  shows "stream c s0 = stream c s @ announcement (ApplicationPort s) (app_name s) (msg_recv s) \<and>
     (\<exists>s2. Receive rx c p (wire_header EndRegexp i @ a) s1 = Inr s2 \<and>
        stream c s2 = stream c s1 @ frames (calls rx m (messSndByRegexp s1) c) \<and>
        (\<forall>d. d \<noteq> c \<longrightarrow> stream d s2 = stream d s1) \<and>
        find_clnt p s2 = Some (cl\<lparr>c_id := i, c_readyToSend := 2\<rparr>) \<and>
        (\<forall>after s3 cl3 j b. foldR (Receive rx c p) after s2 = Inr s3 \<longrightarrow> length after < 2147483640 \<longrightarrow>
           find_clnt p s3 = Some cl3 \<longrightarrow> is_int32 j \<longrightarrow>
           (\<exists>s4. Receive rx c p (wire_header EndRegexp j @ b) s3 = Inr s4 \<and> (\<forall>d. stream d s4 = stream d s3))))"
proof -
  note sf = SendService_fields [OF assms(4)]
  have s0: "stream c s0 = stream c s @ announcement (ApplicationPort s) (app_name s) (msg_recv s)"
    using SendService_ok [OF assms(1-3), of rx name] assms(4) by auto
  have k: "node_kept c s0 s1"
    by (rule foldR_invariant [OF assms(6), where I = "node_kept c s0"])
      (use assms(7) in \<open>auto intro: node_kept_eq node_kept_trans [OF _ node_kept_Receive]\<close>)
  have "find_clnt p s0 = Some \<lparr>c_ptr = p, c_client = c, c_app_name = name, c_app_port = 0, c_id = 0, c_srcRegList = [],
      c_readyToSend = 1, c_ignore_subsequent_msg = False, c_ping_ts = (0, 0), c_ping_id = 0\<rparr>"
    by (simp add: find_clnt_def sf(2))
  with k [unfolded node_kept_def, rule_format, OF assms(8)] have cl: "c_readyToSend cl = 1" "c_client cl = c" by auto
  from EndRegexp_step [OF assms(5,8-10), of rx c a] obtain u where
    u: "Receive rx c p (wire_header EndRegexp i @ a) s1 = send_ready rx p u"
      "find_clnt p u = Some (cl\<lparr>c_id := i, c_readyToSend := 2\<rparr>)"
      "\<forall>d. stream d u = stream d s1" "\<forall>d n. roomy d n u = roomy d n s1" "ready_to_send u = ready_to_send s1"
      "messSndByRegexp u = messSndByRegexp s1" "ready_message u = ready_message s1" "socks u = socks s1"
    by (auto simp: cl s32_def)
  from ClientCall_ok [of u rx m "cl\<lparr>c_id := i, c_readyToSend := 2\<rparr>"] assms(12-15) u(4-6,8) cl(2) obtain n s2 where
    s2: "ClientCall rx (cl\<lparr>c_id := i, c_readyToSend := 2\<rparr>) m u = Inr (n, s2)"
      "delivers_to c u (frames (calls rx m (messSndByRegexp s1) c)) s2" by auto
  have run: "Receive rx c p (wire_header EndRegexp i @ a) s1 = Inr s2"
    using u(1,2,7) assms(11) s2(1) by (simp add: send_ready_def)
  have two: "find_clnt p s2 = Some (cl\<lparr>c_id := i, c_readyToSend := 2\<rparr>)"
    using u(2) talk_fields(1) [OF delivers_toD(2) [OF s2(2)]] by (simp add: find_clnt_def)
  have later: "\<exists>s4. Receive rx c p (wire_header EndRegexp j @ b) s3 = Inr s4 \<and> (\<forall>d. stream d s4 = stream d s3)"
    if "foldR (Receive rx c p) after s2 = Inr s3" "length after < 2147483640" "find_clnt p s3 = Some cl3" "is_int32 j"
    for after s3 cl3 j b
  proof -
    have "2 \<le> c_readyToSend cl3 \<and> c_readyToSend cl3 \<le> 2 + int (length after)"
      by (rule later_count [OF that(1,3)]) (use two that(2) in auto)
    then show ?thesis using that(2) by (intro later_EndRegexp [OF assms(5) that(3,4)]) auto
  qed
  show ?thesis
    using s0 run two later u(3) delivers_toD(3) [OF s2(2)] delivers_to_other [OF s2(2)]
    by (intro conjI exI [of _ s2]) auto
qed

definition demo_greeting :: ivy where
  "demo_greeting = demo_ivy (demo [] None) [] [demo_entry] []"

theorem ready_message_is_sent_once_witness:
  "\<exists>s0 s2 s3. SendService first_char_engine 1 ''peer'' demo_greeting = Inr (10, s0) \<and>
     Receive first_char_engine 1 10 (wire_header EndRegexp 0) s0 = Inr s2 \<and>
     stream 1 s2 = stream 1 s0 @ frames [(3, [''r''])] \<and>
     Receive first_char_engine 1 10 (wire_header EndRegexp 0) s2 = Inr s3 \<and> stream 1 s3 = stream 1 s2"
proof -
  let ?e = first_char_engine
  have s: "ready_to_send demo_greeting" "socks demo_greeting 1 \<noteq> None" "n < 33554432 \<Longrightarrow> roomy 1 n demo_greeting" for n
    using demo_inv [of None "[]"]
    by (simp_all add: demo_greeting_def ready_to_send_def roomy_def fifo_size_defs)
      (simp_all add: demo_def demo_sock_def new_sock_def fifo_size_defs)
  have a: "announcement (ApplicationPort demo_greeting) (app_name demo_greeting) (msg_recv demo_greeting) =
      message_line StartRegexp 2011 ''me'' @ message_line EndRegexp 0 []"
    by (simp add: demo_greeting_def app_name_def announcement_def)
  have len: "length (message_line StartRegexp 2011 ''me'' @ message_line EndRegexp 0 []) < 100"
    by (simp add: message_line_def wire_header_def show_int_def show_nat.simps)
  have room: "roomy 1 (length (announcement (ApplicationPort demo_greeting) (app_name demo_greeting) (msg_recv demo_greeting)) + n) demo_greeting"
    if "n < 1000" for n using len that unfolding a by (intro s(3)) simp
  have f10: "fresh demo_greeting = 10" by (simp add: demo_greeting_def demo_ivy_def demo_def sockst.extend_def)
  from SendService_run [OF s(1,2), of ?e "''peer''"] room [of 0] f10 obtain s0 where
    s0: "SendService ?e 1 ''peer'' demo_greeting = Inr (10, s0)" "ready_to_send s0" "socks s0 1 \<noteq> None"
      "\<forall>n. roomy 1 (length (announcement (ApplicationPort demo_greeting) (app_name demo_greeting) (msg_recv demo_greeting)) + n)
        demo_greeting \<longrightarrow> roomy 1 n s0" by auto
  note f = SendService_fields [OF s0(1)]
  have n: "find_clnt 10 s0 = Some (demo_peer\<lparr>c_ptr := 10\<rparr>)" by (simp add: find_clnt_def f(2) demo_peer_def)
  have d: "messSndByRegexp s0 = [demo_entry]" "ready_message s0 = Some ''ready''" using f(3,5) by (simp_all add: demo_greeting_def)
  have c: "calls ?e ''ready'' [demo_entry] 1 = [(3, [''r''])]"
    by (simp add: calls_def entry_calls_def demo_entry_def IvyBindingExec_def first_char_engine_def
        captures_def capture_def upt_rec [of 1] numeral_2_eq_2)
  have len2: "length (frames [(3, [''r''])]) < 1000"
    by (simp add: frames_def call_line_def wire_header_def join_args_def show_int_def show_nat.simps)
  have g: "list_all (good_entry ?e ''ready'') [demo_entry]"
    by (simp add: demo_entry_def good_entry_def is_int32_def good_match_def IvyBindingExec_def first_char_engine_def
        good_span_def upt_rec [of 0] numeral_2_eq_2)
  have ign: "\<not> c_ignore_subsequent_msg (demo_peer\<lparr>c_ptr := 10\<rparr>)" "is_int32 0" "(10 :: nat) \<noteq> 0"
    by (simp_all add: demo_peer_def is_int32_def)
  from ready_message_is_sent_once [OF s(1,2) _ s0(1) ign(3) _ _ n ign(1,2) d(2), of "[]" "[]", unfolded d(1) c] room [of 0] g s0 room len2
  obtain s2 where s2: "Receive ?e 1 10 (wire_header EndRegexp 0) s0 = Inr s2"
    "stream 1 s2 = stream 1 s0 @ frames [(3, [''r''])]" "\<exists>cl2. find_clnt 10 s2 = Some cl2"
    "\<And>after s3 cl3 j b. foldR (Receive ?e 1 10) after s2 = Inr s3 \<Longrightarrow> length after < 2147483640 \<Longrightarrow>
       find_clnt 10 s3 = Some cl3 \<Longrightarrow> is_int32 j \<Longrightarrow>
       \<exists>s4. Receive ?e 1 10 (wire_header EndRegexp j @ b) s3 = Inr s4 \<and> (\<forall>d. stream d s4 = stream d s3)"
    by auto
  from s2(3) obtain cl2 where "find_clnt 10 s2 = Some cl2" ..
  with s2(4) [of "[]" s2 cl2 0 "[]"] ign(2) obtain s3 where
    "Receive ?e 1 10 (wire_header EndRegexp 0) s2 = Inr s3" "stream 1 s3 = stream 1 s2" by auto
  with s0(1) s2(1,2) show ?thesis by blast
qed

end
