(* ===== verification/IvyTable.thy ===== *)
theory IvyTable imports IvyHash IvyProtocol begin

text \<open>
  The dictionary of \<open>ivy.c\<close> on the hash table of \<open>uthash.h\<close>. \<open>IvyDict\<close> keeps the entries in a list;
  here the same operations run on the table of \<open>IvyHash\<close> and on structures that are allocated and
  freed, and the loops over \<open>hh.next\<close> delete entries while they walk. The theorem at the end says that
  the two agree, whatever the operations are and in whatever order they come.
\<close>

section \<open>The entries in memory\<close>

text \<open>
  The table with its handles, and the other fields of the structures \<open>_msg_snd_dict\<close> the handles are
  in, by address. What \<open>free\<close> was given is in neither map. An operation that reads a structure that
  is not there is \<open>None\<close>.
\<close>

record dict_mem =
  table :: uthash
  elems :: "nat \<rightharpoonup> dentry"

definition no_entries :: dict_mem where
  "no_entries = \<lparr>table = empty_hash, elems = Map.empty\<rparr>"

definition free_elem :: "nat \<Rightarrow> dict_mem \<Rightarrow> dict_mem" where
  "free_elem p m = m\<lparr>table := (table m)\<lparr>hhs := (hhs (table m))(p := None)\<rparr>, elems := (elems m)(p := None)\<rparr>"

section \<open>The operations\<close>

text \<open>
  The two functions that take subscribers out of an entry, which differ in the condition on the
  subscriber: the entry whose list is empty then is deleted from the table and freed.
\<close>

definition drop_dclients :: "(dclient \<Rightarrow> bool) \<Rightarrow> nat \<Rightarrow> dict_mem \<Rightarrow> dict_mem option" where
  "drop_dclients P p m =
     Option.bind (elems m p) (\<lambda>e.
       let l = filter (\<lambda>c. \<not> P c) (d_clientList e)
       in if l = [] then Option.bind (HASH_DELETE p (table m)) (\<lambda>s. Some (free_elem p (m\<lparr>table := s\<rparr>)))
          else Some (m\<lparr>elems := (elems m)(p \<mapsto> e\<lparr>d_clientList := l\<rparr>)\<rparr>))"

definition tbl_delRegexpForOneClientFromDictionary ::
    "(string \<Rightarrow> 32 word) \<Rightarrow> string \<Rightarrow> nat \<Rightarrow> int \<Rightarrow> dict_mem \<Rightarrow> dict_mem option" where
  "tbl_delRegexpForOneClientFromDictionary hf regexp client i m =
     Option.bind (HASH_FIND hf regexp (table m)) (\<lambda>p.
       if p = 0 then Some m else drop_dclients (\<lambda>c. dc_client c = client \<and> dc_id c = i) p m)"

text \<open>The last loop of \<open>delOneClient\<close>: the successor is read before the entry may be freed.\<close>

partial_function (option) tbl_purge_client :: "nat \<Rightarrow> nat \<Rightarrow> dict_mem \<Rightarrow> dict_mem option" where
  "tbl_purge_client client p m =
     (if p = 0 then Some m
      else Option.bind (hhs (table m) p) (\<lambda>x.
           Option.bind (drop_dclients (\<lambda>c. dc_client c = client) p m) (\<lambda>m.
             tbl_purge_client client (app_next x) m)))"

text \<open>The loop of \<open>delAllRegexpsFromDictionary\<close>: the successor is read from the deleted entry, which is not freed.\<close>

partial_function (option) tbl_delAllRegexps :: "nat \<Rightarrow> dict_mem \<Rightarrow> dict_mem option" where
  "tbl_delAllRegexps p m =
     (if p = 0 then Some m
      else Option.bind (elems m p) (\<lambda>e. Option.bind (HASH_DELETE p (table m)) (\<lambda>s. Option.bind (hhs s p) (\<lambda>x.
        tbl_delAllRegexps (app_next x)
          (m\<lparr>table := s, elems := (elems m)(p \<mapsto> e\<lparr>d_clientList := [], d_binding := None\<rparr>)\<rparr>)))))"

text \<open>The entry that is searched before a subscription is changed, and the entries a loop visits.\<close>

definition tbl_lookup :: "(string \<Rightarrow> 32 word) \<Rightarrow> string \<Rightarrow> dict_mem \<Rightarrow> dentry option option" where
  "tbl_lookup hf regexp m =
     Option.bind (HASH_FIND hf regexp (table m)) (\<lambda>p. if p = 0 then Some None else map_option Some (elems m p))"

definition tbl_entries :: "dict_mem \<Rightarrow> dentry list option" where
  "tbl_entries m =
     Option.bind (hash_walk (hhs (table m)) (hash_head (table m))) (\<lambda>ps. those (map (elems m) ps))"

text \<open>
  \<open>addRegexpToDictionary\<close>, \<open>a\<close> being what \<open>malloc\<close> answers. Compiling the pattern may send an error
  to the client, so the state of the library is passed through.
\<close>

definition at_ptr :: "'a option \<Rightarrow> 'a res" where
  "at_ptr x = (case x of None \<Rightarrow> Inl UseAfterFree | Some y \<Rightarrow> Inr y)"

definition tbl_addRegexpToDictionary ::
    "(string \<Rightarrow> 32 word) \<Rightarrow> regex_engine \<Rightarrow> nat \<Rightarrow> string \<Rightarrow> clnt \<Rightarrow> ivy \<Rightarrow> dict_mem \<Rightarrow> (ivy \<times> dict_mem) res" where
  "tbl_addRegexpToDictionary hf rx a regexp cl s m =
     bindR (at_ptr (HASH_FIND hf regexp (table m))) (\<lambda>p.
     bindR (if p \<noteq> 0 then Inr (p, s, m)
            else bindR (new_entry rx regexp cl s) (\<lambda>(e, s).
                 bindR (at_ptr (HASH_ADD_KEYPTR hf regexp a (table m))) (\<lambda>t.
                   Inr (a, s, m\<lparr>table := t, elems := (elems m)(a \<mapsto> e)\<rparr>)))) (\<lambda>(p, s, m).
     bindR (at_ptr (elems m p)) (\<lambda>e.
       Inr (s, m\<lparr>elems := (elems m)(p \<mapsto> e\<lparr>d_clientList := dict_client cl # d_clientList e\<rparr>)\<rparr>))))"

definition tbl_changeRegexpInDictionary ::
    "(string \<Rightarrow> 32 word) \<Rightarrow> regex_engine \<Rightarrow> nat \<Rightarrow> string \<Rightarrow> clnt \<Rightarrow> ivy \<Rightarrow> dict_mem \<Rightarrow> (ivy \<times> dict_mem) res" where
  "tbl_changeRegexpInDictionary hf rx a regexp cl s m =
     bindR (at_ptr (tbl_delRegexpForOneClientFromDictionary hf regexp (c_client cl) (c_id cl) m))
       (tbl_addRegexpToDictionary hf rx a regexp cl s)"

section \<open>The table holds the dictionary\<close>

definition entry_at :: "dict_mem \<Rightarrow> nat \<times> string \<Rightarrow> dentry \<Rightarrow> bool" where
  "entry_at m = (\<lambda>(a, k) e. elems m a = Some e \<and> d_regexp_src e = k)"

definition table_holds :: "(string \<Rightarrow> 32 word) \<Rightarrow> dict_mem \<Rightarrow> (nat \<times> string) list \<Rightarrow> dentry list \<Rightarrow> bool" where
  "table_holds hf m ks d \<longleftrightarrow> holds hf (table m) ks \<and> list_all2 (entry_at m) ks d \<and> distinct (map d_regexp_src d)"

lemma entry_at_frame:
  "list_all2 (entry_at m) ks d \<Longrightarrow> \<forall>a \<in> fst ` set ks. elems m' a = elems m a \<Longrightarrow> list_all2 (entry_at m') ks d"
  by (induction rule: list_all2_induct) (auto simp: entry_at_def)

lemma entry_at_keys: "list_all2 (entry_at m) ks d \<Longrightarrow> map snd ks = map d_regexp_src d"
  by (induction rule: list_all2_induct) (auto simp: entry_at_def)

lemma entry_at_elems: "list_all2 (entry_at m) ks d \<Longrightarrow> map (elems m) (map fst ks) = map Some d"
  by (induction rule: list_all2_induct) (auto simp: entry_at_def)

lemma those_Some [simp]: "those (map Some xs) = Some xs"
  by (induction xs) auto

text \<open>The loops over the table visit the entries of the dictionary, and searching finds what it finds.\<close>

lemma tbl_entries_ok: "table_holds hf m ks d \<Longrightarrow> tbl_entries m = Some d"
  using holds_walk [of hf "table m" ks] entry_at_elems [of m ks d]
  by (simp add: table_holds_def tbl_entries_def del: map_map)

lemma element_of_entry:
  assumes "table_holds hf m ks d"
  shows "HASH_FIND hf r (table m) = Some (element_of r ks)"
    and "hash_find r d = None \<Longrightarrow> element_of r ks = 0"
    and "hash_find r d = Some e \<Longrightarrow> \<exists>a us vs ds es. element_of r ks = a \<and> a \<noteq> 0 \<and> ks = us @ (a, r) # vs \<and> d = ds @ e # es \<and>
      list_all2 (entry_at m) us ds \<and> elems m a = Some e \<and> d_regexp_src e = r \<and> list_all2 (entry_at m) vs es"
proof -
  have h: "holds hf (table m) ks" "list_all2 (entry_at m) ks d" "distinct (map d_regexp_src d)"
    using assms by (simp_all add: table_holds_def)
  note keys = entry_at_keys [OF h(2)]
  then have dist: "distinct (map snd ks)" using h(3) by simp
  show "HASH_FIND hf r (table m) = Some (element_of r ks)" by (rule HASH_FIND_ok [OF h(1) dist])
  show "element_of r ks = 0" if "hash_find r d = None"
  proof -
    have "r \<notin> set (map snd ks)" unfolding keys using that by (simp add: hash_find_None)
    then show ?thesis by (intro element_of_none) simp
  qed
  assume e: "hash_find r d = Some e"
  then obtain ds es where d: "d = ds @ e # es" "d_regexp_src e = r" using hash_find_Some [OF e] split_list by fastforce
  with h(2) obtain us ak vs where ks: "ks = us @ ak # vs" "list_all2 (entry_at m) us ds" "entry_at m ak e"
    "list_all2 (entry_at m) vs es"
    by (auto simp: list_all2_append2 list_all2_Cons2)
  obtain a where a: "ak = (a, r)" using ks(3) d(2) by (cases ak) (auto simp: entry_at_def)
  have "element_of r ks = a" using element_of_mem [OF dist, of a r] ks(1) a by simp
  moreover have "a \<noteq> 0" using holds_nonzero [OF h(1), of a r] ks(1) a by simp
  ultimately show "\<exists>a us vs ds es. element_of r ks = a \<and> a \<noteq> 0 \<and> ks = us @ (a, r) # vs \<and> d = ds @ e # es \<and>
      list_all2 (entry_at m) us ds \<and> elems m a = Some e \<and> d_regexp_src e = r \<and> list_all2 (entry_at m) vs es"
    using ks a d
    by (intro exI [of _ a] exI [of _ us] exI [of _ vs] exI [of _ ds] exI [of _ es]) (simp add: entry_at_def)
qed

lemma tbl_lookup_ok: "table_holds hf m ks d \<Longrightarrow> tbl_lookup hf r m = Some (hash_find r d)"
  using element_of_entry [of hf m ks d r] by (cases "hash_find r d") (auto simp: tbl_lookup_def)

section \<open>Deleting\<close>

text \<open>An element that is in no list can be freed.\<close>

lemma holds_free:
  assumes "holds hf s ks" and "a \<notin> fst ` set ks"
  shows "holds hf (s\<lparr>hhs := (hhs s)(a := None)\<rparr>) ks"
proof (cases "hash_tbl s")
  case None
  with assms(1) show ?thesis by (simp add: holds_def)
next
  case (Some t)
  with assms(1) obtain ch where t: "ks \<noteq> []" "app_seg (hhs s) 0 (hash_head s) (map fst ks) 0" "tbl_tail t = fst (last ks)"
    "tab_ok t (hhs s) (fst ` set ks) ch" "list_all (has_key hf (hhs s)) ks" by (auto simp: holds_def)
  let ?h = "(hhs s)(a := None)"
  have "app_seg ?h 0 (hash_head s) (map fst ks) 0"
    by (rule dseg_frame [OF t(2)]) (use assms(2) in \<open>auto simp: links_def\<close>)
  moreover have "tab_ok t ?h (fst ` set ks) ch"
  proof (rule tab_ok_app [OF t(4)])
    fix c assume c: "c \<in> fst ` set ks"
    then have "hhs s c \<noteq> None" using dseg_alloc [OF t(2), of c] by auto
    then show "\<exists>y z. hhs s c = Some y \<and> ?h c = Some z \<and> bkt_next z = bkt_next y \<and> bkt_prev z = bkt_prev y \<and> hashv z = hashv y"
      using c assms(2) by auto
  qed
  moreover have "list_all (has_key hf ?h) ks"
    unfolding list_all_iff
  proof
    fix ak assume "ak \<in> set ks"
    then have "fst ak \<noteq> a" "has_key hf (hhs s) ak" using assms(2) t(5) by (auto simp: list_all_iff)
    then show "has_key hf ?h ak" by (auto simp: has_key_def split: prod.splits)
  qed
  ultimately show ?thesis using t(1,3) Some by (auto simp: holds_def)
qed

lemma drop_dclients_ok:
  assumes "holds hf (table m) (us @ (a, k) # vs)" and "elems m a = Some e"
  shows "\<exists>m'. drop_dclients P a m = Some m' \<and> (\<forall>b. b \<noteq> a \<longrightarrow> elems m' b = elems m b) \<and>
    (case purge_entry P e of None \<Rightarrow> holds hf (table m') (us @ vs)
     | Some e' \<Rightarrow> holds hf (table m') (us @ (a, k) # vs) \<and> elems m' a = Some e')"
proof (cases "filter (\<lambda>c. \<not> P c) (d_clientList e) = []")
  case True
  obtain s where s: "HASH_DELETE a (table m) = Some s" "holds hf s (us @ vs)"
    using HASH_DELETE_ok [OF assms(1)] by blast
  have "a \<notin> fst ` set (us @ vs)" using holds_distinct [OF assms(1)] by force
  from holds_free [OF s(2) this] show ?thesis
    using True s(1) assms(2) by (simp add: drop_dclients_def purge_entry_def free_elem_def)
next
  case False
  then show ?thesis using assms by (simp add: drop_dclients_def purge_entry_def)
qed

lemma purge_entry_pattern: "purge_entry P e = Some e' \<Longrightarrow> d_regexp_src e' = d_regexp_src e"
  by (auto simp: purge_entry_def Let_def split: if_splits)

lemma drop_from_table:
  assumes "table_holds hf m (us @ (a, r) # vs) (ds @ e # es)" and "list_all2 (entry_at m) us ds"
  shows "\<exists>m'. drop_dclients P a m = Some m' \<and> (case purge_entry P e of
      None \<Rightarrow> table_holds hf m' (us @ vs) (ds @ es) \<and> list_all2 (entry_at m') us ds
    | Some e' \<Rightarrow> table_holds hf m' (us @ (a, r) # vs) (ds @ e' # es) \<and> list_all2 (entry_at m') (us @ [(a, r)]) (ds @ [e']))"
proof -
  have h: "holds hf (table m) (us @ (a, r) # vs)" "list_all2 (entry_at m) (us @ (a, r) # vs) (ds @ e # es)"
    "distinct (map d_regexp_src (ds @ e # es))" using assms(1) by (simp_all only: table_holds_def)
  have parts: "entry_at m (a, r) e" "list_all2 (entry_at m) vs es"
    using h(2) assms(2) list_all2_lengthD [OF assms(2)] by (simp_all add: list_all2_append)
  then have e: "elems m a = Some e" "d_regexp_src e = r" by (simp_all add: entry_at_def)
  obtain m' where m': "drop_dclients P a m = Some m'" "\<forall>b. b \<noteq> a \<longrightarrow> elems m' b = elems m b"
    "case purge_entry P e of None \<Rightarrow> holds hf (table m') (us @ vs)
     | Some e' \<Rightarrow> holds hf (table m') (us @ (a, r) # vs) \<and> elems m' a = Some e'"
    using drop_dclients_ok [OF h(1) e(1), of P] by blast
  have "a \<notin> fst ` set us \<and> a \<notin> fst ` set vs" using holds_distinct [OF h(1)] by force
  then have sides: "list_all2 (entry_at m') us ds" "list_all2 (entry_at m') vs es"
    using m'(2) by (auto intro!: entry_at_frame [OF assms(2)] entry_at_frame [OF parts(2)])
  show ?thesis
  proof (cases "purge_entry P e")
    case None
    then show ?thesis using m' sides h(3) by (simp add: table_holds_def list_all2_appendI)
  next
    case (Some e')
    have "entry_at m' (a, r) e'" using m'(3) Some purge_entry_pattern [OF Some] e(2) by (simp add: entry_at_def)
    then show ?thesis
      using Some m' sides h(3) purge_entry_pattern [OF Some] by (simp add: table_holds_def list_all2_appendI)
  qed
qed

lemma map_filter_other:
  "r \<notin> d_regexp_src ` set d \<Longrightarrow> List.map_filter (\<lambda>e. if d_regexp_src e = r then f e else Some e) d = d"
  by (induction d) (auto simp: map_filter_simps)

lemma map_filter_append: "List.map_filter f (xs @ ys) = List.map_filter f xs @ List.map_filter f ys"
  by (simp add: List.map_filter_def)

lemma del_one:
  assumes "table_holds hf m ks d"
  shows "\<exists>m' ks'. tbl_delRegexpForOneClientFromDictionary hf r c i m = Some m' \<and>
           table_holds hf m' ks' (delRegexpForOneClientFromDictionary r c i d) \<and> set ks' \<subseteq> set ks"
proof (cases "hash_find r d")
  case None
  then show ?thesis using assms element_of_entry(1,2) [OF assms, of r]
    by (auto simp: tbl_delRegexpForOneClientFromDictionary_def delRegexpForOneClientFromDictionary_def)
next
  case (Some e)
  let ?P = "\<lambda>x. dc_client x = c \<and> dc_id x = i"
  from element_of_entry(3) [OF assms Some] obtain a us vs ds es where
    s: "element_of r ks = a" "a \<noteq> 0" "ks = us @ (a, r) # vs" "d = ds @ e # es" "list_all2 (entry_at m) us ds" "d_regexp_src e = r"
    by blast
  note th = assms [unfolded s(3,4)]
  obtain m' where m': "drop_dclients ?P a m = Some m'" "case purge_entry ?P e of
      None \<Rightarrow> table_holds hf m' (us @ vs) (ds @ es) \<and> list_all2 (entry_at m') us ds
    | Some e' \<Rightarrow> table_holds hf m' (us @ (a, r) # vs) (ds @ e' # es) \<and> list_all2 (entry_at m') (us @ [(a, r)]) (ds @ [e'])"
    using drop_from_table [OF th s(5), of ?P] by blast
  have "r \<notin> d_regexp_src ` set ds" "r \<notin> d_regexp_src ` set es"
    using th s(6) by (auto simp: table_holds_def)
  then have del: "delRegexpForOneClientFromDictionary r c i d = ds @ (case purge_entry ?P e of None \<Rightarrow> [] | Some e' \<Rightarrow> [e']) @ es"
    using Some s(6) unfolding s(4) delRegexpForOneClientFromDictionary_def delOneIvyClientFromDictionaryEntry_def
    by (simp add: map_filter_append map_filter_simps map_filter_other split: option.split)
  have tbl: "tbl_delRegexpForOneClientFromDictionary hf r c i m = Some m'"
    using element_of_entry(1) [OF assms, of r] s(1,2) m'(1) by (simp add: tbl_delRegexpForOneClientFromDictionary_def)
  show ?thesis
  proof (cases "purge_entry ?P e")
    case None
    then show ?thesis using m'(2) tbl del unfolding s(3) by (intro exI [of _ m'] exI [of _ "us @ vs"]) auto
  next
    case (Some e')
    then show ?thesis using m'(2) tbl del unfolding s(3) by (intro exI [of _ m'] exI [of _ "us @ (a, r) # vs"]) auto
  qed
qed

lemma holds_next:
  assumes "holds hf s (us @ (a, k) # vs)"
  obtains x where "hhs s a = Some x" "app_next x = (case vs of [] \<Rightarrow> 0 | (b, _) # _ \<Rightarrow> b)"
  using HASH_DELETE_ok [OF assms] by blast

lemma holds_head: "holds hf s ks \<Longrightarrow> hash_head s = (case ks of [] \<Rightarrow> 0 | (b, _) # _ \<Rightarrow> b)"
  by (cases ks) (auto simp: holds_def split: option.splits)

lemma purge_loop:
  assumes "table_holds hf m (us @ vs) (ds @ es)" and "list_all2 (entry_at m) us ds"
    and "p = (case vs of [] \<Rightarrow> 0 | (b, _) # _ \<Rightarrow> b)"
  shows "\<exists>m' ks'. tbl_purge_client c p m = Some m' \<and> table_holds hf m' ks' (ds @ purge_client c es) \<and>
           set ks' \<subseteq> set (us @ vs)"
  using assms
proof (induction es arbitrary: m us vs ds p)
  case Nil
  then have "length (us @ vs) = length ds" by (auto simp: table_holds_def dest: list_all2_lengthD)
  then have "vs = []" using list_all2_lengthD [OF Nil(2)] by simp
  then show ?case using Nil by (subst tbl_purge_client.simps) (auto simp: purge_client_def map_filter_simps)
next
  case (Cons e es)
  let ?P = "\<lambda>x. dc_client x = c"
  have "list_all2 (entry_at m) vs (e # es)"
    using Cons.prems(1,2) list_all2_lengthD [OF Cons.prems(2)] by (simp add: table_holds_def list_all2_append)
  then obtain a r vs' where vs: "vs = (a, r) # vs'" by (auto simp: list_all2_Cons2)
  note th = Cons.prems(1) [unfolded vs]
  have "holds hf (table m) (us @ (a, r) # vs')" using th by (simp add: table_holds_def)
  then obtain x where x: "hhs (table m) a = Some x" "app_next x = (case vs' of [] \<Rightarrow> 0 | (b, _) # _ \<Rightarrow> b)" "a \<noteq> 0"
    using holds_next holds_nonzero [of hf "table m" _ a r] by (metis in_set_conv_decomp)
  obtain m1 where m1: "drop_dclients ?P a m = Some m1" "case purge_entry ?P e of
      None \<Rightarrow> table_holds hf m1 (us @ vs') (ds @ es) \<and> list_all2 (entry_at m1) us ds
    | Some e' \<Rightarrow> table_holds hf m1 (us @ (a, r) # vs') (ds @ e' # es) \<and> list_all2 (entry_at m1) (us @ [(a, r)]) (ds @ [e'])"
    using drop_from_table [OF th Cons.prems(2), of ?P] by blast
  have step: "tbl_purge_client c p m = tbl_purge_client c (app_next x) m1"
    using x m1(1) Cons.prems(3) by (subst tbl_purge_client.simps) (simp add: vs)
  show ?case
  proof (cases "purge_entry ?P e")
    case None
    then have "purge_client c (e # es) = purge_client c es"
      by (simp add: purge_client_def map_filter_simps delOneClientFromDictionaryEntry_def)
    moreover have "set (us @ vs') \<subseteq> set (us @ vs)" by (auto simp: vs)
    ultimately show ?thesis using Cons.IH [of m1 us vs' ds, OF _ _ x(2)] m1(2) None step by fastforce
  next
    case (Some e')
    then have "purge_client c (e # es) = e' # purge_client c es"
      by (simp add: purge_client_def map_filter_simps delOneClientFromDictionaryEntry_def)
    moreover have "set ((us @ [(a, r)]) @ vs') \<subseteq> set (us @ vs)" by (auto simp: vs)
    ultimately show ?thesis using Cons.IH [of m1 "us @ [(a, r)]" vs' "ds @ [e']", OF _ _ x(2)] m1(2) Some step by fastforce
  qed
qed

lemma purge_ok:
  assumes "table_holds hf m ks d"
  shows "\<exists>m' ks'. tbl_purge_client c (hash_head (table m)) m = Some m' \<and> table_holds hf m' ks' (purge_client c d)"
  using purge_loop [of hf m "[]" ks "[]" d "hash_head (table m)" c] assms holds_head [of hf "table m" ks]
  by (auto simp: table_holds_def)

lemma clear_ok:
  assumes "table_holds hf m ks d"
  shows "\<exists>m'. tbl_delAllRegexps (hash_head (table m)) m = Some m' \<and> table_holds hf m' [] []"
proof -
  have "\<exists>m'. tbl_delAllRegexps p m = Some m' \<and> table_holds hf m' [] []"
    if "table_holds hf m ks d" "p = (case ks of [] \<Rightarrow> 0 | (b, _) # _ \<Rightarrow> b)" for p
    using that
  proof (induction ks arbitrary: m d p)
    case Nil
    then show ?case by (subst tbl_delAllRegexps.simps) (auto simp: table_holds_def)
  next
    case (Cons ak ks)
    obtain a k where ak: "ak = (a, k)" by fastforce
    with Cons.prems(1) obtain e es where d: "d = e # es" "elems m a = Some e" "holds hf (table m) ((a, k) # ks)"
      "list_all2 (entry_at m) ks es" "distinct (map d_regexp_src es)"
      by (auto simp: table_holds_def list_all2_Cons1 entry_at_def)
    from HASH_DELETE_ok [of hf "table m" "[]" a k ks] d(3) obtain s x where
      s: "HASH_DELETE a (table m) = Some s" "holds hf s ks" "hhs s a = Some x"
        "app_next x = (case ks of [] \<Rightarrow> 0 | (b, _) # _ \<Rightarrow> b)" by auto
    let ?m = "m\<lparr>table := s, elems := (elems m)(a \<mapsto> e\<lparr>d_clientList := [], d_binding := None\<rparr>)\<rparr>"
    have "a \<notin> fst ` set ks" using holds_distinct [OF d(3)] by simp
    then have "list_all2 (entry_at ?m) ks es" by (intro entry_at_frame [OF d(4)]) auto
    then have "table_holds hf ?m ks es" using s(2) d(5) by (simp add: table_holds_def)
    from Cons.IH [OF this s(4)] show ?case
      using s d(2) holds_nonzero [OF d(3), of a k] Cons.prems(2)
      by (subst tbl_delAllRegexps.simps) (simp add: ak)
  qed
  then show ?thesis using assms holds_head [of hf "table m" ks] by (simp add: table_holds_def)
qed

section \<open>Adding\<close>

text \<open>Sending does not look at the dictionary.\<close>

lemma congest_mess:
  fixes s :: ivy
  shows "congest c b (s\<lparr>messSndByRegexp := d\<rparr>) = bindR (congest c b s) (\<lambda>(st, t). Inr (st, t\<lparr>messSndByRegexp := d\<rparr>))"
  by (auto simp: congest_def deref_def on_loop_def set_sock_def bindR_def split: option.splits sum.splits)

lemma raw_mess:
  fixes s :: ivy
  shows "BufferizedSocketSendRaw c b (s\<lparr>messSndByRegexp := d\<rparr>) =
     bindR (BufferizedSocketSendRaw c b s) (\<lambda>(st, t). Inr (st, t\<lparr>messSndByRegexp := d\<rparr>))"
proof -
  have n: "s\<lparr>messSndByRegexp := d, net := n\<rparr> = s\<lparr>net := n, messSndByRegexp := d\<rparr>" for n by simp
  show ?thesis
  by (auto simp: BufferizedSocketSendRaw_def deref_def set_sock_def congest_mess Let_def n bindR_def split: option.splits sum.splits prod.splits)
qed

lemma MsgSendTo_mess:
  "MsgSendTo p c t i m (s\<lparr>messSndByRegexp := d\<rparr>) = bindR (MsgSendTo p c t i m s) (\<lambda>(st, t). Inr (st, t\<lparr>messSndByRegexp := d\<rparr>))"
  by (auto simp: MsgSendTo_def SocketSend_def SocketSendRaw_def raw_mess bindR_def emit_if_def emit_def split: sum.splits)

lemma new_entry_mess:
  "new_entry rx r cl (s\<lparr>messSndByRegexp := d\<rparr>) = bindR (new_entry rx r cl s) (\<lambda>(e, t). Inr (e, t\<lparr>messSndByRegexp := d\<rparr>))"
  by (auto simp: new_entry_def msg_to_def MsgSendTo_mess bindR_def Let_def split: sum.splits)

lemma new_entry_fields: "new_entry rx r cl s = Inr (e, t) \<Longrightarrow> d_regexp_src e = r \<and> messSndByRegexp t = messSndByRegexp s"
  by (auto simp: new_entry_def bindR_eq_Inr Let_def split: sum.splits if_splits dest!: msg_to_talk talk_fields(2))

lemma subscribe_other: "r \<notin> d_regexp_src ` set d \<Longrightarrow> subscribe r dc d = d"
  by (induction d) (auto simp: subscribe_def)

lemma subscribe_append: "subscribe r dc (xs @ ys) = subscribe r dc xs @ subscribe r dc ys"
  by (simp add: subscribe_def)

lemma subscribe_in_table:
  assumes "table_holds hf m ks d" and "ks = us @ (a, r) # vs" and "d = ds @ e # es" and "list_all2 (entry_at m) us ds"
  shows "elems m a = Some e" and "table_holds hf (m\<lparr>elems := (elems m)(a \<mapsto> e\<lparr>d_clientList := dc # d_clientList e\<rparr>)\<rparr>) ks (subscribe r dc d)"
proof -
  let ?m = "m\<lparr>elems := (elems m)(a \<mapsto> e\<lparr>d_clientList := dc # d_clientList e\<rparr>)\<rparr>"
  have h: "holds hf (table m) ks" "list_all2 (entry_at m) (us @ (a, r) # vs) (ds @ e # es)" "distinct (map d_regexp_src d)"
    using assms(1-3) by (simp_all add: table_holds_def)
  have parts: "entry_at m (a, r) e" "list_all2 (entry_at m) vs es"
    using h(2) assms(4) list_all2_lengthD [OF assms(4)] by (simp_all add: list_all2_append)
  then show e: "elems m a = Some e" by (simp add: entry_at_def)
  have r: "d_regexp_src e = r" using parts(1) by (simp add: entry_at_def)
  have "a \<notin> fst ` set us \<and> a \<notin> fst ` set vs" using holds_distinct [OF h(1)] assms(2) by force
  moreover have "elems ?m b = elems m b" if "b \<noteq> a" for b using that by simp
  ultimately have "\<forall>b \<in> fst ` set us. elems ?m b = elems m b" "\<forall>b \<in> fst ` set vs. elems ?m b = elems m b" by metis+
  then have sides: "list_all2 (entry_at ?m) us ds" "list_all2 (entry_at ?m) vs es"
    using entry_at_frame assms(4) parts(2) by blast+
  have "r \<notin> d_regexp_src ` set ds" "r \<notin> d_regexp_src ` set es" using h(3) r by (auto simp: assms(3))
  then have d: "subscribe r dc d = ds @ e\<lparr>d_clientList := dc # d_clientList e\<rparr> # es"
    using subscribe_other [of r ds dc] subscribe_other [of r es dc] r by (simp add: assms(3) subscribe_def)
  have "entry_at ?m (a, r) (e\<lparr>d_clientList := dc # d_clientList e\<rparr>)" using r by (simp add: entry_at_def)
  then show "table_holds hf ?m ks (subscribe r dc d)"
    using h(1,3) sides r unfolding d by (simp add: table_holds_def assms(2,3) list_all2_appendI)
qed

lemma add_entry:
  assumes "table_holds hf m ks d" and "hash_find r d = None" and "d_regexp_src e = r"
    and "a \<noteq> 0" and "elems m a = None" and "hash_room r (table m)"
  shows "\<exists>t. HASH_ADD_KEYPTR hf r a (table m) = Some t \<and>
    table_holds hf (m\<lparr>table := t, elems := (elems m)(a \<mapsto> e)\<rparr>) (ks @ [(a, r)]) (d @ [e])"
proof -
  have h: "holds hf (table m) ks" "list_all2 (entry_at m) ks d" "distinct (map d_regexp_src d)"
    using assms(1) by (simp_all add: table_holds_def)
  have a: "a \<notin> fst ` set ks"
  proof
    assume "a \<in> fst ` set ks"
    then obtain i where i: "i < length ks" "fst (ks ! i) = a" by (auto simp: in_set_conv_nth)
    then have "entry_at m (ks ! i) (d ! i)" using h(2) by (simp add: list_all2_conv_all_nth)
    then show False using assms(5) i(2) by (auto simp: entry_at_def split: prod.splits)
  qed
  from hash.add_key [OF h(1) assms(4) a assms(6)]
  obtain t where t: "HASH_ADD_KEYPTR hf r a (table m) = Some t" "holds hf t (ks @ [(a, r)])" by blast
  let ?m = "m\<lparr>table := t, elems := (elems m)(a \<mapsto> e)\<rparr>"
  have "list_all2 (entry_at ?m) ks d" using a by (intro entry_at_frame [OF h(2)]) auto
  moreover have "r \<notin> d_regexp_src ` set d" using assms(2) by (simp add: hash_find_None)
  ultimately show ?thesis using t h(3) assms(3) by (auto simp: table_holds_def entry_at_def intro: list_all2_appendI)
qed

text \<open>
  The state of the library \<open>s\<close> with the table in the memory \<open>m\<close>, and the state \<open>t\<close> with the dictionary
  as a list: they agree otherwise.
\<close>

definition on_table :: "(string \<Rightarrow> 32 word) \<Rightarrow> ivy \<Rightarrow> dict_mem \<Rightarrow> ivy \<Rightarrow> bool" where
  "on_table hf s m t \<longleftrightarrow> (\<exists>ks d. t = s\<lparr>messSndByRegexp := d\<rparr> \<and> table_holds hf m ks d)"

lemma on_tableI: "table_holds hf m ks d \<Longrightarrow> on_table hf s m (s\<lparr>messSndByRegexp := d\<rparr>)"
  by (auto simp: on_table_def)

definition add_room :: "nat \<Rightarrow> string \<Rightarrow> dict_mem \<Rightarrow> bool" where
  "add_room a r m \<longleftrightarrow> a \<noteq> 0 \<and> elems m a = None \<and> hash_room r (table m)"

lemma add_ok:
  assumes "on_table hf s m t" and "HASH_FIND hf r (table m) = Some 0 \<Longrightarrow> add_room a r m"
  shows "case addRegexpToDictionary rx r cl t of Inl ub \<Rightarrow> tbl_addRegexpToDictionary hf rx a r cl s m = Inl ub
    | Inr t' \<Rightarrow> \<exists>s' m'. tbl_addRegexpToDictionary hf rx a r cl s m = Inr (s', m') \<and> on_table hf s' m' t'"
proof -
  obtain ks d where t: "t = s\<lparr>messSndByRegexp := d\<rparr>" "table_holds hf m ks d" using assms(1) by (auto simp: on_table_def)
  note f = element_of_entry [OF t(2), of r]
  show ?thesis
  proof (cases "hash_find r d")
    case (Some e)
    from f(3) [OF Some] obtain p us vs ds es where p: "element_of r ks = p" "p \<noteq> 0" "ks = us @ (p, r) # vs"
      "d = ds @ e # es" "list_all2 (entry_at m) us ds" by blast
    note sub = subscribe_in_table(1) [OF t(2) p(3-5)] subscribe_in_table(2) [OF t(2) p(3-5), of "dict_client cl"]
    have "addRegexpToDictionary rx r cl t = Inr (s\<lparr>messSndByRegexp := subscribe r (dict_client cl) d\<rparr>)"
      using Some t(1) by (simp add: addRegexpToDictionary_def)
    moreover have "tbl_addRegexpToDictionary hf rx a r cl s m =
        Inr (s, m\<lparr>elems := (elems m)(p \<mapsto> e\<lparr>d_clientList := dict_client cl # d_clientList e\<rparr>)\<rparr>)"
      using f(1) p(1,2) sub(1) by (simp add: tbl_addRegexpToDictionary_def at_ptr_def)
    ultimately show ?thesis using sub(2) by (auto simp: on_table_def)
  next
    case None
    have found: "HASH_FIND hf r (table m) = Some 0" using f(1,2) None by simp
    show ?thesis
    proof (cases "new_entry rx r cl s")
      case (Inl ub)
      then show ?thesis using None t(1) found
        by (simp add: addRegexpToDictionary_def tbl_addRegexpToDictionary_def at_ptr_def new_entry_mess)
    next
      case (Inr es)
      then obtain e u where e: "new_entry rx r cl s = Inr (e, u)" by (cases es) auto
      have r: "d_regexp_src e = r" using new_entry_fields [OF e] by simp
      from add_entry [OF t(2) None r] assms(2) [OF found] obtain h where h: "HASH_ADD_KEYPTR hf r a (table m) = Some h"
        "table_holds hf (m\<lparr>table := h, elems := (elems m)(a \<mapsto> e)\<rparr>) (ks @ [(a, r)]) (d @ [e])"
        by (auto simp: add_room_def)
      let ?m = "m\<lparr>table := h, elems := (elems m)(a \<mapsto> e)\<rparr>"
      have "list_all2 (entry_at ?m) ks d"
        using h(2) list_all2_append [of ks d "entry_at ?m" "[(a, r)]" "[e]"] list_all2_lengthD [of _ "ks @ [(a, r)]" "d @ [e]"]
        by (fastforce simp: table_holds_def)
      note sub = subscribe_in_table(1) [OF h(2) refl refl this] subscribe_in_table(2) [OF h(2) refl refl this, of "dict_client cl"]
      have "addRegexpToDictionary rx r cl t = Inr (u\<lparr>messSndByRegexp := subscribe r (dict_client cl) (d @ [e])\<rparr>)"
        using None t(1) e by (simp add: addRegexpToDictionary_def new_entry_mess)
      moreover have "tbl_addRegexpToDictionary hf rx a r cl s m =
          Inr (u, ?m\<lparr>elems := (elems ?m)(a \<mapsto> e\<lparr>d_clientList := dict_client cl # d_clientList e\<rparr>)\<rparr>)"
        using found e h(1) by (simp add: tbl_addRegexpToDictionary_def at_ptr_def)
      ultimately show ?thesis using sub(2) by (auto simp: on_table_def)
    qed
  qed
qed

section \<open>Any sequence of operations\<close>

text \<open>
  What the library does with its dictionary: a subscription is added (with what \<open>malloc\<close> would answer),
  the subscription of a client under an id is taken away, a client is taken away, all entries are.
  \<open>changeRegexpInDictionary\<close> is the second followed by the first.
\<close>

datatype dict_op = AddOp nat string clnt | DelOp string nat int | PurgeOp nat | ClearOp

fun list_op :: "regex_engine \<Rightarrow> dict_op \<Rightarrow> ivy \<Rightarrow> ivy res" where
  "list_op rx (AddOp a r cl) s = addRegexpToDictionary rx r cl s"
| "list_op rx (DelOp r c i) s = Inr (s\<lparr>messSndByRegexp := delRegexpForOneClientFromDictionary r c i (messSndByRegexp s)\<rparr>)"
| "list_op rx (PurgeOp c) s = Inr (s\<lparr>messSndByRegexp := purge_client c (messSndByRegexp s)\<rparr>)"
| "list_op rx ClearOp s = Inr (delAllRegexpsFromDictionary s)"

fun tbl_op :: "(string \<Rightarrow> 32 word) \<Rightarrow> regex_engine \<Rightarrow> dict_op \<Rightarrow> ivy \<times> dict_mem \<Rightarrow> (ivy \<times> dict_mem) res" where
  "tbl_op hf rx (AddOp a r cl) (s, m) = tbl_addRegexpToDictionary hf rx a r cl s m"
| "tbl_op hf rx (DelOp r c i) (s, m) =
     bindR (at_ptr (tbl_delRegexpForOneClientFromDictionary hf r c i m)) (\<lambda>m. Inr (s, m))"
| "tbl_op hf rx (PurgeOp c) (s, m) = bindR (at_ptr (tbl_purge_client c (hash_head (table m)) m)) (\<lambda>m. Inr (s, m))"
| "tbl_op hf rx ClearOp (s, m) = bindR (at_ptr (tbl_delAllRegexps (hash_head (table m)) m)) (\<lambda>m. Inr (s, m))"

lemma tbl_change: "tbl_changeRegexpInDictionary hf rx a r cl s m = foldR (tbl_op hf rx) [DelOp r (c_client cl) (c_id cl), AddOp a r cl] (s, m)"
  by (cases "tbl_delRegexpForOneClientFromDictionary hf r (c_client cl) (c_id cl) m";
      cases "tbl_addRegexpToDictionary hf rx a r cl s (the (tbl_delRegexpForOneClientFromDictionary hf r (c_client cl) (c_id cl) m))")
    (simp_all add: tbl_changeRegexpInDictionary_def at_ptr_def)

text \<open>When an entry is made, its address is a free one and the table can take one more.\<close>

definition op_room :: "(string \<Rightarrow> 32 word) \<Rightarrow> dict_op \<Rightarrow> dict_mem \<Rightarrow> bool" where
  "op_room hf op m = (case op of AddOp a r cl \<Rightarrow> HASH_FIND hf r (table m) = Some 0 \<longrightarrow> add_room a r m | _ \<Rightarrow> True)"

fun room_at_adds :: "(string \<Rightarrow> 32 word) \<Rightarrow> regex_engine \<Rightarrow> dict_op list \<Rightarrow> ivy \<times> dict_mem \<Rightarrow> bool" where
  "room_at_adds hf rx [] sm = True"
| "room_at_adds hf rx (op # ops) sm \<longleftrightarrow>
     op_room hf op (snd sm) \<and>
     (case tbl_op hf rx op sm of Inl _ \<Rightarrow> True | Inr sm' \<Rightarrow> room_at_adds hf rx ops sm')"

lemma op_ok:
  assumes "on_table hf s m t" and "op_room hf op m"
  shows "case list_op rx op t of Inl ub \<Rightarrow> tbl_op hf rx op (s, m) = Inl ub
    | Inr t' \<Rightarrow> \<exists>s' m'. tbl_op hf rx op (s, m) = Inr (s', m') \<and> on_table hf s' m' t'"
proof -
  obtain ks d where t: "t = s\<lparr>messSndByRegexp := d\<rparr>" "table_holds hf m ks d" using assms(1) by (auto simp: on_table_def)
  show ?thesis
  proof (cases op)
    case (AddOp a r cl)
    then show ?thesis using add_ok [OF assms(1), of r a rx cl] assms(2) by (simp add: op_room_def split: sum.splits)
  next
    case (DelOp r c i)
    then show ?thesis using del_one [OF t(2), of r c i] by (auto simp: t(1) at_ptr_def intro: on_tableI)
  next
    case (PurgeOp c)
    then show ?thesis using purge_ok [OF t(2), of c] by (auto simp: t(1) at_ptr_def intro: on_tableI)
  next
    case ClearOp
    then show ?thesis using clear_ok [OF t(2)] by (auto simp: t(1) at_ptr_def intro: on_tableI simp: delAllRegexpsFromDictionary_def)
  qed
qed

lemma ops_ok:
  assumes "on_table hf s m t" and "room_at_adds hf rx ops (s, m)"
  shows "case foldR (list_op rx) ops t of Inl ub \<Rightarrow> foldR (tbl_op hf rx) ops (s, m) = Inl ub
    | Inr t' \<Rightarrow> \<exists>s' m'. foldR (tbl_op hf rx) ops (s, m) = Inr (s', m') \<and> on_table hf s' m' t'"
  using assms
proof (induction ops arbitrary: s m t)
  case (Cons op ops)
  from Cons.prems(2) have o: "op_room hf op m" by simp
  show ?case
  proof (cases "list_op rx op t")
    case (Inl ub)
    then show ?thesis using op_ok [OF Cons.prems(1) o, of rx] by simp
  next
    case (Inr t')
    with op_ok [OF Cons.prems(1) o, of rx] obtain s' m' where "tbl_op hf rx op (s, m) = Inr (s', m')" "on_table hf s' m' t'"
      by auto
    then show ?thesis using Cons.IH [of s' m' t'] Cons.prems(2) Inr by (simp split: sum.splits)
  qed
qed simp

text \<open>
  C21: the dictionary on the hash table. From the empty dictionary on, any sequence of the operations of
  the library, run on the table and the structures in memory, does what it does on the list of entries:
  it is undefined in the same cases, it sends the same messages, no structure is used after it was freed,
  the loops over the table visit the entries in the order of the list and a search finds the same entry.
\<close>
theorem dictionary_runs_on_the_table:
  assumes "messSndByRegexp s = []" and "room_at_adds HASH_JEN rx ops (s, no_entries)"
  shows "case foldR (list_op rx) ops s of Inl ub \<Rightarrow> foldR (tbl_op HASH_JEN rx) ops (s, no_entries) = Inl ub
    | Inr t \<Rightarrow> \<exists>s' m. foldR (tbl_op HASH_JEN rx) ops (s, no_entries) = Inr (s', m) \<and>
        t = s'\<lparr>messSndByRegexp := messSndByRegexp t\<rparr> \<and> tbl_entries m = Some (messSndByRegexp t) \<and>
        (\<forall>r. tbl_lookup HASH_JEN r m = Some (hash_find r (messSndByRegexp t)))"
proof -
  have "table_holds HASH_JEN no_entries [] []" by (simp add: table_holds_def no_entries_def holds_empty)
  moreover have "s = s\<lparr>messSndByRegexp := []\<rparr>" using assms(1) by simp
  ultimately have "on_table HASH_JEN s no_entries s" unfolding on_table_def by blast
  from ops_ok [OF this assms(2)] show ?thesis
    by (auto simp: on_table_def tbl_entries_ok tbl_lookup_ok split: sum.splits)
qed

text \<open>A client subscribes twice; one of its subscriptions is taken away, then another client is.\<close>

definition demo_ops :: "dict_op list" where
  "demo_ops = [AddOp 7 ''^a'' (demo_peer\<lparr>c_id := 3\<rparr>), AddOp 8 ''^b'' (demo_peer\<lparr>c_id := 4\<rparr>), DelOp ''^a'' 1 3, PurgeOp 2]"

lemma room_without_new:
  "\<forall>op \<in> set ops. case op of AddOp _ _ _ \<Rightarrow> False | _ \<Rightarrow> True \<Longrightarrow> room_at_adds hf rx ops sm"
  by (induction ops arbitrary: sm) (auto simp: op_room_def split: dict_op.splits sum.splits)

lemma first_add:
  assumes "new_entry rx r cl s = Inr (e, u)" and "a \<noteq> 0" and "length r < 4294967296"
  shows "\<exists>h. tbl_addRegexpToDictionary hf rx a r cl s no_entries =
      Inr (u, \<lparr>table = h, elems = [a \<mapsto> e\<lparr>d_clientList := dict_client cl # d_clientList e\<rparr>]\<rparr>) \<and>
    (length r' < 4294967296 \<longrightarrow> hash_room r' h)"
proof -
  have "HASH_TO_BKT (hf r) 32 < 32" using HASH_TO_BKT_less [of 5 "hf r"] by simp
  then obtain h t where h: "HASH_ADD_KEYPTR hf r a empty_hash = Some h" "hash_tbl h = Some t" "num_items t = 1" "num_buckets t = 32"
    by (simp add: HASH_ADD_KEYPTR_def empty_hash_def HASH_MAKE_TABLE_def HASH_ADD_TO_BKT_def empty_bucket_def Let_def
        HASH_INITIAL_NUM_BUCKETS_def set_hh_def set_hh_if_def uint32_def HASH_BKT_CAPACITY_THRESH_def)
  then show ?thesis
    using assms by (simp add: tbl_addRegexpToDictionary_def at_ptr_def no_entries_def HASH_FIND_def empty_hash_def hash_room_def)
qed

lemma demo_ops_room: "room_at_adds hf token_engine demo_ops (demo_ivy (demo [] None) [] [] [], no_entries)"
proof -
  let ?s = "demo_ivy (demo [] None) [] [] []" and ?cl = "demo_peer\<lparr>c_id := 3\<rparr>"
  let ?e = "\<lparr>d_regexp_src = ''^a'', d_clientList = [], d_binding = Some \<lparr>bd_regexp = ''^a'', bd_nb_match = 0, bd_ovector = []\<rparr>\<rparr>"
  have "new_entry token_engine ''^a'' ?cl ?s = Inr (?e, ?s)"
    by (simp add: new_entry_def IvyBindingCompile_def token_engine_def)
  from first_add [OF this, of 7 hf "''^b''"] obtain h where
    "tbl_addRegexpToDictionary hf token_engine 7 ''^a'' ?cl ?s no_entries =
       Inr (?s, \<lparr>table = h, elems = [7 \<mapsto> ?e\<lparr>d_clientList := [dict_client ?cl]\<rparr>]\<rparr>)" "hash_room ''^b'' h" by auto
  then have one: "tbl_op hf token_engine (AddOp 7 ''^a'' ?cl) (?s, no_entries) =
       Inr (?s, \<lparr>table = h, elems = [7 \<mapsto> ?e\<lparr>d_clientList := [dict_client ?cl]\<rparr>]\<rparr>)" "hash_room ''^b'' h" by simp_all
  have rest: "room_at_adds hf token_engine [DelOp ''^a'' 1 3, PurgeOp 2] sm" for sm by (rule room_without_new) simp
  have "room_at_adds hf token_engine (AddOp 8 ''^b'' (demo_peer\<lparr>c_id := 4\<rparr>) # [DelOp ''^a'' 1 3, PurgeOp 2])
      (?s, \<lparr>table = h, elems = [7 \<mapsto> ?e\<lparr>d_clientList := [dict_client ?cl]\<rparr>]\<rparr>)"
    unfolding room_at_adds.simps(2) [of hf token_engine "AddOp _ _ _"]
    using rest one(2) by (simp add: op_room_def add_room_def split: sum.splits del: room_at_adds.simps(2) One_nat_def)
  then show ?thesis
    unfolding demo_ops_def room_at_adds.simps(2) [of hf token_engine "AddOp 7 _ _"] one(1)
    by (simp add: op_room_def add_room_def no_entries_def hash_room_def empty_hash_def del: room_at_adds.simps(2))
qed

theorem dictionary_runs_on_the_table_witness:
  "\<exists>s m e. foldR (tbl_op HASH_JEN token_engine) demo_ops (demo_ivy (demo [] None) [] [] [], no_entries) = Inr (s, m) \<and>
     tbl_entries m = Some [e] \<and> d_regexp_src e = ''^b'' \<and> map dc_id (d_clientList e) = [4] \<and>
     tbl_lookup HASH_JEN ''^a'' m = Some None"
proof -
  let ?s = "demo_ivy (demo [] None) [] [] []"
  have "\<exists>t. foldR (list_op token_engine) demo_ops ?s = Inr t \<and> map d_regexp_src (messSndByRegexp t) = [''^b''] \<and>
      map (map dc_id \<circ> d_clientList) (messSndByRegexp t) = [[4]]"
    by (simp add: demo_ops_def addRegexpToDictionary_def new_entry_def IvyBindingCompile_def token_engine_def hash_find_def
        subscribe_def dict_client_def demo_peer_def delRegexpForOneClientFromDictionary_def
        delOneIvyClientFromDictionaryEntry_def purge_client_def delOneClientFromDictionaryEntry_def purge_entry_def
        map_filter_simps)
  then obtain t e where t: "foldR (list_op token_engine) demo_ops ?s = Inr t" "messSndByRegexp t = [e]"
    "d_regexp_src e = ''^b''" "map dc_id (d_clientList e) = [4]" by auto
  have "messSndByRegexp ?s = []" by simp
  from dictionary_runs_on_the_table [OF this demo_ops_room] t show ?thesis
    by (auto simp: hash_find_def)
qed

end
