(* ===== verification/IvyRun.thy ===== *)
theory IvyRun
  imports IvySession
begin

text \<open>
  The core of \<open>ivy.c\<close> on the main loop of \<open>ivyloop.c\<close> and the timers of \<open>timer.c\<close>: the deletion
  of what was closed, the exceptional conditions, and the scan of the timers, by the contracts
  of the loop and of the timers interpreted on the state of the core.
\<close>

section \<open>Deletion leaves the loop alone\<close>

lemma delRegexp_frame:
  "\<exists>d cs. snd (delRegexpForOneClient cl i s) = s\<lparr>allClients := cs, messSndByRegexp := d\<rparr>"
proof (cases "find_by_socket (c_client cl) s")
  case None
  have "s = s\<lparr>allClients := allClients s, messSndByRegexp := messSndByRegexp s\<rparr>" by simp
  then show ?thesis unfolding delRegexpForOneClient_def None option.case snd_conv by blast
next
  case (Some x)
  have "upd_clnt p f (s\<lparr>messSndByRegexp := d\<rparr>) =
      s\<lparr>allClients := map (\<lambda>c. if c_ptr c = p then f c else c) (allClients s), messSndByRegexp := d\<rparr>" for p f d
    by (simp add: upd_clnt_def)
  then show ?thesis unfolding delRegexpForOneClient_def Some option.case Let_def snd_conv by blast
qed

lemma delOneClient_frame:
  assumes "delOneClient client s = Inr t"
  shows "\<exists>d cs. t = s\<lparr>allClients := cs, messSndByRegexp := d\<rparr>"
proof -
  define I where "I u \<longleftrightarrow> (\<exists>d cs. u = s\<lparr>allClients := cs, messSndByRegexp := d\<rparr>)" for u
  have I_simps: "s\<lparr>allClients := cs, messSndByRegexp := d\<rparr>\<lparr>allClients := cs'\<rparr> =
        s\<lparr>allClients := cs', messSndByRegexp := d\<rparr>"
      "s\<lparr>allClients := cs, messSndByRegexp := d\<rparr>\<lparr>messSndByRegexp := d'\<rparr> =
        s\<lparr>allClients := cs, messSndByRegexp := d'\<rparr>" for cs d cs' d' by simp_all
  have I_upd: "I u \<Longrightarrow> I (u\<lparr>allClients := cs'\<rparr>)" "I u \<Longrightarrow> I (u\<lparr>messSndByRegexp := d'\<rparr>)" for u cs' d'
    unfolding I_def using I_simps by blast+
  have reg: "I u \<Longrightarrow> drop_reg p a u = Inr v \<Longrightarrow> I v" for p a u v
  proof -
    assume "I u" and run: "drop_reg p a u = Inr v"
    then obtain d cs where u: "u = s\<lparr>allClients := cs, messSndByRegexp := d\<rparr>" by (auto simp: I_def)
    from run obtain c :: clnt and i where v: "v = snd (delRegexpForOneClient c i u)"
      by (auto simp: drop_reg_def split: option.splits)
    obtain d' cs' where "snd (delRegexpForOneClient c i u) = u\<lparr>allClients := cs', messSndByRegexp := d'\<rparr>"
      using delRegexp_frame by blast
    then have "v = s\<lparr>allClients := cs', messSndByRegexp := d'\<rparr>" by (simp only: u v) simp
    then show "I v" unfolding I_def by blast
  qed
  have client: "I v" if I: "I u" and run: "drop_client client p u = Inr v" for p u v
  proof (cases "v = u")
    case False
    with run obtain w where w: "IVY_LIST_EACH_SAFE (reg_addrs p) (drop_reg p) u = Inr w"
      "v = w\<lparr>allClients := filter (\<lambda>c. c_ptr c \<noteq> p) (allClients w)\<rparr>"
      by (auto simp: drop_client_def bindR_eq_Inr split: option.splits if_splits)
    from w(1) I have "I w" unfolding IVY_LIST_EACH_SAFE_def by (rule each_safe_invariant) (rule reg)
    then show ?thesis unfolding w(2) by (rule I_upd)
  qed (use I in simp)
  from assms obtain u where u: "IVY_LIST_EACH_SAFE client_ptrs (drop_client client) s = Inr u"
    "t = u\<lparr>messSndByRegexp := purge_client client (messSndByRegexp u)\<rparr>"
    by (auto simp: delOneClient_def bindR_eq_Inr)
  have "s = s\<lparr>allClients := allClients s, messSndByRegexp := messSndByRegexp s\<rparr>" by simp
  then have "I s" unfolding I_def by blast
  from u(1) this have "I u" unfolding IVY_LIST_EACH_SAFE_def by (rule each_safe_invariant) (rule client)
  then have "I t" unfolding u(2) by (rule I_upd)
  then show ?thesis unfolding I_def .
qed

lemma ClientDelete_frame:
  assumes "ClientDelete c d s = Inr t"
  shows "lp t = lp s" "socks t = socks s" "clients_list t = clients_list s"
  using delOneClient_frame [OF assms [unfolded ClientDelete_def]] by (auto simp: emit_if_def emit_def)

lemma DeleteSocket_frame:
  assumes "DeleteSocket ClientDelete c s = Inr t"
  obtains k where "socks s c = Some k" "lp t = lp s"
    "socks t = (if c \<in> set (clients_list s) then (socks s)(c := None) else (socks s)(c \<mapsto> k\<lparr>sk_ifb := None\<rparr>))"
    "clients_list t = remove1 c (clients_list s)"
proof -
  from assms obtain k u ku where u: "socks s c = Some k"
    "(if sk_handle_delete k then ClientDelete c (sk_data k) s else Inr s) = Inr u" "socks u c = Some ku"
    "t = unlink_client c (set_sock c (ku\<lparr>sk_ifb := None\<rparr>) (u\<lparr>closed_fds := sk_fd ku # closed_fds u\<rparr>))"
    by (auto simp: DeleteSocket_def deref_eq_Inr bindR_eq_Inr)
  have fr: "lp u = lp s" "socks u = socks s" "clients_list u = clients_list s"
    using u(2) ClientDelete_frame by (auto split: if_splits)
  then have "ku = k" using u(1,3) by simp
  show thesis
    by (rule that [OF u(1)])
      (simp_all add: u(4) fr unlink_client_def set_sock_def \<open>ku = k\<close> remove1_idem)
qed

lemma ivy_delete_lp: "ivy_delete d s = Inr t \<Longrightarrow> lp t = lp s"
  by (cases d) (auto simp: ivy_delete_def DeleteServerSocket_def split: option.splits elim: DeleteSocket_frame)

interpretation loops: loop_client lp upd_lp ivy_delete
  by unfold_locales (auto simp: upd_lp_def ivy_delete_lp)

section \<open>A turn of the loop frees what was closed\<close>

text \<open>
  The nodes and the dictionary can be taken apart, and no peer has two patterns under one id
  (otherwise the traversal of its patterns dangles).
\<close>

definition deletable :: "ivy \<Rightarrow> bool" where
  "deletable s \<longleftrightarrow> clients_inv s \<and> dict_inv (messSndByRegexp s) \<and>
     (\<forall>x \<in> set (allClients s). distinct (map gr_id (c_srcRegList x)))"

text \<open>What a channel refers to is still allocated.\<close>

definition live :: "chan_data \<Rightarrow> ivy \<Rightarrow> bool" where
  "live d s \<longleftrightarrow> (case d of
     ClientData c \<Rightarrow> c \<noteq> 0 \<and> c \<in> set (clients_list s) \<and> map_option sk_handle_delete (socks s c) = Some True
   | ServerData v \<Rightarrow> servers s v \<noteq> None)"

definition freed :: "chan_data set \<Rightarrow> ivy \<Rightarrow> ivy \<Rightarrow> bool" where
  "freed D s t \<longleftrightarrow> deletable t \<and>
     (\<forall>c. socks t c = (if ClientData c \<in> D then None else socks s c)) \<and>
     (\<forall>v. servers t v = (if ServerData v \<in> D then None else servers s v)) \<and>
     (\<forall>c \<in> set (clients_list s). ClientData c \<in> D \<or> c \<in> set (clients_list t)) \<and>
     allClients t = filter (\<lambda>x. ClientData (c_client x) \<notin> D) (allClients s) \<and>
     subs (messSndByRegexp t) = {x \<in> subs (messSndByRegexp s). ClientData (fst (snd x)) \<notin> D}"

lemma delOneClient_any:
  assumes "deletable s"
  shows "\<exists>d. delOneClient c s = Inr (s\<lparr>messSndByRegexp := d,
             allClients := filter (\<lambda>x. c_client x \<noteq> c) (allClients s)\<rparr>) \<and>
           dict_inv d \<and> subs d = {x \<in> subs (messSndByRegexp s). fst (snd x) \<noteq> c}"
proof (cases "\<exists>x \<in> set (allClients s). c_client x = c")
  case True
  with assms show ?thesis using delOneClient_ok by (auto simp: deletable_def)
next
  case False
  have inv: "clients_inv s" "dict_inv (messSndByRegexp s)" using assms by (simp_all add: deletable_def)
  from False have all: "filter (\<lambda>x. c_client x \<noteq> c) (allClients s) = allClients s"
    by (auto simp: filter_id_conv)
  have "foldR (drop_client c) (map c_ptr (allClients s)) s = Inr s"
    using False by (intro drop_others [OF inv(1)]) auto
  then have "delOneClient c s = Inr (s\<lparr>messSndByRegexp := purge_client c (messSndByRegexp s)\<rparr>)"
    by (simp add: delOneClient_def drop_clients_foldR [OF inv(1)] client_ptrs_def)
  with purge_subs [OF inv(2), of c] show ?thesis unfolding all by auto
qed

lemma deletable_filter:
  assumes "deletable s" and "dict_inv d" and "allClients t = filter P (allClients s)"
    and "messSndByRegexp t = d" and "fresh t = fresh s"
  shows "deletable t"
  using assms by (auto simp: deletable_def clients_inv_def distinct_map_fst_filter)

lemma ivy_delete_ok:
  assumes "deletable s" and "live d s"
  shows "\<exists>t. ivy_delete d s = Inr t \<and> freed {d} s t"
proof (cases d)
  case (ServerData v)
  with assms(2) obtain x where x: "servers s v = Some x" by (auto simp: live_def)
  let ?t = "s\<lparr>closed_fds := sv_fd x # closed_fds s, servers_list := remove1 v (servers_list s),
      servers := (servers s)(v := None)\<rparr>"
  have "ivy_delete d s = Inr ?t" using x by (simp add: ServerData ivy_delete_def DeleteServerSocket_def)
  moreover have "deletable ?t" using assms(1) by (simp add: deletable_def clients_inv_def)
  ultimately show ?thesis by (auto simp: freed_def ServerData)
next
  case (ClientData c)
  with assms(2) obtain k where k: "socks s c = Some k" "sk_handle_delete k" "c \<in> set (clients_list s)" "c \<noteq> 0"
    by (auto simp: live_def)
  let ?s = "emit_if (app_cb s) (AppEvent (AppNode (sk_data k)) IvyApplicationDisconnected) s"
  have s: "deletable ?s" "allClients ?s = allClients s" "messSndByRegexp ?s = messSndByRegexp s"
    "socks ?s = socks s" "clients_list ?s = clients_list s" "servers ?s = servers s"
    using assms(1) by (simp_all add: deletable_def clients_inv_def emit_if_def emit_def)
  from delOneClient_any [OF s(1), of c] obtain e where e:
    "delOneClient c ?s = Inr (?s\<lparr>messSndByRegexp := e,
       allClients := filter (\<lambda>x. c_client x \<noteq> c) (allClients s)\<rparr>)"
    "dict_inv e" "subs e = {x \<in> subs (messSndByRegexp s). fst (snd x) \<noteq> c}"
    unfolding s(2,3) by blast
  define u where "u = ?s\<lparr>messSndByRegexp := e, allClients := filter (\<lambda>x. c_client x \<noteq> c) (allClients s)\<rparr>"
  have u: "ClientDelete c (sk_data k) s = Inr u" "socks u = socks s" "clients_list u = clients_list s"
    "servers u = servers s" "allClients u = filter (\<lambda>x. c_client x \<noteq> c) (allClients s)"
    "messSndByRegexp u = e" "fresh u = fresh ?s"
    using e(1) s by (simp_all add: ClientDelete_def u_def)
  define t where "t = unlink_client c (set_sock c (k\<lparr>sk_ifb := None\<rparr>) (u\<lparr>closed_fds := sk_fd k # closed_fds u\<rparr>))"
  have t: "socks t = (socks s)(c := None)" "clients_list t = remove1 c (clients_list s)"
    "servers t = servers s" "allClients t = filter (\<lambda>x. c_client x \<noteq> c) (allClients s)"
    "messSndByRegexp t = e" "fresh t = fresh ?s"
    using u k(3) by (simp_all add: t_def unlink_client_def set_sock_def)
  have "ivy_delete d s = Inr t"
    using k u(1,2) by (simp add: ClientData ivy_delete_def DeleteSocket_def deref_def t_def)
  moreover have "deletable t"
    by (rule deletable_filter [OF s(1) e(2) _ t(5,6)]) (simp only: t(4) s(2))
  moreover have "\<forall>c' \<in> set (clients_list s). ClientData c' \<in> {d} \<or> c' \<in> set (clients_list t)"
    unfolding t(2) ClientData using in_set_remove1 by fastforce
  ultimately show ?thesis
    using t(1,3-5) e(3) by (simp add: freed_def ClientData)
qed


lemma freed_live: "freed D s t \<Longrightarrow> live d s \<Longrightarrow> d \<notin> D \<Longrightarrow> live d t"
  by (auto simp: freed_def live_def split: chan_data.splits)

lemma freed_trans:
  assumes "freed {d} s u" and "freed D u t"
  shows "freed (insert d D) s t"
proof -
  note f = assms [unfolded freed_def]
  have "deletable t" using f by blast
  moreover have "socks t c = (if ClientData c \<in> insert d D then None else socks s c)" for c
    using f by simp
  moreover have "servers t v = (if ServerData v \<in> insert d D then None else servers s v)" for v
    using f by simp
  moreover have "\<forall>c \<in> set (clients_list s). ClientData c \<in> insert d D \<or> c \<in> set (clients_list t)"
    using f by blast
  moreover have "allClients t = filter (\<lambda>x. ClientData (c_client x) \<notin> D)
      (filter (\<lambda>x. ClientData (c_client x) \<notin> {d}) (allClients s))" using f by simp
  then have "allClients t = filter (\<lambda>x. ClientData (c_client x) \<notin> insert d D) (allClients s)"
    unfolding filter_filter by (rule trans) (rule filter_cong, auto)
  moreover have "subs (messSndByRegexp t) = {x \<in> {x \<in> subs (messSndByRegexp s). ClientData (fst (snd x)) \<notin> {d}}.
      ClientData (fst (snd x)) \<notin> D}" using f by simp
  then have "subs (messSndByRegexp t) = {x \<in> subs (messSndByRegexp s). ClientData (fst (snd x)) \<notin> insert d D}"
    by (rule trans) auto
  ultimately show ?thesis unfolding freed_def by blast
qed

lemma foldR_delete_ok:
  assumes "deletable s" and "distinct (map ch_data cs)"
    and "\<forall>ch \<in> set cs. ch_delete ch \<and> live (ch_data ch) s"
  shows "\<exists>t. foldR (IvyChannelDelete upd_lp ivy_delete) cs s = Inr t \<and> freed (ch_data ` set cs) s t"
  using assms
proof (induction cs arbitrary: s)
  case Nil
  then show ?case by (simp add: freed_def)
next
  case (Cons ch cs)
  have ch: "ch_delete ch" "live (ch_data ch) s" using Cons.prems(3) by simp_all
  from ivy_delete_ok [OF Cons.prems(1) ch(2)] obtain u where
    u: "ivy_delete (ch_data ch) s = Inr u" "freed {ch_data ch} s u" by blast
  let ?u = "upd_lp (unlink_channel ch) u"
  have eqs: "socks ?u = socks u" "servers ?u = servers u" "clients_list ?u = clients_list u"
    "allClients ?u = allClients u" "messSndByRegexp ?u = messSndByRegexp u" by (simp_all add: upd_lp_def)
  have "deletable u" using u(2) by (simp only: freed_def)
  then have fu2: "deletable ?u" by (simp add: deletable_def clients_inv_def upd_lp_def)
  have fu: "freed {ch_data ch} s ?u" "deletable ?u"
    using u(2) fu2 unfolding freed_def eqs by blast+
  have other: "ch_data c \<notin> {ch_data ch}" if "c \<in> set cs" for c
    using imageI [OF that, of ch_data] Cons.prems(2) by (simp only: list.simps distinct.simps set_map) auto
  have "distinct (map ch_data cs)" using Cons.prems(2) by simp
  moreover have "\<forall>c \<in> set cs. ch_delete c \<and> live (ch_data c) ?u"
  proof
    fix c assume "c \<in> set cs"
    with Cons.prems(3) freed_live [OF fu(1) _ other] show "ch_delete c \<and> live (ch_data c) ?u" by simp
  qed
  ultimately obtain t where
    t: "foldR (IvyChannelDelete upd_lp ivy_delete) cs ?u = Inr t" "freed (ch_data ` set cs) ?u t"
    using Cons.IH [OF fu(2)] by blast
  have "IvyChannelDelete upd_lp ivy_delete ch s = Inr ?u"
    using u(1) ch(1) by (simp add: IvyChannelDelete_def)
  with t(1) have "foldR (IvyChannelDelete upd_lp ivy_delete) (ch # cs) s = Inr t" by simp
  with freed_trans [OF fu(1) t(2)] show ?case by (intro exI [of _ t]) simp
qed

lemma marked_iff:
  assumes "sock_inv s" and "\<forall>ch \<in> set (channels_list (lp s)). ch_tobedeleted ch \<longrightarrow> live (ch_data ch) s"
    and "distinct (map ch_data (channels_list (lp s)))"
  shows "ClientData c \<in> ch_data ` set (filter ch_tobedeleted (channels_list (lp s))) \<longleftrightarrow> marked c s"
proof
  assume "marked c s"
  then obtain k ch where k: "socks s c = Some k" "ch \<in> set (channels_list (lp s))" "ch_ptr ch = sk_channel k"
    "ch_tobedeleted ch" by (auto simp: marked_def)
  from sock_invD [OF assms(1) k(1)] obtain ch' where c': "ch' \<in> set (channels_list (lp s))"
    "ch_ptr ch' = sk_channel k" "ch_data ch' = ClientData c" by (auto simp: sock_ok_def)
  have "distinct (map ch_ptr (channels_list (lp s)))" using assms(1) by (simp add: sock_inv_def loop_inv_def)
  with k(2,3) c'(1,2) have "ch' = ch" by (simp add: distinct_map inj_on_def)
  with k(2,4) c'(3) show "ClientData c \<in> ch_data ` set (filter ch_tobedeleted (channels_list (lp s)))"
    by (auto intro!: image_eqI [of _ _ ch])
next
  assume "ClientData c \<in> ch_data ` set (filter ch_tobedeleted (channels_list (lp s)))"
  then obtain ch where ch: "ch \<in> set (channels_list (lp s))" "ch_tobedeleted ch" "ch_data ch = ClientData c" by auto
  with assms(2) obtain k where k: "socks s c = Some k" by (fastforce simp: live_def)
  from sock_invD [OF assms(1) k] obtain ch' where c': "ch' \<in> set (channels_list (lp s))"
    "ch_ptr ch' = sk_channel k" "ch_data ch' = ClientData c" by (auto simp: sock_ok_def)
  with ch assms(3) have "ch' = ch" by (simp add: distinct_map inj_on_def)
  with k ch(2) c' show "marked c s" by (auto simp: marked_def)
qed


text \<open>
  C15: what the application or the protocol closed is freed by the next turn of the loop, as long as
  no connected application has two patterns under one id. The deferred deletion returns then, unlinks
  exactly the marked channels, frees exactly the sockets of the marked clients, and takes their nodes
  and their subscriptions, and no others, out of the core. (A peer that sent two patterns under one
  id, as \<open>IvyChangeMsg\<close> makes it do, is deleted through a freed node instead, as \<open>IvySubscriptions\<close>
  shows.)
\<close>
theorem closed_clients_are_freed:
  assumes "sock_inv s" and "clients_inv s" and "dict_inv (messSndByRegexp s)"
    and "\<forall>x \<in> set (allClients s). distinct (map gr_id (c_srcRegList x))"
    and "distinct (map ch_data (channels_list (lp s)))"
    and "\<forall>ch \<in> set (channels_list (lp s)). ch_tobedeleted ch \<longrightarrow> ch_delete ch \<and> live (ch_data ch) s"
  shows "\<exists>t. ChannelDefferedDelete lp upd_lp ivy_delete s = Inr t \<and>
           channels_list (lp t) = filter (\<lambda>ch. \<not> ch_tobedeleted ch) (channels_list (lp s)) \<and>
           (\<forall>c. socks t c = (if marked c s then None else socks s c)) \<and>
           allClients t = filter (\<lambda>x. \<not> marked (c_client x) s) (allClients s) \<and>
           subs (messSndByRegexp t) = {x \<in> subs (messSndByRegexp s). \<not> marked (fst (snd x)) s}"
proof -
  let ?cs = "filter ch_tobedeleted (channels_list (lp s))"
  have del: "deletable s" using assms(2-4) by (simp add: deletable_def)
  have inv: "loop_inv (lp s)" using assms(1) by (simp add: sock_inv_def)
  have "distinct (map ch_data ?cs)" using assms(5) by (rule distinct_map_fst_filter)
  moreover have "\<forall>ch \<in> set ?cs. ch_delete ch \<and> live (ch_data ch) s" using assms(6) by simp
  ultimately obtain t where t: "foldR (IvyChannelDelete upd_lp ivy_delete) ?cs s = Inr t"
    "freed (ch_data ` set ?cs) s t" using foldR_delete_ok [OF del] by blast
  have run: "ChannelDefferedDelete lp upd_lp ivy_delete s = Inr t"
    unfolding loops.deferred_delete_foldR [OF inv] by (rule t(1))
  have "ClientData c \<in> ch_data ` set ?cs \<longleftrightarrow> marked c s" for c
    using assms(6) by (intro marked_iff [OF assms(1) _ assms(5)]) blast
  with t(2) loops.deferred_delete_get(1) [OF inv run] run show ?thesis
    unfolding freed_def by (intro exI [of _ t]) simp
qed

definition demo_closed :: ivy where
  "demo_closed = demo_subscribed\<lparr>lp := (lp demo_subscribed)\<lparr>channels_list :=
     [(demo_channel 2 7 (ClientData 1))\<lparr>ch_tobedeleted := True\<rparr>]\<rparr>\<rparr>"

theorem closed_clients_are_freed_witness:
  "\<exists>t. ChannelDefferedDelete lp upd_lp ivy_delete demo_closed = Inr t \<and> allClients t = [] \<and>
     subs (messSndByRegexp t) = {} \<and> socks t = Map.empty"
proof -
  have s: "sock_inv demo_closed"
    by (auto simp: demo_closed_def demo_subscribed_def sock_inv_def sock_ok_def loop_inv_def demo_def
        demo_sock_def demo_channel_def new_sock_def IVY_BUFFER_SIZE_def)
  have d: "deletable demo_closed"
    by (simp add: demo_closed_def demo_subscribed_def deletable_def demo_subscriber_def demo_peer_def
        clients_inv_def dict_inv_def demo_entry_def demo_def)
  have m: "marked c demo_closed \<longleftrightarrow> c = 1" for c
    by (auto simp: marked_def demo_closed_def demo_subscribed_def demo_def demo_sock_def new_sock_def demo_channel_def)
  have l: "distinct (map ch_data (channels_list (lp demo_closed)))"
    "\<forall>ch \<in> set (channels_list (lp demo_closed)). ch_tobedeleted ch \<longrightarrow> ch_delete ch \<and> live (ch_data ch) demo_closed"
    by (simp_all add: demo_closed_def demo_subscribed_def live_def demo_def demo_sock_def new_sock_def demo_channel_def)
  have e: "allClients demo_closed = [demo_subscriber]" "c_client demo_subscriber = 1"
    "subs (messSndByRegexp demo_closed) = {(''(.).*'', 1, 3)}" "\<forall>c. c \<noteq> 1 \<longrightarrow> socks demo_closed c = None"
    using demo_subscribed_eqs by (simp_all add: demo_closed_def demo_subscribed_def demo_def)
  from d have d: "clients_inv demo_closed" "dict_inv (messSndByRegexp demo_closed)"
    "\<forall>x \<in> set (allClients demo_closed). distinct (map gr_id (c_srcRegList x))" by (simp_all add: deletable_def)
  from closed_clients_are_freed [OF s d l] obtain t where
    "ChannelDefferedDelete lp upd_lp ivy_delete demo_closed = Inr t"
    "\<forall>c. socks t c = (if c = 1 then None else socks demo_closed c)"
    "allClients t = filter (\<lambda>x. c_client x \<noteq> 1) (allClients demo_closed)"
    "subs (messSndByRegexp t) = {x \<in> subs (messSndByRegexp demo_closed). fst (snd x) \<noteq> 1}"
    unfolding m by blast
  then show ?thesis using e by (intro exI [of _ t]) (auto intro!: ext)
qed

section \<open>An exception on a client's descriptor\<close>

lemma each_channel_single:
  assumes "loop_inv (get s)" and "ch \<in> set (channels_list (get s))"
    and skip: "\<And>c t. c \<in> set (channels_list (get s)) \<Longrightarrow> c \<noteq> ch \<Longrightarrow> body c t = Inr t"
    and keep: "\<And>c t u. body c t = Inr u \<Longrightarrow> get u = get t"
  shows "IVY_LIST_EACH_SAFE (channel_ptrs get) (with_channel get body) s = body ch s"
proof -
  let ?b = "with_channel get body"
  have d: "distinct (map ch_ptr (channels_list (get s)))" using assms(1) by (simp add: loop_inv_def)
  have run: "?b (ch_ptr c) t = body c t" if "c \<in> set (channels_list (get s))" "get t = get s" for c t
    using find_channel_unique [OF d that(1)] that(2) by (simp add: with_channel_def)
  have "set (channel_ptrs get t) - {p} \<subseteq> set (channel_ptrs get u)" if "?b p t = Inr u" for p t u
    using that keep by (auto simp: with_channel_def channel_ptrs_def split: option.splits)
  then have "IVY_LIST_EACH_SAFE (channel_ptrs get) ?b s = foldR ?b (channel_ptrs get s) s"
    unfolding IVY_LIST_EACH_SAFE_def using d by (intro each_safe_foldR) (auto simp: channel_ptrs_def)
  moreover have others: "foldR ?b (map ch_ptr cs) t = Inr t"
    if "set cs \<subseteq> set (channels_list (get s))" "ch \<notin> set cs" "get t = get s" for cs t
    using that
  proof (induction cs)
    case (Cons c cs)
    then have c: "c \<in> set (channels_list (get s))" "c \<noteq> ch" by auto
    from Cons show ?case by (simp add: run [OF c(1)] skip [OF c])
  qed simp
  obtain xs ys where xs: "channels_list (get s) = xs @ ch # ys" "ch \<notin> set xs" "ch \<notin> set ys"
    using assms(2) d by (metis distinct_map distinct.simps(2) distinct_append in_set_conv_decomp_first)
  have xs_ok: "foldR ?b (map ch_ptr xs) s = Inr s"
    using xs by (intro others) auto
  have "foldR ?b (map ch_ptr ys) u = Inr u" if "body ch s = Inr u" for u
    using xs keep [OF that] by (intro others) auto
  then have "foldR ?b (channel_ptrs get s) s = body ch s"
    using xs_ok run [OF assms(2) refl]
    by (cases "body ch s") (simp_all add: channel_ptrs_def foldR_append xs(1))
  ultimately show ?thesis by simp
qed

lemma each_safe_error:
  assumes "\<forall>p \<in> set xs. p \<in> set (lst s) \<and> body p s = Inr s" and "q \<in> set (lst s)" and "body q s = Inl e"
  shows "each_safe lst body (xs @ q # ys) s = Inl e"
  using assms(1)
proof (induction xs arbitrary: ys)
  case Nil
  then show ?case using assms(2,3) by simp
next
  case (Cons p xs)
  then have "filter (\<lambda>x. x \<in> set (lst s)) (xs @ q # ys) = xs @ q # filter (\<lambda>x. x \<in> set (lst s)) ys"
    using assms(2) by (simp add: filter_id_conv)
  with Cons show ?case by simp
qed

lemma each_channel_error:
  assumes "loop_inv (get s)" and "ch \<in> set (channels_list (get s))"
    and skip: "\<And>c. c \<in> set (channels_list (get s)) \<Longrightarrow> c \<noteq> ch \<Longrightarrow> body c s = Inr s"
    and "body ch s = Inl e"
  shows "IVY_LIST_EACH_SAFE (channel_ptrs get) (with_channel get body) s = Inl e"
proof -
  have d: "distinct (map ch_ptr (channels_list (get s)))" using assms(1) by (simp add: loop_inv_def)
  obtain xs ys where xs: "channels_list (get s) = xs @ ch # ys" "ch \<notin> set xs"
    using assms(2) by (metis in_set_conv_decomp_first)
  have run: "with_channel get body (ch_ptr c) s = body c s" if "c \<in> set (channels_list (get s))" for c
    using find_channel_unique [OF d that] by (simp add: with_channel_def)
  have "\<forall>p \<in> set (map ch_ptr xs). p \<in> set (channel_ptrs get s) \<and> with_channel get body p s = Inr s"
    using xs run skip by (auto simp: channel_ptrs_def)
  moreover have "with_channel get body (ch_ptr ch) s = Inl e" using run [OF assms(2)] assms(4) by simp
  ultimately have "each_safe (channel_ptrs get) (with_channel get body) (map ch_ptr xs @ ch_ptr ch # map ch_ptr ys) s = Inl e"
    by (intro each_safe_error) (simp_all add: channel_ptrs_def xs(1))
  then show ?thesis by (simp add: IVY_LIST_EACH_SAFE_def channel_ptrs_def xs(1))
qed

text \<open>The handlers of \<open>ivy.c\<close> on the channel of one client.\<close>

lemma ivy_exception_only:
  assumes "loop_inv (lp s)" and "ch \<in> set (channels_list (lp s))" and "ch_delete ch"
  shows "IvyChannelHandleExcpt lp ivy_delete {ch_fd ch} s = ivy_delete (ch_data ch) s"
proof -
  have fd: "ch_fd c \<noteq> ch_fd ch" if "c \<in> set (channels_list (lp s))" "c \<noteq> ch" for c
    using assms(1,2) that by (auto simp: loop_inv_def distinct_map inj_on_def)
  have keep: "lp u = lp t" if "(if ch_fd c \<in> {ch_fd ch} \<and> ch_delete c then ivy_delete (ch_data c) t else Inr t) = Inr u"
    for c t u using that by (cases "ch_fd c \<in> {ch_fd ch} \<and> ch_delete c") (auto dest: ivy_delete_lp)
  show ?thesis
    unfolding IvyChannelHandleExcpt_def
    by (subst each_channel_single [where get = lp, OF assms(1,2)]) (use fd keep assms(3) in auto)
qed

text \<open>
  \<open>IvyChannelHandleExcpt\<close> runs the delete handler of a channel and leaves the channel in the
  table. When \<open>select\<close> reports an exceptional condition together with bytes to read on the
  descriptor of a client, the same pass of the loop reads through the freed client.
\<close>
theorem exception_leaves_dangling_channel:
  assumes "sock_inv s" and "deletable s" and "ch \<in> set (channels_list (lp s))"
    and "ch_data ch = ClientData c" and "ch_delete ch" and "ch_read ch" and "live (ClientData c) s"
  shows "dispatch lp (ivy_handlers rx garbage) {ch_fd ch} wr {ch_fd ch} s = Inl UseAfterFree"
proof -
  have inv: "loop_inv (lp s)" using assms(1) by (simp add: sock_inv_def)
  from ivy_delete_ok [OF assms(2,7)] obtain t where t: "ivy_delete (ClientData c) s = Inr t"
    "socks t c = None" by (auto simp: freed_def)
  have lp: "lp t = lp s" using t(1) by (rule ivy_delete_lp)
  have c: "c \<noteq> 0" using assms(7) by (simp add: live_def)
  have ex: "IvyChannelHandleExcpt lp ivy_delete {ch_fd ch} s = Inr t"
    using ivy_exception_only [OF inv assms(3,5)] assms(4) t(1) by simp
  have fd: "ch_fd x \<noteq> ch_fd ch" if "x \<in> set (channels_list (lp t))" "x \<noteq> ch" for x
    using inv assms(3) that by (auto simp: lp loop_inv_def distinct_map inj_on_def)
  have read: "ivy_read rx garbage p fd (ClientData c) t = Inl UseAfterFree" for p fd
    using t(2) c by (simp add: ivy_read_def HandleSocket_def deref_def)
  have "IvyChannelHandleRead lp (ivy_read rx garbage) {ch_fd ch} t = Inl UseAfterFree"
    unfolding IvyChannelHandleRead_def
    using fd read assms(3-6) inv by (intro each_channel_error [of lp t ch]) (auto simp: lp call_handler_def)
  with ex show ?thesis by (simp add: dispatch_def ivy_handlers_def)
qed

theorem exception_leaves_dangling_channel_witness:
  "dispatch lp (ivy_handlers first_char_engine 0) {7} {} {7} demo_subscribed = Inl UseAfterFree"
proof -
  let ?ch = "demo_channel 2 7 (ClientData 1)"
  have s: "sock_inv demo_subscribed"
    by (auto simp: demo_subscribed_def sock_inv_def sock_ok_def loop_inv_def demo_def
        demo_sock_def demo_channel_def new_sock_def IVY_BUFFER_SIZE_def)
  have d: "deletable demo_subscribed"
    by (simp add: demo_subscribed_def deletable_def demo_subscriber_def demo_peer_def
        clients_inv_def dict_inv_def demo_entry_def demo_def)
  have ch: "?ch \<in> set (channels_list (lp demo_subscribed))" "live (ClientData 1) demo_subscribed"
    by (simp_all add: demo_subscribed_def live_def demo_def demo_sock_def new_sock_def)
  from exception_leaves_dangling_channel [OF s d ch(1) _ _ _ ch(2), of first_char_engine 0 "{}"]
  show ?thesis by (simp add: demo_channel_def)
qed

section \<open>Timers\<close>

abbreviation upd_tmr :: "(timer_state \<Rightarrow> timer_state) \<Rightarrow> ivy \<Rightarrow> ivy" where
  "upd_tmr f s \<equiv> s\<lparr>tmr := f (tmr s)\<rparr>"

abbreviation timer_event :: "nat \<Rightarrow> nat \<Rightarrow> ivy \<Rightarrow> ivy res" where
  "timer_event p delta s \<equiv> Inr (emit (TimerEvent p delta) s)"

interpretation ticks: timer_client tmr upd_tmr timer_event
  by unfold_locales (auto simp: emit_def)

lemma timer_events:
  "\<exists>t. foldR (\<lambda>tm. timer_event (tm_ptr tm) (d tm)) ts s = Inr t \<and>
     events t = events s @ map (\<lambda>tm. TimerEvent (tm_ptr tm) (d tm)) ts"
proof (induction ts arbitrary: s)
  case (Cons tm ts)
  from Cons [of "emit (TimerEvent (tm_ptr tm) (d tm)) s"] show ?case by (auto simp: emit_def)
qed simp

text \<open>What a scan leaves of the timers, in one pass instead of two loops.\<close>

lemma rearmed:
  "List.map_filter (rearm n) ts =
     map (\<lambda>tm. if tm_when tm \<le> n
             then tm\<lparr>tm_repeat := (if tm_repeat tm = -1 then -1 else s32 (tm_repeat tm - 1)),
                     tm_when := u64 (int n + int (tm_period tm))\<rparr>
             else tm)
       (filter (\<lambda>tm. \<not> tm_mark2Remove tm \<and>
          (tm_when tm \<le> n \<longrightarrow> tm_repeat tm = -1 \<or> s32 (tm_repeat tm - 1) \<noteq> 0)) ts)"
proof (induction ts)
  case (Cons tm ts)
  have "tm\<lparr>tm_repeat := tm_repeat tm, tm_when := w\<rparr> = tm\<lparr>tm_when := w\<rparr>" for w by simp
  with Cons show ?case by (auto simp: List.map_filter_def rearm_def TIMER_LOOP_def Let_def)
qed (simp add: List.map_filter_def)

text \<open>
  C31: a turn of the loop calls exactly the timers whose time has come and that were not removed, in
  the order of the list, each with the delay since its deadline. Then the timers are, in the same
  order, those that were not removed and still have a tick to come (repeat -1 is for ever, any other
  count goes down by one when the timer fires, and 0 ends it); those that fired are due again one
  period after this turn, the others are as they were.
\<close>
theorem timers_fire_when_due:
  assumes "distinct (map tm_ptr (timers (tmr s)))" and "n = current_ms s"
  shows "\<exists>t. ivy_timers s = Inr t \<and>
           events t = events s @ map (\<lambda>tm. TimerEvent (tm_ptr tm) (n - tm_when tm))
             (filter (\<lambda>tm. tm_when tm \<le> n \<and> \<not> tm_mark2Remove tm) (timers (tmr s))) \<and>
           timers (tmr t) =
             map (\<lambda>tm. if tm_when tm \<le> n
                     then tm\<lparr>tm_repeat := (if tm_repeat tm = -1 then -1 else s32 (tm_repeat tm - 1)),
                             tm_when := u64 (int n + int (tm_period tm))\<rparr>
                     else tm)
               (filter (\<lambda>tm. \<not> tm_mark2Remove tm \<and>
                  (tm_when tm \<le> n \<longrightarrow> tm_repeat tm = -1 \<or> s32 (tm_repeat tm - 1) \<noteq> 0)) (timers (tmr s)))"
proof -
  have due: "due m = (\<lambda>tm. tm_when tm \<le> m \<and> \<not> tm_mark2Remove tm)" for m by (rule ext) (simp add: due_def)
  from timer_events [of "\<lambda>tm. n - tm_when tm" "filter (due n) (timers (tmr s))" s] obtain u where
    u: "foldR (\<lambda>tm. timer_event (tm_ptr tm) (n - tm_when tm)) (filter (due n) (timers (tmr s))) s = Inr u"
      "events u = events s @ map (\<lambda>tm. TimerEvent (tm_ptr tm) (n - tm_when tm)) (filter (due n) (timers (tmr s)))" by blast
  let ?t = "upd_tmr (\<lambda>ts. ts\<lparr>timers := List.map_filter (rearm n) (timers ts)\<rparr>) u"
  have run: "ivy_timers s = Inr ?t"
    by (simp only: ivy_timers_def flip: assms(2)) (simp only: ticks.TimerScan_foldR [OF assms(1)] u(1) bindR_simps)
  then have tm: "timers (tmr ?t) = List.map_filter (rearm n) (timers (tmr s))"
    unfolding ivy_timers_def assms(2) [symmetric] by (rule ticks.TimerScan_timers [OF assms(1)])
  have ev: "events ?t = events u" by simp
  show ?thesis
    by (intro exI [of _ ?t] conjI) (rule run, rule trans [OF ev u(2) [unfolded due]], rule trans [OF tm rearmed])
qed

definition demo_ticking :: ivy where
  "demo_ticking = demo_subscribed\<lparr>tmr := two_timers, now := (5, 600000)\<rparr>"

theorem timers_fire_when_due_witness:
  "\<exists>t. ivy_timers demo_ticking = Inr t \<and> events t = [TimerEvent 1 100] \<and>
     map tm_when (timers (tmr t)) = [7100]"
proof -
  have n: "5600 = current_ms demo_ticking" by (simp add: demo_ticking_def current_ms_def u64_def)
  have "distinct (map tm_ptr (timers (tmr demo_ticking)))" by (simp add: demo_ticking_def two_timers_def)
  from timers_fire_when_due [OF this n] obtain t where "ivy_timers demo_ticking = Inr t"
    "events t = events demo_ticking @ map (\<lambda>tm. TimerEvent (tm_ptr tm) (5600 - tm_when tm))
       (filter (\<lambda>tm. tm_when tm \<le> 5600 \<and> \<not> tm_mark2Remove tm) (timers (tmr demo_ticking)))"
    "map tm_when (timers (tmr t)) = map tm_when (map (\<lambda>tm. if tm_when tm \<le> 5600
                     then tm\<lparr>tm_repeat := (if tm_repeat tm = -1 then -1 else s32 (tm_repeat tm - 1)),
                             tm_when := u64 (int 5600 + int (tm_period tm))\<rparr>
                     else tm)
               (filter (\<lambda>tm. \<not> tm_mark2Remove tm \<and>
                  (tm_when tm \<le> 5600 \<longrightarrow> tm_repeat tm = -1 \<or> s32 (tm_repeat tm - 1) \<noteq> 0)) (timers (tmr demo_ticking))))"
    by metis
  then show ?thesis
    by (intro exI [of _ t]) (simp add: demo_ticking_def two_timers_def u64_def s32_def demo_subscribed_def)
qed

end
