(* ===== verification/IvyToolkit.thy ===== *)
theory IvyToolkit
  imports IvyRun
begin

text \<open>
  The channel modules the library is built with instead of its own loop: \<open>ivyxtloop.c\<close>,
  \<open>ivyglibloop.c\<close> and the channels of \<open>ivytcl.c\<close>. The toolkits are arguments; what their manuals say
  of adding and removing a watch is \<open>toolkit_ok\<close>. Unlike the loop of the library these modules run
  the delete handler inside \<open>IvyChannelRemove\<close>, and \<open>IvyChannelStop\<close> does nothing.
\<close>

section \<open>The toolkit\<close>

text \<open>
  \<open>XtAppAddInput\<close> and \<open>XtRemoveInput\<close>, \<open>g_io_add_watch\<close> and \<open>g_source_remove\<close>: a watch has a
  descriptor, a condition, the procedure to call and its argument, the channel. \<open>'w\<close> is the state
  of the toolkit, \<open>'k\<close> its type of conditions.
\<close>

datatype watch_proc = HandleChannelRead | HandleChannelWrite | HandleChannelDelete

type_synonym 'k watch = "nat \<times> 'k \<times> watch_proc \<times> nat"

record ('k, 'w) toolkit =
  tk_add :: "'k watch \<Rightarrow> 'w \<Rightarrow> nat \<times> 'w"
  tk_remove :: "nat \<Rightarrow> 'w \<Rightarrow> 'w"
  tk_watches :: "'w \<Rightarrow> nat \<rightharpoonup> 'k watch"

text \<open>What the toolkits document: a new watch gets an unused id, and only the watch removed goes.\<close>

definition toolkit_ok :: "('k, 'w) toolkit \<Rightarrow> bool" where
  "toolkit_ok tk \<longleftrightarrow>
     (\<forall>x w i w'. tk_add tk x w = (i, w') \<longrightarrow>
        tk_watches tk w i = None \<and> tk_watches tk w' = (tk_watches tk w)(i \<mapsto> x)) \<and>
     (\<forall>i w. tk_watches tk (tk_remove tk i w) = (tk_watches tk w)(i := None))"

lemma toolkit_add:
  assumes "toolkit_ok tk" and "tk_add tk x w = (i, w')"
  shows "tk_watches tk w i = None" "tk_watches tk w' = (tk_watches tk w)(i \<mapsto> x)"
  using assms unfolding toolkit_ok_def by blast+

lemma toolkit_remove: "toolkit_ok tk \<Longrightarrow> tk_watches tk (tk_remove tk i w) = (tk_watches tk w)(i := None)"
  by (simp add: toolkit_ok_def)

section \<open>Channels\<close>

text \<open>
  A channel of the X and GLib modules; \<open>id_write\<close> is not initialised before the first
  \<open>IvyChannelAddWritableEvent\<close>. Channels are never freed. The statics are part of a program state
  \<open>'s\<close>, as in the main loop of the library.
\<close>

record 'd tchannel =
  id_read :: nat
  id_write :: "nat option"
  id_delete :: nat
  tc_fd :: nat
  tc_data :: 'd
  tc_delete :: bool
  tc_read :: bool
  tc_write :: bool

record ('d, 'w) tloop =
  tl_channels :: "nat \<rightharpoonup> 'd tchannel"
  tl_next :: nat
  tl_initialized :: bool
  tl_app :: bool                \<comment> \<open>\<open>IvyXtChannelAppContext\<close> was called\<close>
  tl_tool :: 'w

type_synonym ('d, 'w, 's) tget = "'s \<Rightarrow> ('d, 'w) tloop"
type_synonym ('d, 'w, 's) tupd = "(('d, 'w) tloop \<Rightarrow> ('d, 'w) tloop) \<Rightarrow> 's \<Rightarrow> 's"

definition with_tchannel :: "nat \<Rightarrow> ('d tchannel \<Rightarrow> 't res) \<Rightarrow> ('d, 'w) tloop \<Rightarrow> 't res" where
  "with_tchannel p f l = (case tl_channels l p of None \<Rightarrow> Inl UseAfterFree | Some c \<Rightarrow> f c)"

text \<open>The parts the two modules share; the conditions are those of the toolkit.\<close>

definition add_channel ::
    "('k, 'w) toolkit \<Rightarrow> 'k \<Rightarrow> 'k \<Rightarrow> nat \<Rightarrow> 'd \<Rightarrow> bool \<Rightarrow> bool \<Rightarrow> bool \<Rightarrow> ('d, 'w) tloop \<Rightarrow> nat \<times> ('d, 'w) tloop" where
  "add_channel tk rd ex fd data hdel hrd hwr l =
     (let p = tl_next l;
          (i, w) = tk_add tk (fd, rd, HandleChannelRead, p) (tl_tool l);
          (j, w) = tk_add tk (fd, ex, HandleChannelDelete, p) w
      in (p, l\<lparr>tl_channels := (tl_channels l)(p \<mapsto> \<lparr>id_read = i, id_write = None, id_delete = j, tc_fd = fd,
                tc_data = data, tc_delete = hdel, tc_read = hrd, tc_write = hwr\<rparr>),
              tl_next := p + 1, tl_tool := w\<rparr>))"

definition remove_channel ::
    "('k, 'w) toolkit \<Rightarrow> ('d, 'w, 's) tget \<Rightarrow> ('d, 'w, 's) tupd \<Rightarrow> ('d \<Rightarrow> 's \<Rightarrow> 's res) \<Rightarrow> nat \<Rightarrow> 's \<Rightarrow> 's res" where
  "remove_channel tk get upd hdel p s =
     with_tchannel p (\<lambda>c. bindR (if tc_delete c then hdel (tc_data c) s else Inr s) (\<lambda>s.
       with_tchannel p (\<lambda>c. Inr (upd (\<lambda>l. l\<lparr>tl_tool :=
         tk_remove tk (id_delete c) (tk_remove tk (id_read c) (tl_tool l))\<rparr>) s)) (get s))) (get s)"



text \<open>What the procedure of a watch does: the handler of the channel, on its data.\<close>

definition run_watch :: "('d, 'w, 's) tget \<Rightarrow> ('d, 's) handlers \<Rightarrow> 'k watch \<Rightarrow> 's \<Rightarrow> 's res" where
  "run_watch get h w s = (case w of (fd, _, proc, p) \<Rightarrow>
     with_tchannel p (\<lambda>c. case proc of
         HandleChannelRead \<Rightarrow> call_handler (tc_read c) (h_read h p fd (tc_data c) s)
       | HandleChannelWrite \<Rightarrow> call_handler (tc_write c) (h_write h p fd (tc_data c) s)
       | HandleChannelDelete \<Rightarrow> call_handler (tc_delete c) (h_delete h (tc_data c) s)) (get s))"

subsection \<open>X toolkit\<close>

datatype xt_condition = XtInputReadMask | XtInputWriteMask | XtInputExceptMask

text \<open>\<open>exit\<close> when the application context was not given: \<open>None\<close>.\<close>

definition Xt_IvyChannelInit :: "('d, 'w) tloop \<Rightarrow> ('d, 'w) tloop option" where
  "Xt_IvyChannelInit l =
     (if tl_initialized l then Some l
      else if \<not> tl_app l then None else Some (l\<lparr>tl_initialized := True\<rparr>))"

definition IvyXtChannelAppContext :: "('d, 'w) tloop \<Rightarrow> ('d, 'w) tloop" where
  "IvyXtChannelAppContext l = l\<lparr>tl_app := True\<rparr>"





definition IvyXtHandleChannel :: "('d, 'w, 's) tget \<Rightarrow> ('d, 's) handlers \<Rightarrow> xt_condition watch \<Rightarrow> 's \<Rightarrow> 's res" where
  "IvyXtHandleChannel = run_watch"

subsection \<open>GLib\<close>

datatype glib_condition = G_IO_IN | G_IO_OUT | G_IO_ERR_or_HUP

definition Glib_IvyChannelInit :: "('d, 'w) tloop \<Rightarrow> ('d, 'w) tloop" where
  "Glib_IvyChannelInit l = l\<lparr>tl_initialized := True\<rparr>"


definition Glib_IvyChannelRemove ::
    "(glib_condition, 'w) toolkit \<Rightarrow> ('d, 'w, 's) tget \<Rightarrow> ('d, 'w, 's) tupd \<Rightarrow> ('d \<Rightarrow> 's \<Rightarrow> 's res) \<Rightarrow>
     nat \<Rightarrow> 's \<Rightarrow> 's res" where
  "Glib_IvyChannelRemove tk = remove_channel tk"



definition IvyGlibHandleChannel :: "('d, 'w, 's) tget \<Rightarrow> ('d, 's) handlers \<Rightarrow> glib_condition watch \<Rightarrow> 's \<Rightarrow> 's res" where
  "IvyGlibHandleChannel = run_watch"

subsection \<open>GLUT\<close>

text \<open>
  \<open>ivyglutloop.c\<close>: a watch of \<open>glutAddInput\<close> has no condition, and a channel has no handler for
  writing. The module lacks the functions for writable events, so only this much of the channel
  interface is there.
\<close>

definition Glut_IvyChannelInit :: "('d, 'w) tloop \<Rightarrow> ('d, 'w) tloop" where
  "Glut_IvyChannelInit l = (if tl_initialized l then l else l\<lparr>tl_initialized := True\<rparr>)"

definition Glut_IvyChannelAdd ::
    "(unit, 'w) toolkit \<Rightarrow> nat \<Rightarrow> 'd \<Rightarrow> bool \<Rightarrow> bool \<Rightarrow> ('d, 'w) tloop \<Rightarrow> nat \<times> ('d, 'w) tloop" where
  "Glut_IvyChannelAdd tk fd data hdel hrd = add_channel tk () () fd data hdel hrd False"

definition Glut_IvyChannelRemove ::
    "(unit, 'w) toolkit \<Rightarrow> ('d, 'w, 's) tget \<Rightarrow> ('d, 'w, 's) tupd \<Rightarrow> ('d \<Rightarrow> 's \<Rightarrow> 's res) \<Rightarrow> nat \<Rightarrow> 's \<Rightarrow> 's res" where
  "Glut_IvyChannelRemove tk = remove_channel tk"

definition IvyGlutHandleChannelRead ::
    "('d, 'w, 's) tget \<Rightarrow> ('d, 's) handlers \<Rightarrow> nat \<Rightarrow> nat \<Rightarrow> 's \<Rightarrow> 's res" where
  "IvyGlutHandleChannelRead get h fd p s =
     with_tchannel p (\<lambda>c. call_handler (tc_read c) (h_read h p fd (tc_data c) s)) (get s)"

definition IvyGlutHandleChannelDelete :: "('d, 'w, 's) tget \<Rightarrow> ('d, 's) handlers \<Rightarrow> nat \<Rightarrow> 's \<Rightarrow> 's res" where
  "IvyGlutHandleChannelDelete get h p s =
     with_tchannel p (\<lambda>c. call_handler (tc_delete c) (h_delete h (tc_data c) s)) (get s)"

subsection \<open>Tcl\<close>

text \<open>
  The channels of \<open>ivytcl.c\<close>, built with \<open>TCL_CHANNEL_INTEGRATION\<close>: one handler per channel with a
  mask of conditions. A second \<open>Tcl_CreateChannelHandler\<close> with the same procedure and argument
  replaces the mask. \<open>'w\<close> is the state of the interpreter.
\<close>

datatype tcl_condition = TCL_READABLE | TCL_WRITABLE | TCL_EXCEPTION

record 'w tcl_notifier =
  Tcl_MakeTcpClientChannel :: "nat \<Rightarrow> 'w \<Rightarrow> nat \<times> 'w"
  Tcl_CreateChannelHandler :: "nat \<Rightarrow> tcl_condition set \<Rightarrow> nat \<Rightarrow> 'w \<Rightarrow> 'w"
  Tcl_DeleteChannelHandler :: "nat \<Rightarrow> nat \<Rightarrow> 'w \<Rightarrow> 'w"

record 'd tcl_channel =
  tcc_fd :: nat
  tcc_data :: 'd
  tcc_chan :: nat               \<comment> \<open>\<open>tcl_channel\<close>\<close>
  tcc_delete :: bool
  tcc_read :: bool
  tcc_write :: bool

record ('d, 'w) tcl_loop =
  tcl_channels :: "nat \<rightharpoonup> 'd tcl_channel"
  tcl_next :: nat
  tcl_initialized :: bool
  tcl_tool :: 'w

definition with_tcl_channel :: "nat \<Rightarrow> ('d tcl_channel \<Rightarrow> 't res) \<Rightarrow> ('d, 'w) tcl_loop \<Rightarrow> 't res" where
  "with_tcl_channel p f l = (case tcl_channels l p of None \<Rightarrow> Inl UseAfterFree | Some c \<Rightarrow> f c)"

definition Tcl_IvyChannelInit :: "('d, 'w) tcl_loop \<Rightarrow> ('d, 'w) tcl_loop" where
  "Tcl_IvyChannelInit l = l\<lparr>tcl_initialized := True\<rparr>"

definition Tcl_IvyChannelAdd ::
    "'w tcl_notifier \<Rightarrow> nat \<Rightarrow> 'd \<Rightarrow> bool \<Rightarrow> bool \<Rightarrow> bool \<Rightarrow> ('d, 'w) tcl_loop \<Rightarrow> nat \<times> ('d, 'w) tcl_loop" where
  "Tcl_IvyChannelAdd tk fd data hdel hrd hwr l =
     (let p = tcl_next l;
          (ch, w) = Tcl_MakeTcpClientChannel tk fd (tcl_tool l)
      in (p, l\<lparr>tcl_channels := (tcl_channels l)(p \<mapsto> \<lparr>tcc_fd = fd, tcc_data = data, tcc_chan = ch,
                tcc_delete = hdel, tcc_read = hrd, tcc_write = hwr\<rparr>),
              tcl_next := p + 1, tcl_tool := Tcl_CreateChannelHandler tk ch {TCL_READABLE, TCL_EXCEPTION} p w\<rparr>))"

definition Tcl_IvyChannelRemove ::
    "'w tcl_notifier \<Rightarrow> ('s \<Rightarrow> ('d, 'w) tcl_loop) \<Rightarrow> ((('d, 'w) tcl_loop \<Rightarrow> ('d, 'w) tcl_loop) \<Rightarrow> 's \<Rightarrow> 's) \<Rightarrow>
     ('d \<Rightarrow> 's \<Rightarrow> 's res) \<Rightarrow> nat \<Rightarrow> 's \<Rightarrow> 's res" where
  "Tcl_IvyChannelRemove tk get upd hdel p s =
     with_tcl_channel p (\<lambda>c. bindR (if tcc_delete c then hdel (tcc_data c) s else Inr s) (\<lambda>s.
       with_tcl_channel p (\<lambda>c. Inr (upd (\<lambda>l. l\<lparr>tcl_tool := Tcl_DeleteChannelHandler tk (tcc_chan c) p (tcl_tool l),
         tcl_channels := (tcl_channels l)(p := None)\<rparr>) s)) (get s))) (get s)"

definition tcl_mask :: "'w tcl_notifier \<Rightarrow> tcl_condition set \<Rightarrow> nat \<Rightarrow> ('d, 'w) tcl_loop \<Rightarrow> ('d, 'w) tcl_loop res" where
  "tcl_mask tk conds p l = with_tcl_channel p (\<lambda>c.
     Inr (l\<lparr>tcl_tool := Tcl_CreateChannelHandler tk (tcc_chan c) conds p (tcl_tool l)\<rparr>)) l"

definition Tcl_IvyChannelAddWritableEvent :: "'w tcl_notifier \<Rightarrow> nat \<Rightarrow> ('d, 'w) tcl_loop \<Rightarrow> ('d, 'w) tcl_loop res" where
  "Tcl_IvyChannelAddWritableEvent tk = tcl_mask tk {TCL_READABLE, TCL_WRITABLE, TCL_EXCEPTION}"

definition Tcl_IvyChannelClearWritableEvent :: "'w tcl_notifier \<Rightarrow> nat \<Rightarrow> ('d, 'w) tcl_loop \<Rightarrow> ('d, 'w) tcl_loop res" where
  "Tcl_IvyChannelClearWritableEvent tk = tcl_mask tk {TCL_READABLE, TCL_EXCEPTION}"

text \<open>\<open>conds\<close> is the set of conditions that hold; it is compared with each single one.\<close>

definition IvyHandleFd ::
    "('s \<Rightarrow> ('d, 'w) tcl_loop) \<Rightarrow> ('d, 's) handlers \<Rightarrow> nat \<Rightarrow> tcl_condition set \<Rightarrow> 's \<Rightarrow> 's res" where
  "IvyHandleFd get h p conds s = with_tcl_channel p (\<lambda>c.
     if conds = {TCL_READABLE} then call_handler (tcc_read c) (h_read h p (tcc_fd c) (tcc_data c) s)
     else if conds = {TCL_WRITABLE} then call_handler (tcc_write c) (h_write h p (tcc_fd c) (tcc_data c) s)
     else if conds = {TCL_EXCEPTION} then call_handler (tcc_delete c) (h_delete h (tcc_data c) s)
     else Inr s) (get s)"

section \<open>The library on a toolkit\<close>

text \<open>The state of the core beside that of the channel module.\<close>

definition beside :: "('a \<Rightarrow> 'a res) \<Rightarrow> 'a \<times> 'b \<Rightarrow> ('a \<times> 'b) res" where
  "beside f = (\<lambda>(s, l). bindR (f s) (\<lambda>s. Inr (s, l)))"

definition upd_snd :: "('b \<Rightarrow> 'b) \<Rightarrow> 'a \<times> 'b \<Rightarrow> 'a \<times> 'b" where
  "upd_snd f = (\<lambda>(s, l). (s, f l))"

definition toolkit_handlers :: "regex_engine \<Rightarrow> nat \<Rightarrow> (chan_data, ivy \<times> 'b) handlers" where
  "toolkit_handlers rx garbage =
     \<lparr>h_delete = (\<lambda>d. beside (ivy_delete d)),
      h_read = (\<lambda>p fd d. beside (ivy_read rx garbage p fd d)),
      h_write = (\<lambda>p fd d. beside (ivy_write p fd d)),
      h_before = Inr, h_timeout = id, h_after = Inr, h_timers = Inr\<rparr>"

text \<open>
  \<open>SocketClose\<close> when \<open>IvyChannelRemove\<close> calls the delete handler at once, and the answer to a
  malformed line with it.
\<close>

definition close_now :: "nat \<Rightarrow> ivy \<Rightarrow> ivy res" where
  "close_now c s = (if c = 0 then Inr s else deref c (\<lambda>_. ivy_delete (ClientData c) s) s)"

definition bad_format_now :: "clnt \<Rightarrow> nat \<Rightarrow> ivy \<Rightarrow> ivy res" where
  "bad_format_now cl client s =
     bindR (msg_to (c_ptr cl) client Error (msg_code Error) expected_format
              (upd_clnt (c_ptr cl) (\<lambda>c. c\<lparr>c_client := client\<rparr>) s)) (\<lambda>s.
     bindR (msg_to (c_ptr cl) client Bye 0 [] s) (close_now client))"

definition malformed :: "string \<Rightarrow> bool" where
  "malformed line \<longleftrightarrow> scan_d_d line = None \<or> ARG_START \<notin> set line"

section \<open>Adding and removing a channel\<close>

lemma add_channel_watches:
  assumes "toolkit_ok tk" and "add_channel tk rd ex fd data hdel hrd hwr l = (p, l')"
  obtains i j where "tl_channels l' p = Some \<lparr>id_read = i, id_write = None, id_delete = j, tc_fd = fd,
      tc_data = data, tc_delete = hdel, tc_read = hrd, tc_write = hwr\<rparr>"
    "tk_watches tk (tl_tool l) i = None" "tk_watches tk (tl_tool l) j = None" "i \<noteq> j"
    "tk_watches tk (tl_tool l') = (tk_watches tk (tl_tool l))(i \<mapsto> (fd, rd, HandleChannelRead, p),
       j \<mapsto> (fd, ex, HandleChannelDelete, p))"
proof -
  obtain i w where i: "tk_add tk (fd, rd, HandleChannelRead, tl_next l) (tl_tool l) = (i, w)" by fastforce
  obtain j w' where j: "tk_add tk (fd, ex, HandleChannelDelete, tl_next l) w = (j, w')" by fastforce
  note wi = toolkit_add [OF assms(1) i] and wj = toolkit_add [OF assms(1) j]
  have "i \<noteq> j" using wi(2) wj(1) by auto
  with wi wj assms(2) show thesis
    by (intro that [of i j]) (auto simp: add_channel_def Let_def i j)
qed

lemma remove_channel_ok:
  assumes "toolkit_ok tk" and get: "\<And>f s. get (upd f s) = f (get s)"
    and "tl_channels (get s) p = Some c" and "tc_delete c"
    and "hdel (tc_data c) s = Inr t" and "get t = get s"
  shows "remove_channel tk get upd hdel p s = Inr (upd (\<lambda>l. l\<lparr>tl_tool :=
           tk_remove tk (id_delete c) (tk_remove tk (id_read c) (tl_tool l))\<rparr>) t)"
    and "tk_watches tk (tl_tool (get (upd (\<lambda>l. l\<lparr>tl_tool :=
           tk_remove tk (id_delete c) (tk_remove tk (id_read c) (tl_tool l))\<rparr>) t))) =
         (tk_watches tk (tl_tool (get s)))(id_read c := None, id_delete c := None)"
  using assms by (simp_all add: remove_channel_def with_tchannel_def get toolkit_remove)

lemma remove_undoes_add:
  assumes "toolkit_ok tk" and "\<And>f s. get (upd f s) = f (get s)"
    and "add_channel tk rd ex fd data True hrd hwr (get s) = (p, l)" and "get t = l"
    and "hdel data t = Inr u" and "get u = l"
  shows "\<exists>v. remove_channel tk get upd hdel p t = Inr v \<and>
           tk_watches tk (tl_tool (get v)) = tk_watches tk (tl_tool (get s))"
proof -
  from add_channel_watches [OF assms(1,3)] obtain i j where c: "tl_channels l p = Some \<lparr>id_read = i,
      id_write = None, id_delete = j, tc_fd = fd, tc_data = data, tc_delete = True, tc_read = hrd, tc_write = hwr\<rparr>"
    and w: "tk_watches tk (tl_tool (get s)) i = None" "tk_watches tk (tl_tool (get s)) j = None"
    "tk_watches tk (tl_tool l) = (tk_watches tk (tl_tool (get s)))(i \<mapsto> (fd, rd, HandleChannelRead, p),
       j \<mapsto> (fd, ex, HandleChannelDelete, p))" by metis
  have "(tk_watches tk (tl_tool l))(i := None, j := None) = tk_watches tk (tl_tool (get s))"
    using w by auto
  with remove_channel_ok [where get = get and upd = upd and s = t and t = u and p = p and hdel = hdel, OF assms(1,2)]
    c assms(4-6) show ?thesis by auto
qed

lemma glut_remove_undoes_add:
  assumes "toolkit_ok tk" and "\<And>f s. get (upd f s) = f (get s)"
    and "Glut_IvyChannelAdd tk fd data True hrd (get s) = (p, l)" and "get t = l" and "hdel data t = Inr u" and "get u = l"
  shows "\<exists>v. Glut_IvyChannelRemove tk get upd hdel p t = Inr v \<and>
           tk_watches tk (tl_tool (get v)) = tk_watches tk (tl_tool (get s))"
  unfolding Glut_IvyChannelRemove_def using remove_undoes_add [where get = get and upd = upd and hdel = hdel, OF assms(1,2)]
    assms(3-6) by (simp add: Glut_IvyChannelAdd_def)






section \<open>A toolkit and states for the examples\<close>

definition list_toolkit :: "('k, (nat \<times> 'k watch) list) toolkit" where
  "list_toolkit = \<lparr>tk_add = (\<lambda>x w. let i = Suc (sum_list (map fst w)) in (i, (i, x) # w)),
     tk_remove = (\<lambda>i. filter (\<lambda>(j, _). j \<noteq> i)), tk_watches = map_of\<rparr>"

lemma list_toolkit_ok: "toolkit_ok list_toolkit"
proof -
  have unused: "map_of w (Suc (sum_list (map fst w))) = None" for w :: "(nat \<times> 'k watch) list"
    using member_le_sum_list [of "Suc (sum_list (map fst w))" "map fst w"]
    by (auto simp: map_of_eq_None_iff image_iff)
  have removed: "map_of (filter (\<lambda>(j, _). j \<noteq> i) w) = (map_of w)(i := None)" for i and w :: "(nat \<times> 'k watch) list"
    by (induction w) (auto simp: fun_eq_iff)
  show ?thesis by (auto simp: toolkit_ok_def list_toolkit_def Let_def unused removed)
qed

definition demo_tchannel :: "chan_data tchannel" where
  "demo_tchannel = \<lparr>id_read = 3, id_write = Some 5, id_delete = 4, tc_fd = 7,
     tc_data = ClientData 1, tc_delete = True, tc_read = True, tc_write = True\<rparr>"

definition demo_watched :: "(chan_data, (nat \<times> glib_condition watch) list) tloop" where
  "demo_watched = \<lparr>tl_channels = [2 \<mapsto> demo_tchannel],
     tl_next = 3, tl_initialized = True, tl_app = False,
     tl_tool = [(5, 7, G_IO_OUT, HandleChannelWrite, 2), (4, 7, G_IO_ERR_or_HUP, HandleChannelDelete, 2),
       (3, 7, G_IO_IN, HandleChannelRead, 2)]\<rparr>"

lemma demo_watched_facts:
  "tl_channels demo_watched 2 = Some demo_tchannel" "tc_data demo_tchannel = ClientData 1"
  "tc_delete demo_tchannel" "tc_write demo_tchannel" "5 \<noteq> id_read demo_tchannel" "5 \<noteq> id_delete demo_tchannel"
  "tk_watches list_toolkit (tl_tool demo_watched) 5 = Some (7, G_IO_OUT, HandleChannelWrite, 2)"
  by (simp_all add: demo_watched_def demo_tchannel_def list_toolkit_def)


definition demo_hello :: ivy where
  "demo_hello = demo_ivy ((demo [] None)\<lparr>arrivals := (\<lambda>_. [])(7 := [Stream (''hello'' @ [NL])])\<rparr>) [demo_peer] [] []"

section \<open>Closing a client\<close>

lemma ivy_delete_frees:
  "ivy_delete (ClientData c) s = Inr t \<Longrightarrow> c \<in> set (clients_list s) \<Longrightarrow> socks t c = None"
  by (auto simp: ivy_delete_def elim: DeleteSocket_frame)

lemma bad_format_now_frees:
  assumes "bad_format_now cl c s = Inr t" and "c \<noteq> 0" and "c \<in> set (clients_list s)"
  shows "socks t c = None"
proof -
  let ?s = "upd_clnt (c_ptr cl) (\<lambda>x. x\<lparr>c_client := c\<rparr>) s"
  from assms(1,2) obtain u v where "talk ?s u" "talk u v" "ivy_delete (ClientData c) v = Inr t"
    by (auto simp: bad_format_now_def bindR_eq_Inr close_now_def deref_eq_Inr dest!: msg_to_talk)
  moreover have "clients_list ?s = clients_list s" by (simp add: upd_clnt_def)
  ultimately show ?thesis using ivy_delete_frees [of c v t] talk_fields(10) assms(3) by metis
qed

lemma foldR_freed:
  "socks s c = None \<Longrightarrow> foldR (interpret_line interp c) ls s = Inr t \<Longrightarrow> socks t c = None"
  by (cases ls) (auto simp: interpret_line_def deref_eq_Inr bindR_eq_Inr)

lemma handle_lines_freed:
  assumes "c \<noteq> 0" and "\<And>t. interpret_line interp c l s = Inr t \<Longrightarrow> socks t c = None"
  shows "handle_lines interp c (l # ls) rest s \<noteq> Inr u"
proof
  assume "handle_lines interp c (l # ls) rest s = Inr u"
  then obtain v w where v: "interpret_line interp c l s = Inr v" "foldR (interpret_line interp c) ls v = Inr w"
    "socks w c \<noteq> None"
    by (auto simp: handle_lines_def bindR_eq_Inr deref_eq_Inr)
  from foldR_freed [OF assms(2) [OF v(1)] v(2)] v(3) show False by simp
qed

text \<open>
  On a channel module that runs the delete handler inside \<open>IvyChannelRemove\<close>, as those of X,
  GLib and Tcl do, the reception of a malformed line never has a defined outcome: \<open>HandleSocket\<close>
  goes on with the client that \<open>SocketClose\<close> has freed.
\<close>
theorem malformed_line_is_undefined_on_toolkits:
  assumes "c \<noteq> 0" and "socks s c = Some k" and "c \<in> set (clients_list s)"
    and "os_recvfrom (sk_fd k) (room k) s = (Some nb, from, s')" and "nb \<noteq> []"
    and "clients_list s' = clients_list s" and "socks s' = socks s"
    and "split_lines (sk_terminator k) (sk_buffer k @ nb) = (line # ls, rest)"
    and "\<And>u. interp c (sk_interpretation k) (sk_data k) (c_string line) u = bad_format_now cl c u"
  shows "\<nexists>t. HandleSocket interp (sk_fd k) c s = Inr t"
proof -
  let ?k = "(set_from from (grow_buffer k))\<lparr>sk_buffer := sk_buffer k @ nb\<rparr>"
  let ?s = "set_sock c ?k s'"
  have g: "sk_terminator (set_from from (grow_buffer k)) = sk_terminator k"
    "sk_buffer (set_from from (grow_buffer k)) = sk_buffer k"
    "sk_interpretation (set_from from (grow_buffer k)) = sk_interpretation k"
    "sk_data (set_from from (grow_buffer k)) = sk_data k"
    by (simp_all add: set_from_def grow_buffer_def split: option.split)
  have "HandleSocket interp (sk_fd k) c s = handle_lines interp c (line # ls) rest ?s"
    using assms(1,2,4,5,8) by (simp add: HandleSocket_def deref_def g)
  moreover have "handle_lines interp c (line # ls) rest ?s \<noteq> Inr t" for t
  proof (rule handle_lines_freed [OF assms(1)])
    fix u assume "interpret_line interp c line ?s = Inr u"
    then have "bad_format_now cl c ?s = Inr u"
      using assms(1,9) by (simp add: interpret_line_def deref_def set_sock_def g)
    then show "socks u c = None"
      by (rule bad_format_now_frees [OF _ assms(1)]) (simp add: set_sock_def assms(3,6))
  qed
  ultimately show ?thesis by simp
qed

theorem malformed_line_is_undefined_on_toolkits_witness:
  "\<nexists>t. HandleSocket (\<lambda>c f d l u. if malformed l then bad_format_now demo_peer c u else ivy_interp first_char_engine c f d l u)
     7 1 demo_hello = Inr t"
proof -
  let ?s = "demo_hello\<lparr>arrivals := (\<lambda>_. [])(7 := [])\<rparr>"
  have k: "socks demo_hello 1 = Some (demo_sock None)" "1 \<in> set (clients_list demo_hello)" "sk_fd (demo_sock None) = 7"
    by (simp_all add: demo_hello_def demo_def demo_sock_def new_sock_def)
  have r: "os_recvfrom 7 (room (demo_sock None)) demo_hello = (Some (''hello'' @ [NL]), None, ?s)"
    by (simp add: os_recvfrom_def demo_hello_def room_def grow_buffer_def demo_sock_def new_sock_def IVY_BUFFER_SIZE_def)
  have l: "split_lines (sk_terminator (demo_sock None)) (sk_buffer (demo_sock None) @ ''hello'' @ [NL]) = ([''hello''], [])"
    by (simp add: demo_sock_def new_sock_def NL_def)
  have m: "malformed (c_string ''hello'')"
    by (simp add: malformed_def c_string_def ARG_START_def)
  from malformed_line_is_undefined_on_toolkits [OF _ k(1,2) r [folded k(3)] _ _ _ l] m k(3)
  show ?thesis by (simp add: NL_def)
qed

text \<open>
  \<open>IvyChannelRemove\<close> of X and GLib does not remove the watch of
  \<open>IvyChannelAddWritableEvent\<close>: a client closed while its FIFO waits for the socket is freed at
  once, and the next time the socket is writable the write handler uses it.
\<close>
theorem removed_client_is_still_watched:
  assumes "toolkit_ok tk" and "deletable s" and "live (ClientData k) s"
    and "tl_channels l p = Some c" and "tc_data c = ClientData k" and "tc_delete c" and "tc_write c"
    and "tk_watches tk (tl_tool l) j = Some (fd, G_IO_OUT, HandleChannelWrite, p)"
    and "j \<noteq> id_read c" and "j \<noteq> id_delete c"
  shows "\<exists>t l'. Glib_IvyChannelRemove tk snd upd_snd (h_delete (toolkit_handlers rx g)) p (s, l) = Inr (t, l') \<and>
           socks t k = None \<and> tk_watches tk (tl_tool l') j = Some (fd, G_IO_OUT, HandleChannelWrite, p) \<and>
           IvyGlibHandleChannel snd (toolkit_handlers rx g) (fd, G_IO_OUT, HandleChannelWrite, p) (t, l') =
             Inl UseAfterFree"
proof -
  from ivy_delete_ok [OF assms(2,3)] obtain t where t: "ivy_delete (ClientData k) s = Inr t" "socks t k = None"
    by (auto simp: freed_def)
  let ?l = "l\<lparr>tl_tool := tk_remove tk (id_delete c) (tk_remove tk (id_read c) (tl_tool l))\<rparr>"
  have "k \<noteq> 0" using assms(3) by (simp add: live_def)
  have "h_delete (toolkit_handlers rx g) (tc_data c) (s, l) = Inr (t, l)"
    by (simp add: toolkit_handlers_def assms(5) beside_def t(1))
  then have "Glib_IvyChannelRemove tk snd upd_snd (h_delete (toolkit_handlers rx g)) p (s, l) = Inr (t, ?l)"
    using assms(4,6) by (simp add: Glib_IvyChannelRemove_def remove_channel_def with_tchannel_def upd_snd_def)
  moreover have "IvyGlibHandleChannel snd (toolkit_handlers rx g) (fd, G_IO_OUT, HandleChannelWrite, p) (t, ?l) =
      Inl UseAfterFree"
    using assms(4,5,7) t(2) \<open>k \<noteq> 0\<close>
    by (simp add: IvyGlibHandleChannel_def run_watch_def with_tchannel_def toolkit_handlers_def beside_def
        ivy_write_def HandleCongestionWrite_def call_handler_def deref_def)
  ultimately show ?thesis using t(2) assms(1,8-10) by (auto simp: toolkit_remove)
qed

theorem removed_client_is_still_watched_witness:
  "\<exists>t l'. Glib_IvyChannelRemove list_toolkit snd upd_snd (h_delete (toolkit_handlers first_char_engine 0)) 2
       (demo_subscribed, demo_watched) = Inr (t, l') \<and>
     IvyGlibHandleChannel snd (toolkit_handlers first_char_engine 0) (7, G_IO_OUT, HandleChannelWrite, 2) (t, l') =
       Inl UseAfterFree"
proof -
  have d: "deletable demo_subscribed"
    by (simp add: demo_subscribed_def deletable_def demo_subscriber_def demo_peer_def
        clients_inv_def dict_inv_def demo_entry_def demo_def)
  have live: "live (ClientData 1) demo_subscribed"
    by (simp add: demo_subscribed_def live_def demo_def demo_sock_def new_sock_def)
  show ?thesis
    using removed_client_is_still_watched [OF list_toolkit_ok d live, of demo_watched 2 demo_tchannel 5 7]
      demo_watched_facts by (simp only: simp_thms) blast
qed



text \<open>
  \<open>IvyHandleFd\<close> compares the mask with each single condition: when a descriptor is readable and
  writable at once, as that of a congested client whose peer talks, the notifier calls it again
  and again and nothing is read or written.
\<close>
theorem two_conditions_are_ignored:
  assumes "tcl_channels (get s) p = Some c" and "card conds \<noteq> 1"
  shows "foldR (\<lambda>_. IvyHandleFd get h p conds) es s = Inr s"
proof -
  have "IvyHandleFd get h p conds s = Inr s"
    using assms by (auto simp: IvyHandleFd_def with_tcl_channel_def)
  then show ?thesis by (induction es) simp_all
qed

theorem two_conditions_are_ignored_witness:
  "foldR (\<lambda>_. IvyHandleFd snd (toolkit_handlers first_char_engine 0) 2 {TCL_READABLE, TCL_WRITABLE}) [(), ()]
     (demo_subscribed, \<lparr>tcl_channels = [2 \<mapsto> \<lparr>tcc_fd = 7, tcc_data = ClientData 1, tcc_chan = 1, tcc_delete = True,
        tcc_read = True, tcc_write = True\<rparr>], tcl_next = 3, tcl_initialized = True, tcl_tool = ()\<rparr>) =
   Inr (demo_subscribed, \<lparr>tcl_channels = [2 \<mapsto> \<lparr>tcc_fd = 7, tcc_data = ClientData 1, tcc_chan = 1, tcc_delete = True,
        tcc_read = True, tcc_write = True\<rparr>], tcl_next = 3, tcl_initialized = True, tcl_tool = ()\<rparr>)"
  by (rule two_conditions_are_ignored) simp_all

end
