(* ===== verification/IvyApp.thy ===== *)
theory IvyApp
  imports IvyCore
begin

text \<open>
  Calls of \<open>ivy.c\<close> and \<open>ivysocket.c\<close> that only the tools and the Tcl binding use: the host of an
  application, the default callbacks, as the text they print, and \<open>IvyTerminate\<close>. A null pointer printed with \<open>%s\<close>
  is \<open>(null)\<close>, as the C library of Linux prints it.
\<close>

section \<open>Where an application runs\<close>

text \<open>\<open>peer\<close> is what \<open>getpeername\<close> answers for a descriptor.\<close>

definition SocketGetPeerHost :: "(nat \<Rightarrow> sockaddr option) \<Rightarrow> nat \<Rightarrow> 'z sockst_scheme \<Rightarrow> string res" where
  "SocketGetPeerHost peer c s =
     (if c = 0 then Inr ''undefined''
      else deref c (\<lambda>k. Inr (case peer (sk_fd k) of
          None \<Rightarrow> ''can'' @ CHR 0x27 # ''t get peer''
        | Some a \<Rightarrow> (case gethost s a of None \<Rightarrow> ''can'' @ CHR 0x27 # ''t translate addr'' | Some h \<Rightarrow> h))) s)"

text \<open>The host, or the null pointer.\<close>

definition IvyGetApplicationHost :: "(nat \<Rightarrow> sockaddr option) \<Rightarrow> nat \<Rightarrow> ivy \<Rightarrow> string option res" where
  "IvyGetApplicationHost peer app s =
     (if app = 0 then Inr None
      else with_app app (\<lambda>c. if c_client c = 0 then Inr None
                             else bindR (SocketGetPeerHost peer (c_client c) s) (\<lambda>h. Inr (Some h))) s)"

definition or_null :: "string option \<Rightarrow> string" where
  "or_null x = (case x of None \<Rightarrow> ''(null)'' | Some s \<Rightarrow> s)"

fun event_code :: "app_event \<Rightarrow> nat" where
  "event_code IvyApplicationConnected = 0" | "event_code IvyApplicationDisconnected = 1"
| "event_code IvyApplicationCongestion = 2" | "event_code IvyApplicationDecongestion = 3"
| "event_code IvyApplicationFifoFull = 4"

section \<open>The default callbacks\<close>

definition named :: "(nat \<Rightarrow> sockaddr option) \<Rightarrow> nat \<Rightarrow> (string \<Rightarrow> string \<Rightarrow> 't) \<Rightarrow> ivy \<Rightarrow> 't res" where
  "named peer app f s =
     bindR (IvyGetApplicationName app s) (\<lambda>name.
     bindR (IvyGetApplicationHost peer app s) (\<lambda>host. Inr (f name (or_null host))))"

text \<open>What the default callbacks print.\<close>

definition IvyDefaultApplicationCallback ::
    "(nat \<Rightarrow> sockaddr option) \<Rightarrow> nat \<Rightarrow> app_event \<Rightarrow> ivy \<Rightarrow> string res" where
  "IvyDefaultApplicationCallback peer app event = named peer app (\<lambda>name host.
     ''Application: '' @ name @ (case event of
         IvyApplicationConnected \<Rightarrow> '' ready on '' @ host
       | IvyApplicationDisconnected \<Rightarrow> '' bye on '' @ host
       | IvyApplicationCongestion \<Rightarrow> '' congestion on '' @ host
       | IvyApplicationDecongestion \<Rightarrow> ''  decongestion on '' @ host
       | IvyApplicationFifoFull \<Rightarrow>
           ''  fifo full, msg on '' @ host @ '' will be lost until decongestion'') @ [NL])"

definition IvyDefaultBindCallback ::
    "(nat \<Rightarrow> sockaddr option) \<Rightarrow> nat \<Rightarrow> int \<Rightarrow> string \<Rightarrow> bind_event \<Rightarrow> ivy \<Rightarrow> string res" where
  "IvyDefaultBindCallback peer app i regexp event = named peer app (\<lambda>name host.
     ''Application: '' @ name @ '' on '' @ host @ (case event of
         IvyAddBind \<Rightarrow> '' add regexp '' @ show_int i @ '' : ''
       | IvyRemoveBind \<Rightarrow> '' remove regexp '' @ show_int i @ '' :''
       | IvyFilterBind \<Rightarrow> '' as been filtred regexp '' @ show_int i @ '' :''
       | IvyChangeBind \<Rightarrow> '' change regexp '' @ show_int i @ '' : '') @ regexp @ [NL])"

section \<open>Terminating\<close>

text \<open>
  \<open>IvyTerminate\<close> frees the name and the ready message and keeps the pointers; \<open>freed\<close> says that this
  has happened and that no \<open>IvyInit\<close> has set them since. Freeing a block twice is undefined.
\<close>

definition IvyTerminate :: "bool \<Rightarrow> ivy \<Rightarrow> (bool \<times> ivy) res" where
  "IvyTerminate freed s =
     (if freed \<and> (ApplicationName s \<noteq> None \<or> ready_message s \<noteq> None) then Inl UseAfterFree
      else Inr (True, s\<lparr>filters := IvyBindingTerminate (filters s)\<rparr>))"

text \<open>After \<open>IvyTerminate\<close> the filter accepts every subscription.\<close>

lemma terminated_filter_accepts:
  "IvyTerminate freed s = Inr (f, t) \<Longrightarrow> IvyBindingFilter rx (filters t) expression = Inr True"
  by (auto simp: IvyTerminate_def IvyBindingTerminate_def IvyBindingFilter_def split: if_splits)

text \<open>The pointers are not reset: to terminate twice frees the name twice.\<close>

lemma terminating_twice_is_undefined:
  assumes "ApplicationName s = Some n" and "IvyTerminate freed s = Inr (f, t)"
  shows "IvyTerminate f t = Inl UseAfterFree"
  using assms by (auto simp: IvyTerminate_def split: if_splits)

end
