(* ===== verification/IvyProbe.thy ===== *)
theory IvyProbe
  imports IvyStart IvyApp
begin

text \<open>
  The command line program of \<open>ivyprobe.c\<close>, as built on the loop of the library. \<open>core\<close> is the state of the library; what the program prints on its standard
  output is \<open>out\<close>. Each callback is a function of the event it is called with. \<open>getopt\<close> and \<open>fgets\<close>
  on the standard input answer through arguments; a null pointer printed with \<open>%s\<close> is \<open>(null)\<close>, as
  the C library of Linux prints it.
\<close>

section \<open>State\<close>

datatype bind_listener = NoListener | PrintListener | DefaultListener

record probe =
  core :: ivy
  app_count :: int
  wait_count :: int
  fbindcallback :: bool
  listener :: bind_listener      \<comment> \<open>what the last \<open>IvySetBindCallback\<close> installed\<close>
  stdin_channels :: nat          \<comment> \<open>channels of the table on the standard input\<close>
  out :: string                  \<comment> \<open>what was printed\<close>

definition print :: "string \<Rightarrow> probe \<Rightarrow> probe" where
  "print text p = p\<lparr>out := out p @ text\<rparr>"

definition on_core :: "(ivy \<Rightarrow> ivy res) \<Rightarrow> probe \<Rightarrow> probe res" where
  "on_core f p = bindR (f (core p)) (\<lambda>s. Inr (p\<lparr>core := s\<rparr>))"

text \<open>\<open>strtok\<close>: the next token, and what the following call with \<open>NULL\<close> starts from.\<close>

definition strtok :: "string \<Rightarrow> string \<Rightarrow> string option \<times> string" where
  "strtok s delim =
     (let t = dropWhile (\<lambda>c. c \<in> set delim) s
      in if t = [] then (None, [])
         else (Some (takeWhile (\<lambda>c. c \<notin> set delim) t), drop 1 (dropWhile (\<lambda>c. c \<notin> set delim) t)))"

definition newline :: string where "newline = [NL]"

definition quoted :: "string \<Rightarrow> string" where
  "quoted s = CHR 0x27 # s @ [CHR 0x27]"

text \<open>\<open>Chop\<close> looks at the byte before an empty string.\<close>

definition Chop :: "string option \<Rightarrow> string option res" where
  "Chop arg =
     (case arg of None \<Rightarrow> Inr None
      | Some s \<Rightarrow> if s = [] then Inl OutOfBounds
                  else Inr (Some (if last s = NL then butlast s else s)))"

section \<open>Callbacks\<close>

definition Callback :: "nat \<Rightarrow> string list \<Rightarrow> probe \<Rightarrow> probe res" where
  "Callback app argv p =
     bindR (IvyGetApplicationName app (core p)) (\<lambda>name.
       Inr (print (name @ '' sent '' @ concat (map (\<lambda>a. CHR '' '' # quoted a) argv) @ newline) p))"

definition DirectCallback :: "nat \<Rightarrow> int \<Rightarrow> string \<Rightarrow> probe \<Rightarrow> probe res" where
  "DirectCallback app i msg p =
     bindR (IvyGetApplicationName app (core p)) (\<lambda>name.
       Inr (print (name @ '' sent a direct message, id='' @ show_int i @ '', message='' @ msg @ newline) p))"

text \<open>\<open>%.3f\<close> of a number of microseconds divided by 1000.\<close>

definition show_ms :: "nat \<Rightarrow> string" where
  "show_ms us = show_nat (us div 1000) @ CHR ''.'' #
     [digit_char (us div 100 mod 10), digit_char (us div 10 mod 10), digit_char (us mod 10)]"

definition PongCallback :: "nat \<Rightarrow> int \<Rightarrow> probe \<Rightarrow> probe res" where
  "PongCallback app r p =
     bindR (IvyGetApplicationName app (core p)) (\<lambda>name.
       Inr (print (name @ (if r \<ge> 0 then '' respond to ping in '' @ show_ms (nat r)
                           else '' ping timout after '' @ show_ms (nat (- r))) @ '' ms'' @ newline) p))"

definition ApplicationCallback ::
    "(nat \<Rightarrow> sockaddr option) \<Rightarrow> nat \<Rightarrow> app_event \<Rightarrow> probe \<Rightarrow> probe res" where
  "ApplicationCallback peer app event p =
     named peer app (\<lambda>appname host. case event of
         IvyApplicationConnected \<Rightarrow>
           let p = print (appname @ '' connected from '' @ host @ newline) (p\<lparr>app_count := s32 (app_count p + 1)\<rparr>)
           in if app_count p = wait_count p then p\<lparr>stdin_channels := stdin_channels p + 1\<rparr> else p
       | IvyApplicationDisconnected \<Rightarrow>
           print (appname @ '' disconnected from '' @ host @ newline) (p\<lparr>app_count := s32 (app_count p - 1)\<rparr>)
       | _ \<Rightarrow> print (appname @ '': unkown event '' @ show_nat (event_code event) @ newline) p) (core p)"

definition IvyPrintBindCallback ::
    "(nat \<Rightarrow> sockaddr option) \<Rightarrow> nat \<Rightarrow> int \<Rightarrow> string \<Rightarrow> bind_event \<Rightarrow> probe \<Rightarrow> probe res" where
  "IvyPrintBindCallback peer app i regexp event p =
     (if event = IvyFilterBind \<or> fbindcallback p
      then bindR (IvyDefaultBindCallback peer app i regexp event (core p)) (\<lambda>text. Inr (print text p))
      else Inr p)"

definition TimerCall :: "regex_engine \<Rightarrow> int \<Rightarrow> nat \<Rightarrow> probe \<Rightarrow> probe res" where
  "TimerCall rx user_data delta p =
     (let p = print (''Timer callback: '' @ show_int user_data @ '' delta '' @ show_nat delta @ '' ms'' @ newline) p
      in on_core (\<lambda>s. bindR (IvySendMsg rx (Some ''TEST TIMER %ld'') (''TEST TIMER '' @ show_int user_data) s)
           (\<lambda>(_, s). Inr s)) p)"

section \<open>Commands\<close>

text \<open>The commands that name an application.\<close>

definition to_application :: "string \<Rightarrow> (nat \<Rightarrow> probe \<Rightarrow> probe res) \<Rightarrow> probe \<Rightarrow> probe res" where
  "to_application arg f p =
     (let app = IvyGetApplication arg (core p)
      in if app \<noteq> 0 then f app p else Inr (print (''No Application '' @ arg @ ''!!!'' @ newline) p))"

definition with_token :: "string \<Rightarrow> string \<Rightarrow> (string \<Rightarrow> string \<Rightarrow> probe \<Rightarrow> probe res) \<Rightarrow> probe \<Rightarrow> probe res" where
  "with_token rest delim f p =
     (case strtok rest delim of (None, _) \<Rightarrow> Inr p | (Some arg, rest) \<Rightarrow> f arg rest p)"

lemma strtok_shorter: "(Some t, r) = strtok s d \<Longrightarrow> length r < length s"
proof -
  assume a: "(Some t, r) = strtok s d"
  define u where "u = dropWhile (\<lambda>c. c \<in> set d) s"
  define v where "v = dropWhile (\<lambda>c. c \<notin> set d) u"
  have u: "u \<noteq> []" and r: "r = drop 1 v"
    using a by (simp_all add: strtok_def Let_def u_def v_def split: if_splits)
  have "length v \<le> length u" "length u \<le> length s" unfolding u_def v_def by (rule length_dropWhile_le)+
  moreover have "0 < length u" using u by simp
  ultimately show ?thesis using r by (cases "length v") auto
qed

definition kill_one :: "string \<Rightarrow> probe \<Rightarrow> probe res" where
  "kill_one arg = to_application arg (\<lambda>app p.
     on_core (IvySendDieMsg app) (print (''Killing '' @ quoted arg @ ''...'' @ newline) p))"

function kill_all :: "string \<Rightarrow> probe \<Rightarrow> probe res" where
  "kill_all apps p =
     (case strtok apps ''#'' of (None, _) \<Rightarrow> Inr p
      | (Some arg, rest) \<Rightarrow> bindR (kill_one arg p) (kill_all rest))"
  by pat_completeness auto
termination
  by (relation "measure (\<lambda>(s, _). length s)") (auto dest: strtok_shorter)

declare kill_all.simps [simp del]

definition probe_bind :: "regex_engine \<Rightarrow> string \<Rightarrow> probe \<Rightarrow> probe res" where
  "probe_bind rx rest p =
     bindR (Chop (fst (strtok rest [CHR 0x27]))) (\<lambda>arg.
       case arg of None \<Rightarrow> Inr p
       | Some arg \<Rightarrow>
          (case IvyBindingCompile rx arg of
             Inl (_, errbuf) \<Rightarrow>
               Inr (print (''Error compiling '' @ quoted arg @ '', '' @ errbuf @ '', not bound'' @ newline) p)
           | Inr _ \<Rightarrow> on_core (\<lambda>s. bindR (IvyBindMsg True arg s) (\<lambda>(_, s). Inr s)) p))"

definition probe_direct :: "string \<Rightarrow> nat \<Rightarrow> probe \<Rightarrow> probe res" where
  "probe_direct rest app p =
     (case strtok rest '' '' of (None, _) \<Rightarrow> Inl NullDeref
      | (Some arg, rest) \<Rightarrow>
          bindR (Chop (fst (strtok rest [CHR 0x27]))) (\<lambda>msg.
            on_core (IvySendDirectMsg app (atoi arg) (or_null msg)) p))"

definition help_text :: string where
  "help_text =
     (let T = [CHR 0x09]; line = (\<lambda>a n b. T @ a @ concat (replicate n T) @ b @ newline)
      in line ''.help'' 6 ''- this help'' @ line ''.quit'' 6 ''- terminate this application'' @
         line ''.die appname'' 4 ''- send die msg to appname'' @
         line ''.dieall-yes-i-am-sure'' 2 ''- send die msg to all applis'' @
         line (''.direct appname'' @ T @ ''id '' @ quoted ''arg'') 1 ''- send direct msg to appname'' @
         line (''.ping appname'' @ T @ ''                '') 0 ''- send ping to appname'' @
         line ''.where appname'' 4 ''- on which host is appname'' @
         line (''.bind '' @ quoted ''regexp'') 4 ''- add a msg to receive'' @
         line ''.showbind'' 5 ''- show bindings '' @ line ''.who'' 4 ''- who is on the bus'')"

definition command ::
    "regex_engine \<Rightarrow> (nat \<Rightarrow> sockaddr option) \<Rightarrow> string \<Rightarrow> string \<Rightarrow> probe \<Rightarrow> probe res" where
  "command rx peer cmd rest p =
     (if cmd = ''die'' then with_token rest ('' '' @ newline) (\<lambda>arg _.
        to_application arg (\<lambda>app. on_core (IvySendDieMsg app))) p
      else if cmd = ''dieall-yes-i-am-sure''
      then bindR (IvyGetApplicationList ''#'' (core p)) (\<lambda>apps. kill_all apps p)
      else if cmd = ''bind'' then probe_bind rx rest p
      else if cmd = ''where'' then with_token rest ('' '' @ newline) (\<lambda>arg _.
        to_application arg (\<lambda>app p. bindR (IvyGetApplicationHost peer app (core p)) (\<lambda>host.
          Inr (print (''Application '' @ arg @ '' on '' @ or_null host @ newline) p)))) p
      else if cmd = ''direct'' then with_token rest ('' '' @ newline) (\<lambda>arg rest.
        to_application arg (probe_direct rest)) p
      else if cmd = ''who''
      then bindR (IvyGetApplicationList '','' (core p)) (\<lambda>apps. Inr (print (''Apps: '' @ apps @ newline) p))
      else if cmd = ''ping'' then with_token rest ('' '' @ newline) (\<lambda>arg _.
        to_application arg (\<lambda>app. on_core (IvySendPing app))) p
      else if cmd = ''help'' then Inr (print help_text p)
      else if cmd = ''showbind''
      then Inr (p\<lparr>core := IvySetBindCallback (\<not> fbindcallback p) (core p), 
                   listener := (if fbindcallback p then NoListener else DefaultListener),
                   fbindcallback := \<not> fbindcallback p\<rparr>)
      else if cmd = ''quit'' then Inr (p\<lparr>core := (core p)\<lparr>exited := True\<rparr>\<rparr>)
      else Inr p)"

definition send_line :: "regex_engine \<Rightarrow> string \<Rightarrow> probe \<Rightarrow> probe res" where
  "send_line rx line p =
     bindR (IvySendMsg rx (Some ''%s'') (or_null (fst (strtok line newline))) (core p)) (\<lambda>(err, s).
       Inr (print (''-> Sent to '' @ show_nat err @ '' peer'' @ (if err = 1 then [] else ''s'') @ newline)
              (p\<lparr>core := s\<rparr>)))"

text \<open>\<open>line\<close> is what \<open>fgets\<close> reads, \<open>None\<close> at the end of the input.\<close>

definition HandleStdin ::
    "regex_engine \<Rightarrow> (nat \<Rightarrow> sockaddr option) \<Rightarrow> string option \<Rightarrow> probe \<Rightarrow> probe res" where
  "HandleStdin rx peer line p =
     (case line of
        None \<Rightarrow> Inr (p\<lparr>stdin_channels := stdin_channels p - 1, core := IvyStop (core p)\<rparr>)
      | Some line \<Rightarrow>
          if line \<noteq> [] \<and> hd line = CHR ''.''
          then (case strtok line (''.: '' @ newline) of
                  (None, _) \<Rightarrow> Inl NullDeref
                | (Some cmd, rest) \<Rightarrow> command rx peer cmd rest p)
          else send_line rx line p)"

section \<open>Starting\<close>

text \<open>What successive \<open>fgets (line, n, file)\<close> read of a file.\<close>

fun first_line :: "nat \<Rightarrow> string \<Rightarrow> string \<times> string" where
  "first_line 0 s = ([], s)"
| "first_line (Suc k) [] = ([], [])"
| "first_line (Suc k) (c # s) =
     (if c = NL then ([c], s) else (case first_line k s of (l, r) \<Rightarrow> (c # l, r)))"

lemma first_line_append: "first_line k s = (l, r) \<Longrightarrow> l @ r = s"
  by (induction k s arbitrary: l r rule: first_line.induct) (auto split: if_splits prod.splits)

lemma first_line_nonempty: "first_line (Suc k) s = (l, r) \<Longrightarrow> s \<noteq> [] \<Longrightarrow> l \<noteq> []"
  by (cases s) (auto split: if_splits prod.splits)

lemma first_line_shorter: "(l, r) = first_line 4095 s \<Longrightarrow> s \<noteq> [] \<Longrightarrow> length r < length s"
proof -
  assume a: "(l, r) = first_line 4095 s" "s \<noteq> []"
  then have f: "first_line (Suc 4094) s = (l, r)" by (simp add: eval_nat_numeral)
  have "l \<noteq> []" by (rule first_line_nonempty [OF f a(2)])
  moreover have "l @ r = s" by (rule first_line_append [OF f])
  ultimately show ?thesis by (auto simp: neq_Nil_conv)
qed

function fgets_lines :: "string \<Rightarrow> string list" where
  "fgets_lines s =
     (if s = [] then [] else case first_line 4095 s of (l, r) \<Rightarrow> l # fgets_lines r)"
  by pat_completeness auto
termination
  by (relation "measure length") (auto dest: first_line_shorter)

declare fgets_lines.simps [simp del]

definition bind_pattern :: "string \<Rightarrow> probe \<Rightarrow> probe res" where
  "bind_pattern regexp = on_core (\<lambda>s. bindR (IvyBindMsg True regexp s) (\<lambda>(_, s). Inr s))"

text \<open>The last byte of every line is taken for its newline.\<close>

definition BindMsgOfFile :: "string \<Rightarrow> probe \<Rightarrow> probe res" where
  "BindMsgOfFile file =
     foldR (\<lambda>line p. if length line > 1 then bind_pattern (butlast line) p else Inr p) (fgets_lines file)"

function tokens :: "string \<Rightarrow> string \<Rightarrow> string list" where
  "tokens delim s = (case strtok s delim of (None, _) \<Rightarrow> [] | (Some w, r) \<Rightarrow> w # tokens delim r)"
  by pat_completeness auto
termination
  by (relation "measure (\<lambda>(_, s). length s)") (auto dest: strtok_shorter)

declare tokens.simps [simp del]

definition BuildFilterRegexp :: "regex_engine \<Rightarrow> bool \<Rightarrow> string \<Rightarrow> probe \<Rightarrow> probe" where
  "BuildFilterRegexp rx env classes p =
     (let filter = take 4096 (tokens '','' classes)
      in if filter = [] then p else p\<lparr>core := IvySetFilter rx env filter (core p)\<rparr>)"

section \<open>The program\<close>

record options =
  o_bus :: "string option"
  o_name :: string
  o_file :: "string option"
  o_classes :: "string option"
  o_timer :: bool
  o_wait :: int
  o_bind :: bool
  o_out :: string
  o_exited :: bool

definition no_options :: options where
  "no_options = \<lparr>o_bus = None, o_name = ''IVYPROBE'', o_file = None, o_classes = None,
     o_timer = False, o_wait = 0, o_bind = False, o_out = [], o_exited = False\<rparr>"

definition helpmsg :: string where
  "helpmsg =
     (let T = [CHR 0x09]; line = (\<lambda>a. T @ a @ newline)
      in ''[options] [regexps]'' @ newline @
         line (''-b bus'' @ T @ ''defines the Ivy bus to which to connect to, defaults to 127:2010'') @
         line (''-t'' @ T @ ''triggers the timer test'') @
         line (''-n name'' @ T @ ''changes the name of the agent, defaults to IVYPROBE'') @
         line (''-v'' @ T @ ''prints the ivy relase number'' @ newline) @
         ''regexp is a Perl5 compatible regular expression (see ivyprobe(1) and pcrepattern(3) for more info'' @
         newline @ ''use .help within ivyprobe'' @ newline @
         line (''-s bindcall'' @ T @ ''active the interception of regexp'' @ CHR 0x27 #
           ''s subscribing or unscribing'') @
         line (''-f regexfile'' @ T @ ''read list of regexp'' @ CHR 0x27 # ''s from file one by line'') @
         line (''-c msg1,msg2,msg3,...'' @ T @ ''filter the regexp'' @ CHR 0x27 #
           ''s not beginning with words''))"

definition print_version :: "options \<Rightarrow> options" where
  "print_version o' = o'\<lparr>o_out := o_out o' @ ''ivy c library version 3.15'' @ newline\<rparr>"

text \<open>
  One answer of \<open>getopt\<close>: the option and \<open>optarg\<close>. \<open>busbuf\<close> and \<open>agentnamebuf\<close> have 1024 bytes; \<open>-n\<close>
  falls through to \<open>-v\<close>.
\<close>

definition main_option :: "string \<Rightarrow> char \<times> string \<Rightarrow> options \<Rightarrow> options res" where
  "main_option argv0 = (\<lambda>(c, optarg) o'.
     if o_exited o' then Inr o'
     else if c = CHR ''b'' then (if length optarg \<ge> 1024 then Inl OutOfBounds else Inr (o'\<lparr>o_bus := Some optarg\<rparr>))
     else if c = CHR ''w'' then Inr (o'\<lparr>o_wait := atoi optarg\<rparr>)
     else if c = CHR ''f'' then Inr (o'\<lparr>o_file := Some optarg\<rparr>)
     else if c = CHR ''n''
     then (if length optarg \<ge> 1024 then Inl OutOfBounds else Inr (print_version (o'\<lparr>o_name := optarg\<rparr>)))
     else if c = CHR ''v'' then Inr (print_version o')
     else if c = CHR ''t'' then Inr (o'\<lparr>o_timer := True\<rparr>)
     else if c = CHR ''s'' then Inr (o'\<lparr>o_bind := True\<rparr>)
     else if c = CHR ''c'' then Inr (o'\<lparr>o_classes := Some optarg\<rparr>)
     else Inr (o'\<lparr>o_out := o_out o' @ ''usage: '' @ argv0 @ CHR '' '' # helpmsg, o_exited := True\<rparr>))"

text \<open>What the program needs from outside: the start of the bus, the files, the environment.\<close>

record probe_env =
  e_start :: start_env
  e_files :: "string \<Rightarrow> string option"
  e_debug_binary :: bool
  e_debug_filter :: bool

definition only_if :: "bool \<Rightarrow> ('s \<Rightarrow> 's res) \<Rightarrow> 's \<Rightarrow> 's res" where
  "only_if b f s = (if b then f s else Inr s)"

definition add_test_timer :: "int \<Rightarrow> int \<Rightarrow> ivy \<Rightarrow> ivy" where
  "add_test_timer count ltime s =
     s\<lparr>fresh := fresh s + 1, tmr := snd (TimerRepeatAfter (fresh s) count ltime True (current_ms s) (tmr s))\<rparr>"

definition probe_init :: "probe_env \<Rightarrow> options \<Rightarrow> ivy \<Rightarrow> probe" where
  "probe_init e o' s =
     \<lparr>core = IvyBindDirectMsg True (IvySetPongCallback True (IvySetBindCallback True
        (IvyInit (Some (o_name o')) (Some (o_name o' @ '' Ready'')) True False (e_debug_binary e) s))),
      app_count = 0, wait_count = o_wait o', fbindcallback = o_bind o', listener = PrintListener,
      stdin_channels = 0, out = o_out o'\<rparr>"

text \<open>\<open>main\<close> up to the main loop; \<open>agentready\<close> has 1024 bytes.\<close>

definition probe_main ::
    "regex_engine \<Rightarrow> probe_env \<Rightarrow> string \<Rightarrow> (char \<times> string) list \<Rightarrow> string list \<Rightarrow> ivy \<Rightarrow> probe res" where
  "probe_main rx e argv0 opts patterns s =
     bindR (foldR (main_option argv0) opts no_options) (\<lambda>o'.
       if o_exited o' then Inr ((probe_init e o' s)\<lparr>core := s\<lparr>exited := True\<rparr>\<rparr>)
       else if length (o_name o' @ '' Ready'') \<ge> 1024 then Inl OutOfBounds
       else let p = probe_init e o' s;
                p = (case o_classes o' of None \<Rightarrow> p | Some cs \<Rightarrow> BuildFilterRegexp rx (e_debug_filter e) cs p)
            in bindR (case o_file o' of None \<Rightarrow> Inr p | Some f \<Rightarrow>
                 (case e_files e f of None \<Rightarrow> Inr p | Some file \<Rightarrow> BindMsgOfFile file p)) (\<lambda>p.
               bindR (foldR (\<lambda>r p. bind_pattern r (print (''Binding to '' @ quoted r @ newline) p)) patterns p) (\<lambda>p.
               let p = (if wait_count p = 0 then p\<lparr>stdin_channels := stdin_channels p + 1\<rparr> else p)
               in bindR (on_core (IvyStart (e_start e) (o_bus o')) p) (\<lambda>p.
                  only_if (o_timer o') (on_core (\<lambda>s. Inr
                    (add_test_timer 5 5000 (add_test_timer TIMER_LOOP 1000 s)))) p))))"

section \<open>Tokens and lines\<close>

lemma strtok_word:
  assumes "w \<noteq> []" and "set w \<inter> set d = {}" and "c \<in> set d"
  shows "strtok (w @ c # r) d = (Some w, r)"
proof -
  obtain x xs where w: "w = x # xs" using assms(1) by (cases w) auto
  have "dropWhile (\<lambda>c. c \<in> set d) (w @ c # r) = w @ c # r" using assms(2) by (simp add: w)
  moreover have "takeWhile (\<lambda>c. c \<notin> set d) (w @ c # r) = w"
    using assms(2,3) by (subst takeWhile_append2) auto
  moreover have "dropWhile (\<lambda>c. c \<notin> set d) (w @ c # r) = c # r"
    using assms(2,3) by (subst dropWhile_append2) auto
  ultimately show ?thesis by (simp add: strtok_def)
qed

lemma strtok_nothing: "set s \<subseteq> set d \<Longrightarrow> strtok s d = (None, [])"
  by (simp add: strtok_def dropWhile_eq_Nil_conv subset_iff)

lemma tokens_concat:
  assumes "\<forall>w \<in> set ws. w \<noteq> [] \<and> set w \<inter> set d = {}" and "c \<in> set d"
  shows "tokens d (concat (map (\<lambda>w. w @ [c]) ws)) = ws"
  using assms(1)
proof (induction ws)
  case Nil
  show ?case by (subst tokens.simps) (simp add: strtok_nothing)
next
  case (Cons w ws)
  then show ?case by (subst tokens.simps) (simp add: strtok_word assms(2))
qed

lemma kill_all_tokens: "kill_all apps p = foldR kill_one (tokens ''#'' apps) p"
proof (induction apps p rule: kill_all.induct)
  case (1 apps p)
  show ?case
  proof (cases "strtok apps ''#''")
    case (Pair w rest)
    show ?thesis
    proof (cases w)
      case None
      then show ?thesis by (subst kill_all.simps, subst tokens.simps) (simp add: Pair)
    next
      case (Some arg)
      have "kill_all rest q = foldR kill_one (tokens ''#'' rest) q" if "kill_one arg p = Inr q" for q
        using 1 Pair Some by simp
      then show ?thesis
        by (subst kill_all.simps, subst tokens.simps) (cases "kill_one arg p"; simp add: Pair Some)
    qed
  qed
qed

lemma first_line_full:
  assumes "NL \<notin> set l" and "length l < k"
  shows "first_line k (l @ NL # r) = (l @ [NL], r)" "first_line k l = (l, [])"
  using assms
proof (induction l arbitrary: k)
  case Nil
  { case 1 then show ?case by (cases k) auto } { case 2 then show ?case by (cases k) auto }
next
  case (Cons c l)
  { case 1 with Cons.IH(1) [of "k - 1"] show ?case by (cases k) auto }
  { case 2 with Cons.IH(2) [of "k - 1"] show ?case by (cases k) auto }
qed

lemma fgets_lines_whole:
  assumes "\<forall>l \<in> set ls. NL \<notin> set l \<and> length l < 4095" and "NL \<notin> set l'" and "length l' < 4095"
  shows "fgets_lines (concat (map (\<lambda>l. l @ [NL]) ls) @ l') =
           map (\<lambda>l. l @ [NL]) ls @ (if l' = [] then [] else [l'])"
  using assms(1)
proof (induction ls)
  case Nil
  show ?case
    by (subst fgets_lines.simps) (auto simp: first_line_full(2) [OF assms(2,3)] fgets_lines.simps [of "[]"])
next
  case (Cons l ls)
  then show ?case by (subst fgets_lines.simps) (simp add: first_line_full(1))
qed

section \<open>Killing every application\<close>

definition die_of :: "string \<Rightarrow> ivy \<Rightarrow> ivy res" where
  "die_of name s = IvySendDieMsg (IvyGetApplication name s) s"

definition known :: "string \<Rightarrow> ivy \<Rightarrow> bool" where
  "known name s \<longleftrightarrow> name \<in> c_app_name ` set (allClients s)"

text \<open>The application that \<open>IvyGetApplication\<close> finds under a name.\<close>

definition named_first :: "string \<Rightarrow> ivy \<Rightarrow> clnt" where
  "named_first name s = the (find (\<lambda>c. c_app_name c = name) (allClients s))"

lemma named_first:
  assumes "known name s" and "clients_inv s" and "\<forall>x \<in> set (allClients s). c_ptr x \<noteq> 0"
  shows "named_first name s \<in> set (allClients s)" "c_app_name (named_first name s) = name"
    "IvyGetApplication name s = c_ptr (named_first name s)" "c_ptr (named_first name s) \<noteq> 0"
    "find_clnt (c_ptr (named_first name s)) s = Some (named_first name s)"
proof -
  have "find (\<lambda>c. c_app_name c = name) (allClients s) \<noteq> None"
    using assms(1) by (auto simp: known_def find_None_iff)
  then obtain y where y: "find (\<lambda>c. c_app_name c = name) (allClients s) = Some y" by blast
  then have mem: "y \<in> set (allClients s)" "c_app_name y = name" using find_Some_mem [OF y] by auto
  show "named_first name s \<in> set (allClients s)" "c_app_name (named_first name s) = name"
    "IvyGetApplication name s = c_ptr (named_first name s)" "c_ptr (named_first name s) \<noteq> 0"
    using mem y assms(3) by (simp_all add: named_first_def IvyGetApplication_def)
  show "find_clnt (c_ptr (named_first name s)) s = Some (named_first name s)"
    using mem y assms(2) find_clnt_mem [of s y] by (simp add: named_first_def)
qed

lemma die_of_ok:
  assumes "known name s" and "clients_inv s" and "\<forall>x \<in> set (allClients s). c_ptr x \<noteq> 0"
    and "ready_to_send s" and "socks s (c_client (named_first name s)) \<noteq> None"
    and "roomy (c_client (named_first name s)) (length (message_line Die 0 [])) s"
  shows "\<exists>t. die_of name s = Inr t \<and>
           delivers s (\<lambda>c. if c = c_client (named_first name s) then message_line Die 0 [] else []) t"
  using msg_to_ok [OF assms(4-6)] named_first [OF assms(1-3)]
  by (simp add: die_of_def IvySendDieMsg_def with_app_def delivers_to_def)

lemma kill_one_die:
  "known name (core p) \<Longrightarrow> clients_inv (core p) \<Longrightarrow> \<forall>x \<in> set (allClients (core p)). c_ptr x \<noteq> 0 \<Longrightarrow>
   die_of name (core p) = Inr t \<Longrightarrow> \<exists>q. kill_one name p = Inr q \<and> core q = t"
  using named_first [of name "core p"]
  by (simp add: kill_one_def to_application_def on_core_def print_def die_of_def)

lemma talk_names:
  assumes "talk s u"
  shows "known name u = known name s" "clients_inv u = clients_inv s" "named_first name u = named_first name s"
  using talk_fields(1,7) [OF assms] by (simp_all add: known_def clients_inv_def named_first_def)

lemma die_of_talk: "die_of name s = Inr t \<Longrightarrow> talk s t"
  by (auto simp: die_of_def IvySendDieMsg_def with_app_def split: if_splits option.splits dest: msg_to_talk)

lemma kill_ones_die:
  assumes "\<forall>name \<in> set names. known name (core p)" and "clients_inv (core p)"
    and "\<forall>x \<in> set (allClients (core p)). c_ptr x \<noteq> 0" and "foldR die_of names (core p) = Inr t"
  shows "\<exists>q. foldR kill_one names p = Inr q \<and> core q = t"
  using assms
proof (induction names arbitrary: p)
  case (Cons name names)
  from Cons.prems(4) obtain u where u: "die_of name (core p) = Inr u" "foldR die_of names u = Inr t"
    by (auto simp: bindR_eq_Inr)
  from kill_one_die [OF _ Cons.prems(2,3) u(1)] Cons.prems(1) obtain q where
    q: "kill_one name p = Inr q" "core q = u" by auto
  have "\<exists>r. foldR kill_one names q = Inr r \<and> core r = t"
    using Cons.prems u(2) q(2) talk_names [OF die_of_talk [OF u(1)]] talk_fields(1) [OF die_of_talk [OF u(1)]]
    by (intro Cons.IH) auto
  with q(1) show ?case by simp
qed simp

lemma concat_if_replicate:
  "concat (map (\<lambda>y. if P y then l else []) ys) = concat (replicate (length (filter P ys)) l)"
  by (induction ys) auto

text \<open>How many messages \<open>.dieall-yes-i-am-sure\<close> sends to a client.\<close>

definition deaths :: "clnt \<Rightarrow> ivy \<Rightarrow> nat" where
  "deaths x s =
     (if IvyGetApplication (c_app_name x) s = c_ptr x
      then length (filter (\<lambda>y. c_app_name y = c_app_name x) (allClients s)) else 0)"

lemma deaths_named_first:
  assumes "clients_inv s" and "\<forall>x \<in> set (allClients s). c_ptr x \<noteq> 0" and "x \<in> set (allClients s)"
  shows "length (filter (\<lambda>n. c_client x = c_client (named_first n s)) (map c_app_name (allClients s))) = deaths x s"
proof -
  have k: "known n s \<longleftrightarrow> n \<in> c_app_name ` set (allClients s)" for n by (simp add: known_def)
  have eq: "c_client x = c_client (named_first n s) \<longleftrightarrow> named_first n s = x" if "known n s" for n
    using named_first(1) [OF that assms(1,2)] assms(1,3) by (auto simp: clients_inv_def distinct_map dest: inj_onD)
  have ptr: "IvyGetApplication (c_app_name x) s = c_ptr x \<longleftrightarrow> named_first (c_app_name x) s = x"
    using named_first(1,3) [of "c_app_name x" s] assms
    by (auto simp: known_def clients_inv_def distinct_map dest: inj_onD)
  have app: "named_first n s = x \<Longrightarrow> known n s \<Longrightarrow> n = c_app_name x" for n
    using named_first(2) [OF _ assms(1,2)] by auto
  have "c_client x = c_client (named_first (c_app_name y) s) \<longleftrightarrow>
      IvyGetApplication (c_app_name x) s = c_ptr x \<and> c_app_name y = c_app_name x"
    if "y \<in> set (allClients s)" for y
    using eq [of "c_app_name y"] app [of "c_app_name y"] ptr that k by auto
  then have "filter (\<lambda>y. c_client x = c_client (named_first (c_app_name y) s)) (allClients s) =
      filter (\<lambda>y. IvyGetApplication (c_app_name x) s = c_ptr x \<and> c_app_name y = c_app_name x) (allClients s)"
    by (rule filter_cong [OF refl])
  then show ?thesis by (simp add: deaths_def filter_map comp_def)
qed

lemma dieall_command:
  "HandleStdin rx peer (Some (''.dieall-yes-i-am-sure'' @ [NL])) p =
     bindR (IvyGetApplicationList ''#'' (core p)) (\<lambda>apps. kill_all apps p)"
proof -
  have "strtok (''.dieall-yes-i-am-sure'' @ [NL]) (''.: '' @ newline) = (Some ''dieall-yes-i-am-sure'', [])"
    by (simp add: strtok_def newline_def NL_def)
  then show ?thesis by (simp add: HandleStdin_def command_def)
qed

section \<open>Properties\<close>

text \<open>
  C39: \<open>.dieall-yes-i-am-sure\<close> looks every connected application up by its name: an application
  that is the first of its name is sent one \<open>Die\<close> for each application of that name, and an
  application whose name is borne by an earlier one is sent none and survives. With distinct names
  every application is sent exactly one.
\<close>
theorem dieall_kills_by_name:
  assumes "clients_inv (core p)" and "sock_inv (core p)" and "SendFails \<notin> set (script (net (core p)))"
    and "\<forall>x \<in> set (allClients (core p)). c_ptr x \<noteq> 0 \<and> socks (core p) (c_client x) \<noteq> None \<and>
           c_app_name x \<noteq> [] \<and> CHR ''#'' \<notin> set (c_app_name x) \<and>
           roomy (c_client x) (deaths x (core p) * length (message_line Die 0 [])) (core p)"
    and "length (concat (map (\<lambda>x. c_app_name x @ ''#'') (allClients (core p)))) < 4096"
  shows "\<exists>q. HandleStdin rx peer (Some (''.dieall-yes-i-am-sure'' @ [NL])) p = Inr q \<and>
           (\<forall>x \<in> set (allClients (core p)). stream (c_client x) (core q) =
              stream (c_client x) (core p) @ concat (replicate (deaths x (core p)) (message_line Die 0 [])))"
proof -
  let ?s = "core p" and ?L = "message_line Die 0 []" and ?names = "map c_app_name (allClients (core p))"
  let ?out = "\<lambda>n c. if c = c_client (named_first n ?s) then ?L else []"
  have ptr: "\<forall>x \<in> set (allClients ?s). c_ptr x \<noteq> 0" using assms(4) by blast
  have known: "known n ?s" if "n \<in> set ?names" for n using that by (auto simp: known_def)
  have out: "concat (map (\<lambda>n. ?out n (c_client x)) ?names) = concat (replicate (deaths x ?s) ?L)"
    if "x \<in> set (allClients ?s)" for x
    using deaths_named_first [OF assms(1) ptr that] by (simp only: concat_if_replicate)
  have room: "room_for (\<lambda>c. concat (map (\<lambda>n. ?out n c) ?names)) ?s"
    unfolding room_for_def
  proof
    fix c
    show "concat (map (\<lambda>n. ?out n c) ?names) = [] \<or> roomy c (length (concat (map (\<lambda>n. ?out n c) ?names))) ?s"
    proof (cases "c \<in> c_client ` set (allClients ?s)")
      case True
      then obtain x where "x \<in> set (allClients ?s)" "c = c_client x" by auto
      with out assms(4) show ?thesis by (simp add: length_concat sum_list_replicate)
    next
      case False
      then show ?thesis using named_first(1) [OF known assms(1) ptr] by (force simp: concat_eq_Nil_conv)
    qed
  qed
  have "\<exists>t. foldR die_of ?names ?s = Inr t \<and> delivers ?s (\<lambda>c. concat (map (\<lambda>n. ?out n c) ?names)) t"
  proof (rule deliver_foldR [OF _ _ room])
    fix n u assume n: "n \<in> set ?names" and u: "talk ?s u" "ready_to_send u" "room_for (?out n) u"
    note same = talk_names [OF u(1)] talk_fields(1,16) [OF u(1)]
    have "roomy (c_client (named_first n u)) (length ?L) u"
      using room_forD [OF u(3), of "c_client (named_first n ?s)"] same
      by (simp add: message_line_def wire_header_def)
    then show "\<exists>t. die_of n u = Inr t \<and> delivers u (?out n) t"
      using die_of_ok [of n u] known [OF n] named_first(1) [OF known [OF n] assms(1) ptr] assms(1,4) u(2) same
      by simp
  qed (use assms(2,3) in \<open>simp add: ready_to_send_def\<close>)
  then obtain t where t: "foldR die_of ?names ?s = Inr t" "delivers ?s (\<lambda>c. concat (map (\<lambda>n. ?out n c) ?names)) t"
    by blast
  from kill_ones_die [OF _ assms(1) ptr t(1)] known obtain q where
    q: "foldR kill_one ?names p = Inr q" "core q = t" by auto
  have "tokens ''#'' (concat (map (\<lambda>n. n @ ''#'') ?names)) = ?names"
    using assms(4) by (intro tokens_concat) auto
  moreover have "IvyGetApplicationList ''#'' ?s = Inr (concat (map (\<lambda>n. n @ ''#'') ?names))"
    using assms(5) by (simp add: IvyGetApplicationList_def comp_def)
  ultimately have "HandleStdin rx peer (Some (''.dieall-yes-i-am-sure'' @ [NL])) p = Inr q"
    by (simp only: dieall_command kill_all_tokens q(1) bindR_simps)
  then show ?thesis using t(2) q(2) out by (auto simp: delivers_def)
qed

definition demo_probe :: "ivy \<Rightarrow> probe" where
  "demo_probe s = \<lparr>core = s, app_count = 1, wait_count = 0, fbindcallback = False, listener = PrintListener,
     stdin_channels = 1, out = []\<rparr>"

lemma demo_probe_fields [simp]:
  "core (demo_probe s) = s" "app_count (demo_probe s) = 1" "stdin_channels (demo_probe s) = 1"
  "out (demo_probe s) = []"
  by (simp_all add: demo_probe_def)

theorem dieall_kills_by_name_witness:
  "\<exists>q. HandleStdin first_char_engine (\<lambda>_. None) (Some (''.dieall-yes-i-am-sure'' @ [NL])) (demo_probe demo_idle) = Inr q \<and>
     stream 1 (core q) = message_line Die 0 []"
proof -
  have d: "deaths demo_peer demo_idle = 1"
    by (simp add: deaths_def IvyGetApplication_def demo_idle_ready(6))
  have "roomy 1 (length (message_line Die 0 [])) demo_idle"
    by (rule demo_idle_ready) (simp add: message_line_def wire_header_def show_int_def show_nat.simps)
  then have "\<forall>x \<in> set (allClients demo_idle). c_ptr x \<noteq> 0 \<and> socks demo_idle (c_client x) \<noteq> None \<and>
      c_app_name x \<noteq> [] \<and> CHR ''#'' \<notin> set (c_app_name x) \<and>
      roomy (c_client x) (deaths x demo_idle * length (message_line Die 0 [])) demo_idle"
    by (simp add: demo_idle_ready(6) d del: One_nat_def)
      (simp add: demo_peer_def demo_idle_ready(2) del: One_nat_def)
  moreover have "length (c_app_name demo_peer) < 4095" by (simp add: demo_peer_def)
  moreover have "concat (replicate 1 (message_line Die 0 [])) = message_line Die 0 []" by simp
  ultimately show ?thesis
    using dieall_kills_by_name [of "demo_probe demo_idle" first_char_engine "\<lambda>_. None"]
    demo_idle_ok(1) demo_idle_ready(1)
    by (simp add: ready_to_send_def demo_idle_ready d demo_idle_eqs(3,4) del: One_nat_def append_Cons)
qed

text \<open>
  C38: a line typed at \<open>ivyprobe\<close> that does not begin with a point is sent as it is, without its
  newline, to every subscription it matches, and their number is printed.
\<close>
theorem typed_line_is_sent:
  assumes "sock_inv (core p)" and "SendFails \<notin> set (script (net (core p)))" and "\<not> debug_binary_msg (core p)"
    and "NL \<notin> set line" and "line \<noteq> []" and "hd line \<noteq> CHR ''.''"
    and "list_all (good_entry rx line) (messSndByRegexp (core p))"
    and "\<forall>e \<in> set (messSndByRegexp (core p)). \<forall>dc \<in> set (d_clientList e). socks (core p) (dc_client dc) \<noteq> None"
    and "room_for (\<lambda>c. frames (calls rx line (messSndByRegexp (core p)) c)) (core p)"
    and "n = length (concat (map d_clientList (matching rx line (messSndByRegexp (core p)))))"
  shows "\<exists>q. HandleStdin rx peer (Some (line @ [NL])) p = Inr q \<and>
           out q = out p @ ''-> Sent to '' @ show_nat n @ '' peer'' @ (if n = 1 then [] else ''s'') @ [NL] \<and>
           (\<forall>c. stream c (core q) = stream c (core p) @ frames (calls rx line (messSndByRegexp (core p)) c))"
proof -
  have "strtok (line @ [NL]) newline = (Some line, [])"
    using strtok_word [of line newline NL "[]"] assms(4,5) by (simp add: newline_def)
  moreover have "hd (line @ [NL]) \<noteq> CHR ''.''" using assms(5,6) by simp
  moreover from IvySendMsg_ok [OF assms(1,2) _ assms(3,7-9), of "''%s''"] assms(10) obtain t where
    "IvySendMsg rx (Some ''%s'') line (core p) = Inr (n, t)"
    "delivers (core p) (\<lambda>c. frames (calls rx line (messSndByRegexp (core p)) c)) t" by auto
  ultimately show ?thesis
    by (simp add: HandleStdin_def send_line_def or_null_def print_def newline_def delivers_def)
qed

theorem typed_line_is_sent_witness:
  "\<exists>q. HandleStdin first_char_engine (\<lambda>_. None) (Some (''ab'' @ [NL])) (demo_probe demo_sender) = Inr q \<and>
     out q = ''-> Sent to 1 peer'' @ [NL] \<and> stream 1 (core q) = frames [(3, [''a''])]"
proof -
  have n: "show_nat 1 = ''1''" by code_simp
  from typed_line_is_sent [of "demo_probe demo_sender" "''ab''" first_char_engine 1 "\<lambda>_. None"]
    demo_sender_ok demo_sender_room
  show ?thesis
    by (auto simp: demo_sender_calls demo_sender_stream NL_def n simp del: One_nat_def)
qed

text \<open>
  \<open>-f\<close> binds the lines of the file in order, without the empty ones. The last byte of every
  line is taken for its newline: of a last line that has none, the last character is lost.
\<close>
theorem file_binds_its_lines:
  assumes "\<forall>l \<in> set ls. NL \<notin> set l \<and> length l < 4095" and "NL \<notin> set l'" and "length l' < 4095"
  shows "BindMsgOfFile (concat (map (\<lambda>l. l @ [NL]) ls) @ l') =
           foldR bind_pattern (filter (\<lambda>l. l \<noteq> []) (ls @ [butlast l']))"
proof -
  let ?f = "\<lambda>line p. if length line > 1 then bind_pattern (butlast line) p else Inr p"
  have lines: "foldR ?f (map (\<lambda>l. l @ [NL]) ls) p = foldR bind_pattern (filter (\<lambda>l. l \<noteq> []) ls) p" for p
  proof (induction ls arbitrary: p)
    case (Cons l ls)
    then show ?case by (cases "bind_pattern l p") auto
  qed simp
  have tail: "foldR ?f (if l' = [] then [] else [l']) = foldR bind_pattern (filter (\<lambda>l. l \<noteq> []) [butlast l'])"
  proof
    fix p
    show "foldR ?f (if l' = [] then [] else [l']) p = foldR bind_pattern (filter (\<lambda>l. l \<noteq> []) [butlast l']) p"
      by (cases l' rule: rev_cases; cases "bind_pattern (butlast l') p") auto
  qed
  show ?thesis
    unfolding BindMsgOfFile_def fgets_lines_whole [OF assms]
    by (intro ext) (simp only: foldR_append filter_append lines tail)
qed

theorem file_binds_its_lines_witness:
  "BindMsgOfFile (''a(.*)'' @ [NL, NL] @ ''b.c'') (demo_probe demo_idle) =
     foldR bind_pattern [''a(.*)'', ''b.''] (demo_probe demo_idle)"
  using file_binds_its_lines [of "[''a(.*)'', []]" "''b.c''"] by (simp add: NL_def)

text \<open>
  With \<open>-w\<close>, whenever the number of applications reaches the awaited one the standard input is
  added to the loop: an application that leaves and comes back adds it a second time, and every
  line is then awaited by two handlers.
\<close>
theorem return_adds_input_again:
  assumes "IvyGetApplicationName app (core p) = Inr name" and "IvyGetApplicationHost peer app (core p) = Inr host"
    and "app_count p = wait_count p" and "is_int32 (app_count p)"
  shows "\<exists>q r. ApplicationCallback peer app IvyApplicationDisconnected p = Inr q \<and>
           ApplicationCallback peer app IvyApplicationConnected q = Inr r \<and>
           stdin_channels q = stdin_channels p \<and> stdin_channels r = stdin_channels p + 1 \<and>
           app_count r = app_count p"
proof -
  have "s32 (s32 (app_count p - 1) + 1) = app_count p"
    using assms(4) by (simp add: s32_def is_int32_def mod_simps)
  then show ?thesis using assms(1-3)
    by (simp add: ApplicationCallback_def named_def print_def Let_def)
qed

theorem return_adds_input_again_witness:
  "\<exists>q r. ApplicationCallback (\<lambda>_. None) 5 IvyApplicationDisconnected ((demo_probe demo_idle)\<lparr>wait_count := 1\<rparr>) = Inr q \<and>
     ApplicationCallback (\<lambda>_. None) 5 IvyApplicationConnected q = Inr r \<and> stdin_channels r = 2"
proof -
  have h: "IvyGetApplicationName 5 demo_idle = Inr ''peer''"
    "\<exists>h. IvyGetApplicationHost (\<lambda>_. None) 5 demo_idle = Inr h"
    by (simp_all add: IvyGetApplicationName_def IvyGetApplicationHost_def with_app_def demo_idle_ready(9)
        SocketGetPeerHost_def demo_peer_def deref_def demo_idle_ready(2) del: One_nat_def)
  then obtain host where "IvyGetApplicationHost (\<lambda>_. None) 5 demo_idle = Inr host" by blast
  with return_adds_input_again [of 5 "(demo_probe demo_idle)\<lparr>wait_count := 1\<rparr>" "''peer''" "\<lambda>_. None" host] h(1)
  show ?thesis by (auto simp: is_int32_def)
qed

end
