(* ===== verification/IvyTcl.thy ===== *)
theory IvyTcl
  imports IvyStart IvyApp
begin

text \<open>
  The commands and callbacks of the Tcl binding, \<open>ivytcl.c\<close>, over the calls of the library. The
  interpreter is an argument: what \<open>Tcl_GlobalEval\<close> does to the state, which may be to call the
  commands of the binding. There is one interpreter. The channels of the binding are in
  \<open>IvyToolkit\<close>.
\<close>

section \<open>State\<close>

text \<open>
  A \<open>filter_struct\<close>, as a block of memory, and the static variables. A hash table is a partial
  map; before \<open>Tcl_InitHashTable\<close> its operations are null pointers.
\<close>

record filter_struct =
  fs_id :: nat
  fs_script :: string
  fs_filter :: string

record tcl =
  tcl_core :: ivy
  blocks :: "nat \<rightharpoonup> filter_struct"
  next_block :: nat
  nom_de_l_appli :: "string option"
  message_de_bienvenue :: "string option"
  tables_ready :: bool
  filter_table :: "int \<rightharpoonup> nat"
  app_table :: "string \<rightharpoonup> nat"
  filter_id :: int
  app_block :: nat                   \<comment> \<open>\<open>user_data\<close> of \<open>IvyAppCB\<close>\<close>
  die_block :: nat                   \<comment> \<open>\<open>user_data\<close> of \<open>IvyDieCB\<close>\<close>
  direct_block :: "nat option"       \<comment> \<open>the static \<open>filter\<close> of \<open>IvyBindDirectCmd\<close>\<close>
  background_errors :: nat           \<comment> \<open>calls of \<open>Tcl_BackgroundError\<close>\<close>

text \<open>
  What the binding needs from outside: \<open>Tcl_GlobalEval\<close>, which runs a script and may call the
  commands of the binding again, and the order in which \<open>Tcl_NextHashEntry\<close> walks a table.
\<close>

record tcl_env =
  te_eval :: "string \<Rightarrow> tcl \<Rightarrow> (bool \<times> tcl) res"
  te_keys :: "(string \<rightharpoonup> nat) \<Rightarrow> string list"
  te_start :: start_env
  te_peer :: "nat \<Rightarrow> sockaddr option"
  te_debug :: bool

definition INTEGER_SPACE :: nat where "INTEGER_SPACE = 30"

definition with_block :: "nat \<Rightarrow> (filter_struct \<Rightarrow> 't res) \<Rightarrow> tcl \<Rightarrow> 't res" where
  "with_block b f s = (case blocks s b of None \<Rightarrow> Inl UseAfterFree | Some x \<Rightarrow> f x)"

definition with_tables :: "(tcl \<Rightarrow> 't res) \<Rightarrow> tcl \<Rightarrow> 't res" where
  "with_tables f s = (if tables_ready s then f s else Inl Uninitialised)"

definition on_ivy :: "(ivy \<Rightarrow> ivy res) \<Rightarrow> tcl \<Rightarrow> tcl res" where
  "on_ivy f s = bindR (f (tcl_core s)) (\<lambda>c. Inr (s\<lparr>tcl_core := c\<rparr>))"

section \<open>Scripts\<close>

text \<open>A block of \<open>n\<close> bytes filled by \<open>strcpy\<close> and \<open>strcat\<close>.\<close>

definition strcat_all :: "nat \<Rightarrow> string list \<Rightarrow> string res" where
  "strcat_all n parts =
     (if length (concat parts) < n then Inr (concat parts) else Inl OutOfBounds)"

definition dquote :: string where "dquote = [CHR 0x22]"

definition word_of :: "string \<Rightarrow> string list" where
  "word_of w = [CHR '' '' # dquote, w, dquote]"

text \<open>The script is run between \<open>Tcl_Preserve\<close> and \<open>Tcl_Release\<close>, which read the block.\<close>

definition run_script :: "tcl_env \<Rightarrow> nat \<Rightarrow> string \<Rightarrow> tcl \<Rightarrow> tcl res" where
  "run_script e b cmd s =
     bindR (te_eval e cmd s) (\<lambda>(ok, s).
       with_block b (\<lambda>_. Inr (if ok then s else s\<lparr>background_errors := background_errors s + 1\<rparr>)) s)"

definition app_event_str :: "app_event \<Rightarrow> string" where
  "app_event_str event = [''Connected'', ''Disconnected''] ! (event_code event mod 2)"

definition IvyAppCB :: "tcl_env \<Rightarrow> nat \<Rightarrow> nat \<Rightarrow> app_event \<Rightarrow> tcl \<Rightarrow> tcl res" where
  "IvyAppCB e b app event = with_tables (\<lambda>s. with_block b (\<lambda>flt.
     bindR (IvyGetApplicationName app (tcl_core s)) (\<lambda>name.
       let s = (if event = IvyApplicationConnected \<and> app_table s name = None
                then s\<lparr>app_table := (app_table s)(name \<mapsto> app)\<rparr> else s);
           entry = (app_table s name \<noteq> None);
           n = length (fs_script flt) + INTEGER_SPACE + (if entry then length name + 3 else 4)
       in bindR (strcat_all n ([fs_script flt, '' ''] @
                  (if entry then word_of name else [''???'']) @ word_of (app_event_str event)))
            (\<lambda>cmd. bindR (run_script e b cmd s) (\<lambda>s.
               if event = IvyApplicationDisconnected \<and> entry
               then (if app_table s name = None then Inl UseAfterFree
                     else Inr (s\<lparr>app_table := (app_table s)(name := None)\<rparr>))
               else Inr s)))) s)"

definition IvyDieCB :: "tcl_env \<Rightarrow> nat \<Rightarrow> nat \<Rightarrow> int \<Rightarrow> tcl \<Rightarrow> tcl res" where
  "IvyDieCB e b app i s = with_block b (\<lambda>flt.
     bindR (strcat_all INTEGER_SPACE [show_int i]) (\<lambda>idstr.
     bindR (strcat_all (length (fs_script flt) + INTEGER_SPACE + 1) (fs_script flt # word_of idstr))
       (\<lambda>cmd. run_script e b cmd s))) s"

definition IvyMsgCB :: "tcl_env \<Rightarrow> nat \<Rightarrow> nat \<Rightarrow> string list \<Rightarrow> tcl \<Rightarrow> tcl res" where
  "IvyMsgCB e b app argv s = with_block b (\<lambda>flt.
     bindR (IvyGetApplicationName app (tcl_core s)) (\<lambda>name.
       let n = length (fs_script flt) + 3 + sum_list (map (\<lambda>a. length a + 3) argv) + 1 + length name + 4
       in bindR (strcat_all n (fs_script flt # word_of name @ concat (map word_of argv)))
            (\<lambda>cmd. run_script e b cmd s))) s"

definition IvyDirectMsgCB :: "tcl_env \<Rightarrow> nat \<Rightarrow> nat \<Rightarrow> int \<Rightarrow> string \<Rightarrow> tcl \<Rightarrow> tcl res" where
  "IvyDirectMsgCB e b app i msg s = with_block b (\<lambda>flt.
     bindR (strcat_all INTEGER_SPACE [show_int i]) (\<lambda>int_buffer.
       let n = (length (fs_script flt) + 1) + (length int_buffer + 1) + (length msg + 1)
       in bindR (strcat_all n ([fs_script flt, '' '', int_buffer] @ word_of msg))
            (\<lambda>cmd. run_script e b cmd s))) s"

section \<open>Commands\<close>

datatype tcl_result = Text string | Elements "string list"
datatype tcl_reply = TCL_OK tcl_result | TCL_ERROR string

definition wrong_args :: "string list \<Rightarrow> string \<Rightarrow> tcl_reply" where
  "wrong_args argv usage = TCL_ERROR (''wrong # of args: '' @ dquote @ argv ! 0 @ usage @ dquote)"

definition tcl_ok :: tcl_reply where "tcl_ok = TCL_OK (Text [])"

text \<open>What a format makes with no argument after it: only \<open>%%\<close> is defined.\<close>

fun format_alone :: "string \<Rightarrow> string res" where
  "format_alone [] = Inr []"
| "format_alone (c # s) =
     (if c \<noteq> CHR ''%'' then bindR (format_alone s) (\<lambda>t. Inr (c # t))
      else (case s of [] \<Rightarrow> Inl BadFormat
            | d # r \<Rightarrow> if d = CHR ''%'' then bindR (format_alone r) (\<lambda>t. Inr (d # t)) else Inl BadFormat))"

text \<open>\<open>strtol (s, &end, 10)\<close>: the value and what \<open>end\<close> points to.\<close>

definition strtol :: "string \<Rightarrow> int \<times> string" where
  "strtol s =
     (let (neg, t) = scan_sign (dropWhile is_space s);
          ds = takeWhile is_digit t;
          v = int (digits_val ds)
      in if ds = [] then (0, s) else (clip_long (if neg then - v else v), dropWhile is_digit t))"

definition new_block :: "filter_struct \<Rightarrow> tcl \<Rightarrow> nat \<times> tcl" where
  "new_block f s = (next_block s, s\<lparr>blocks := (blocks s)(next_block s \<mapsto> f), next_block := next_block s + 1\<rparr>)"

definition IvyInitCmd :: "tcl_env \<Rightarrow> string list \<Rightarrow> tcl \<Rightarrow> (tcl_reply \<times> tcl) res" where
  "IvyInitCmd e argv s =
     (if nom_de_l_appli s \<noteq> None then Inr (TCL_ERROR ''Ivy has been already inited'', s)
      else if length argv \<noteq> 5 then Inr (wrong_args argv '' appName readyMsg connectScript dieScript'', s)
      else let (app, s) = new_block \<lparr>fs_id = 0, fs_script = argv ! 3, fs_filter = []\<rparr> s;
               (die, s) = new_block \<lparr>fs_id = 0, fs_script = argv ! 4, fs_filter = []\<rparr> s
           in Inr (tcl_ok, s\<lparr>nom_de_l_appli := Some (argv ! 1), message_de_bienvenue := Some (argv ! 2),
                app_block := app, die_block := die, tables_ready := True,
                filter_table := Map.empty, app_table := Map.empty,
                tcl_core := IvyInit (Some (argv ! 1)) (Some (argv ! 2)) True True (te_debug e) (tcl_core s)\<rparr>))"

definition IvyStartCmd :: "tcl_env \<Rightarrow> string list \<Rightarrow> tcl \<Rightarrow> (tcl_reply \<times> tcl) res" where
  "IvyStartCmd e argv s =
     (if length argv \<noteq> 2 then Inr (wrong_args argv '' msg'', s)
      else bindR (on_ivy (IvyStart (te_start e) (Some (argv ! 1))) s) (\<lambda>s. Inr (tcl_ok, s)))"

definition IvyBindCmd :: "string list \<Rightarrow> tcl \<Rightarrow> (tcl_reply \<times> tcl) res" where
  "IvyBindCmd argv s =
     (if length argv \<noteq> 3 then Inr (wrong_args argv '' filter script'', s)
      else bindR (format_alone (argv ! 1)) (\<lambda>pattern.
           bindR (IvyBindMsg True pattern (tcl_core s)) (\<lambda>(m, c).
             let (b, s) = new_block \<lparr>fs_id = m, fs_script = argv ! 2, fs_filter = argv ! 1\<rparr> (s\<lparr>tcl_core := c\<rparr>)
             in with_tables (\<lambda>s.
                  Inr (TCL_OK (Text (show_int (filter_id s))),
                    s\<lparr>filter_table := (filter_table s)(filter_id s \<mapsto> b), filter_id := s32 (filter_id s + 1)\<rparr>)) s)))"

definition IvyUnbindCmd :: "string list \<Rightarrow> tcl \<Rightarrow> (tcl_reply \<times> tcl) res" where
  "IvyUnbindCmd argv s =
     (if length argv \<noteq> 2 then Inr (wrong_args argv '' filterId'', s)
      else let (filterId, rest) = strtol (argv ! 1)
           in if rest \<noteq> [] then Inr (TCL_ERROR (argv ! 0 @ '' wrong filter id: '' @ dquote @ argv ! 1), s)
              else with_tables (\<lambda>s. case filter_table s filterId of
                     None \<Rightarrow> Inr (TCL_ERROR (argv ! 0 @ '' unknown filter: '' @ dquote @ argv ! 1), s)
                   | Some b \<Rightarrow> with_block b (\<lambda>flt.
                       bindR (on_ivy (IvyUnbindMsg (fs_id flt)) (s\<lparr>filter_table := (filter_table s)(filterId := None)\<rparr>))
                         (\<lambda>s. Inr (tcl_ok, s\<lparr>blocks := (blocks s)(b := None)\<rparr>))) s) s)"

definition IvySendCmd :: "regex_engine \<Rightarrow> string list \<Rightarrow> tcl \<Rightarrow> (tcl_reply \<times> tcl) res" where
  "IvySendCmd rx argv s =
     (if length argv \<noteq> 2 then Inr (wrong_args argv '' msg'', s)
      else bindR (format_alone (argv ! 1)) (\<lambda>text.
           bindR (on_ivy (\<lambda>c. bindR (IvySendMsg rx (Some (argv ! 1)) text c) (\<lambda>(_, c). Inr c)) s)
             (\<lambda>s. Inr (tcl_ok, s))))"

definition IvyApplicationListCmd :: "tcl_env \<Rightarrow> string list \<Rightarrow> tcl \<Rightarrow> (tcl_reply \<times> tcl) res" where
  "IvyApplicationListCmd e argv s =
     (if length argv \<noteq> 1 then Inr (wrong_args argv [], s)
      else with_tables (\<lambda>s. Inr (TCL_OK (Elements (te_keys e (app_table s))), s)) s)"

definition with_entry :: "string \<Rightarrow> (nat \<Rightarrow> tcl \<Rightarrow> (tcl_reply \<times> tcl) res) \<Rightarrow> tcl \<Rightarrow> (tcl_reply \<times> tcl) res" where
  "with_entry name f = with_tables (\<lambda>s. case app_table s name of
      None \<Rightarrow> Inr (TCL_ERROR (''Application '' @ dquote @ name @ dquote @ '' not connected''), s)
    | Some app \<Rightarrow> f app s)"

definition IvyApplicationHostCmd :: "tcl_env \<Rightarrow> string list \<Rightarrow> tcl \<Rightarrow> (tcl_reply \<times> tcl) res" where
  "IvyApplicationHostCmd e argv s =
     (if length argv \<noteq> 2 then Inr (wrong_args argv '' appName'', s)
      else with_entry (argv ! 1) (\<lambda>app s.
        bindR (IvyGetApplicationHost (te_peer e) app (tcl_core s)) (\<lambda>host.
          Inr (TCL_OK (Text (case host of None \<Rightarrow> [] | Some h \<Rightarrow> h)), s))) s)"

definition IvyApplicationMsgsCmd :: "string list \<Rightarrow> tcl \<Rightarrow> (tcl_reply \<times> tcl) res" where
  "IvyApplicationMsgsCmd argv s =
     (if length argv \<noteq> 2 then Inr (wrong_args argv '' appName'', s)
      else with_entry (argv ! 1) (\<lambda>app s.
        bindR (IvyGetApplicationMessages app (tcl_core s)) (\<lambda>msgs. Inr (TCL_OK (Elements msgs), s))) s)"

definition IvySendDirectCmd :: "string list \<Rightarrow> tcl \<Rightarrow> (tcl_reply \<times> tcl) res" where
  "IvySendDirectCmd argv s =
     (if length argv \<noteq> 4 then Inr (wrong_args argv '' appName id msg'', s)
      else with_entry (argv ! 1) (\<lambda>app s.
        let (i, rest) = strtol (argv ! 2)
        in if rest \<noteq> [] then Inr (TCL_ERROR (argv ! 0 @ '' wrong id: '' @ dquote @ argv ! 2), s)
           else bindR (on_ivy (IvySendDirectMsg app (s32 i) (argv ! 3)) s) (\<lambda>s. Inr (tcl_ok, s))) s)"

definition IvyBindDirectCmd :: "string list \<Rightarrow> tcl \<Rightarrow> (tcl_reply \<times> tcl) res" where
  "IvyBindDirectCmd argv s =
     (if length argv \<noteq> 2 then Inr (wrong_args argv '' script'', s)
      else case direct_block s of
        None \<Rightarrow> let (b, s) = new_block \<lparr>fs_id = 0, fs_script = argv ! 1, fs_filter = []\<rparr> s
                in Inr (tcl_ok, s\<lparr>direct_block := Some b, tcl_core := IvyBindDirectMsg True (tcl_core s)\<rparr>)
      | Some b \<Rightarrow> with_block b (\<lambda>flt.
                Inr (tcl_ok, s\<lparr>blocks := (blocks s)(b \<mapsto> flt\<lparr>fs_script := argv ! 1\<rparr>)\<rparr>)) s)"

text \<open>The commands as \<open>Tclivy_Init\<close> names them.\<close>

definition Tclivy_Init :: "regex_engine \<Rightarrow> tcl_env \<Rightarrow> (string \<times> (string list \<Rightarrow> tcl \<Rightarrow> (tcl_reply \<times> tcl) res)) list" where
  "Tclivy_Init rx e =
     [(''Ivy::init'', IvyInitCmd e), (''Ivy::start'', IvyStartCmd e), (''Ivy::bind'', IvyBindCmd),
      (''Ivy::unbind'', IvyUnbindCmd), (''Ivy::send'', IvySendCmd rx), (''Ivy::senddirect'', IvySendDirectCmd),
      (''Ivy::binddirect'', IvyBindDirectCmd), (''Ivy::applist'', IvyApplicationListCmd e),
      (''Ivy::apphost'', IvyApplicationHostCmd e), (''Ivy::appmsgs'', IvyApplicationMsgsCmd)]"

section \<open>States for the examples\<close>

text \<open>
  A binding with one peer and one subscription, whose block is 7, the scripts \<open>proc\<close>, and an
  interpreter that does nothing.
\<close>

definition demo_binding :: msg_rcv where
  "demo_binding = \<lparr>mr_ptr = 9, mr_id = 0, mr_regexp = ''a(.*)'', mr_callback = True\<rparr>"

definition demo_bound :: ivy where
  "demo_bound = demo_ivy (demo [] None) [demo_peer] [] [demo_binding]"

definition demo_tcl :: tcl where
  "demo_tcl = \<lparr>tcl_core = demo_bound, blocks = [7 \<mapsto> \<lparr>fs_id = 9, fs_script = ''proc'', fs_filter = ''a(.*)''\<rparr>],
     next_block = 8, nom_de_l_appli = Some ''me'', message_de_bienvenue = None, tables_ready = True,
     filter_table = [0 \<mapsto> 7], app_table = [''peer'' \<mapsto> 5], filter_id = 1, app_block = 7, die_block = 7,
     direct_block = None, background_errors = 0\<rparr>"

definition demo_env :: "(string \<Rightarrow> tcl \<Rightarrow> (bool \<times> tcl) res) \<Rightarrow> tcl_env" where
  "demo_env eval = \<lparr>te_eval = eval, te_keys = (\<lambda>_. []),
     te_start = \<lparr>st_env = None, st_garbage = [], st_pton6 = (\<lambda>_. None),
       st_tcp = (3, \<lparr>sa_family = AF_INET, sa_ip = 1, sa_port = 2011\<rparr>), st_udp = None, st_rand = (\<lambda>_. 0)\<rparr>,
     te_peer = (\<lambda>_. None), te_debug = False\<rparr>"

lemma demo_tcl_fields [simp]:
  "tcl_core demo_tcl = demo_bound" "next_block demo_tcl = 8" "tables_ready demo_tcl" "filter_id demo_tcl = 1"
  "blocks demo_tcl 7 = Some \<lparr>fs_id = 9, fs_script = ''proc'', fs_filter = ''a(.*)''\<rparr>" "blocks demo_tcl 8 = None"
  "filter_table demo_tcl 0 = Some 7" "app_table demo_tcl ''peer'' = Some 5" "te_eval (demo_env f) = f"
  by (simp_all add: demo_tcl_def demo_env_def)

lemma demo_bound_ok:
  "ready_to_send demo_bound" "allClients demo_bound = [demo_peer]" "socks demo_bound 1 = Some (demo_sock None)"
  "n < 33554432 \<Longrightarrow> roomy 1 n demo_bound" "msg_recv demo_bound = [demo_binding]" "fresh demo_bound = 10"
  "recv_id demo_bound = 0" "stream 1 demo_bound = []" "c_client demo_peer = 1"
  "IvyGetApplicationName 5 demo_bound = Inr ''peer''"
  using demo_inv [of None "[]"]
  by (simp_all add: demo_bound_def ready_to_send_def roomy_def fifo_size_defs demo_peer_def
      IvyGetApplicationName_def with_app_def find_clnt_def)
    (simp_all add: demo_def demo_sock_def new_sock_def stream_def pending_def fifo_size_defs)

section \<open>Scripts fit in their blocks\<close>

definition words :: "string list \<Rightarrow> string" where
  "words ws = concat (map (\<lambda>w. CHR '' '' # dquote @ w @ dquote) ws)"

lemma concat_word_of: "concat (word_of w) = CHR '' '' # dquote @ w @ dquote"
  by (simp add: word_of_def)

lemma concat_words: "concat (concat (map word_of ws)) = words ws"
  by (induction ws) (simp_all add: words_def concat_word_of)

lemma length_words: "length (words ws) = sum_list (map (\<lambda>a. length a + 3) ws)"
  by (induction ws) (simp_all add: words_def dquote_def)

lemma message_script: "concat (f # word_of name @ concat (map word_of argv)) = f @ words (name # argv)"
  by (simp add: concat_words concat_word_of words_def)

lemma length_show_int_space: "is_int32 i \<Longrightarrow> length (show_int i) < INTEGER_SPACE"
  using length_show_int [of i] by (simp add: INTEGER_SPACE_def)

lemma message_runs_script:
  assumes "blocks s b = Some flt" and "IvyGetApplicationName app (tcl_core s) = Inr name"
  shows "IvyMsgCB e b app argv s = run_script e b (fs_script flt @ words (name # argv)) s"
proof -
  have "length (fs_script flt @ words (name # argv)) <
      length (fs_script flt) + 3 + sum_list (map (\<lambda>a. length a + 3) argv) + 1 + length name + 4"
    by (simp add: length_words)
  then show ?thesis using assms
    by (simp add: IvyMsgCB_def with_block_def Let_def strcat_all_def message_script del: concat.simps)
qed

text \<open>
  C33: the script of a subscription is called with the name of the sender and the captured groups,
  each between double quotes. The block for it is always large enough, whatever their lengths,
  and nothing in the groups is escaped.
\<close>
theorem message_runs_its_script:
  assumes "blocks s b = Some flt" and "IvyGetApplicationName app (tcl_core s) = Inr name"
    and "te_eval e (fs_script flt @ words (name # argv)) s = Inr (ok, t)" and "blocks t b \<noteq> None"
  shows "IvyMsgCB e b app argv s = Inr (if ok then t else t\<lparr>background_errors := background_errors t + 1\<rparr>)"
  using assms(3,4) by (auto simp: message_runs_script [OF assms(1,2)] run_script_def with_block_def)

theorem message_runs_its_script_witness:
  "IvyMsgCB (demo_env (\<lambda>_ s. Inr (True, s))) 7 5 [''x''] demo_tcl = Inr demo_tcl"
  using message_runs_its_script [of demo_tcl 7 _ 5 "''peer''" "demo_env (\<lambda>_ s. Inr (True, s))" "[''x'']" True demo_tcl]
  by (simp add: demo_bound_ok)

text \<open>
  The block for the script of a direct message is two bytes short: every direct message to an
  application with \<open>Ivy::binddirect\<close> writes past it, whatever the script, the id and the text.
\<close>
theorem direct_script_overflows:
  assumes "blocks s b = Some flt" and "is_int32 i"
  shows "IvyDirectMsgCB e b app i msg s = Inl OutOfBounds"
  using assms length_show_int_space [of i]
  by (simp add: IvyDirectMsgCB_def with_block_def strcat_all_def word_of_def dquote_def Let_def)

theorem direct_script_overflows_witness:
  "IvyDirectMsgCB (demo_env (\<lambda>_ s. Inr (True, s))) 7 5 7 ''hello'' demo_tcl = Inl OutOfBounds"
  by (rule direct_script_overflows) (simp_all add: is_int32_def)

text \<open>
  For an application the binding knows, congestion calls the script exactly as a connection
  does; decongestion calls it as a disconnection does, and the application stays in the table.
\<close>
theorem congestion_is_reported_as_connection:
  assumes "IvyGetApplicationName app (tcl_core s) = Inr name" and "app_table s name = Some a"
  shows "IvyAppCB e b app IvyApplicationCongestion s = IvyAppCB e b app IvyApplicationConnected s \<and>
    IvyAppCB e b app IvyApplicationDisconnected s =
      bindR (IvyAppCB e b app IvyApplicationDecongestion s) (\<lambda>t.
        if app_table t name = None then Inl UseAfterFree
        else Inr (t\<lparr>app_table := (app_table t)(name := None)\<rparr>))"
  using assms
  by (auto simp: IvyAppCB_def with_tables_def with_block_def app_event_str_def Let_def bindR_def
      split: option.splits sum.splits)

theorem congestion_is_reported_as_connection_witness:
  "IvyAppCB (demo_env (\<lambda>_ s. Inr (True, s))) 7 5 IvyApplicationCongestion demo_tcl =
   IvyAppCB (demo_env (\<lambda>_ s. Inr (True, s))) 7 5 IvyApplicationConnected demo_tcl"
  using congestion_is_reported_as_connection [of 5 demo_tcl "''peer''" 5] by (simp add: demo_bound_ok)

section \<open>Binding and unbinding\<close>

lemma strtol_show_int: "is_int32 i \<Longrightarrow> strtol (show_int i) = (i, [])"
proof -
  assume i: "is_int32 i"
  have all: "takeWhile is_digit (show_nat n) = show_nat n" "dropWhile is_digit (show_nat n) = []" for n
    using show_nat_digits by (simp_all add: takeWhile_eq_all_conv dropWhile_eq_Nil_conv)
  show ?thesis using scan_sign_show_int [of i "[]"] i by (simp add: strtol_def Let_def clip_long_id all)
qed

lemma format_alone_plain: "CHR ''%'' \<notin> set f \<Longrightarrow> format_alone f = Inr f"
  by (induction f) auto

text \<open>
  C17: the number \<open>Ivy::bind\<close> answers undoes it: after \<open>Ivy::unbind\<close> with that text the subscription,
  its script and its entry are gone, and every connected application has been sent the \<open>AddRegexp\<close>
  and the \<open>DelRegexp\<close> with the same id.
\<close>
theorem unbind_undoes_bind:
  assumes "CHR ''%'' \<notin> set pattern" and "substituteInterval pattern = Inr regexp"
    and "tables_ready s" and "is_int32 (filter_id s)" and "blocks s (next_block s) = None"
    and "ready_to_send (tcl_core s)" and "distinct (map c_client (allClients (tcl_core s)))"
    and "\<forall>m \<in> set (msg_recv (tcl_core s)). mr_ptr m \<noteq> fresh (tcl_core s)" and "fresh (tcl_core s) \<noteq> 0"
    and "\<forall>x \<in> set (allClients (tcl_core s)). socks (tcl_core s) (c_client x) \<noteq> None \<and>
           roomy (c_client x) (length (message_line AddRegexp (recv_id (tcl_core s)) regexp) +
             length (message_line DelRegexp (recv_id (tcl_core s)) [])) (tcl_core s)"
  shows "\<exists>t u. IvyBindCmd [cmd, pattern, proc] s = Inr (TCL_OK (Text (show_int (filter_id s))), t) \<and>
           IvyUnbindCmd [cmd', show_int (filter_id s)] t = Inr (tcl_ok, u) \<and>
           blocks u = blocks s \<and> filter_table u = (filter_table s)(filter_id s := None) \<and>
           msg_recv (tcl_core u) = msg_recv (tcl_core s) \<and>
           (\<forall>x \<in> set (allClients (tcl_core s)). stream (c_client x) (tcl_core u) =
              stream (c_client x) (tcl_core s) @ message_line AddRegexp (recv_id (tcl_core s)) regexp @
                message_line DelRegexp (recv_id (tcl_core s)) [])"
proof -
  from bind_unbind_ok [OF assms(2,6-10), of True] obtain c d where
    c: "IvyBindMsg True pattern (tcl_core s) = Inr (fresh (tcl_core s), c)"
       "IvyUnbindMsg (fresh (tcl_core s)) c = Inr d" "msg_recv d = msg_recv (tcl_core s)"
    and streams: "\<forall>x \<in> set (allClients (tcl_core s)). stream (c_client x) d =
              stream (c_client x) (tcl_core s) @ message_line AddRegexp (recv_id (tcl_core s)) regexp @
                message_line DelRegexp (recv_id (tcl_core s)) []"
    by (auto simp: delivers_def to_everyone_def)
  have "(blocks s)(next_block s := None) = blocks s" using assms(5) by (simp add: fun_upd_idem)
  with c streams assms(1,3,4) show ?thesis
    by (simp add: IvyBindCmd_def IvyUnbindCmd_def format_alone_plain new_block_def with_tables_def
        strtol_show_int with_block_def on_ivy_def tcl_ok_def)
qed

theorem unbind_undoes_bind_witness:
  "\<exists>t u. IvyBindCmd [''Ivy::bind'', ''b(.*)'', ''proc''] demo_tcl = Inr (TCL_OK (Text ''1''), t) \<and>
     IvyUnbindCmd [''Ivy::unbind'', ''1''] t = Inr (tcl_ok, u) \<and> msg_recv (tcl_core u) = [demo_binding] \<and>
     stream 1 (tcl_core u) = message_line AddRegexp 0 ''b(.*)'' @ message_line DelRegexp 0 []"
proof -
  have i: "show_int 1 = ''1''" by code_simp
  have plain: "substituteInterval ''b(.*)'' = Inr ''b(.*)''"
    by (simp add: substituteInterval_def interval_mark_def)
  have "roomy 1 (length (message_line AddRegexp 0 ''b(.*)'') + length (message_line DelRegexp 0 [])) demo_bound"
    by (rule demo_bound_ok) (simp add: message_line_def wire_header_def show_int_def show_nat.simps)
  with unbind_undoes_bind [of "''b(.*)''" "''b(.*)''" demo_tcl "''Ivy::bind''" "''proc''" "''Ivy::unbind''"] plain
  show ?thesis
    by (simp add: demo_bound_ok i is_int32_def demo_binding_def del: One_nat_def) blast
qed

text \<open>
  A script may not unbind its own subscription, as \<open>unBind.tcl\<close> of the examples does: the
  callback reads the block that \<open>Ivy::unbind\<close> has just freed. What the interpreter does with such a
  script is the last hypothesis.
\<close>
theorem script_that_unbinds_itself:
  assumes "blocks s b = Some flt" and "IvyGetApplicationName app (tcl_core s) = Inr name"
    and "tables_ready s" and "filter_table s i = Some b" and "is_int32 i"
    and "IvyUnbindMsg (fs_id flt) (tcl_core s) = Inr c"
    and "te_eval e (fs_script flt @ words (name # argv)) s =
           bindR (IvyUnbindCmd [''Ivy::unbind'', show_int i] s) (\<lambda>(_, t). Inr (True, t))"
  shows "IvyMsgCB e b app argv s = Inl UseAfterFree"
  using assms(1-6) by (simp add: message_runs_script [OF assms(1,2)] run_script_def assms(7) IvyUnbindCmd_def
      strtol_show_int with_tables_def with_block_def on_ivy_def)

theorem script_that_unbinds_itself_witness:
  "IvyMsgCB (demo_env (\<lambda>_ s. bindR (IvyUnbindCmd [''Ivy::unbind'', show_int 0] s) (\<lambda>(_, t). Inr (True, t))))
     7 5 [] demo_tcl = Inl UseAfterFree"
proof -
  have "roomy 1 (length (message_line DelRegexp 0 [])) demo_bound"
    by (rule demo_bound_ok) (simp add: message_line_def wire_header_def show_int_def show_nat.simps)
  then obtain c where "to_all DelRegexp 0 [] demo_bound = Inr c"
    using to_all_delivers [of demo_bound DelRegexp 0 "[]"] by (auto simp: demo_bound_ok simp del: One_nat_def)
  then have "\<exists>c. IvyUnbindMsg 9 demo_bound = Inr c"
    by (simp add: IvyUnbindMsg_def with_msg_def demo_bound_ok demo_binding_def)
  then obtain c where "IvyUnbindMsg 9 demo_bound = Inr c" ..
  then show ?thesis
    by (intro script_that_unbinds_itself [where i = 0 and c = c and flt = \<open>\<lparr>fs_id = 9, fs_script = ''proc'', fs_filter = ''a(.*)''\<rparr>\<close>]) (simp_all add: demo_bound_ok is_int32_def)
qed

end
