(* ===== verification/IvyTestready.thy ===== *)
theory IvyTestready imports IvyProbe IvyDelivery begin

text \<open>
  \<open>tools/ivytestready.c\<close>, the test of the ready message: two programs, \<open>A\<close> and \<open>B\<close>, which ask each
  other a question when the ready message of the other one arrives. Each callback is a function of the
  message or the event it is called with.
\<close>

section \<open>State\<close>

text \<open>The globals, with their initial values; \<open>tr_out\<close> is what was printed.\<close>

record testready =
  tr_core :: ivy
  tr_me :: string
  tr_other :: string
  tr_ready_message :: string
  tr_ready_bind :: string
  tr_out :: string

definition testready_globals :: "ivy \<Rightarrow> testready" where
  "testready_globals s = \<lparr>tr_core = s, tr_me = ''A'', tr_other = ''B'', tr_ready_message = ''A ready'',
     tr_ready_bind = ''^B ready'', tr_out = []\<rparr>"

definition tr_print :: "string \<Rightarrow> testready \<Rightarrow> testready" where
  "tr_print text p = p\<lparr>tr_out := tr_out p @ text\<rparr>"

text \<open>\<open>IvySendMsg\<close> with a format and the text it makes; the answer goes on with its count.\<close>

definition tr_send ::
    "regex_engine \<Rightarrow> string \<Rightarrow> string \<Rightarrow> (nat \<Rightarrow> testready \<Rightarrow> testready) \<Rightarrow> testready \<Rightarrow> testready res" where
  "tr_send rx fmt txt f p =
     bindR (IvySendMsg rx (Some fmt) txt (tr_core p)) (\<lambda>(n, s). Inr (f n (p\<lparr>tr_core := s\<rparr>)))"

section \<open>Callbacks\<close>

definition testready_Ready :: "regex_engine \<Rightarrow> nat \<Rightarrow> string list \<Rightarrow> testready \<Rightarrow> testready res" where
  "testready_Ready rx app argv p =
     bindR (IvyGetApplicationName app (tr_core p)) (\<lambda>name.
       tr_send rx ''are you there %s'' (''are you there '' @ name) (\<lambda>n p.
         tr_print (''Application '' @ tr_me p @ '' received '' @ quoted (tr_ready_bind p) @ '' from '' @ name @
           '' sent question '' @ quoted (''are you there '' @ name) @ ''= '' @ show_nat n @ newline) p) p)"

definition testready_Question :: "regex_engine \<Rightarrow> nat \<Rightarrow> string list \<Rightarrow> testready \<Rightarrow> testready res" where
  "testready_Question rx app argv p =
     bindR (IvyGetApplicationName app (tr_core p)) (\<lambda>name.
       tr_send rx ''yes i am %s'' (''yes i am '' @ tr_me p) (\<lambda>n p.
         tr_print (''Application '' @ tr_me p @ '' Reply to '' @ name @ '' are you there = '' @ show_nat n @ newline) p) p)"

text \<open>\<open>argv[0]\<close> is not set when nothing was captured.\<close>

definition testready_Reply :: "nat \<Rightarrow> string list \<Rightarrow> testready \<Rightarrow> testready res" where
  "testready_Reply app argv p =
     bindR (IvyGetApplicationName app (tr_core p)) (\<lambda>name.
       case argv of [] \<Rightarrow> Inl Uninitialised
       | a # _ \<Rightarrow> Inr (tr_print (''Application '' @ name @ '' Reply to our question! '' @ a @ newline) p))"

definition testready_binCB :: "nat \<Rightarrow> int \<Rightarrow> string \<Rightarrow> bind_event \<Rightarrow> testready \<Rightarrow> testready res" where
  "testready_binCB app i regexp event p =
     bindR (IvyGetApplicationName app (tr_core p)) (\<lambda>app_name.
       Inr (tr_print (tr_me p @ '' receive Application:'' @ app_name @ '' bind '' @ quoted regexp @
         (case event of IvyAddBind \<Rightarrow> '' ADDED'' | IvyRemoveBind \<Rightarrow> '' REMOVED'' | IvyChangeBind \<Rightarrow> '' CHANGED''
          | IvyFilterBind \<Rightarrow> '' FILTRED'') @ newline) p))"

section \<open>The program\<close>

definition testready_side :: "nat \<Rightarrow> testready \<Rightarrow> testready" where
  "testready_side argc p =
     (if argc > 1 then p\<lparr>tr_me := ''B'', tr_other := ''A'', tr_ready_message := ''B ready'', tr_ready_bind := ''^A ready''\<rparr>
      else p)"

definition tr_bind :: "string \<Rightarrow> testready \<Rightarrow> testready res" where
  "tr_bind pattern p = bindR (IvyBindMsg True pattern (tr_core p)) (\<lambda>(_, s). Inr (p\<lparr>tr_core := s\<rparr>))"

text \<open>\<open>main\<close> up to \<open>IvyStart\<close>, and up to the main loop; \<open>env\<close> is whether \<open>IVY_DEBUG_BINARY\<close> is set.\<close>

definition testready_setup :: "bool \<Rightarrow> nat \<Rightarrow> ivy \<Rightarrow> testready res" where
  "testready_setup env argc s =
     (let p = testready_side argc (testready_globals s);
          p = p\<lparr>tr_core := IvySetBindCallback True
                  (IvyInit (Some (tr_me p)) (Some (tr_ready_message p)) False False env (tr_core p))\<rparr>
      in bindR (tr_bind (tr_ready_bind p) p) (\<lambda>p.
         bindR (tr_bind (''^are you there '' @ tr_me p) p) (\<lambda>p.
         tr_bind (''^(yes i am '' @ tr_other p @ '')'') p)))"

definition testready_main :: "start_env \<Rightarrow> bool \<Rightarrow> nat \<Rightarrow> ivy \<Rightarrow> testready res" where
  "testready_main e env argc s =
     bindR (testready_setup env argc s) (\<lambda>p. bindR (IvyStart e None (tr_core p)) (\<lambda>s. Inr (p\<lparr>tr_core := s\<rparr>)))"

section \<open>What it subscribes to and answers\<close>

lemma plain_patterns:
  "substituteInterval ''^A ready'' = Inr ''^A ready''" "substituteInterval ''^B ready'' = Inr ''^B ready''"
  "substituteInterval ''^are you there A'' = Inr ''^are you there A''"
  "substituteInterval ''^are you there B'' = Inr ''^are you there B''"
  "substituteInterval ''^(yes i am A)'' = Inr ''^(yes i am A)''"
  "substituteInterval ''^(yes i am B)'' = Inr ''^(yes i am B)''"
  by (simp_all add: substituteInterval_def interval_mark_def)

lemma tr_bind_alone:
  assumes "substituteInterval pattern = Inr r" and "allClients (tr_core p) = []"
  shows "\<exists>s. tr_bind pattern p = Inr (p\<lparr>tr_core := s\<rparr>) \<and> allClients s = [] \<and> recv_id s = s32 (recv_id (tr_core p) + 1) \<and>
    map (\<lambda>m. (mr_id m, mr_regexp m)) (msg_recv s) =
      (recv_id (tr_core p), r) # map (\<lambda>m. (mr_id m, mr_regexp m)) (msg_recv (tr_core p)) \<and>
    ready_message s = ready_message (tr_core p) \<and> ApplicationName s = ApplicationName (tr_core p)"
  unfolding tr_bind_def IvyBindMsg_def to_all_def Let_def using assms
  by (intro exI [of _ "tr_core p\<lparr>fresh := fresh (tr_core p) + 1, recv_id := s32 (recv_id (tr_core p) + 1),
       msg_recv := \<lparr>mr_ptr = fresh (tr_core p), mr_id = recv_id (tr_core p), mr_regexp = r, mr_callback = True\<rparr>
         # msg_recv (tr_core p)\<rparr>"]) simp

text \<open>
  The two sides of the test fit together: before it starts, each has its ready message and listens to
  the ready message of the other one, to the question put to it and to the answer of the other one.
\<close>
theorem test_listens_to_the_other_side:
  assumes "allClients s = []" and "recv_id s = 0" and "msg_recv s = []"
    and "(me, other) = (if argc > 1 then (''B'', ''A'') else (''A'', ''B''))"
  shows "\<exists>p. testready_setup env argc s = Inr p \<and> ApplicationName (tr_core p) = Some me \<and>
    ready_message (tr_core p) = Some (me @ '' ready'') \<and>
    map (\<lambda>m. (mr_id m, mr_regexp m)) (msg_recv (tr_core p)) =
      [(2, ''^(yes i am '' @ other @ '')''), (1, ''^are you there '' @ me), (0, ''^'' @ other @ '' ready'')]"
proof -
  define p where "p = testready_side argc (testready_globals s)"
  define q where "q = p\<lparr>tr_core := IvySetBindCallback True
    (IvyInit (Some (tr_me p)) (Some (tr_ready_message p)) False False env (tr_core p))\<rparr>"
  have side: "tr_me p = me" "tr_other p = other" "tr_ready_message p = me @ '' ready''" "tr_ready_bind p = ''^'' @ other @ '' ready''"
    "tr_core p = s"
    using assms(4) by (auto simp: p_def testready_side_def testready_globals_def split: if_splits)
  have plain: "substituteInterval (''^'' @ other @ '' ready'') = Inr (''^'' @ other @ '' ready'')"
    "substituteInterval (''^are you there '' @ me) = Inr (''^are you there '' @ me)"
    "substituteInterval (''^(yes i am '' @ other @ '')'') = Inr (''^(yes i am '' @ other @ '')'')"
    using assms(4) plain_patterns by (auto split: if_splits)
  have init: "allClients (tr_core q) = []" "recv_id (tr_core q) = 0" "msg_recv (tr_core q) = []"
    "ready_message (tr_core q) = Some (me @ '' ready'')" "ApplicationName (tr_core q) = Some me"
    using assms(1-3) side by (simp_all add: q_def IvySetBindCallback_def IvyInit_def SocketInit_def)
  obtain s1 where s1: "tr_bind (''^'' @ other @ '' ready'') q = Inr (q\<lparr>tr_core := s1\<rparr>)" "allClients s1 = []" "recv_id s1 = 1"
    "map (\<lambda>m. (mr_id m, mr_regexp m)) (msg_recv s1) = [(0, ''^'' @ other @ '' ready'')]"
    "ready_message s1 = Some (me @ '' ready'')" "ApplicationName s1 = Some me"
    using tr_bind_alone [OF plain(1) init(1)] init s32_id [of 1] by (auto simp: is_int32_def)
  obtain s2 where s2: "tr_bind (''^are you there '' @ me) (q\<lparr>tr_core := s1\<rparr>) = Inr (q\<lparr>tr_core := s2\<rparr>)" "allClients s2 = []"
    "recv_id s2 = 2"
    "map (\<lambda>m. (mr_id m, mr_regexp m)) (msg_recv s2) = [(1, ''^are you there '' @ me), (0, ''^'' @ other @ '' ready'')]"
    "ready_message s2 = Some (me @ '' ready'')" "ApplicationName s2 = Some me"
    using tr_bind_alone [OF plain(2), of "q\<lparr>tr_core := s1\<rparr>"] s1 s32_id [of 2] by (auto simp: is_int32_def)
  obtain s3 where s3: "tr_bind (''^(yes i am '' @ other @ '')'') (q\<lparr>tr_core := s2\<rparr>) = Inr (q\<lparr>tr_core := s3\<rparr>)"
    "map (\<lambda>m. (mr_id m, mr_regexp m)) (msg_recv s3) =
      [(2, ''^(yes i am '' @ other @ '')''), (1, ''^are you there '' @ me), (0, ''^'' @ other @ '' ready'')]"
    "ready_message s3 = Some (me @ '' ready'')" "ApplicationName s3 = Some me"
    using tr_bind_alone [OF plain(3), of "q\<lparr>tr_core := s2\<rparr>"] s2 by auto
  have q: "tr_me (q\<lparr>tr_core := x\<rparr>) = me" "tr_other (q\<lparr>tr_core := x\<rparr>) = other" "tr_ready_bind q = ''^'' @ other @ '' ready''" for x
    using side by (simp_all add: q_def)
  have "testready_setup env argc s = bindR (tr_bind (tr_ready_bind q) q) (\<lambda>p.
     bindR (tr_bind (''^are you there '' @ tr_me p) p) (\<lambda>p. tr_bind (''^(yes i am '' @ tr_other p @ '')'') p))"
    by (simp add: testready_setup_def Let_def p_def q_def)
  also have "\<dots> = Inr (q\<lparr>tr_core := s3\<rparr>)" using s1(1) s2(1) s3(1) by (simp add: q)
  finally show ?thesis using s3(2-4) by simp
qed

text \<open>
  A question is answered: \<open>Question\<close> sends \<open>yes i am\<close> and the own name to every subscription it
  matches, and prints how many there are.
\<close>
theorem question_is_answered:
  fixes p :: testready
  defines "s \<equiv> tr_core p" and "msg \<equiv> ''yes i am '' @ tr_me p"
  assumes "IvyGetApplicationName app s = Inr name" and "sock_inv s" and "SendFails \<notin> set (script (net s))"
    and "\<not> debug_binary_msg s" and "list_all (good_entry rx msg) (messSndByRegexp s)"
    and "\<forall>e \<in> set (messSndByRegexp s). \<forall>dc \<in> set (d_clientList e). socks s (dc_client dc) \<noteq> None"
    and "room_for (\<lambda>c. frames (calls rx msg (messSndByRegexp s) c)) s"
  shows "\<exists>q. testready_Question rx app argv p = Inr q \<and>
    (\<forall>c. stream c (tr_core q) = stream c s @ frames (calls rx msg (messSndByRegexp s) c)) \<and>
    tr_out q = tr_out p @ ''Application '' @ tr_me p @ '' Reply to '' @ name @ '' are you there = '' @
      show_nat (length (concat (map d_clientList (matching rx msg (messSndByRegexp s))))) @ newline"
proof -
  from IvySendMsg_ok [OF assms(4,5) _ assms(6-9), of "''yes i am %s''"] obtain t where
    "IvySendMsg rx (Some ''yes i am %s'') msg s =
       Inr (length (concat (map d_clientList (matching rx msg (messSndByRegexp s)))), t)"
    "delivers s (\<lambda>c. frames (calls rx msg (messSndByRegexp s) c)) t" by auto
  then show ?thesis using assms(3)
    by (auto simp: testready_Question_def tr_send_def tr_print_def delivers_def s_def msg_def)
qed

end
