(* ===== verification/IvyThroughput.thy ===== *)
theory IvyThroughput imports IvyTestready IvySession begin

text \<open>
  \<open>tools/ivythroughput.cpp\<close>, the test of throughput, of memory leaks and of disconnections: an emitter
  and receivers in processes of their own. Modelled are the options, the files of patterns and
  messages, what every process sets up before its main loop, and the callbacks. \<open>pcrecpp\<close> is an
  argument; \<open>currentTime\<close> only serves the duration that is printed, which is an argument too. \<open>fork\<close>
  makes the receivers from the state of the parent; \<open>kill\<close> and \<open>waitpid\<close> are not modelled.
\<close>

section \<open>State\<close>

datatype KindOfTest = MemoryLeak1 | MemoryLeak2 | Throughput | Disconnect

text \<open>What the command line says, with the values \<open>main\<close> and the globals start from.\<close>

record thru_options =
  t_bus :: string
  t_kind :: KindOfTest
  regexpAreUniq :: bool
  regexpFile :: string
  messageFile :: string
  numRegexps :: nat
  numMessages :: nat
  numClients :: nat
  testDuration :: int
  t_out :: string
  t_exited :: bool

record InfoBind =
  currentBind :: nat
  totalBind :: nat

text \<open>
  A process of the test: its library, the globals, the static variables of its functions. \<open>recReady\<close>
  and \<open>bindByClnt\<close> are maps of the standard library, whose missing values are false and zero.
\<close>

record thru =
  th_core :: ivy
  th_opts :: thru_options
  nbMess :: nat
  nbReg :: nat
  globalInst :: nat
  recReady :: "nat \<Rightarrow> bool"
  bindByClnt :: "string \<rightharpoonup> InfoBind"
  bindIdList :: "nat list"
  th_out :: string

definition th_print :: "string \<Rightarrow> thru \<Rightarrow> thru" where
  "th_print text p = p\<lparr>th_out := th_out p @ text\<rparr>"

definition th_on_core :: "(ivy \<Rightarrow> ivy res) \<Rightarrow> thru \<Rightarrow> thru res" where
  "th_on_core f p = bindR (f (th_core p)) (\<lambda>s. Inr (p\<lparr>th_core := s\<rparr>))"

text \<open>\<open>%d\<close> of an \<open>unsigned int\<close>.\<close>

definition show_d :: "nat \<Rightarrow> string" where
  "show_d n = show_int (s32 (int n))"

section \<open>Files\<close>

lemma first_line_less: "(l, r) = first_line (Suc k) s \<Longrightarrow> s \<noteq> [] \<Longrightarrow> length r < length s"
proof -
  assume f: "(l, r) = first_line (Suc k) s" and s: "s \<noteq> []"
  have "l \<noteq> []" by (rule first_line_nonempty [OF f [symmetric] s])
  moreover have "l @ r = s" by (rule first_line_append [OF f [symmetric]])
  ultimately show ?thesis by (auto simp: neq_Nil_conv)
qed

text \<open>What successive \<open>fgets\<close> read into a buffer of \<open>k + 2\<close> bytes.\<close>

function read_lines :: "nat \<Rightarrow> string \<Rightarrow> string list" where
  "read_lines k s =
     (if s = [] then [] else case first_line (Suc k) s of (l, r) \<Rightarrow> l # read_lines k r)"
  by pat_completeness auto
termination
  by (relation "measure (\<lambda>(_, s). length s)") (auto dest: first_line_less simp del: first_line.simps)

declare read_lines.simps [simp del]

text \<open>The loop of both readers: \<open>n\<close> lines were kept so far, \<open>pick\<close> is what the patterns capture of one.\<close>

fun read_loop :: "(string \<Rightarrow> string option) \<Rightarrow> nat \<Rightarrow> string list \<Rightarrow> nat \<Rightarrow> string list \<times> nat" where
  "read_loop pick limit [] n = ([], n)"
| "read_loop pick limit (l # ls) n =
     (if n < limit
      then case pick l of None \<Rightarrow> read_loop pick limit ls n
        | Some x \<Rightarrow> (case read_loop pick limit ls (u32 (int n + 1)) of (xs, k) \<Rightarrow> (x # xs, k))
      else ([], n))"

text \<open>\<open>partial pattern line\<close> is what \<open>PartialMatch\<close> of \<open>pcrecpp\<close> captures; \<open>None\<close> for a file that is not there.\<close>

type_synonym partial_match = "string \<Rightarrow> string \<Rightarrow> string option"

definition getMessages :: "partial_match \<Rightarrow> string option \<Rightarrow> nat \<Rightarrow> nat \<Rightarrow> (string list \<times> nat) option" where
  "getMessages partial file numMess n =
     map_option (\<lambda>text. read_loop (partial (CHR 0x22 # ''(.*)'' @ [CHR 0x22] @ ''$'')) numMess (map c_string (read_lines 65534 text)) n) file"

definition getRegexps :: "partial_match \<Rightarrow> string option \<Rightarrow> nat \<Rightarrow> nat \<Rightarrow> (string list \<times> nat) option" where
  "getRegexps partial file numReg n =
     map_option (\<lambda>text. read_loop (\<lambda>l. case partial (''add regexp '' @ [CHR 0x5C] @ ''d+ : (.*)$'') l of
         Some x \<Rightarrow> Some x | None \<Rightarrow> partial (''('' @ [CHR 0x5C] @ ''^.*)$'') l) numReg (map c_string (read_lines 65534 text)) n) file"

section \<open>Callbacks\<close>

text \<open>\<open>bound\<close> is the \<open>user_data\<close> of the callback: the number of patterns a receiver binds.\<close>

definition bound_report :: "string \<Rightarrow> string" where
  "bound_report appName = ''Application:'' @ appName @ '' ALL REGEXPS BINDED'' @ newline"

definition thru_binCB :: "nat \<Rightarrow> nat \<Rightarrow> int \<Rightarrow> string \<Rightarrow> bind_event \<Rightarrow> thru \<Rightarrow> thru res" where
  "thru_binCB bound app i regexp event p =
     bindR (IvyGetApplicationName app (th_core p)) (\<lambda>appName.
       let b = (case bindByClnt p appName of None \<Rightarrow> \<lparr>currentBind = 0, totalBind = u32 (int bound)\<rparr> | Some b \<Rightarrow> b);
           say = (\<lambda>text. th_print (''Application:'' @ appName @ text @ newline))
       in Inr (case event of
            IvyAddBind \<Rightarrow>
              let b = b\<lparr>currentBind := u32 (int (currentBind b) + 1)\<rparr>; p = p\<lparr>bindByClnt := (bindByClnt p)(appName \<mapsto> b)\<rparr>
              in if currentBind b = totalBind b then th_print (bound_report appName) p else p
          | IvyRemoveBind \<Rightarrow>
              (if i mod 10000 = 0 then say ('' bind '' @ quoted (show_int i) @ '' REMOVED'') else id)
                (p\<lparr>bindByClnt := (bindByClnt p)(appName \<mapsto> b)\<rparr>)
          | IvyFilterBind \<Rightarrow> say ('' bind '' @ quoted regexp @ '' FILTRED'') (p\<lparr>bindByClnt := (bindByClnt p)(appName \<mapsto> b)\<rparr>)
          | IvyChangeBind \<Rightarrow> say ('' bind '' @ quoted regexp @ '' CHANGED'') (p\<lparr>bindByClnt := (bindByClnt p)(appName \<mapsto> b)\<rparr>)))"

definition congestCB :: "nat \<Rightarrow> app_event \<Rightarrow> thru \<Rightarrow> thru res" where
  "congestCB app event p =
     bindR (IvyGetApplicationName app (th_core p)) (\<lambda>appName.
       let say = (\<lambda>text. th_print (''Application:'' @ appName @ '' : '' @ text @ newline) p)
       in Inr (case event of
            IvyApplicationCongestion \<Rightarrow> say ''Congestion''
          | IvyApplicationDecongestion \<Rightarrow> say ''DEcongestion''
          | IvyApplicationFifoFull \<Rightarrow> say ''FIFO PLEINE, MESSAGES PERDUS !!!''
          | _ \<Rightarrow> p))"

definition stopCB :: "thru \<Rightarrow> thru res" where
  "stopCB = th_on_core (\<lambda>s. Inr (IvyStop s))"

text \<open>\<open>envoyes\<close> is \<open>unsigned\<close>; \<open>secs\<close> is the duration as printed.\<close>

definition send_messages :: "regex_engine \<Rightarrow> string list \<Rightarrow> ivy \<Rightarrow> (nat \<times> ivy) res" where
  "send_messages rx messages s =
     bindR (IvySendMsg rx (Some ''startOfSequence'') ''startOfSequence'' s) (\<lambda>(_, s).
     bindR (foldR (\<lambda>m (n, s). bindR (IvySendMsg rx (Some ''%s'') m s) (\<lambda>(k, s). Inr (u32 (int n + int k), s))) messages (0, s)) (\<lambda>(n, s).
     bindR (IvySendMsg rx (Some ''endOfSequence'') ''endOfSequence'' s) (\<lambda>(_, s). Inr (n, s))))"

definition sequence_report :: "nat \<Rightarrow> string \<Rightarrow> thru \<Rightarrow> string" where
  "sequence_report envoyes secs p =
     ''[ivy 3.15] envoyer ['' @ show_d envoyes @ ''/'' @ show_d (nbMess p) @ ''] messages filtres par '' @
     show_d (nbReg p) @ '' regexps a '' @ show_d (numClients (th_opts p)) @ '' clients prends '' @ secs @ '' secondes'' @ newline"

definition sendAllMessageCB :: "regex_engine \<Rightarrow> string \<Rightarrow> string list \<Rightarrow> thru \<Rightarrow> thru res" where
  "sendAllMessageCB rx secs messages p =
     bindR (send_messages rx messages (th_core p)) (\<lambda>(envoyes, s).
       Inr (th_print (sequence_report envoyes secs p) (p\<lparr>th_core := add_test_timer 1 1000 s\<rparr>)))"

definition recepteurCB :: "thru \<Rightarrow> thru" where
  "recepteurCB p = p\<lparr>nbMess := u32 (int (nbMess p) + 1)\<rparr>"

definition startOfSeqCB :: "thru \<Rightarrow> thru" where
  "startOfSeqCB p = p\<lparr>nbMess := 0\<rparr>"

definition endOfSeqCB :: "thru \<Rightarrow> thru" where
  "endOfSeqCB p = th_print (''recepteur '' @ show_d (globalInst p) @ '' a recu '' @ show_d (nbMess p) @ '' messages'' @ newline) p"

text \<open>A receiver is ready: \<open>argv\<close> holds its number. Nothing was captured is read as an unset pointer.\<close>

definition recepteurReadyCB :: "string list \<Rightarrow> thru \<Rightarrow> thru res" where
  "recepteurReadyCB argv p =
     (case argv of [] \<Rightarrow> Inl Uninitialised
      | a # _ \<Rightarrow>
          let inst = u32 (atoi a); p = p\<lparr>recReady := (recReady p)(inst := True)\<rparr>; n = numClients (th_opts p);
              missing = filter (\<lambda>i. \<not> recReady p i) [0..<n];
              p = th_print (concat (map (\<lambda>i. ''Emetteur :Recepteur['' @ show_d inst @ ''] OK,  manque recepteur ['' @ show_d i @
                     ''/'' @ show_d (u32 (int n - 1)) @ '']'' @ newline) missing)) p
          in Inr (if missing = []
               then if t_kind (th_opts p) \<noteq> MemoryLeak1
                    then th_print (''Emetteur : tous recepteurs prets : on envoie la puree !!'' @ newline)
                           (p\<lparr>th_core := add_test_timer 1 100 (th_core p)\<rparr>)
                    else p
               else th_print newline p))"

text \<open>The memory leak test of a receiver: unsubscribe, subscribe again, change, unsubscribe.\<close>

definition unbind_list :: "nat list \<Rightarrow> ivy \<Rightarrow> ivy res" where
  "unbind_list = foldR IvyUnbindMsg"

definition bind_list :: "string list \<Rightarrow> ivy \<Rightarrow> (nat list \<times> ivy) res" where
  "bind_list regexps s =
     foldR (\<lambda>reg (ids, s). bindR (IvyBindMsg True reg s) (\<lambda>(i, s). Inr (ids @ [i], s))) regexps ([], s)"

definition change_list :: "nat list \<Rightarrow> ivy \<Rightarrow> ivy res" where
  "change_list = foldR (\<lambda>i. IvyChangeMsg i ''^Une regexp (BIDON)'')"

definition desabonneEtReabonneCB :: "string list \<Rightarrow> thru \<Rightarrow> thru res" where
  "desabonneEtReabonneCB regexps p =
     bindR (unbind_list (bindIdList p) (th_core p)) (\<lambda>s.
     bindR (bind_list regexps s) (\<lambda>(ids, s).
     bindR (change_list ids s) (\<lambda>s.
     bindR (unbind_list ids s) (\<lambda>s. Inr (p\<lparr>th_core := s, bindIdList := []\<rparr>)))))"

definition changeRegexpCB :: "thru \<Rightarrow> thru res" where
  "changeRegexpCB p =
     bindR (change_list (bindIdList p) (th_core p)) (\<lambda>s. Inr (p\<lparr>th_core := add_test_timer 1 1000 s\<rparr>))"

definition exitCB :: "thru \<Rightarrow> thru" where
  "exitCB p = (th_print (''DBG> client exit'' @ newline) p)\<lparr>th_core := (th_core p)\<lparr>exited := True\<rparr>\<rparr>"

text \<open>The process sleeps and leaves without a word to its peers.\<close>

definition half_quot :: "int \<Rightarrow> int" where
  "half_quot t = (if t < 0 then - (- t div 2) else t div 2)"

definition doNothingAndSuicideCB :: "int \<Rightarrow> thru \<Rightarrow> thru" where
  "doNothingAndSuicideCB time p =
     (th_print (''.DBG> client hanging for '' @ show_int (half_quot (time - 2) * 1000) @ '' milliseconds'' @ newline @
        ''DBG> client suicide'' @ newline) p)\<lparr>th_core := (th_core p)\<lparr>exited := True\<rparr>\<rparr>"

section \<open>The program\<close>

text \<open>
  The names a receiver is known by: its number is printed as unsigned by the stream. The line every
  process starts with, which holds its process number, is not part of \<open>th_out\<close>.
\<close>

definition receiver_name :: "nat \<Rightarrow> string" where
  "receiver_name i = ''IvyThroughputReceive_'' @ show_nat i"

definition th_bind :: "string \<Rightarrow> thru \<Rightarrow> thru res" where
  "th_bind pattern = th_on_core (\<lambda>s. bindR (IvyBindMsg True pattern s) (\<lambda>(_, s). Inr s))"

definition receiver_init :: "bool \<Rightarrow> nat \<Rightarrow> thru \<Rightarrow> thru" where
  "receiver_init env i p =
     p\<lparr>globalInst := i, th_core := IvyInit (Some (receiver_name i)) (Some (receiver_name i @ '' Ready'')) True False env (th_core p)\<rparr>"

definition bind_sequence_marks :: "thru \<Rightarrow> thru res" where
  "bind_sequence_marks p = bindR (th_bind ''^start(OfSequence)'' p) (th_bind ''^end(OfSequence)'')"

text \<open>\<open>exitAfter\<close> is \<open>unsigned\<close>: so are its products.\<close>

definition recepteur_tp ::
    "start_env \<Rightarrow> bool \<Rightarrow> nat \<Rightarrow> string list \<Rightarrow> nat \<Rightarrow> thru \<Rightarrow> thru res" where
  "recepteur_tp e env i regexps exitAfter p =
     (let q = receiver_init env i p; opts = th_opts p
      in bindR (foldR (\<lambda>reg. th_bind (if regexpAreUniq opts then reg @ ''('' @ show_nat i @ '')?'' else reg)) regexps q) (\<lambda>p.
         bindR (bind_sequence_marks p) (\<lambda>p.
         let p = p\<lparr>th_core := (case t_kind opts of
                 MemoryLeak2 \<Rightarrow> add_test_timer 1 (int (u32 (int exitAfter * 1000))) (th_core p)
               | Disconnect \<Rightarrow> add_test_timer 1 (int (u32 (int exitAfter * 1000) div 3)) (th_core p)
               | _ \<Rightarrow> th_core p)\<rparr>
         in th_on_core (IvyStart e (Some (t_bus opts))) p)))"

definition recepteur_ml :: "start_env \<Rightarrow> bool \<Rightarrow> nat \<Rightarrow> string list \<Rightarrow> thru \<Rightarrow> thru res" where
  "recepteur_ml e env i regexps p =
     (let q = receiver_init env i p; opts = th_opts p
      in bindR (bind_list (map (\<lambda>reg. if regexpAreUniq opts then reg @ '' '' @ show_nat i else reg) regexps) (th_core q)) (\<lambda>(ids, s).
         bindR (bind_sequence_marks (q\<lparr>th_core := s, bindIdList := bindIdList q @ ids\<rparr>)) (\<lambda>p.
         th_on_core (\<lambda>s. IvyStart e (Some (t_bus opts)) (add_test_timer 1 1000 s)) p)))"

definition receiver_pattern :: string where
  "receiver_pattern = ''^IvyThroughputReceive_('' @ [CHR 0x5C] @ ''d+)'' @ [CHR 0x5C] @ ''s+Ready''"

definition emetteur :: "start_env \<Rightarrow> bool \<Rightarrow> thru \<Rightarrow> thru res" where
  "emetteur e env p =
     (let p = p\<lparr>th_core := IvySetBindCallback True
                (IvyInit (Some ''IvyThroughputEmit'') (Some ''IvyThroughputEmit Ready'') True False env (th_core p))\<rparr>
      in bindR (th_bind receiver_pattern p) (\<lambda>p.
         th_on_core (\<lambda>s. IvyStart e (Some (t_bus (th_opts p))) (add_test_timer 1 (s32 (testDuration (th_opts p) * 1000)) s)) p))"

subsection \<open>Options\<close>

text \<open>\<open>strdup\<close> of the environment variable or of the default, whose block \<open>strcpy\<close> writes into.\<close>

definition default_options :: "string option \<Rightarrow> thru_options" where
  "default_options ivybus = \<lparr>t_bus = (case ivybus of None \<Rightarrow> ''127.0.0.1:2000'' | Some b \<Rightarrow> b), t_kind = Throughput, regexpAreUniq = False,
     regexpFile = ''testivy/regexp.txt'', messageFile = ''testivy/messages.ivy'', numRegexps = 1000000, numMessages = 1000000,
     numClients = 1, testDuration = 10, t_out = [], t_exited = False\<rparr>"

text \<open>\<open>strcasecmp\<close>, on letters of ASCII.\<close>

definition tolower :: "char \<Rightarrow> char" where
  "tolower c = (if 65 \<le> (of_char c :: nat) \<and> of_char c \<le> (90 :: nat) then char_of (of_char c + (32 :: nat)) else c)"

definition kind_of :: "string \<Rightarrow> KindOfTest option" where
  "kind_of arg =
     (let a = map tolower arg
      in if a = ''ml'' \<or> a = ''ml1'' then Some MemoryLeak1 else if a = ''ml2'' then Some MemoryLeak2
         else if a = ''tp'' then Some Throughput else if a = ''dx'' then Some Disconnect else None)"

definition thru_usage :: "string \<Rightarrow> string \<Rightarrow> thru_options \<Rightarrow> thru_options" where
  "thru_usage argv0 help opts = opts\<lparr>t_out := t_out opts @ ''usage: '' @ argv0 @ '' '' @ help, t_exited := True\<rparr>"

text \<open>
  One answer of \<open>getopt\<close>: \<open>busLen\<close> is the length of the first content of \<open>bus\<close>, the arrays of file
  names have 1024 bytes, \<open>help\<close> is the text of the help.
\<close>

definition thru_option :: "string \<Rightarrow> string \<Rightarrow> nat \<Rightarrow> char \<times> string \<Rightarrow> thru_options \<Rightarrow> thru_options res" where
  "thru_option argv0 help busLen = (\<lambda>(c, optarg) opts.
     if t_exited opts then Inr opts
     else if c = CHR ''b'' then (if length optarg > busLen then Inl OutOfBounds else Inr (opts\<lparr>t_bus := optarg\<rparr>))
     else if c = CHR ''v'' then Inr (opts\<lparr>t_out := t_out opts @ ''ivy c library version 3.15'' @ newline\<rparr>)
     else if c = CHR ''p'' then Inr (opts\<lparr>regexpAreUniq := True\<rparr>)
     else if c = CHR ''t''
     then Inr (case kind_of optarg of None \<Rightarrow> thru_usage argv0 help opts | Some k \<Rightarrow> opts\<lparr>t_kind := k\<rparr>)
     else if c = CHR ''r'' then (if length optarg \<ge> 1024 then Inl OutOfBounds else Inr (opts\<lparr>regexpFile := optarg\<rparr>))
     else if c = CHR ''m'' then (if length optarg \<ge> 1024 then Inl OutOfBounds else Inr (opts\<lparr>messageFile := optarg\<rparr>))
     else if c = CHR ''R'' then Inr (opts\<lparr>numRegexps := u32 (atoi optarg)\<rparr>)
     else if c = CHR ''M'' then Inr (opts\<lparr>numMessages := u32 (atoi optarg)\<rparr>)
     else if c = CHR ''n'' then Inr (opts\<lparr>numClients := u32 (atoi optarg)\<rparr>)
     else if c = CHR ''d'' then Inr (opts\<lparr>testDuration := atoi optarg\<rparr>)
     else Inr (thru_usage argv0 help opts))"

text \<open>What runs in the process with number \<open>i\<close> that \<open>fork\<close> makes.\<close>

definition receiver :: "start_env \<Rightarrow> bool \<Rightarrow> string list \<Rightarrow> nat \<Rightarrow> thru \<Rightarrow> thru res" where
  "receiver e env regexps i p =
     (case t_kind (th_opts p) of
        Throughput \<Rightarrow> recepteur_tp e env i regexps 0 p
      | MemoryLeak1 \<Rightarrow> recepteur_ml e env i regexps p
      | MemoryLeak2 \<Rightarrow> recepteur_tp e env i regexps (u32 (testDuration (th_opts p) - 5)) p
      | Disconnect \<Rightarrow> recepteur_tp e env i regexps (u32 (testDuration (th_opts p))) p)"

definition thru_start :: "thru_options \<Rightarrow> ivy \<Rightarrow> thru" where
  "thru_start opts s = \<lparr>th_core = s, th_opts = opts, nbMess = 0, nbReg = 0, globalInst = 0, recReady = (\<lambda>_. False),
     bindByClnt = Map.empty, bindIdList = [], th_out = t_out opts\<rparr>"

text \<open>
  \<open>main\<close> up to the main loops of its processes: the receivers and the emitter, which binds with the
  number of patterns. Without the files the program ends. A child has the state of the parent at its \<open>fork\<close>.
\<close>

definition thru_main ::
    "partial_match \<Rightarrow> start_env \<Rightarrow> bool \<Rightarrow> (string \<Rightarrow> string option) \<Rightarrow> thru_options \<Rightarrow> ivy \<Rightarrow> (thru res list \<times> thru res \<times> string list \<times> nat) option" where
  "thru_main partial e env files opts s =
     Option.bind (getRegexps partial (files (regexpFile opts)) (numRegexps opts) 0) (\<lambda>(regexps, nreg).
     Option.bind (if t_kind opts = MemoryLeak1 then Some ([], 0)
                  else getMessages partial (files (messageFile opts)) (numMessages opts) 0) (\<lambda>(messages, nmess).
       let p = (thru_start opts s)\<lparr>nbReg := nreg, nbMess := nmess\<rparr>
       in Some (map (\<lambda>i. receiver e env regexps i p) [0..<numClients opts], emetteur e env p, messages, length regexps + 2)))"

section \<open>Calls of the application, one after the other\<close>

text \<open>
  A call of the application that leaves the other applications and their subscriptions as they are:
  what it appends to the streams, and the room that is left.
\<close>

definition sends :: "ivy \<Rightarrow> (nat \<Rightarrow> string) \<Rightarrow> ivy \<Rightarrow> bool" where
  "sends s app t \<longleftrightarrow> ready_to_send t \<and> allClients t = allClients s \<and> messSndByRegexp t = messSndByRegexp s \<and>
     (\<forall>c. (socks t c = None) = (socks s c = None)) \<and> (\<forall>c. stream c t = stream c s @ app c) \<and>
     (\<forall>c n. roomy c (length (app c) + n) s \<longrightarrow> roomy c n t)"

lemma sends_refl: "ready_to_send s \<Longrightarrow> sends s (\<lambda>_. []) s"
  by (simp add: sends_def)

lemma sends_trans: "sends s f t \<Longrightarrow> sends t g u \<Longrightarrow> sends s (\<lambda>c. f c @ g c) u"
  by (simp add: sends_def add.assoc)

lemma delivers_sends: "delivers s f t \<Longrightarrow> sends s f t"
  using delivers_ready [of s f t] talk_fields(1,2,16) [of s t] by (simp add: sends_def delivers_def)

text \<open>The fields a subscription of the application changes are of no interest to what was sent.\<close>

lemma own_fields:
  fixes s :: ivy
  shows "sends (subscribed s m) f t = sends s f t" "ready_to_send (s\<lparr>msg_recv := ms\<rparr>) = ready_to_send s"
    "sends (s\<lparr>msg_recv := ms\<rparr>) f t = sends s f t" "sends s f (t\<lparr>msg_recv := ms\<rparr>) = sends s f t"
    "to_everyone (subscribed s m) = to_everyone s" "to_everyone (s\<lparr>msg_recv := ms\<rparr>) = to_everyone s"
  by (simp_all add: sends_def to_everyone_def fun_eq_iff) (simp_all add: subscribed_def ready_to_send_def sock_inv_def stream_def roomy_def split: option.split)

text \<open>Every connected application can be sent the line.\<close>

definition all_reachable :: "nat \<Rightarrow> ivy \<Rightarrow> bool" where
  "all_reachable n s \<longleftrightarrow> ready_to_send s \<and> distinct (map c_client (allClients s)) \<and>
     (\<forall>x \<in> set (allClients s). socks s (c_client x) \<noteq> None \<and> roomy (c_client x) n s)"

lemma reachable_after:
  assumes "all_reachable (length l + n) s" and "sends s (to_everyone s l) t"
  shows "all_reachable n t" and "to_everyone t = to_everyone s"
  using assms by (auto simp: all_reachable_def sends_def to_everyone_def fun_eq_iff)

lemma to_all_sends:
  assumes "all_reachable (length (message_line ty i m) + n) s"
  shows "\<exists>t. to_all ty i m s = Inr t \<and> talk s t \<and> sends s (to_everyone s (message_line ty i m)) t"
proof -
  have "\<forall>x \<in> set (allClients s). roomy (c_client x) (length (message_line ty i m)) s"
    using assms roomy_mono unfolding all_reachable_def by (metis le_add1)
  then obtain t where "to_all ty i m s = Inr t" "delivers s (to_everyone s (message_line ty i m)) t"
    using to_all_delivers [of s ty i m] assms by (auto simp: all_reachable_def to_everyone_eq)
  then show ?thesis using delivers_sends by (auto simp: delivers_def)
qed

lemma bind_sends:
  assumes "substituteInterval pattern = Inr r" and "all_reachable (length (message_line AddRegexp (recv_id s) r) + n) s"
  shows "\<exists>t. IvyBindMsg cb pattern s = Inr (fresh s, t) \<and> sends s (to_everyone s (message_line AddRegexp (recv_id s) r)) t \<and>
    msg_recv t = \<lparr>mr_ptr = fresh s, mr_id = recv_id s, mr_regexp = r, mr_callback = cb\<rparr> # msg_recv s \<and>
    fresh t = fresh s + 1 \<and> recv_id t = s32 (recv_id s + 1)"
proof -
  let ?m = "\<lparr>mr_ptr = fresh s, mr_id = recv_id s, mr_regexp = r, mr_callback = cb\<rparr>"
  have "all_reachable (length (message_line AddRegexp (recv_id s) r) + n) (subscribed s ?m)"
    using assms(2) by (simp add: all_reachable_def)
  from to_all_sends [OF this] obtain t where t: "to_all AddRegexp (recv_id s) r (subscribed s ?m) = Inr t"
    "talk (subscribed s ?m) t" "sends s (to_everyone s (message_line AddRegexp (recv_id s) r)) t"
    by (auto simp: own_fields to_everyone_def)
  obtain l n k ev where f: "t = (subscribed s ?m)\<lparr>lp := l, net := n, socks := k, events := ev\<rparr>"
    by (rule talkE [OF t(2)])
  then have "msg_recv t = ?m # msg_recv s" "fresh t = fresh s + 1" "recv_id t = s32 (recv_id s + 1)"
    by (simp_all add: subscribed_def)
  with t(1,3) assms(1) show ?thesis by (simp add: IvyBindMsg_def Let_def subscribed_def)
qed

lemma unbind_sends:
  assumes "find (\<lambda>m. mr_ptr m = p) (msg_recv s) = Some x" and "p \<noteq> 0"
    and "all_reachable (length (message_line DelRegexp (mr_id x) []) + n) s"
  shows "\<exists>t. IvyUnbindMsg p s = Inr t \<and> sends s (to_everyone s (message_line DelRegexp (mr_id x) [])) t \<and>
    msg_recv t = filter (\<lambda>m. mr_ptr m \<noteq> p) (msg_recv s) \<and> fresh t = fresh s \<and> recv_id t = recv_id s"
proof -
  from to_all_sends [OF assms(3)] obtain t where t: "to_all DelRegexp (mr_id x) [] s = Inr t" "talk s t"
    "sends s (to_everyone s (message_line DelRegexp (mr_id x) [])) t" by blast
  obtain l n k ev where f: "t = s\<lparr>lp := l, net := n, socks := k, events := ev\<rparr>" by (rule talkE [OF t(2)])
  then have "msg_recv t = msg_recv s" "fresh t = fresh s" "recv_id t = recv_id s" by simp_all
  with t(1,3) assms(1,2) show ?thesis by (simp add: IvyUnbindMsg_def with_msg_def own_fields)
qed

lemma change_sends:
  assumes "find (\<lambda>m. mr_ptr m = p) (msg_recv s) = Some x" and "p \<noteq> 0" and "substituteInterval pattern = Inr r"
    and "all_reachable (length (message_line AddRegexp (mr_id x) r) + n) s"
  shows "\<exists>t. IvyChangeMsg p pattern s = Inr t \<and> sends s (to_everyone s (message_line AddRegexp (mr_id x) r)) t \<and>
    msg_recv t = map (\<lambda>m. if mr_ptr m = p then m\<lparr>mr_regexp := r\<rparr> else m) (msg_recv s) \<and>
    fresh t = fresh s \<and> recv_id t = recv_id s"
proof -
  let ?ms = "map (\<lambda>m. if mr_ptr m = p then m\<lparr>mr_regexp := r\<rparr> else m) (msg_recv s)"
  let ?s = "s\<lparr>msg_recv := ?ms\<rparr>"
  have "all_reachable (length (message_line AddRegexp (mr_id x) r) + n) ?s"
    using assms(4) by (simp add: all_reachable_def own_fields) (simp add: roomy_def split: option.splits)
  from to_all_sends [OF this] obtain t where t: "to_all AddRegexp (mr_id x) r ?s = Inr t" "talk ?s t"
    "sends s (to_everyone s (message_line AddRegexp (mr_id x) r)) t"
    by (auto simp: own_fields to_everyone_def)
  obtain l n k ev where f: "t = ?s\<lparr>lp := l, net := n, socks := k, events := ev\<rparr>" by (rule talkE [OF t(2)])
  then have "msg_recv t = ?ms" "fresh t = fresh s" "recv_id t = recv_id s" by simp_all
  with t(1,3) assms(1-3) show ?thesis by (simp add: IvyChangeMsg_def with_msg_def)
qed

section \<open>The memory leak test\<close>

lemma to_everyone_append: "to_everyone s (k @ l) c = to_everyone s k c @ to_everyone s l c"
  by (simp add: to_everyone_def)

lemma to_everyone_nil: "to_everyone s [] = (\<lambda>_. [])"
  by (simp add: to_everyone_def fun_eq_iff)

lemma sends_then:
  assumes "sends s (to_everyone s k) t" and "sends t (to_everyone t l) u"
  shows "sends s (to_everyone s (k @ l)) u"
proof -
  have "to_everyone t = to_everyone s" using assms(1) by (simp add: sends_def to_everyone_def fun_eq_iff)
  then show ?thesis using sends_trans [OF assms] by (simp add: to_everyone_append [abs_def] fun_eq_iff)
qed

definition del_lines :: "msg_rcv list \<Rightarrow> string" where
  "del_lines xs = concat (map (\<lambda>x. message_line DelRegexp (mr_id x) []) xs)"

definition add_lines :: "msg_rcv list \<Rightarrow> string" where
  "add_lines xs = concat (map (\<lambda>x. message_line AddRegexp (mr_id x) (mr_regexp x)) xs)"

lemma find_ptr:
  assumes "distinct (map mr_ptr ms)" and "x \<in> set ms"
  shows "find (\<lambda>m. mr_ptr m = mr_ptr x) ms = Some x"
  using assms by (induction ms) (auto simp: image_iff)

lemma unbind_list_sends:
  assumes "distinct (map mr_ptr (msg_recv s))" and "set xs \<subseteq> set (msg_recv s)" and "distinct xs"
    and "\<forall>x \<in> set xs. mr_ptr x \<noteq> 0" and "all_reachable (length (del_lines xs) + n) s"
  shows "\<exists>t. unbind_list (map mr_ptr xs) s = Inr t \<and> sends s (to_everyone s (del_lines xs)) t \<and>
    msg_recv t = filter (\<lambda>m. mr_ptr m \<notin> mr_ptr ` set xs) (msg_recv s) \<and> fresh t = fresh s \<and> recv_id t = recv_id s"
  using assms
proof (induction xs arbitrary: s)
  case Nil
  then have "ready_to_send s" by (simp add: all_reachable_def)
  with sends_refl [of s] show ?case by (simp add: unbind_list_def del_lines_def to_everyone_nil)
next
  case (Cons x xs)
  let ?l = "message_line DelRegexp (mr_id x) []"
  have room: "all_reachable (length ?l + (length (del_lines xs) + n)) s"
    using Cons.prems(5) by (simp add: del_lines_def add.assoc)
  have x: "find (\<lambda>m. mr_ptr m = mr_ptr x) (msg_recv s) = Some x"
    by (rule find_ptr [OF Cons.prems(1)]) (use Cons.prems(2) in simp)
  from unbind_sends [OF x _ room] Cons.prems(4) obtain t where t: "IvyUnbindMsg (mr_ptr x) s = Inr t"
    "sends s (to_everyone s ?l) t" "msg_recv t = filter (\<lambda>m. mr_ptr m \<noteq> mr_ptr x) (msg_recv s)"
    "fresh t = fresh s" "recv_id t = recv_id s" by auto
  have "mr_ptr y \<noteq> mr_ptr x" if "y \<in> set xs" for y
    using that Cons.prems(1-3) by (auto simp: distinct_map dest: inj_onD)
  then have "set xs \<subseteq> set (msg_recv t)" "distinct (map mr_ptr (msg_recv t))"
    using Cons.prems(1,2) by (auto simp: t(3) distinct_map inj_on_def)
  from Cons.IH [OF this(2,1)] Cons.prems(3,4) reachable_after(1) [OF room t(2)] obtain u where
    u: "unbind_list (map mr_ptr xs) t = Inr u" "sends t (to_everyone t (del_lines xs)) u"
      "msg_recv u = filter (\<lambda>m. mr_ptr m \<notin> mr_ptr ` set xs) (msg_recv t)" "fresh u = fresh t" "recv_id u = recv_id t" by auto
  from sends_then [OF t(2) u(2)] have "sends s (to_everyone s (del_lines (x # xs))) u" by (simp add: del_lines_def)
  moreover have "msg_recv u = filter (\<lambda>m. mr_ptr m \<notin> mr_ptr ` set (x # xs)) (msg_recv s)"
    by (auto simp: u(3) t(3) intro!: filter_cong)
  ultimately show ?case using t(1,4,5) u(1,4,5) by (simp add: unbind_list_def)
qed

text \<open>The bindings made for some patterns.\<close>

fun new_bindings :: "nat \<Rightarrow> int \<Rightarrow> string list \<Rightarrow> msg_rcv list" where
  "new_bindings p i [] = []"
| "new_bindings p i (r # rs) = \<lparr>mr_ptr = p, mr_id = i, mr_regexp = r, mr_callback = True\<rparr> # new_bindings (p + 1) (s32 (i + 1)) rs"

lemma new_bindings_ptr: "map mr_ptr (new_bindings p i rs) = [p..<p + length rs]"
proof (induction rs arbitrary: p i)
  case (Cons r rs)
  have "[p..<p + length (r # rs)] = p # [Suc p..<Suc p + length rs]" by (subst upt_conv_Cons) simp_all
  with Cons.IH [of "p + 1" "s32 (i + 1)"] show ?case by simp
qed simp

lemma bind_list_sends:
  assumes "map substituteInterval regexps = map Inr rs" and "all_reachable (length (add_lines (new_bindings (fresh s) (recv_id s) rs)) + n) s"
  shows "\<exists>t. bind_list regexps s = Inr (map mr_ptr (new_bindings (fresh s) (recv_id s) rs), t) \<and>
    sends s (to_everyone s (add_lines (new_bindings (fresh s) (recv_id s) rs))) t \<and>
    msg_recv t = rev (new_bindings (fresh s) (recv_id s) rs) @ msg_recv s"
proof -
  let ?f = "\<lambda>reg (ids, s). bindR (IvyBindMsg True reg s) (\<lambda>(i, s). Inr (ids @ [i], s))"
  have "\<exists>t. foldR ?f regexps (ids, s) = Inr (ids @ map mr_ptr (new_bindings (fresh s) (recv_id s) rs), t) \<and>
      sends s (to_everyone s (add_lines (new_bindings (fresh s) (recv_id s) rs))) t \<and>
      msg_recv t = rev (new_bindings (fresh s) (recv_id s) rs) @ msg_recv s" for ids
    using assms
  proof (induction regexps arbitrary: rs s ids)
    case Nil
    then have "ready_to_send s" "rs = []" by (simp_all add: all_reachable_def)
    with sends_refl [of s] show ?case by (simp add: add_lines_def to_everyone_nil)
  next
    case (Cons reg regexps)
    then obtain r rs' where rs: "rs = r # rs'" "substituteInterval reg = Inr r" "map substituteInterval regexps = map Inr rs'"
      by (cases rs) auto
    let ?l = "message_line AddRegexp (recv_id s) r" and ?rest = "new_bindings (fresh s + 1) (s32 (recv_id s + 1)) rs'"
    have room: "all_reachable (length ?l + (length (add_lines ?rest) + n)) s"
      using Cons.prems(2) by (simp add: add_lines_def rs(1) add.assoc)
    from bind_sends [OF rs(2) room, of True] obtain t where t: "IvyBindMsg True reg s = Inr (fresh s, t)"
      "sends s (to_everyone s ?l) t" "msg_recv t = \<lparr>mr_ptr = fresh s, mr_id = recv_id s, mr_regexp = r, mr_callback = True\<rparr> # msg_recv s"
      "fresh t = fresh s + 1" "recv_id t = s32 (recv_id s + 1)" by blast
    from Cons.IH [OF rs(3), of t "ids @ [fresh s]"] reachable_after(1) [OF room t(2)] t(4,5) obtain u where
      u: "foldR ?f regexps (ids @ [fresh s], t) = Inr ((ids @ [fresh s]) @ map mr_ptr ?rest, u)"
        "sends t (to_everyone t (add_lines ?rest)) u" "msg_recv u = rev ?rest @ msg_recv t" by auto
    from sends_then [OF t(2) u(2)] show ?case
      using t(1,3) u(1,3) by (simp add: rs(1) add_lines_def)
  qed
  from this [of "[]"] show ?thesis by (simp add: bind_list_def)
qed

definition changed :: "string \<Rightarrow> nat set \<Rightarrow> msg_rcv \<Rightarrow> msg_rcv" where
  "changed r P m = (if mr_ptr m \<in> P then m\<lparr>mr_regexp := r\<rparr> else m)"

lemma changed_fields [simp]: "mr_ptr (changed r P m) = mr_ptr m" "mr_id (changed r P m) = mr_id m"
  by (simp_all add: changed_def)

lemma change_list_sends:
  assumes "substituteInterval ''^Une regexp (BIDON)'' = Inr r"
    and "distinct (map mr_ptr (msg_recv s))" and "\<forall>x \<in> set xs. mr_ptr x \<noteq> 0 \<and> (\<exists>m \<in> set (msg_recv s). mr_ptr m = mr_ptr x \<and> mr_id m = mr_id x)"
    and "all_reachable (length (add_lines (map (\<lambda>x. x\<lparr>mr_regexp := r\<rparr>) xs)) + n) s"
  shows "\<exists>t. change_list (map mr_ptr xs) s = Inr t \<and> sends s (to_everyone s (add_lines (map (\<lambda>x. x\<lparr>mr_regexp := r\<rparr>) xs))) t \<and>
    msg_recv t = map (changed r (mr_ptr ` set xs)) (msg_recv s)"
  using assms(2-)
proof (induction xs arbitrary: s)
  case Nil
  then have "ready_to_send s" by (simp add: all_reachable_def)
  with sends_refl [of s] show ?case
    by (simp add: change_list_def to_everyone_nil changed_def [abs_def] add_lines_def)
next
  case (Cons x xs)
  let ?l = "message_line AddRegexp (mr_id x) r" and ?ls = "add_lines (map (\<lambda>x. x\<lparr>mr_regexp := r\<rparr>) xs)"
  from Cons.prems(2) obtain m where m: "m \<in> set (msg_recv s)" "mr_ptr m = mr_ptr x" "mr_id m = mr_id x" by auto
  have f: "find (\<lambda>m. mr_ptr m = mr_ptr x) (msg_recv s) = Some m" using find_ptr [OF Cons.prems(1) m(1)] m(2) by simp
  have room: "all_reachable (length (message_line AddRegexp (mr_id m) r) + (length ?ls + n)) s"
    using Cons.prems(3) by (simp add: m(3) add_lines_def add.assoc)
  from change_sends [OF f _ assms(1) room] Cons.prems(2) m(3) obtain t where t: "IvyChangeMsg (mr_ptr x) ''^Une regexp (BIDON)'' s = Inr t"
    "sends s (to_everyone s ?l) t" "msg_recv t = map (\<lambda>m. if mr_ptr m = mr_ptr x then m\<lparr>mr_regexp := r\<rparr> else m) (msg_recv s)" by auto
  have mt: "msg_recv t = map (changed r {mr_ptr x}) (msg_recv s)" by (simp add: t(3) changed_def [abs_def])
  have "distinct (map mr_ptr (msg_recv t))" using Cons.prems(1) by (simp add: mt comp_def)
  moreover have "\<forall>x \<in> set xs. mr_ptr x \<noteq> 0 \<and> (\<exists>m \<in> set (msg_recv t). mr_ptr m = mr_ptr x \<and> mr_id m = mr_id x)"
    using Cons.prems(2) by (auto simp: mt)
  moreover have "all_reachable (length ?ls + n) t" using reachable_after(1) [OF room] t(2) m(3) by simp
  ultimately obtain u where u: "change_list (map mr_ptr xs) t = Inr u" "sends t (to_everyone t ?ls) u"
    "msg_recv u = map (changed r (mr_ptr ` set xs)) (msg_recv t)" using Cons.IH by blast
  have "changed r (mr_ptr ` set xs) (changed r {mr_ptr x} m) = changed r (mr_ptr ` set (x # xs)) m" for m
    by (auto simp: changed_def)
  then have "msg_recv u = map (changed r (mr_ptr ` set (x # xs))) (msg_recv s)" by (simp add: u(3) mt)
  with sends_then [OF t(2) u(2)] t(1) u(1) show ?case by (auto simp: change_list_def add_lines_def)
qed

text \<open>What a cycle of the test sends to every connected application: \<open>xs\<close> were bound before, \<open>nb\<close> are bound in it.\<close>

definition leak_lines :: "msg_rcv list \<Rightarrow> msg_rcv list \<Rightarrow> string" where
  "leak_lines xs nb = del_lines xs @ add_lines nb @ add_lines (map (\<lambda>x. x\<lparr>mr_regexp := ''^Une regexp (BIDON)''\<rparr>) nb) @ del_lines nb"

lemma bidon_plain: "substituteInterval ''^Une regexp (BIDON)'' = Inr ''^Une regexp (BIDON)''"
  by (simp add: substituteInterval_def interval_mark_def)

lemma new_bindings_fresh: "x \<in> set (new_bindings p i rs) \<Longrightarrow> p \<le> mr_ptr x"
proof -
  assume "x \<in> set (new_bindings p i rs)"
  then have "mr_ptr x \<in> set (map mr_ptr (new_bindings p i rs))" by simp
  then show ?thesis by (simp add: new_bindings_ptr)
qed

lemma leak_cycle:
  assumes "set xs \<subseteq> set (msg_recv s)" and "distinct xs" and "distinct (map mr_ptr (msg_recv s))"
    and "\<forall>m \<in> set (msg_recv s). 0 < mr_ptr m \<and> mr_ptr m < fresh s" and "0 < fresh s"
    and "map substituteInterval regexps = map Inr rs" and "nb = new_bindings (fresh s) (recv_id s) rs"
    and "all_reachable (length (leak_lines xs nb)) s" and "th_core p = s" and "bindIdList p = map mr_ptr xs"
  shows "\<exists>q. desabonneEtReabonneCB regexps p = Inr q \<and> bindIdList q = [] \<and>
    msg_recv (th_core q) = filter (\<lambda>m. m \<notin> set xs) (msg_recv s) \<and> sends s (to_everyone s (leak_lines xs nb)) (th_core q)"
proof -
  let ?B = "''^Une regexp (BIDON)''"
  let ?ch = "add_lines (map (\<lambda>x. x\<lparr>mr_regexp := ?B\<rparr>) nb)"
  have r1: "all_reachable (length (del_lines xs) + (length (add_lines nb) + (length ?ch + (length (del_lines nb) + 0)))) s"
    using assms(8) by (simp add: leak_lines_def add.assoc)
  from unbind_list_sends [OF assms(3,1,2) _ r1] assms(4) assms(1) obtain t where t: "unbind_list (map mr_ptr xs) s = Inr t"
    "sends s (to_everyone s (del_lines xs)) t" "msg_recv t = filter (\<lambda>m. mr_ptr m \<notin> mr_ptr ` set xs) (msg_recv s)"
    "fresh t = fresh s" "recv_id t = recv_id s" by fastforce
  have mt: "msg_recv t = filter (\<lambda>m. m \<notin> set xs) (msg_recv s)"
    unfolding t(3) using assms(1,3) by (intro filter_cong) (auto simp: distinct_map dest: inj_onD)
  note r2 = reachable_after(1) [OF r1 t(2)]
  from bind_list_sends [OF assms(6), of t] r2 assms(7) t(4,5) obtain u where u: "bind_list regexps t = Inr (map mr_ptr nb, u)"
    "sends t (to_everyone t (add_lines nb)) u" "msg_recv u = rev nb @ msg_recv t" by auto
  note r3 = reachable_after(1) [OF r2 u(2)]
  have nbp: "distinct (map mr_ptr nb)" "\<forall>x \<in> set nb. fresh s \<le> mr_ptr x"
    using new_bindings_ptr [of "fresh s" "recv_id s" rs] new_bindings_fresh assms(7) by auto
  have du: "distinct (map mr_ptr (msg_recv u))"
    using nbp assms(3,4) by (fastforce simp: u(3) mt distinct_map_filter rev_map [symmetric])
  have "\<forall>x \<in> set nb. mr_ptr x \<noteq> 0 \<and> (\<exists>m \<in> set (msg_recv u). mr_ptr m = mr_ptr x \<and> mr_id m = mr_id x)"
    using nbp(2) assms(5) by (fastforce simp: u(3))
  from change_list_sends [OF bidon_plain du this r3] obtain v where v: "change_list (map mr_ptr nb) u = Inr v"
    "sends u (to_everyone u ?ch) v" "msg_recv v = map (changed ?B (mr_ptr ` set nb)) (msg_recv u)" by blast
  note r4 = reachable_after(1) [OF r3 v(2)]
  let ?nb = "map (\<lambda>x. x\<lparr>mr_regexp := ?B\<rparr>) nb"
  have vm: "msg_recv v = rev ?nb @ msg_recv t"
  proof -
    have "changed ?B (mr_ptr ` set nb) m = m" if "m \<in> set (msg_recv t)" for m
      using that nbp(2) assms(4) by (fastforce simp: mt changed_def)
    then have "map (changed ?B (mr_ptr ` set nb)) (msg_recv t) = msg_recv t" by (simp add: map_idI)
    then show ?thesis by (simp add: v(3) u(3) rev_map changed_def)
  qed
  have dl: "del_lines ?nb = del_lines nb" "map mr_ptr ?nb = map mr_ptr nb" by (simp_all add: del_lines_def comp_def)
  have "distinct (map mr_ptr (msg_recv v))" using du by (simp add: v(3) comp_def)
  moreover have "distinct ?nb" using nbp(1) dl(2) by (metis distinct_map)
  moreover have "\<forall>x \<in> set ?nb. mr_ptr x \<noteq> 0" using nbp(2) assms(5) by fastforce
  ultimately obtain w where w: "unbind_list (map mr_ptr nb) v = Inr w" "sends v (to_everyone v (del_lines nb)) w"
    "msg_recv w = filter (\<lambda>m. mr_ptr m \<notin> mr_ptr ` set ?nb) (msg_recv v)"
    using unbind_list_sends [of v ?nb 0] r4 vm unfolding dl by fastforce
  have "mr_ptr m \<notin> mr_ptr ` set nb" if "m \<in> set (msg_recv t)" for m
    using that nbp(2) assms(4) by (fastforce simp: mt)
  then have "msg_recv w = msg_recv t"
    unfolding w(3) vm by (auto simp: filter_empty_conv image_image filter_id_conv)
  moreover have "sends s (to_everyone s (leak_lines xs nb)) w"
    using sends_then [OF sends_then [OF sends_then [OF t(2) u(2)] v(2)] w(2)] by (simp add: leak_lines_def)
  moreover have "desabonneEtReabonneCB regexps p = Inr (p\<lparr>th_core := w, bindIdList := []\<rparr>)"
    using t(1) u(1) v(1) w(1) assms(9,10) by (simp add: desabonneEtReabonneCB_def)
  ultimately show ?thesis by (intro exI [of _ "p\<lparr>th_core := w, bindIdList := []\<rparr>"]) (simp add: mt)
qed

section \<open>Files, counts and the start\<close>

text \<open>The readers keep the first lines that match, at most as many as they are told.\<close>

lemma read_loop_take:
  assumes "limit < 4294967296"
  shows "read_loop pick limit ls n = (let xs = take (limit - n) (List.map_filter pick ls) in (xs, n + length xs))"
  using assms
proof (induction pick limit ls n rule: read_loop.induct)
  case (1 pick limit n)
  then show ?case by (simp add: map_filter_simps)
next
  case (2 pick limit l ls n)
  have k: "limit - n = Suc (limit - Suc n)" if "n < limit" using that by simp
  have u: "u32 (int n + 1) = Suc n" if "n < limit" using that 2(3) by (simp add: u32_id nat_add_distrib)
  show ?case
    using 2 k u by (cases "pick l") (auto simp: map_filter_simps Let_def)
qed

lemma count_messages: "(recepteurCB ^^ n) p = p\<lparr>nbMess := (if n = 0 then nbMess p else u32 (int (nbMess p) + int n))\<rparr>"
proof (induction n)
  case (Suc n)
  then show ?case by (cases "n = 0") (auto simp: recepteurCB_def u32_def mod_simps algebra_simps)
qed simp

text \<open>A receiver counts the messages of a sequence.\<close>

lemma sequence_is_counted:
  "n < 4294967296 \<Longrightarrow> endOfSeqCB ((recepteurCB ^^ n) (startOfSeqCB p)) =
     th_print (''recepteur '' @ show_d (globalInst p) @ '' a recu '' @ show_d n @ '' messages'' @ newline) (p\<lparr>nbMess := n\<rparr>)"
  by (simp add: count_messages startOfSeqCB_def endOfSeqCB_def u32_of_nat)

text \<open>A message to everybody, in the form that composes.\<close>

definition heard_by :: "regex_engine \<Rightarrow> ivy \<Rightarrow> string \<Rightarrow> nat \<Rightarrow> string" where
  "heard_by rx s m c = frames (calls rx m (messSndByRegexp s) c)"

definition receivers_of :: "regex_engine \<Rightarrow> ivy \<Rightarrow> string \<Rightarrow> nat" where
  "receivers_of rx s m = length (concat (map d_clientList (matching rx m (messSndByRegexp s))))"

text \<open>The dictionary answers every message of the sequence well, and there is room for what it is sent.\<close>

definition can_send_all :: "regex_engine \<Rightarrow> string list \<Rightarrow> ivy \<Rightarrow> bool" where
  "can_send_all rx ms s \<longleftrightarrow> ready_to_send s \<and> \<not> debug_binary_msg s \<and>
     (\<forall>m \<in> set ms. list_all (good_entry rx m) (messSndByRegexp s)) \<and>
     (\<forall>e \<in> set (messSndByRegexp s). \<forall>dc \<in> set (d_clientList e). socks s (dc_client dc) \<noteq> None) \<and>
     room_for (\<lambda>c. concat (map (\<lambda>m. heard_by rx s m c) ms)) s"

lemma can_send_append:
  assumes "can_send_all rx (ms @ ns) s"
  shows "can_send_all rx ms s"
    and "delivers s (\<lambda>c. concat (map (\<lambda>m. heard_by rx s m c) ms)) t \<Longrightarrow> can_send_all rx ns t \<and> heard_by rx t = heard_by rx s"
proof -
  let ?o = "\<lambda>ms c. concat (map (\<lambda>m. heard_by rx s m c) ms)"
  have all: "?o ms c @ ?o ns c = [] \<or> roomy c (length (?o ms c) + length (?o ns c)) s" for c
    using assms by (simp add: can_send_all_def room_for_def)
  then have "room_for (?o ms) s" unfolding room_for_def using roomy_mono [OF _ le_add1] by blast
  then show "can_send_all rx ms s" using assms by (simp add: can_send_all_def)
  assume t: "delivers s (?o ms) t"
  then have talk: "talk s t" by (simp add: delivers_def)
  note same = talk_fields(2) [OF talk] talk_fields(16) [OF talk]
  have h: "heard_by rx t = heard_by rx s" by (simp add: heard_by_def fun_eq_iff same)
  have "room_for (?o ns) t" unfolding room_for_def using all t unfolding delivers_def by blast
  moreover have "debug_binary_msg t = debug_binary_msg s" by (rule talkE [OF talk]) simp
  ultimately show "can_send_all rx ns t \<and> heard_by rx t = heard_by rx s"
    using assms delivers_ready [OF t] by (simp add: can_send_all_def h same)
qed

lemma heard_by_eq: "heard_by rx s m = (\<lambda>c. frames (calls rx m (messSndByRegexp s) c))"
  by (simp add: heard_by_def fun_eq_iff)

lemma send_one:
  assumes "can_send_all rx [m] s" and "fmt \<noteq> []"
  shows "\<exists>t. IvySendMsg rx (Some fmt) m s = Inr (receivers_of rx s m, t) \<and> delivers s (heard_by rx s m) t"
  using IvySendMsg_ok [of s fmt rx m] assms by (simp add: can_send_all_def ready_to_send_def heard_by_eq receivers_of_def)

lemma send_each:
  assumes "can_send_all rx ms s"
  shows "\<exists>t. foldR (\<lambda>m (n, s). bindR (IvySendMsg rx (Some ''%s'') m s) (\<lambda>(k, s). Inr (u32 (int n + int k), s))) ms (u32 n, s) =
       Inr (u32 (n + int (sum_list (map (receivers_of rx s) ms))), t) \<and>
     delivers s (\<lambda>c. concat (map (\<lambda>m. heard_by rx s m c) ms)) t"
  using assms
proof (induction ms arbitrary: s n)
  case Nil
  with delivers_refl show ?case by (simp add: can_send_all_def)
next
  case (Cons m ms)
  then have "can_send_all rx ([m] @ ms) s" by simp
  note a = can_send_append [OF this]
  from send_one [OF a(1), of "''%s''"] obtain t where
    t: "IvySendMsg rx (Some ''%s'') m s = Inr (receivers_of rx s m, t)" "delivers s (heard_by rx s m) t" by auto
  have b: "can_send_all rx ms t" "heard_by rx t = heard_by rx s" using a(2) [of t] t(2) by simp_all
  have "receivers_of rx t = receivers_of rx s"
    using t(2) talk_fields(2) [of s t] by (simp add: delivers_def receivers_of_def fun_eq_iff)
  with Cons.IH [OF b(1), of "n + int (receivers_of rx s m)"] obtain u where
    u: "foldR (\<lambda>m (n, s). bindR (IvySendMsg rx (Some ''%s'') m s) (\<lambda>(k, s). Inr (u32 (int n + int k), s))) ms
        (u32 (n + int (receivers_of rx s m)), t) =
      Inr (u32 (n + int (receivers_of rx s m) + int (sum_list (map (receivers_of rx s) ms))), u)"
      "delivers t (\<lambda>c. concat (map (\<lambda>m. heard_by rx s m c) ms)) u"
    by (auto simp: b(2))
  have "u32 (int (u32 n) + int (receivers_of rx s m)) = u32 (n + int (receivers_of rx s m))" by (simp add: u32_def mod_simps)
  with t(1) u(1) delivers_trans [OF t(2) u(2)] show ?case by (simp add: add.assoc)
qed

lemma send_messages_ok:
  assumes "can_send_all rx (''startOfSequence'' # ms @ [''endOfSequence'']) s"
  shows "\<exists>t. send_messages rx ms s = Inr (u32 (int (sum_list (map (receivers_of rx s) ms))), t) \<and>
    delivers s (\<lambda>c. concat (map (\<lambda>m. heard_by rx s m c) (''startOfSequence'' # ms @ [''endOfSequence'']))) t"
proof -
  let ?o = "\<lambda>ms c. concat (map (\<lambda>m. heard_by rx s m c) ms)"
  have "can_send_all rx ([''startOfSequence''] @ (ms @ [''endOfSequence''])) s" using assms by simp
  note a = can_send_append [OF this]
  from send_one [OF a(1), of "''startOfSequence''"] obtain t where
    t: "IvySendMsg rx (Some ''startOfSequence'') ''startOfSequence'' s = Inr (receivers_of rx s ''startOfSequence'', t)"
      "delivers s (heard_by rx s ''startOfSequence'') t" by auto
  have b: "can_send_all rx (ms @ [''endOfSequence'']) t" "heard_by rx t = heard_by rx s" using a(2) [of t] t(2) by simp_all
  note c = can_send_append [OF b(1)]
  have "receivers_of rx t = receivers_of rx s"
    using t(2) talk_fields(2) [of s t] by (simp add: delivers_def receivers_of_def fun_eq_iff)
  moreover have "u32 0 = 0" by (simp add: u32_def)
  ultimately obtain u where
    u: "foldR (\<lambda>m (n, s). bindR (IvySendMsg rx (Some ''%s'') m s) (\<lambda>(k, s). Inr (u32 (int n + int k), s))) ms (0, t) =
        Inr (u32 (int (sum_list (map (receivers_of rx s) ms))), u)" "delivers t (?o ms) u"
    using send_each [OF c(1), of 0] b(2) by auto
  have d: "can_send_all rx [''endOfSequence''] u" "heard_by rx u = heard_by rx s" using c(2) [of u] u(2) b(2) by simp_all
  from send_one [OF d(1), of "''endOfSequence''"] obtain i v where
    v: "IvySendMsg rx (Some ''endOfSequence'') ''endOfSequence'' u = Inr (i, v)" "delivers u (heard_by rx s ''endOfSequence'') v"
    by (auto simp: d(2))
  from delivers_trans [OF delivers_trans [OF t(2) u(2)] v(2)] t(1) u(1) v(1) show ?thesis
    by (simp add: send_messages_def)
qed

section \<open>Properties\<close>

text \<open>
  The emitter reports an application as completely bound exactly once, when it has announced as many
  patterns as the receivers bind.
\<close>

lemma foldR_snoc: "foldR f (xs @ [x]) s = bindR (foldR f xs s) (f x)"
proof (cases "foldR f xs s")
  case (Inr t)
  then show ?thesis by (cases "f x t") (simp_all add: foldR_append)
qed (simp add: foldR_append)

lemma bound_once:
  assumes "0 < bound" and "bound < 4294967296" and "IvyGetApplicationName app (th_core p) = Inr name" and "bindByClnt p name = None"
    and "length rs < 4294967296"
  shows "foldR (\<lambda>(i, r). thru_binCB bound app i r IvyAddBind) rs p = Inr (p\<lparr>
     bindByClnt := (if rs = [] then bindByClnt p else (bindByClnt p)(name \<mapsto> \<lparr>currentBind = length rs, totalBind = bound\<rparr>)),
     th_out := th_out p @ (if bound \<le> length rs then bound_report name else [])\<rparr>)"
  using assms(5)
proof (induction rs rule: rev_induct)
  case Nil
  then show ?case using assms(1) by simp
next
  case (snoc ir rs)
  obtain i r where ir: "ir = (i, r)" by fastforce
  have u: "u32 (int (length rs) + 1) = Suc (length rs)" "u32 (int bound) = bound" "u32 1 = 1"
    using snoc.prems assms(2) by (simp_all add: u32_id nat_add_distrib u32_of_nat)
  let ?p = "p\<lparr>bindByClnt := (if rs = [] then bindByClnt p else (bindByClnt p)(name \<mapsto> \<lparr>currentBind = length rs, totalBind = bound\<rparr>)),
     th_out := th_out p @ (if bound \<le> length rs then bound_report name else [])\<rparr>"
  have before: "foldR (\<lambda>(i, r). thru_binCB bound app i r IvyAddBind) rs p = Inr ?p" using snoc by simp
  have "(case bindByClnt ?p name of None \<Rightarrow> \<lparr>currentBind = 0, totalBind = u32 (int bound)\<rparr> | Some b \<Rightarrow> b) =
      \<lparr>currentBind = length rs, totalBind = bound\<rparr>" using assms(4) u(2) by simp
  then have step: "thru_binCB bound app i r IvyAddBind ?p = Inr (?p\<lparr>
      bindByClnt := (bindByClnt p)(name \<mapsto> \<lparr>currentBind = Suc (length rs), totalBind = bound\<rparr>),
      th_out := th_out ?p @ (if Suc (length rs) = bound then bound_report name else [])\<rparr>)"
    using assms(3) u(1) by (simp add: thru_binCB_def Let_def th_print_def)
  have "foldR (\<lambda>(i, r). thru_binCB bound app i r IvyAddBind) (rs @ [ir]) p = thru_binCB bound app i r IvyAddBind ?p"
    unfolding foldR_snoc before bindR_simps ir prod.case ..
  also have "\<dots> = Inr (?p\<lparr>bindByClnt := (bindByClnt p)(name \<mapsto> \<lparr>currentBind = Suc (length rs), totalBind = bound\<rparr>),
      th_out := th_out ?p @ (if Suc (length rs) = bound then bound_report name else [])\<rparr>)"
    by (rule step)
  finally show ?case
    by (cases "Suc (length rs) = bound"; cases "bound \<le> length rs") (simp_all add: fun_upd_def)
qed

text \<open>
  The throughput test. When a sequence is due, every receiver is sent the mark of its start, what it
  subscribed to of every message in order, and the mark of its end; the number printed is that of all
  the messages sent, and the next sequence is due in a second.
\<close>
theorem sequence_is_sent:
  assumes "can_send_all rx (''startOfSequence'' # messages @ [''endOfSequence'']) (th_core p)"
    and "sum_list (map (receivers_of rx (th_core p)) messages) < 4294967296"
  shows "\<exists>q s. sendAllMessageCB rx secs messages p = Inr q \<and> th_core q = add_test_timer 1 1000 s \<and>
    (\<forall>c. stream c s = stream c (th_core p) @ heard_by rx (th_core p) ''startOfSequence'' c @
       concat (map (\<lambda>m. heard_by rx (th_core p) m c) messages) @ heard_by rx (th_core p) ''endOfSequence'' c) \<and>
    th_out q = th_out p @ sequence_report (sum_list (map (receivers_of rx (th_core p)) messages)) secs p"
proof -
  let ?n = "sum_list (map (receivers_of rx (th_core p)) messages)"
  from send_messages_ok [OF assms(1)] obtain t where t: "send_messages rx messages (th_core p) = Inr (u32 (int ?n), t)"
    "delivers (th_core p) (\<lambda>c. concat (map (\<lambda>m. heard_by rx (th_core p) m c) (''startOfSequence'' # messages @ [''endOfSequence'']))) t"
    by blast
  have "u32 (int ?n) = ?n" using assms(2) by (simp add: u32_of_nat)
  then have "sendAllMessageCB rx secs messages p = Inr (th_print (sequence_report ?n secs p) (p\<lparr>th_core := add_test_timer 1 1000 t\<rparr>))"
    using t(1) by (simp add: sendAllMessageCB_def)
  then show ?thesis using t(2)
    by (intro exI [of _ "th_print (sequence_report ?n secs p) (p\<lparr>th_core := add_test_timer 1 1000 t\<rparr>)"] exI [of _ t] conjI)
      (simp_all add: th_print_def delivers_def)
qed

text \<open>
  The emitter starts when the last receiver is ready, in a tenth of a second, and lists the missing
  ones otherwise. A receiver that is ready once more starts another sequence.
\<close>
theorem emitter_waits_for_all:
  assumes "u32 (atoi a) = i"
  shows "\<exists>q. recepteurReadyCB (a # rest) p = Inr q \<and> recReady q = (recReady p)(i := True) \<and>
    (if \<forall>j < numClients (th_opts p). j = i \<or> recReady p j
     then th_core q = (if t_kind (th_opts p) = MemoryLeak1 then th_core p else add_test_timer 1 100 (th_core p))
     else th_core q = th_core p)"
  using assms by (auto simp: recepteurReadyCB_def Let_def th_print_def filter_empty_conv)

end
