(* ===== verification/IvyUpdates.thy ===== *)
theory IvyUpdates
  imports IvyExchange IvyThroughput
begin

text \<open>
  Subscriptions that change while two applications are connected. The first part follows a peer through
  any sequence of \<open>AddRegexp\<close> and \<open>DelRegexp\<close> lines, read from the socket in pieces of any size: its
  list for the node and the dictionary agree with the set the lines describe. The second part applies
  this to the memory leak test of \<open>tools/ivythroughput.cpp\<close> (\<open>desabonneEtReabonneCB\<close>), from the calls the
  test makes to what is left in the dictionary of its peer.
\<close>

section \<open>Lines about subscriptions\<close>

text \<open>What a peer sends about its subscriptions, and what the set of them is afterwards.\<close>

datatype sub_line = AddLine int string | DelLine int

fun line_of :: "sub_line \<Rightarrow> string" where
  "line_of (AddLine i r) = wire_header AddRegexp i @ r"
| "line_of (DelLine i) = wire_header DelRegexp i"

fun sub_after :: "(string \<times> int) set \<Rightarrow> sub_line \<Rightarrow> (string \<times> int) set" where
  "sub_after A (AddLine i r) = insert (r, i) A"
| "sub_after A (DelLine i) = {x \<in> A. snd x \<noteq> i}"

text \<open>The peer of the state \<open>s\<close> can take the line: ids are ints, patterns are accepted, compile and are new.\<close>

fun takes :: "regex_engine \<Rightarrow> ivy \<Rightarrow> (string \<times> int) set \<Rightarrow> sub_line \<Rightarrow> bool" where
  "takes rx s A (AddLine i r) \<longleftrightarrow> is_int32 i \<and> IvyBindingFilter rx (filters s) r = Inr True \<and> rx_compile rx r = None \<and>
     (r, i) \<notin> A \<and> NL \<notin> set r \<and> CHR 0x00 \<notin> set r"
| "takes rx s A (DelLine i) \<longleftrightarrow> is_int32 i"

fun takes_all :: "regex_engine \<Rightarrow> ivy \<Rightarrow> (string \<times> int) set \<Rightarrow> sub_line list \<Rightarrow> bool" where
  "takes_all rx s A [] = True"
| "takes_all rx s A (l # ls) \<longleftrightarrow> takes rx s A l \<and> takes_all rx s (sub_after A l) ls"

text \<open>
  The node \<open>p\<close> on the connection \<open>c\<close> has the subscriptions \<open>A\<close>, in its own list and in the dictionary;
  those of the others are \<open>B\<close>.
\<close>

definition regs :: "clnt \<Rightarrow> (string \<times> int) set" where
  "regs cl = (\<lambda>g. (gr_str_regexp g, gr_id g)) ` set (c_srcRegList cl)"

definition subscribed_as :: "nat \<Rightarrow> nat \<Rightarrow> (string \<times> int) set \<Rightarrow> subscription set \<Rightarrow> ivy \<Rightarrow> bool" where
  "subscribed_as c p A B s \<longleftrightarrow> (\<exists>cl. peer_at c p cl s \<and> regs cl = A) \<and>
     subs (messSndByRegexp s) = (\<lambda>(r, i). (r, c, i)) ` A \<union> B \<and> (\<forall>x \<in> B. fst (snd x) \<noteq> c)"

lemma add_line_read:
  assumes "subscribed_as c p A B s" and "takes rx s A (AddLine i r)"
  shows "\<exists>t. Receive rx c p (line_of (AddLine i r)) s = Inr t \<and> subscribed_as c p (insert (r, i) A) B t \<and> filters t = filters s"
proof -
  from assms(1) obtain cl where at: "peer_at c p cl s" "regs cl = A" by (auto simp: subscribed_as_def)
  have d: "subs (messSndByRegexp s) = (\<lambda>(r, i). (r, c, i)) ` A \<union> B" "\<forall>x \<in> B. fst (snd x) \<noteq> c"
    using assms(1) by (auto simp: subscribed_as_def)
  from at(1) have cl: "clients_inv s" "dict_inv (messSndByRegexp s)" "cl \<in> set (allClients s)" "c_ptr cl \<noteq> 0"
    "\<not> c_ignore_subsequent_msg cl" "c_ptr cl = p" "c_client cl = c" by (auto simp: peer_at_def)
  have new: "(r, c, i) \<notin> subs (messSndByRegexp s)" using assms(2) d by auto
  from receive_new_regexp [OF cl(1-5), of i rx r c] assms(2) new cl(6,7) obtain t where
    t: "Receive rx c p (line_of (AddLine i r)) s = Inr t" "dict_inv (messSndByRegexp t)"
      "subs (messSndByRegexp t) = insert (r, c, i) (subs (messSndByRegexp s))"
      "allClients t = map (\<lambda>x. if c_ptr x = p then with_regexp (fresh s) i r x else x) (allClients s)"
      "fresh t = fresh s + 1" "filters t = filters s" "socks t = socks s" "exited t = exited s" by auto
  have "with_regexp (fresh s) i r cl \<in> set (allClients t)" using cl(3,6) by (force simp: t(4))
  then have "peer_at c p (with_regexp (fresh s) i r cl) t"
    using at(1) with_regexp_inv [OF cl(1) t(4,5)] t by (auto simp: peer_at_def with_regexp_def)
  moreover have "regs (with_regexp (fresh s) i r cl) = insert (r, i) A"
    using at(2) by (simp add: regs_def with_regexp_def)
  moreover have "subs (messSndByRegexp t) = (\<lambda>(r, i). (r, c, i)) ` insert (r, i) A \<union> B" using d(1) t(3) by simp
  ultimately show ?thesis using t(1,6) d(2) by (auto simp: subscribed_as_def)
qed

lemma peer_at_fewer:
  assumes "peer_at c p cl s" and "allClients t = map (\<lambda>x. if c_ptr x = p then f x else x) (allClients s)"
    and f: "\<And>x. c_ptr (f x) = c_ptr x \<and> c_client (f x) = c_client x \<and> c_app_port (f x) = c_app_port x \<and>
      c_ignore_subsequent_msg (f x) = c_ignore_subsequent_msg x \<and> (\<exists>P. c_srcRegList (f x) = filter P (c_srcRegList x))"
    and "dict_inv (messSndByRegexp t)" and "fresh t = fresh s" and "socks t = socks s" and "exited t = exited s"
  shows "peer_at c p (f cl) t"
proof -
  have "clients_inv t"
    unfolding clients_inv_def assms(2,5)
  proof (intro conjI ballI)
    have "map c_ptr (map (\<lambda>x. if c_ptr x = p then f x else x) (allClients s)) = map c_ptr (allClients s)"
      "map c_client (map (\<lambda>x. if c_ptr x = p then f x else x) (allClients s)) = map c_client (allClients s)"
      using f by simp_all
    then show "distinct (map c_ptr (map (\<lambda>x. if c_ptr x = p then f x else x) (allClients s)))"
      "distinct (map c_client (map (\<lambda>x. if c_ptr x = p then f x else x) (allClients s)))"
      using assms(1) by (simp_all only: peer_at_def clients_inv_def)
  next
    fix y assume "y \<in> set (map (\<lambda>x. if c_ptr x = p then f x else x) (allClients s))"
    then obtain x where x0: "x \<in> set (allClients s)" "y = (if c_ptr x = p then f x else x)" by auto
    then obtain P where x: "x \<in> set (allClients s)" "c_srcRegList y = filter P (c_srcRegList x)"
    proof (cases "c_ptr x = p")
      case True
      then show ?thesis using that x0 f [of x] by auto
    next
      case False
      then show ?thesis using that [of "\<lambda>_. True"] x0 by simp
    qed
    have inv: "distinct (map gr_addr (c_srcRegList x))" "\<forall>g \<in> set (c_srcRegList x). gr_addr g < fresh s"
      using assms(1) x(1) by (auto simp: peer_at_def clients_inv_def)
    show "distinct (map gr_addr (c_srcRegList y))" using inv(1) by (simp add: x(2) distinct_map_filter)
    fix g assume "g \<in> set (c_srcRegList y)"
    then show "gr_addr g < fresh s" using inv(2) by (simp add: x(2))
  qed
  moreover have "f cl \<in> set (allClients t)" using assms(1) by (force simp: assms(2) peer_at_def)
  moreover obtain k where "socks s c = Some k" "sk_data k = p" "sk_interpretation k = InterpReceive"
    "\<forall>x \<in> set (allClients s). c_client x \<noteq> c \<longrightarrow> c_app_port x \<noteq> sa_port (sk_from k)"
    using assms(1) by (auto simp: peer_at_def)
  moreover from this f have "\<forall>x \<in> set (allClients t). c_client x \<noteq> c \<longrightarrow> c_app_port x \<noteq> sa_port (sk_from k)"
    by (auto simp: assms(2))
  ultimately show ?thesis using assms(1,4,6,7) f by (auto simp: peer_at_def)
qed

lemma del_line_read:
  assumes "subscribed_as c p A B s" and "is_int32 i"
  shows "\<exists>t. Receive rx c p (line_of (DelLine i)) s = Inr t \<and> subscribed_as c p {x \<in> A. snd x \<noteq> i} B t \<and> filters t = filters s"
proof -
  from assms(1) obtain cl where at: "peer_at c p cl s" "regs cl = A" by (auto simp: subscribed_as_def)
  have d: "subs (messSndByRegexp s) = (\<lambda>(r, i). (r, c, i)) ` A \<union> B" "\<forall>x \<in> B. fst (snd x) \<noteq> c"
    using assms(1) by (auto simp: subscribed_as_def)
  from at(1) have cl: "clients_inv s" "dict_inv (messSndByRegexp s)" "cl \<in> set (allClients s)" "c_ptr cl \<noteq> 0"
    "\<not> c_ignore_subsequent_msg cl" "c_ptr cl = p" "c_client cl = c" by (auto simp: peer_at_def)
  from receive_DelRegexp_ok [OF cl(1-5) assms(2), of rx c "[]"] cl(6,7) obtain t where
    t: "Receive rx c p (line_of (DelLine i)) s = Inr t" "dict_inv (messSndByRegexp t)"
      "subs (messSndByRegexp t) = subs (messSndByRegexp s) -
         {(gr_str_regexp g, c, i) | g. g \<in> set (c_srcRegList cl) \<and> gr_id g = i}" by auto
  define f where "f x = x\<lparr>c_id := i, c_srcRegList := filter (\<lambda>g. gr_id g \<noteq> i) (c_srcRegList x)\<rparr>" for x :: clnt
  define u where "u = upd_clnt p (\<lambda>c. c\<lparr>c_id := i\<rparr>) s"
  have fs: "find_by_socket c u = Some (cl\<lparr>c_id := i\<rparr>)"
    using find_by_socket_upd [OF cl(1,3), of "\<lambda>c. c\<lparr>c_id := i\<rparr>"] cl(6,7) by (simp add: u_def)
  have "Receive rx c p (wire_header DelRegexp i @ []) s = Inr (receive_DelRegexp (cl\<lparr>c_id := i\<rparr>) i [] u)"
    using receive_start [OF assms(2) cl(4), of s cl rx c DelRegexp "[]"] find_clnt_mem [OF cl(1,3)] cl(5,6)
    by (simp add: interpret_msg_def u_def)
  then have tu: "t = receive_DelRegexp (cl\<lparr>c_id := i\<rparr>) i [] u" using t(1) by simp
  have all: "allClients t = map (\<lambda>x. if c_ptr x = p then f x else x) (allClients s)" "fresh t = fresh s"
    "socks t = socks s" "exited t = exited s" "filters t = filters s"
    using fs cl(6,7) unfolding tu
    by (simp_all add: receive_DelRegexp_def delRegexpForOneClient_def Let_def emit_if_def emit_def u_def upd_clnt_def f_def split_beta)
  have "peer_at c p (f cl) t"
    by (rule peer_at_fewer [OF at(1) all(1) _ t(2) all(2-4)]) (auto simp: f_def)
  moreover have "regs (f cl) = {x \<in> A. snd x \<noteq> i}" by (auto simp: f_def regs_def simp flip: at(2))
  moreover have "subs (messSndByRegexp t) = (\<lambda>(r, i). (r, c, i)) ` {x \<in> A. snd x \<noteq> i} \<union> B"
  proof -
    have "{(gr_str_regexp g, c, i) | g. g \<in> set (c_srcRegList cl) \<and> gr_id g = i} = (\<lambda>(r, i). (r, c, i)) ` {x \<in> A. snd x = i}"
      by (auto simp: regs_def simp flip: at(2))
    moreover have "(\<lambda>(r, i). (r, c, i)) ` {x \<in> A. snd x = i} \<inter> B = {}" using d(2) by auto
    ultimately show ?thesis unfolding t(3) d(1) by auto
  qed
  ultimately show ?thesis using t(1) all(5) d(2) by (auto simp: subscribed_as_def)
qed

lemma line_read:
  assumes "subscribed_as c p A B s" and "takes rx s A l"
  shows "\<exists>t. Receive rx c p (line_of l) s = Inr t \<and> subscribed_as c p (sub_after A l) B t \<and> filters t = filters s"
  using add_line_read del_line_read assms by (cases l) auto

section \<open>Reading them\<close>

lemma takes_filters: "filters s = filters t \<Longrightarrow> takes rx s A l = takes rx t A l"
  by (cases l) simp_all

lemma takes_all_append:
  "takes_all rx s A (ls @ ms) \<longleftrightarrow> takes_all rx s A ls \<and> takes_all rx s (foldl sub_after A ls) ms"
  by (induction ls arbitrary: A) auto

lemma line_chars:
  assumes "takes rx s A l"
  shows "NL \<notin> set (line_of l)" "c_string (line_of l) = line_of l"
  using assms wire_text [of "[]" DelRegexp] header_chars(1) show_int_chars [of NL]
  by (cases l; auto simp: wire_text)+

lemma takes_all_chars: "takes_all rx s A ls \<Longrightarrow> l \<in> set ls \<Longrightarrow> NL \<notin> set (line_of l) \<and> c_string (line_of l) = line_of l"
  using line_chars by (induction ls arbitrary: A) auto

lemma lines_read:
  assumes "reads (ivy_interp rx) c r (map line_of ls) t" and "recv_ok c r" and "subscribed_as c p A B r"
    and "takes_all rx r A ls"
  shows "subscribed_as c p (foldl sub_after A ls) B t"
proof -
  define Q where "Q ds s \<longleftrightarrow> (\<forall>vs. ds @ vs = map line_of ls \<longrightarrow>
      subscribed_as c p (foldl sub_after A (take (length ds) ls)) B s \<and> filters s = filters r)" for ds s
  have "Q ([] @ map line_of ls) t"
  proof (rule lines.reads_steps [OF assms(1,2)])
    show "Q [] r" using assms(3) by (simp add: Q_def)
  next
    fix ds s and k k' :: sock assume q: "Q ds s" "socks s c = Some k" "sk_data k' = sk_data k"
      "sk_interpretation k' = sk_interpretation k" "sk_from k' = sk_from k"
    then show "Q ds (set_sock c k' s)"
      using peer_at_sock [OF _ q(2-5)] by (fastforce simp: Q_def subscribed_as_def set_sock_def)
  next
    fix ds s a assume "Q ds s"
    then show "Q ds (s\<lparr>arrivals := a\<rparr>)"
      using peer_at_fields [of c p _ s "s\<lparr>arrivals := a\<rparr>"] by (fastforce simp: Q_def subscribed_as_def)
  next
    fix ds l s t and k :: sock assume q: "Q ds s" and k: "socks s c = Some k"
      and run: "ivy_interp rx c (sk_interpretation k) (sk_data k) (c_string l) s = Inr t"
    show "Q (ds @ [l]) t"
      unfolding Q_def
    proof (intro allI impI)
      fix vs assume vs: "(ds @ [l]) @ vs = map line_of ls"
      let ?n = "length ds" and ?A = "foldl sub_after A (take (length ds) ls)"
      have sub: "subscribed_as c p ?A B s" "filters s = filters r" using q vs by (auto simp: Q_def)
      have "length (map line_of ls) = Suc (?n + length vs)" by (simp flip: vs)
      then have n: "?n < length ls" by simp
      have ls: "ls = take ?n ls @ ls ! ?n # drop (Suc ?n) ls" by (rule id_take_nth_drop [OF n])
      have l: "l = line_of (ls ! ?n)" using arg_cong [OF vs, of "\<lambda>x. x ! ?n"] n by simp
      have tk: "takes rx s ?A (ls ! ?n)"
        using assms(4) takes_filters [OF sub(2)] unfolding takes_all_append [of rx r A "take ?n ls", symmetric]
        by (subst (asm) ls) (simp add: takes_all_append)
      obtain cl where "peer_at c p cl s" using sub(1) by (auto simp: subscribed_as_def)
      from peer_at_run [OF this k run] have "Receive rx c p (c_string l) s = Inr t" .
      then have "Receive rx c p (line_of (ls ! ?n)) s = Inr t" using line_chars(2) [OF tk] l by simp
      moreover have "take (length (ds @ [l])) ls = take ?n ls @ [ls ! ?n]" using n by (simp add: take_Suc_conv_app_nth)
      ultimately show "subscribed_as c p (foldl sub_after A (take (length (ds @ [l])) ls)) B t \<and> filters t = filters r"
        using line_read [OF sub(1) tk] sub(2) by auto
    qed
  qed
  then show ?thesis by (simp add: Q_def)
qed

text \<open>The bytes that carry them.\<close>

definition lines_text :: "sub_line list \<Rightarrow> string" where
  "lines_text ls = concat (map (\<lambda>l. line_of l @ [NL]) ls)"

lemma split_lines_text:
  assumes "\<forall>l \<in> set ls. NL \<notin> set (line_of l)"
  shows "split_lines NL (lines_text ls) = (map line_of ls, [])"
proof -
  have "split_lines NL (concat (map (\<lambda>l. l @ [NL]) (map line_of ls))) = (map line_of ls, [])"
    using assms by (intro split_lines_concat) auto
  then show ?thesis by (simp add: lines_text_def comp_def)
qed

lemma gets_lines:
  assumes "gets rx c r (lines_text ls) r'" and "subscribed_as c p A B r" and "takes_all rx r A ls"
  shows "subscribed_as c p (foldl sub_after A ls) B r'"
proof -
  from assms(1) obtain ks k where g: "recv_ok c r" "reads (ivy_interp rx) c r ks r'" "socks r c = Some k" "sk_buffer k = []"
    "incoming (arrivals r (sk_fd k)) = lines_text ls" "arrivals r' (sk_fd k) = []"
    by (auto simp: gets_def)
  have "ks = map line_of ls"
    using lines.reads_lines [OF g(2,1,3)] g(4-6) split_lines_text [of ls] takes_all_chars [OF assms(3)]
    by (auto simp: incoming_def split_lines_none NL_def)
  from lines_read [OF g(2) [unfolded this] g(1) assms(2,3)] show ?thesis .
qed

section \<open>The memory leak test, from both ends\<close>

lemma after_dels: "foldl sub_after A (map DelLine js) = {x \<in> A. snd x \<notin> set js}"
  by (induction js arbitrary: A) auto

lemma after_adds: "foldl sub_after A (map (\<lambda>x. AddLine (f x) (g x)) xs) = A \<union> (\<lambda>x. (g x, f x)) ` set xs"
  by (induction xs arbitrary: A) auto

lemma takes_dels: "takes_all rx s A (map DelLine js) \<longleftrightarrow> (\<forall>i \<in> set js. is_int32 i)"
  by (induction js arbitrary: A) auto

text \<open>A pattern the peer of \<open>s\<close> accepts.\<close>

definition welcomes :: "regex_engine \<Rightarrow> ivy \<Rightarrow> string \<Rightarrow> bool" where
  "welcomes rx s r \<longleftrightarrow> IvyBindingFilter rx (filters s) r = Inr True \<and> rx_compile rx r = None \<and> NL \<notin> set r \<and> CHR 0x00 \<notin> set r"

lemma takes_adds:
  assumes "\<forall>x \<in> set xs. is_int32 (f x) \<and> welcomes rx s (g x) \<and> (g x, f x) \<notin> A" and "distinct (map f xs)"
  shows "takes_all rx s A (map (\<lambda>x. AddLine (f x) (g x)) xs)"
  using assms
proof (induction xs arbitrary: A)
  case (Cons x xs)
  have "f y \<noteq> f x" if "y \<in> set xs" for y using Cons.prems(2) that by (metis distinct.simps(2) image_eqI list.set_map list.simps(9))
  then have "\<forall>y \<in> set xs. is_int32 (f y) \<and> welcomes rx s (g y) \<and> (g y, f y) \<notin> insert (g x, f x) A"
    using Cons.prems(1) by simp
  with Cons.IH [of "insert (g x, f x) A"] Cons.prems show ?case by (simp add: welcomes_def)
qed simp

text \<open>The subscriptions an application has made, as its peers know them.\<close>

definition bound_as :: "ivy \<Rightarrow> (string \<times> int) set" where
  "bound_as s = (\<lambda>m. (mr_regexp m, mr_id m)) ` set (msg_recv s)"

lemma new_bindings_ids:
  "0 \<le> i \<Longrightarrow> i + int (length rs) < 2147483648 \<Longrightarrow>
     map (\<lambda>m. (mr_regexp m, mr_id m)) (new_bindings p i rs) = zip rs (map (\<lambda>k. i + int k) [0..<length rs])"
proof (induction rs arbitrary: p i)
  case (Cons r rs)
  have s: "s32 (i + 1) = i + 1" using Cons.prems by (simp add: s32_id is_int32_def)
  have "map (\<lambda>k. i + int k) [0..<length (r # rs)] = i # map (\<lambda>k. i + 1 + int k) [0..<length rs]"
    by (simp add: upt_conv_Cons map_Suc_upt [symmetric] comp_def del: upt_Suc)
  with Cons.IH [of "i + 1" "p + 1"] Cons.prems s show ?case by simp
qed simp

text \<open>The lines of a cycle.\<close>

definition leak_cycle_lines :: "msg_rcv list \<Rightarrow> msg_rcv list \<Rightarrow> sub_line list" where
  "leak_cycle_lines xs nb = map DelLine (map mr_id xs) @ map (\<lambda>x. AddLine (mr_id x) (mr_regexp x)) nb @
     map (\<lambda>x. AddLine (mr_id x) ''^Une regexp (BIDON)'') nb @ map DelLine (map mr_id nb)"

lemma leak_lines_text: "leak_lines xs nb = lines_text (leak_cycle_lines xs nb)"
  by (simp add: leak_lines_def leak_cycle_lines_def lines_text_def del_lines_def add_lines_def message_line_def comp_def)

lemma leak_cycle_known:
  assumes "distinct (map mr_id ms)" and "set xs \<subseteq> set ms" and "\<forall>m \<in> set ms. is_int32 (mr_id m)"
    and "\<forall>x \<in> set nb. is_int32 (mr_id x) \<and> welcomes rx r (mr_regexp x) \<and> mr_regexp x \<noteq> ''^Une regexp (BIDON)''"
    and "welcomes rx r ''^Une regexp (BIDON)''" and "distinct (map mr_id nb)" and "set (map mr_id nb) \<inter> set (map mr_id ms) = {}"
    and "A = (\<lambda>m. (mr_regexp m, mr_id m)) ` set ms"
  shows "takes_all rx r A (leak_cycle_lines xs nb)"
    and "foldl sub_after A (leak_cycle_lines xs nb) = (\<lambda>m. (mr_regexp m, mr_id m)) ` {m \<in> set ms. m \<notin> set xs}"
proof -
  let ?B = "''^Une regexp (BIDON)''"
  define A1 where "A1 = {x \<in> A. snd x \<notin> set (map mr_id xs)}"
  define A2 where "A2 = A1 \<union> (\<lambda>x. (mr_regexp x, mr_id x)) ` set nb"
  have A1: "foldl sub_after A (map DelLine (map mr_id xs)) = A1" unfolding A1_def by (rule after_dels)
  have A2: "foldl sub_after A1 (map (\<lambda>x. AddLine (mr_id x) (mr_regexp x)) nb) = A2" unfolding A2_def by (rule after_adds)
  have sub: "A1 \<subseteq> A" by (auto simp: A1_def)
  have old: "snd x \<notin> mr_id ` set nb" if "x \<in> A" for x
  proof -
    have "snd x \<in> set (map mr_id ms)" using that by (auto simp: assms(8))
    with assms(7) show ?thesis by auto
  qed
  have n1: "\<forall>x \<in> set nb. (mr_regexp x, mr_id x) \<notin> A1"
  proof
    fix x assume "x \<in> set nb"
    then show "(mr_regexp x, mr_id x) \<notin> A1" using old [of "(mr_regexp x, mr_id x)"] sub by auto
  qed
  have n2: "\<forall>x \<in> set nb. (?B, mr_id x) \<notin> A2"
  proof
    fix x assume "x \<in> set nb"
    then show "(?B, mr_id x) \<notin> A2" using old [of "(?B, mr_id x)"] sub assms(4) by (auto simp: A2_def)
  qed
  have "\<forall>i \<in> set (map mr_id xs). is_int32 i" using assms(2,3) by auto
  then show "takes_all rx r A (leak_cycle_lines xs nb)"
    unfolding leak_cycle_lines_def takes_all_append A1 A2 takes_dels
    using takes_adds [of nb mr_id rx r mr_regexp A1] takes_adds [of nb mr_id rx r "\<lambda>_. ?B" A2] assms(4-6) n1 n2 by auto
  have ids: "mr_id m \<in> mr_id ` set xs \<longleftrightarrow> m \<in> set xs" if "m \<in> set ms" for m
    using that assms(1,2) by (auto simp: distinct_map dest: inj_onD)
  have "foldl sub_after A (leak_cycle_lines xs nb) =
      {x \<in> A2 \<union> (\<lambda>x. (?B, mr_id x)) ` set nb. snd x \<notin> set (map mr_id nb)}"
    unfolding leak_cycle_lines_def foldl_append A1 A2 unfolding after_adds after_dels ..
  also have "\<dots> = A1" using old sub by (auto simp: A2_def)
  also have "\<dots> = (\<lambda>m. (mr_regexp m, mr_id m)) ` {m \<in> set ms. m \<notin> set xs}"
  proof -
    have "mr_id m \<noteq> mr_id x" if "m \<in> set ms" "m \<notin> set xs" "x \<in> set xs" for m x
      using ids [OF that(1)] that(2,3) by auto
    then show ?thesis by (fastforce simp: A1_def assms(8))
  qed
  finally show "foldl sub_after A (leak_cycle_lines xs nb) = (\<lambda>m. (mr_regexp m, mr_id m)) ` {m \<in> set ms. m \<notin> set xs}" .
qed

text \<open>
  C13: the memory leak test holds. A receiver withdraws its patterns, binds them again, changes each of
  them and withdraws them all, with a peer that knows its bindings and reads what it is sent in pieces
  of any size. Then the peer knows exactly the bindings the receiver is left with, the ones made
  outside the test, and its subscriptions for others are as before: nothing is left behind, although
  the change alone leaves the old pattern subscribed.
\<close>
theorem leak_test_leaves_nothing:
  assumes "th_core p = s" and "bindIdList p = map mr_ptr xs" and "set xs \<subseteq> set (msg_recv s)" and "distinct xs"
    and "distinct (map mr_ptr (msg_recv s))" and "distinct (map mr_id (msg_recv s))"
    and "\<forall>m \<in> set (msg_recv s). 0 < mr_ptr m \<and> mr_ptr m < fresh s \<and> 0 \<le> mr_id m \<and> mr_id m < recv_id s" and "0 < fresh s"
    and "0 \<le> recv_id s" and "recv_id s + int (length rs) < 2147483648"
    and "map substituteInterval regexps = map Inr rs" and "nb = new_bindings (fresh s) (recv_id s) rs"
    and "all_reachable (length (leak_lines xs nb)) s" and "d \<in> c_client ` set (allClients s)"
    and "desabonneEtReabonneCB regexps p = Inr q" and "gets rx c r (drop (length (stream d s)) (stream d (th_core q))) r'"
    and "subscribed_as c k (bound_as s) B r"
    and "\<forall>t \<in> set rs. welcomes rx r t \<and> t \<noteq> ''^Une regexp (BIDON)''" and "welcomes rx r ''^Une regexp (BIDON)''"
  shows "bindIdList q = [] \<and> msg_recv (th_core q) = filter (\<lambda>m. m \<notin> set xs) (msg_recv s) \<and>
    subscribed_as c k (bound_as (th_core q)) B r'"
proof -
  have m: "\<forall>m \<in> set (msg_recv s). 0 < mr_ptr m \<and> mr_ptr m < fresh s" using assms(7) by blast
  from leak_cycle [OF assms(3-5) m assms(8,11-13,1,2)] assms(15) have
    q: "bindIdList q = []" "msg_recv (th_core q) = filter (\<lambda>m. m \<notin> set xs) (msg_recv s)"
      "sends s (to_everyone s (leak_lines xs nb)) (th_core q)" by auto
  have "drop (length (stream d s)) (stream d (th_core q)) = lines_text (leak_cycle_lines xs nb)"
    using q(3) assms(14) by (simp add: sends_def to_everyone_def leak_lines_text)
  then have g: "gets rx c r (lines_text (leak_cycle_lines xs nb)) r'" using assms(16) by simp
  note pairs = new_bindings_ids [OF assms(9,10), of "fresh s", folded assms(12)]
  have ids: "map mr_id nb = map (\<lambda>k. recv_id s + int k) [0..<length rs]"
    using arg_cong [OF pairs, of "map snd"] by (simp add: comp_def)
  have pats: "map mr_regexp nb = rs" using arg_cong [OF pairs, of "map fst"] by (simp add: comp_def)
  have "mr_regexp x \<in> set rs" if "x \<in> set nb" for x using that unfolding pats [symmetric] by simp
  moreover have "recv_id s \<le> mr_id x \<and> is_int32 (mr_id x)" if "x \<in> set nb" for x
  proof -
    have "mr_id x \<in> set (map mr_id nb)" using that by simp
    then show ?thesis using assms(9,10) unfolding ids by (auto simp: is_int32_def)
  qed
  ultimately have nb: "\<forall>x \<in> set nb. is_int32 (mr_id x) \<and> welcomes rx r (mr_regexp x) \<and> mr_regexp x \<noteq> ''^Une regexp (BIDON)''"
    "set (map mr_id nb) \<inter> set (map mr_id (msg_recv s)) = {}"
    using assms(7,18) by fastforce+
  have "distinct (map mr_id nb)" unfolding ids by (simp add: distinct_map inj_on_def)
  moreover have "\<forall>m \<in> set (msg_recv s). is_int32 (mr_id m)" using assms(7,9,10) by (fastforce simp: is_int32_def)
  ultimately have known: "takes_all rx r (bound_as s) (leak_cycle_lines xs nb)"
    "foldl sub_after (bound_as s) (leak_cycle_lines xs nb) = (\<lambda>m. (mr_regexp m, mr_id m)) ` {m \<in> set (msg_recv s). m \<notin> set xs}"
    using leak_cycle_known [OF assms(6,3) _ nb(1) assms(19) _ nb(2), of "bound_as s"] by (simp_all add: bound_as_def)
  from gets_lines [OF g assms(17) known(1)] have "subscribed_as c k (bound_as (th_core q)) B r'"
    by (simp add: known(2) bound_as_def [of "th_core q"] q(2))
  then show ?thesis using q(1,2) by simp
qed

section \<open>An example\<close>

text \<open>Such lines can always be read.\<close>

lemma subscribed_as_sock:
  assumes "subscribed_as c p A B s" and "socks s c = Some k" and "sk_data k' = sk_data k"
    and "sk_interpretation k' = sk_interpretation k" and "sk_from k' = sk_from k"
  shows "subscribed_as c p A B (set_sock c k' s)"
  using assms(1) peer_at_sock [OF _ assms(2-5)] by (fastforce simp: subscribed_as_def set_sock_def)

lemma all_lines_read:
  assumes "subscribed_as c p A B s" and "takes_all rx s A ls"
  shows "\<exists>t. foldR (interpret_line (ivy_interp rx) c) (map line_of ls) s = Inr t \<and> socks t c \<noteq> None"
  using assms
proof (induction ls arbitrary: A s)
  case Nil
  then show ?case by (auto simp: subscribed_as_def peer_at_def)
next
  case (Cons l ls)
  then have tk: "takes rx s A l" "takes_all rx s (sub_after A l) ls" by simp_all
  from line_read [OF Cons.prems(1) tk(1)] obtain t where
    t: "Receive rx c p (line_of l) s = Inr t" "subscribed_as c p (sub_after A l) B t" "filters t = filters s" by blast
  have "takes_all rx t D ms = takes_all rx s D ms" for D ms
    using takes_filters [OF t(3)] by (induction ms arbitrary: D) simp_all
  with Cons.IH [OF t(2)] tk(2) obtain u where
    "foldR (interpret_line (ivy_interp rx) c) (map line_of ls) t = Inr u" "socks u c \<noteq> None" by auto
  moreover have "interpret_line (ivy_interp rx) c (line_of l) s = Inr t"
    using t(1) Cons.prems(1) line_chars(2) [OF tk(1)]
    by (auto simp: subscribed_as_def interpret_line_def deref_def ivy_interp_def peer_at_def)
  ultimately show ?case by simp
qed

lemma lines_can_be_got:
  assumes "recv_ok c r" and "socks r c = Some k" and "sk_buffer k = []" and "arrivals r (sk_fd k) = [Stream (lines_text ls)]"
    and "length (lines_text ls) \<le> room k" and "subscribed_as c p A B r" and "takes_all rx r A ls"
  shows "\<exists>t. gets rx c r (lines_text ls) t"
proof -
  have ch: "chunk k (arrivals r (sk_fd k)) = lines_text ls" using assms(4,5) by (simp add: chunk_def)
  have sp: "split_lines NL (lines_text ls) = (map line_of ls, [])"
    using split_lines_text takes_all_chars [OF assms(7)] by blast
  have tm: "sk_terminator k = NL" using assms(1,2) by (simp add: recv_ok_def NL_def)
  have cl: "call_lines c r = map line_of ls"
    using assms(2,3) ch sp tm by (simp add: call_lines_def)
  obtain k1 a where h: "HandleSocket (ivy_interp rx) (sk_fd k) c r =
        handle_lines (ivy_interp rx) c (map line_of ls) [] (set_sock c k1 (r\<lparr>arrivals := a\<rparr>))"
      "k1 = (grow_buffer k)\<lparr>sk_from_len := 0, sk_buffer := lines_text ls\<rparr>" "lines_text ls = lines_text ls @ incoming (a (sk_fd k))"
      "recv_ok c (set_sock c k1 (r\<lparr>arrivals := a\<rparr>))"
    using lines.HandleSocket_stream [where rx = rx, OF assms(1,2) _ refl] assms(3,4) ch sp tm cl by (auto simp: incoming_def)
  have fd: "sk_fd k1 = sk_fd k" "sk_data k1 = sk_data k" "sk_interpretation k1 = sk_interpretation k"
    "sk_from k1 = sk_from k" by (simp_all add: h(2) grow_buffer_def)
  have "subscribed_as c p A B (r\<lparr>arrivals := a\<rparr>)"
    using assms(6) peer_at_fields [of c p _ r "r\<lparr>arrivals := a\<rparr>"] by (fastforce simp: subscribed_as_def)
  then have sub: "subscribed_as c p A B (set_sock c k1 (r\<lparr>arrivals := a\<rparr>))"
    by (rule subscribed_as_sock [of _ _ _ _ _ k]) (simp_all add: assms(2) fd)
  have "takes_all rx (set_sock c k1 (r\<lparr>arrivals := a\<rparr>)) D ms = takes_all rx r D ms" for D ms
    using takes_filters [of "set_sock c k1 (r\<lparr>arrivals := a\<rparr>)" r rx] by (induction ms arbitrary: D) (simp_all add: set_sock_def)
  with all_lines_read [OF sub, of rx ls] assms(7) obtain v k2 where
    "foldR (interpret_line (ivy_interp rx) c) (map line_of ls) (set_sock c k1 (r\<lparr>arrivals := a\<rparr>)) = Inr v"
    "socks v c = Some k2" by auto
  then obtain t where t: "HandleSocket (ivy_interp rx) (sk_fd k) c r = Inr t"
    using assms(1) by (auto simp: h(1) handle_lines_def deref_def recv_ok_def)
  have "arrivals t = a"
    using lines.handle_lines_keeps(3) [OF t [unfolded h(1)] h(4)] by (simp add: set_sock_def)
  moreover have "a (sk_fd k) = []"
    using h(3,4) fd by (cases "a (sk_fd k)") (auto simp: recv_ok_def stream_only_def incoming_def set_sock_def split: recv.splits)
  moreover have "reads (ivy_interp rx) c r (call_lines c r @ []) t"
    by (rule reads_more [OF assms(2) _ t reads_done]) (simp add: assms(4))
  ultimately show ?thesis using assms(1-4) by (auto simp: gets_def cl incoming_def)
qed

text \<open>An application with a binding of its own and one of the test, and a peer that knows both.\<close>

definition demo_kept :: msg_rcv where
  "demo_kept = \<lparr>mr_ptr = 8, mr_id = 0, mr_regexp = ''(a)'', mr_callback = True\<rparr>"

definition demo_tested :: msg_rcv where
  "demo_tested = \<lparr>mr_ptr = 9, mr_id = 1, mr_regexp = ''(b)'', mr_callback = True\<rparr>"

definition demo_leaking :: ivy where
  "demo_leaking = demo_idle\<lparr>msg_recv := [demo_kept, demo_tested], recv_id := 2\<rparr>"

definition demo_tester :: thru where
  "demo_tester = (thru_start (default_options None) demo_leaking)\<lparr>bindIdList := [9]\<rparr>"

definition demo_cycle :: string where
  "demo_cycle = leak_lines [demo_tested] (new_bindings 10 2 [''(b)''])"

definition demo_watcher :: ivy where
  "demo_watcher = demo_idle\<lparr>arrivals := (\<lambda>_. [])(7 := [Stream demo_cycle]),
     allClients := [demo_peer\<lparr>c_srcRegList := [\<lparr>gr_addr = 8, gr_str_regexp = ''(a)'', gr_id = 0\<rparr>, \<lparr>gr_addr = 9, gr_str_regexp = ''(b)'', gr_id = 1\<rparr>]\<rparr>],
     messSndByRegexp := [demo_entry\<lparr>d_regexp_src := ''(a)'', d_clientList := [\<lparr>dc_client = 1, dc_app_name = ''peer'', dc_app_port = 0, dc_id = 0\<rparr>]\<rparr>,
       demo_entry\<lparr>d_regexp_src := ''(b)'', d_clientList := [\<lparr>dc_client = 1, dc_app_name = ''peer'', dc_app_port = 0, dc_id = 1\<rparr>]\<rparr>]\<rparr>"

lemma demo_cycle_text: "length demo_cycle < 100" "demo_cycle \<noteq> []"
  by (simp_all add: demo_cycle_def leak_lines_def del_lines_def add_lines_def message_line_def wire_header_def show_int_def
      show_nat.simps demo_tested_def)

lemma demo_leaking_facts:
  "all_reachable (length demo_cycle) demo_leaking" "stream 1 demo_leaking = []" "allClients demo_leaking = [demo_peer]"
  "msg_recv demo_leaking = [demo_kept, demo_tested]" "recv_id demo_leaking = 2" "fresh demo_leaking = 10"
proof -
  have "ready_to_send demo_leaking"
    using demo_idle_ready(1) by (simp add: demo_leaking_def ready_to_send_def sock_inv_def)
  moreover have "roomy 1 (length demo_cycle) demo_leaking" "socks demo_leaking 1 \<noteq> None"
    using demo_idle_ready(2) demo_idle_ready(3) [of "length demo_cycle"] demo_cycle_text(1) by (simp_all add: demo_leaking_def roomy_def del: One_nat_def)
  ultimately show "all_reachable (length demo_cycle) demo_leaking"
    using demo_idle_ready(6) by (simp add: all_reachable_def demo_leaking_def) (simp add: demo_peer_def)
  show "stream 1 demo_leaking = []"
    using demo_idle_ready(2,7) by (simp add: demo_leaking_def stream_def del: One_nat_def)
  show "allClients demo_leaking = [demo_peer]" "msg_recv demo_leaking = [demo_kept, demo_tested]"
    "recv_id demo_leaking = 2"
    using demo_idle_ready(6) by (simp_all add: demo_leaking_def)
  show "fresh demo_leaking = 10" by (simp add: demo_leaking_def demo_idle_def demo_ivy_def demo_def ivy.defs sockst.defs)
qed

lemma demo_watcher_facts:
  "recv_ok 1 demo_watcher" "socks demo_watcher 1 = Some (demo_sock None)"
  "arrivals demo_watcher 7 = [Stream demo_cycle]"
  "subscribed_as 1 5 {(''(a)'', 0), (''(b)'', 1)} {} demo_watcher" "filters demo_watcher = no_filter"
proof -
  show k: "socks demo_watcher 1 = Some (demo_sock None)"
    by (simp add: demo_watcher_def demo_idle_ready del: One_nat_def)
  show a: "arrivals demo_watcher 7 = [Stream demo_cycle]" by (simp add: demo_watcher_def)
  show "filters demo_watcher = no_filter"
    by (simp add: demo_watcher_def demo_idle_def)
  show "recv_ok 1 demo_watcher"
    unfolding recv_ok_def k
    by (simp add: demo_about_facts(15,16) a stream_only_def demo_cycle_text(2) del: One_nat_def)
      (simp add: demo_watcher_def demo_idle_def fresh_ok_def demo_def demo_sock_def new_sock_def IVY_BUFFER_SIZE_def)
  have fr: "fresh demo_watcher = 10" "exited demo_watcher = False"
     by (simp_all add: demo_watcher_def demo_idle_def demo_def)
  show "subscribed_as 1 5 {(''(a)'', 0), (''(b)'', 1)} {} demo_watcher"
    unfolding subscribed_as_def peer_at_def k clients_inv_def fr
    by (auto simp: demo_watcher_def demo_peer_def regs_def dict_inv_def subs_def entry_subs_def demo_entry_def demo_sock_def new_sock_def)
qed

theorem leak_test_leaves_nothing_witness:
  "\<exists>q r'. desabonneEtReabonneCB [''(b)''] demo_tester = Inr q \<and>
     gets first_char_engine 1 demo_watcher (stream 1 (th_core q)) r' \<and> msg_recv (th_core q) = [demo_kept] \<and>
     subs (messSndByRegexp r') = {(''(a)'', 1, 0)}"
proof -
  let ?nb = "new_bindings 10 2 [''(b)'']"
  have p: "th_core demo_tester = demo_leaking" "bindIdList demo_tester = map mr_ptr [demo_tested]"
    by (simp_all add: demo_tester_def thru_start_def demo_tested_def)
  have sb: "map substituteInterval [''(b)''] = map Inr [''(b)'']"
    by (simp add: substituteInterval_def interval_mark_def)
  have wl: "welcomes first_char_engine demo_watcher r" if "NL \<notin> set r" "CHR 0x00 \<notin> set r" for r
    using that demo_watcher_facts(5) by (simp add: welcomes_def IvyBindingFilter_def no_filter_def first_char_engine_def)
  have bytes: "demo_cycle = lines_text (leak_cycle_lines [demo_tested] ?nb)" by (simp add: demo_cycle_def leak_lines_text)
  have known: "bound_as demo_leaking = {(''(a)'', 0), (''(b)'', 1)}"
    by (simp add: bound_as_def demo_leaking_facts demo_kept_def demo_tested_def)
  from leak_cycle [where s = demo_leaking and nb = ?nb, OF _ _ _ _ _ sb _ _ p] p sb demo_leaking_facts
  obtain q where q: "desabonneEtReabonneCB [''(b)''] demo_tester = Inr q"
     "sends demo_leaking (to_everyone demo_leaking demo_cycle) (th_core q)"
    by (auto simp: demo_kept_def demo_tested_def demo_cycle_def)
  have st: "stream 1 (th_core q) = demo_cycle"
    using q(2) demo_leaking_facts(2,3) by (simp add: sends_def to_everyone_def demo_peer_def)
  have "takes_all first_char_engine demo_watcher {(''(a)'', 0), (''(b)'', 1)} (leak_cycle_lines [demo_tested] ?nb)"
    by (rule leak_cycle_known(1) [of "[demo_kept, demo_tested]"])
      (auto simp: demo_kept_def demo_tested_def is_int32_def NL_def intro!: wl)
  with lines_can_be_got [OF demo_watcher_facts(1,2) demo_about_facts(16) _ _ demo_watcher_facts(4)]
  obtain r' where r': "gets first_char_engine 1 demo_watcher demo_cycle r'"
    using demo_about_facts(15,17) demo_watcher_facts(3) bytes demo_cycle_text(1) by fastforce
  have "bindIdList q = [] \<and> msg_recv (th_core q) = filter (\<lambda>m. m \<notin> set [demo_tested]) (msg_recv demo_leaking) \<and>
      subscribed_as 1 5 (bound_as (th_core q)) {} r'"
    by (rule leak_test_leaves_nothing [OF p _ _ _ _ _ _ _ _ sb refl _ _ q(1) _ _ ])
      (use r' st wl demo_leaking_facts demo_watcher_facts(4) known in \<open>auto simp: demo_kept_def demo_tested_def demo_peer_def NL_def demo_cycle_def\<close>)
  then show ?thesis
    using q(1) r' st
    by (intro exI [of _ q] exI [of _ r']) (auto simp: demo_leaking_facts demo_kept_def demo_tested_def subscribed_as_def bound_as_def)
qed

end
