(* ===== verification/IvyPerf.thy ===== *)
theory IvyPerf
  imports Complex_Main IvyTcl IvyThroughput
begin

text \<open>
  \<open>tools/ivyperf.c\<close>, which measures how long a message takes to another program and back: its pings,
  the replies, the statistics and \<open>main\<close> up to the main loop. Floating point is real arithmetic with a
  rounding after each operation, which is an argument, as the texts of \<open>%f\<close> and of \<open>atof\<close> are.
\<close>

section \<open>State\<close>

text \<open>
  Floating point: how the machine rounds an exact result, what \<open>%f\<close> prints and what \<open>atof\<close> reads.
  A \<open>double\<close> is the real number it stands for.
\<close>

record floats =
  rounded :: "real \<Rightarrow> real"
  show_f :: "real \<Rightarrow> string"
  atof :: "string \<Rightarrow> real"

record perf =
  pf_core :: ivy
  pf_origin :: real
  nbMsgReceive :: int
  nbMsgEmit :: int
  nbMsg :: int
  minRoundTrip :: real
  maxRoundTrip :: real
  averageRoundTrip :: real
  pf_send_timer :: nat
  pf_out :: string

definition perf_globals :: "ivy \<Rightarrow> perf" where
  "perf_globals s = \<lparr>pf_core = s, pf_origin = 0, nbMsgReceive = 0, nbMsgEmit = 0, nbMsg = 10, minRoundTrip = 10 ^ 12,
     maxRoundTrip = 0, averageRoundTrip = 0, pf_send_timer = 0, pf_out = []\<rparr>"

definition mymessages :: "string list" where
  "mymessages = [''IvyPerf'', ''ping'', ''pong'']"

text \<open>\<open>gettimeofday\<close> answers the clock of the state.\<close>

definition currentTime :: "floats \<Rightarrow> ivy \<Rightarrow> real" where
  "currentTime F s = (case now s of (sec, usec) \<Rightarrow>
     rounded F (rounded F (rounded F (real_of_int sec) * 1000) + rounded F (real_of_int usec / 1000)))"

section \<open>Callbacks\<close>

definition perf_send :: "regex_engine \<Rightarrow> string \<Rightarrow> string \<Rightarrow> perf \<Rightarrow> (nat \<times> perf) res" where
  "perf_send rx fmt txt p = bindR (IvySendMsg rx (Some fmt) txt (pf_core p)) (\<lambda>(n, s). Inr (n, p\<lparr>pf_core := s\<rparr>))"

definition since_origin :: "floats \<Rightarrow> perf \<Rightarrow> real" where
  "since_origin F p = rounded F (currentTime F (pf_core p) - pf_origin p)"

text \<open>\<open>*argv\<close> is not set when nothing was captured.\<close>

definition perf_Reply :: "regex_engine \<Rightarrow> floats \<Rightarrow> string list \<Rightarrow> perf \<Rightarrow> perf res" where
  "perf_Reply rx F argv p =
     (case argv of [] \<Rightarrow> Inl Uninitialised
      | a # _ \<Rightarrow> bindR (perf_send rx ''pong ts=%s tr=%f'' (''pong ts='' @ a @ '' tr='' @ show_f F (since_origin F p)) p)
                   (\<lambda>(_, p). Inr p))"

definition perf_report :: "floats \<Rightarrow> int \<Rightarrow> real \<Rightarrow> real \<Rightarrow> real \<Rightarrow> string" where
  "perf_report F n mi av ma = ''roundtrip['' @ show_int n @ ''] min '' @ show_f F mi @ '' av '' @ show_f F av @
     '' max '' @ show_f F ma @ '' ms'' @ newline"

text \<open>\<open>nbMsgReceive\<close> is an \<open>int\<close>: the division is that of \<open>double\<close>.\<close>

definition perf_Pong :: "floats \<Rightarrow> string list \<Rightarrow> perf \<Rightarrow> perf res" where
  "perf_Pong F argv p =
     (let n = s32 (nbMsgReceive p + 1); p = p\<lparr>nbMsgReceive := n\<rparr>; current = since_origin F p
      in case argv of [] \<Rightarrow> Inl Uninitialised
         | a # _ \<Rightarrow>
             let roundtrip3 = rounded F (current - atof F a);
                 p = (if roundtrip3 > maxRoundTrip p then p\<lparr>maxRoundTrip := roundtrip3\<rparr> else p);
                 p = (if roundtrip3 < minRoundTrip p then p\<lparr>minRoundTrip := roundtrip3\<rparr> else p);
                 p = p\<lparr>averageRoundTrip := rounded F (rounded F (rounded F
                        (averageRoundTrip p * rounded F (real_of_int (s32 (n - 1)))) + roundtrip3) / rounded F (real_of_int n))\<rparr>
             in Inr (if nbMsg p = n
                then p\<lparr>pf_out := pf_out p @ perf_report F n (minRoundTrip p) (averageRoundTrip p) (maxRoundTrip p)\<rparr> else p))"

definition perf_TimerCall :: "regex_engine \<Rightarrow> floats \<Rightarrow> perf \<Rightarrow> perf res" where
  "perf_TimerCall rx F p =
     bindR (perf_send rx ''ping ts=%f'' (''ping ts='' @ show_f F (since_origin F p)) p) (\<lambda>(count, p).
       let p = (if count \<noteq> 0 then p\<lparr>nbMsgEmit := s32 (nbMsgEmit p + 1)\<rparr> else p)
       in if nbMsg p = nbMsgEmit p
          then bindR (TimerRemove (pf_send_timer p) (current_ms (pf_core p)) (tmr (pf_core p)))
                 (\<lambda>t. Inr (p\<lparr>pf_core := (pf_core p)\<lparr>tmr := t\<rparr>\<rparr>))
          else Inr p)"

definition perf_binCB :: "nat \<Rightarrow> string \<Rightarrow> bind_event \<Rightarrow> perf \<Rightarrow> perf res" where
  "perf_binCB app regexp event p =
     bindR (IvyGetApplicationName app (pf_core p)) (\<lambda>app_name.
       Inr (p\<lparr>pf_out := pf_out p @ ''Application:'' @ app_name @ '' bind '' @ quoted regexp @
         (case event of IvyAddBind \<Rightarrow> '' ADDED'' | IvyRemoveBind \<Rightarrow> '' REMOVED'' | IvyChangeBind \<Rightarrow> '' CHANGED''
          | IvyFilterBind \<Rightarrow> '' FILTRED'') @ newline\<rparr>))"

section \<open>The program\<close>

text \<open>What \<open>getopt\<close> answered, the last \<open>-b\<close> counts, and the arguments behind the options: \<open>atol\<close> is \<open>strtol\<close>.\<close>

definition perf_bus :: "(char \<times> string) list \<Rightarrow> string option" where
  "perf_bus opts = foldl (\<lambda>bus (c, optarg). if c = CHR ''b'' then Some optarg else bus) None opts"

definition atol :: "string \<Rightarrow> int" where
  "atol s = fst (strtol s)"

definition perf_arguments :: "string list \<Rightarrow> int \<times> int" where
  "perf_arguments args =
     (case args of [] \<Rightarrow> (200, 10) | [t] \<Rightarrow> (atol t, 10) | t # n # _ \<Rightarrow> (atol t, atol n))"

definition perf_bind :: "string \<Rightarrow> perf \<Rightarrow> perf res" where
  "perf_bind pattern p = bindR (IvyBindMsg True pattern (pf_core p)) (\<lambda>(_, s). Inr (p\<lparr>pf_core := s\<rparr>))"

text \<open>\<open>main\<close> up to the main loop; the flags are the variables the library reads from the environment.\<close>

definition perf_setup :: "regex_engine \<Rightarrow> bool \<Rightarrow> bool \<Rightarrow> int \<Rightarrow> ivy \<Rightarrow> perf res" where
  "perf_setup rx env_binary env_filter n s =
     (let p = (perf_globals s)\<lparr>nbMsg := n, pf_core := IvySetBindCallback True (IvySetFilter rx env_filter mymessages
                 (IvyInit (Some ''IvyPerf'') (Some ''IvyPerf ready'') False False env_binary s))\<rparr>
      in bindR (perf_bind ''^ping ts=(.*)'' p) (perf_bind ''^pong ts=(.*) tr=(.*)''))"

definition perf_main ::
    "regex_engine \<Rightarrow> floats \<Rightarrow> start_env \<Rightarrow> bool \<Rightarrow> bool \<Rightarrow> (char \<times> string) list \<Rightarrow> string list \<Rightarrow> ivy \<Rightarrow> perf res" where
  "perf_main rx F e env_binary env_filter opts args s =
     (case perf_arguments args of (time, n) \<Rightarrow>
      bindR (perf_setup rx env_binary env_filter n s) (\<lambda>p.
      let p = p\<lparr>pf_origin := currentTime F (pf_core p)\<rparr>
      in bindR (IvyStart e (perf_bus opts) (pf_core p)) (\<lambda>s.
         Inr (if nbMsg p \<noteq> 0
           then p\<lparr>pf_core := add_test_timer TIMER_LOOP time s, pf_send_timer := fresh s\<rparr>
           else p\<lparr>pf_core := s\<rparr>))))"

section \<open>One of them hears the others\<close>

lemma perf_bind_alone:
  assumes "substituteInterval pattern = Inr r" and "allClients (pf_core p) = []"
  shows "\<exists>s. perf_bind pattern p = Inr (p\<lparr>pf_core := s\<rparr>) \<and> allClients s = [] \<and> recv_id s = s32 (recv_id (pf_core p) + 1) \<and>
    map (\<lambda>m. (mr_id m, mr_regexp m)) (msg_recv s) =
      (recv_id (pf_core p), r) # map (\<lambda>m. (mr_id m, mr_regexp m)) (msg_recv (pf_core p)) \<and> filters s = filters (pf_core p)"
  unfolding perf_bind_def IvyBindMsg_def to_all_def Let_def using assms
  by (intro exI [of _ "pf_core p\<lparr>fresh := fresh (pf_core p) + 1, recv_id := s32 (recv_id (pf_core p) + 1),
       msg_recv := \<lparr>mr_ptr = fresh (pf_core p), mr_id = recv_id (pf_core p), mr_regexp = r, mr_callback = True\<rparr>
         # msg_recv (pf_core p)\<rparr>"]) simp

lemma perf_patterns:
  "substituteInterval ''^ping ts=(.*)'' = Inr ''^ping ts=(.*)''" "substituteInterval ''^pong ts=(.*) tr=(.*)'' = Inr ''^pong ts=(.*) tr=(.*)''"
  by (simp_all add: substituteInterval_def interval_mark_def)

text \<open>
  The filter of an \<open>ivyperf\<close> lets the two subscriptions of every other \<open>ivyperf\<close> through, where the
  engine answers for the token pattern as documented.
\<close>
theorem perf_listens_to_perf:
  assumes "allClients s = []" and "recv_id s = 0" and "msg_recv s = []" and "filters s = no_filter"
    and "rx_compile rx TOKEN_REGEXP = None" and "\<forall>e. rx_exec rx TOKEN_REGEXP e = token_match e"
  shows "\<exists>p. perf_setup rx env_binary env_filter n s = Inr p \<and>
    map (\<lambda>m. (mr_id m, mr_regexp m)) (msg_recv (pf_core p)) = [(1, ''^pong ts=(.*) tr=(.*)''), (0, ''^ping ts=(.*)'')] \<and>
    (\<forall>m \<in> set (msg_recv (pf_core p)). IvyBindingFilter rx (filters (pf_core p)) (mr_regexp m) = Inr True)"
proof -
  let ?p = "(perf_globals s)\<lparr>nbMsg := n, pf_core := IvySetBindCallback True (IvySetFilter rx env_filter mymessages
                 (IvyInit (Some ''IvyPerf'') (Some ''IvyPerf ready'') False False env_binary s))\<rparr>"
  let ?f = "IvyBindingSetFilter rx mymessages no_filter"
  have init: "allClients (pf_core ?p) = []" "recv_id (pf_core ?p) = 0" "msg_recv (pf_core ?p) = []" "filters (pf_core ?p) = ?f"
    using assms(1-4) by (simp_all add: IvySetBindCallback_def IvySetFilter_def IvyInit_def SocketInit_def)
  from perf_bind_alone [OF perf_patterns(1) init(1)] init s32_id [of 1] obtain t where
    t: "perf_bind ''^ping ts=(.*)'' ?p = Inr (?p\<lparr>pf_core := t\<rparr>)" "allClients t = []" "recv_id t = 1" "filters t = ?f"
      "map (\<lambda>m. (mr_id m, mr_regexp m)) (msg_recv t) = [(0, ''^ping ts=(.*)'')]" by (auto simp: is_int32_def)
  from perf_bind_alone [OF perf_patterns(2), of "?p\<lparr>pf_core := t\<rparr>"] t obtain u where
    u: "perf_bind ''^pong ts=(.*) tr=(.*)'' (?p\<lparr>pf_core := t\<rparr>) = Inr (?p\<lparr>pf_core := u\<rparr>)" "filters u = ?f"
      "map (\<lambda>m. (mr_id m, mr_regexp m)) (msg_recv u) = [(1, ''^pong ts=(.*) tr=(.*)''), (0, ''^ping ts=(.*)'')]" by auto
  have f: "IvyBindingFilter rx ?f (CHR ''^'' # kw @ '' '' @ r) = Inr True" if "kw = ''ping'' \<or> kw = ''pong''" for kw r
    using filter_decides_by_keyword [OF assms(5,6), of mymessages kw "'' '' @ r"] that by (auto simp: mymessages_def is_word_def)
  have "mr_regexp m \<in> {''^pong ts=(.*) tr=(.*)'', ''^ping ts=(.*)''}" if "m \<in> set (msg_recv u)" for m
  proof -
    have "(mr_id m, mr_regexp m) \<in> set (map (\<lambda>m. (mr_id m, mr_regexp m)) (msg_recv u))" using that by simp
    then show ?thesis unfolding u(3) by auto
  qed
  moreover have "IvyBindingFilter rx ?f ''^ping ts=(.*)'' = Inr True" "IvyBindingFilter rx ?f ''^pong ts=(.*) tr=(.*)'' = Inr True"
    using f [of "''ping''" "''ts=(.*)''"] f [of "''pong''" "''ts=(.*) tr=(.*)''"] by simp_all
  ultimately have "\<forall>m \<in> set (msg_recv u). IvyBindingFilter rx (filters u) (mr_regexp m) = Inr True" using u(2) by fastforce
  then show ?thesis
    using t(1) u(1,3) by (auto simp: perf_setup_def Let_def)
qed

section \<open>What is measured\<close>

text \<open>A pong that arrives at the time \<open>t\<close>.\<close>

definition pong_at :: "floats \<Rightarrow> (int \<times> int) \<times> string list \<Rightarrow> perf \<Rightarrow> perf res" where
  "pong_at F = (\<lambda>(t, argv) p. perf_Pong F argv (p\<lparr>pf_core := (pf_core p)\<lparr>now := t\<rparr>\<rparr>))"

text \<open>With exact arithmetic: the time between the ping and the pong, in milliseconds.\<close>

definition trip :: "floats \<Rightarrow> real \<Rightarrow> (int \<times> int) \<times> string list \<Rightarrow> real" where
  "trip F origin = (\<lambda>((sec, usec), argv). real_of_int sec * 1000 + real_of_int usec / 1000 - origin - atof F (hd argv))"

definition mean :: "real list \<Rightarrow> real" where
  "mean xs = sum_list xs / real (length xs)"

definition trips_report :: "floats \<Rightarrow> real list \<Rightarrow> string" where
  "trips_report F xs = perf_report F (int (length xs)) (Min (set xs)) (mean xs) (Max (set xs))"

text \<open>The counters after the round trips \<open>xs\<close>.\<close>

definition measured :: "real list \<Rightarrow> perf \<Rightarrow> bool" where
  "measured xs p \<longleftrightarrow> nbMsgReceive p = int (length xs) \<and>
     (if xs = [] then minRoundTrip p = 10 ^ 12 \<and> maxRoundTrip p = 0
      else minRoundTrip p = Min (set xs) \<and> maxRoundTrip p = Max (set xs) \<and> averageRoundTrip p = mean xs)"

lemma pong_step:
  assumes F: "rounded F = id" and "measured xs p" and "argv \<noteq> []" and "length xs < 2147483647"
    and "x = trip F (pf_origin p) (t, argv)" and "0 \<le> x" and "x \<le> 10 ^ 12"
  shows "\<exists>q. pong_at F (t, argv) p = Inr q \<and> measured (xs @ [x]) q \<and> pf_origin q = pf_origin p \<and> nbMsg q = nbMsg p \<and>
    pf_out q = pf_out p @ (if nbMsg p = int (length xs) + 1 then trips_report F (xs @ [x]) else [])"
proof -
  obtain a as where argv: "argv = a # as" using assms(3) by (cases argv) auto
  have n: "s32 (nbMsgReceive p + 1) = int (length xs) + 1" "s32 (int (length xs) + 1 - 1) = int (length xs)"
    using assms(2,4) by (simp_all add: measured_def s32_id is_int32_def)
  have x: "since_origin F (p\<lparr>pf_core := (pf_core p)\<lparr>now := t\<rparr>, nbMsgReceive := m\<rparr>) - atof F a = x" for m
    by (simp add: assms(5) argv since_origin_def currentTime_def trip_def F split_beta)
  have mm: "Min (set (xs @ [x])) = (if x < minRoundTrip p then x else minRoundTrip p) \<and>
    Max (set (xs @ [x])) = (if x > maxRoundTrip p then x else maxRoundTrip p)"
  proof (cases "xs = []")
    case True
    then show ?thesis using assms(2,6,7) by (simp add: measured_def)
  next
    case False
    then have "Min (set (xs @ [x])) = min x (Min (set xs))" "Max (set (xs @ [x])) = max x (Max (set xs))" by simp_all
    moreover have "minRoundTrip p = Min (set xs)" "maxRoundTrip p = Max (set xs)" using assms(2) False by (simp_all add: measured_def)
    moreover have "min x y = (if x < y then x else y)" "max x y = (if x > y then x else y)" for y by simp_all
    ultimately show ?thesis by (simp only: simp_thms)
  qed
  have av: "mean (xs @ [x]) = (averageRoundTrip p * real (length xs) + x) / (real (length xs) + 1)"
    using assms(2) by (cases "xs = []") (auto simp: measured_def mean_def)
  show ?thesis
    using n x mm av F
    by (simp add: pong_at_def perf_Pong_def argv Let_def measured_def trips_report_def add.commute)
qed

lemma mean_between:
  assumes "xs \<noteq> []"
  shows "Min (set xs) \<le> mean xs" and "mean xs \<le> Max (set xs)"
proof -
  have "real (length xs) * Min (set xs) \<le> sum_list xs" "sum_list xs \<le> real (length xs) * Max (set xs)"
    using sum_list_mono [of xs "\<lambda>_. Min (set xs)" id] sum_list_mono [of xs id "\<lambda>_. Max (set xs)"]
    by (simp_all add: sum_list_triv)
  then show "Min (set xs) \<le> mean xs" "mean xs \<le> Max (set xs)"
    using assms by (simp_all add: mean_def field_simps)
qed

lemma pongs_measured:
  assumes F: "rounded F = id" and "measured xs p" and "length xs + length ps < 2147483648"
    and "\<forall>(t, argv) \<in> set ps. argv \<noteq> [] \<and> 0 \<le> trip F (pf_origin p) (t, argv) \<and> trip F (pf_origin p) (t, argv) \<le> 10 ^ 12"
    and "ys = xs @ map (trip F (pf_origin p)) ps"
  shows "\<exists>q. foldR (pong_at F) ps p = Inr q \<and> measured ys q \<and>
    pf_out q = pf_out p @ (if int (length xs) < nbMsg p \<and> nbMsg p \<le> int (length ys)
      then trips_report F (take (nat (nbMsg p)) ys) else [])"
  using assms(2-)
proof (induction ps arbitrary: xs p)
  case (Cons y ps)
  obtain t argv where y: "y = (t, argv)" by (cases y)
  let ?x = "trip F (pf_origin p) y"
  from pong_step [OF F Cons.prems(1), of argv ?x t] Cons.prems(2,3) obtain q where
    q: "pong_at F y p = Inr q" "measured (xs @ [?x]) q" "pf_origin q = pf_origin p" "nbMsg q = nbMsg p"
      "pf_out q = pf_out p @ (if nbMsg p = int (length xs) + 1 then trips_report F (xs @ [?x]) else [])"
    by (auto simp: y)
  from Cons.IH [OF q(2)] Cons.prems(2-4) q(3,4) obtain u where
    u: "foldR (pong_at F) ps q = Inr u" "measured ys u"
      "pf_out u = pf_out q @ (if int (length xs) + 1 < nbMsg p \<and> nbMsg p \<le> int (length ys)
        then trips_report F (take (nat (nbMsg p)) ys) else [])"
    by (auto simp: add.commute)
  have "take (nat (int (length xs) + 1)) ys = xs @ [?x]" using Cons.prems(4) by (simp add: nat_add_distrib)
  moreover have "length xs < length ys" using Cons.prems(4) by simp
  ultimately show ?case using q u by auto
qed (auto simp: measured_def)

text \<open>
  The measures of the round trips. With exact arithmetic, after pongs that took between zero and
  \<open>10 ^ 12\<close> milliseconds the least, the greatest and the average round trip are those of the list
  of all round trips, although only sums of the previous ones are kept, and the average lies between
  the other two. The report is printed once, when the number of messages asked for has
  arrived, with the measures of exactly these.
\<close>
theorem round_trips_are_measured:
  assumes "rounded F = id" and "nbMsgReceive p = 0" and "minRoundTrip p = 10 ^ 12" and "maxRoundTrip p = 0"
    and "ps \<noteq> []" and "length ps < 2147483648"
    and "\<forall>(t, argv) \<in> set ps. argv \<noteq> [] \<and> 0 \<le> trip F (pf_origin p) (t, argv) \<and> trip F (pf_origin p) (t, argv) \<le> 10 ^ 12"
    and "xs = map (trip F (pf_origin p)) ps"
  shows "\<exists>q. foldR (pong_at F) ps p = Inr q \<and> nbMsgReceive q = int (length xs) \<and>
    minRoundTrip q = Min (set xs) \<and> maxRoundTrip q = Max (set xs) \<and> averageRoundTrip q = sum_list xs / real (length xs) \<and>
    minRoundTrip q \<le> averageRoundTrip q \<and> averageRoundTrip q \<le> maxRoundTrip q \<and>
    pf_out q = pf_out p @ (if 0 < nbMsg p \<and> nbMsg p \<le> int (length xs) then trips_report F (take (nat (nbMsg p)) xs) else [])"
proof -
  have "measured [] p" using assms(2-4) by (simp add: measured_def)
  from pongs_measured [OF assms(1) this, of ps xs] assms(6-8) obtain q where
    "foldR (pong_at F) ps p = Inr q" "measured xs q"
    "pf_out q = pf_out p @ (if 0 < nbMsg p \<and> nbMsg p \<le> int (length xs) then trips_report F (take (nat (nbMsg p)) xs) else [])"
    by auto
  then show ?thesis using mean_between [of xs] assms(5,8) by (auto simp: measured_def mean_def)
qed

theorem round_trips_are_measured_witness:
  "\<exists>q. foldR (pong_at \<lparr>rounded = id, show_f = (\<lambda>_. ''x''), atof = (\<lambda>_. 100)\<rparr>) [((1, 0), [''a'']), ((3, 0), [''b''])]
      ((perf_globals demo_idle)\<lparr>pf_origin := 500, nbMsg := 2\<rparr>) = Inr q \<and>
    minRoundTrip q = 400 \<and> maxRoundTrip q = 2400 \<and> averageRoundTrip q = 1400 \<and>
    pf_out q = ''roundtrip[2] min x av x max x ms'' @ newline"
proof -
  let ?F = "\<lparr>rounded = id, show_f = (\<lambda>_. ''x''), atof = (\<lambda>_. 100)\<rparr>"
  let ?p = "(perf_globals demo_idle)\<lparr>pf_origin := 500, nbMsg := 2\<rparr>"
  have "\<exists>q. foldR (pong_at ?F) [((1, 0), [''a'']), ((3, 0), [''b''])] ?p = Inr q \<and> nbMsgReceive q = int (length [400, 2400 :: real]) \<and>
    minRoundTrip q = Min (set [400, 2400]) \<and> maxRoundTrip q = Max (set [400, 2400]) \<and>
    averageRoundTrip q = sum_list [400, 2400] / real (length [400, 2400 :: real]) \<and>
    minRoundTrip q \<le> averageRoundTrip q \<and> averageRoundTrip q \<le> maxRoundTrip q \<and>
    pf_out q = pf_out ?p @ (if 0 < nbMsg ?p \<and> nbMsg ?p \<le> int (length [400, 2400 :: real])
      then trips_report ?F (take (nat (nbMsg ?p)) [400, 2400]) else [])"
    by (rule round_trips_are_measured) (simp_all add: perf_globals_def trip_def)
  then obtain q where q: "foldR (pong_at ?F) [((1, 0), [''a'']), ((3, 0), [''b''])] ?p = Inr q" "minRoundTrip q = Min {400, 2400}"
    "maxRoundTrip q = Max {400, 2400}" "averageRoundTrip q = sum_list [400, 2400] / real (length [400, 2400 :: real])"
    "pf_out q = trips_report ?F [400, 2400]"
    by (auto simp: perf_globals_def)
  moreover have "digit_char 2 = CHR ''2''" by code_simp
  ultimately show ?thesis
    by (intro exI [of _ q])
      (simp add: trips_report_def perf_report_def show_int_def show_nat.simps mean_def)
qed

end
