(* ===== verification/IvyExamples.thy ===== *)
theory IvyExamples
  imports IvyTcl IvyThroughput
begin

text \<open>
  The programs of \<open>examples/\<close>: the GTK button (\<open>gtkIvyButton.c\<close>), the Motif button
  (\<open>motifButtonIvy.c\<close>) and the test of unbinding in a callback (\<open>testUnbind.c\<close>), each with its
  callbacks and \<open>main\<close> up to the main loop. The toolkits' windows are not modelled.
\<close>

section \<open>A format without arguments\<close>

text \<open>
  What \<open>IvySendMsg (text)\<close> sends: the text is the format, and a conversion reads arguments that
  are not there (\<open>format_alone\<close>).
\<close>

definition send_text :: "regex_engine \<Rightarrow> string \<Rightarrow> ivy \<Rightarrow> ivy res" where
  "send_text rx text s = bindR (format_alone text) (\<lambda>t. bindR (IvySendMsg rx (Some text) t s) (\<lambda>(_, s). Inr s))"

section \<open>The GTK button\<close>

text \<open>The widget is its label.\<close>

record gtk_button =
  gb_core :: ivy
  gb_label :: string

definition sendText :: "regex_engine \<Rightarrow> gtk_button \<Rightarrow> gtk_button res" where
  "sendText rx p = bindR (send_text rx (gb_label p) (gb_core p)) (\<lambda>s. Inr (p\<lparr>gb_core := s\<rparr>))"

definition setText :: "string list \<Rightarrow> gtk_button \<Rightarrow> gtk_button res" where
  "setText argv p = (case argv of [] \<Rightarrow> Inl Uninitialised | a # _ \<Rightarrow> Inr (p\<lparr>gb_label := a\<rparr>))"

definition bind_button :: "ivy \<Rightarrow> ivy res" where
  "bind_button s = bindR (IvyBindMsg True ''^Ivy Button text=(.*)'' s) (\<lambda>(_, s). Inr s)"

definition gtk_main :: "start_env \<Rightarrow> bool \<Rightarrow> string option \<Rightarrow> ivy \<Rightarrow> gtk_button res" where
  "gtk_main e env ivybus s =
     bindR (bind_button (IvyInit (Some ''IvyGtkButton'') (Some ''IvyGtkButton READY'') False False env s)) (\<lambda>s.
     bindR (IvyStart e ivybus s) (\<lambda>s. Inr \<lparr>gb_core = s, gb_label = ''ivy is cool''\<rparr>))"

section \<open>The Motif button\<close>

text \<open>
  What \<open>tosend\<close> points to: the literal \<open>foo\<close>, or an address in the buffer of a connection, whose
  bytes are those of later lines when it is read again. An argument of a callback is its address and its text.
\<close>

datatype text_ptr = Literal string | InBuffer nat

record motif_button =
  mb_core :: ivy
  tosend :: text_ptr
  mb_out :: string

text \<open>\<open>mem\<close> is the text that is at an address when the button is pressed.\<close>

definition myMotifCallback :: "regex_engine \<Rightarrow> (nat \<Rightarrow> string) \<Rightarrow> motif_button \<Rightarrow> motif_button res" where
  "myMotifCallback rx mem p =
     bindR (send_text rx (case tosend p of Literal t \<Rightarrow> t | InBuffer a \<Rightarrow> mem a) (mb_core p)) (\<lambda>s. Inr (p\<lparr>mb_core := s\<rparr>))"

definition textCallback :: "nat \<Rightarrow> (nat \<times> string) list \<Rightarrow> motif_button \<Rightarrow> motif_button res" where
  "textCallback app argv p =
     bindR (IvyGetApplicationName app (mb_core p)) (\<lambda>name.
       case argv of [] \<Rightarrow> Inl Uninitialised
       | (a, t) # _ \<Rightarrow> Inr (p\<lparr>tosend := InBuffer a, mb_out := mb_out p @ name @ '' sent '' @ t @ newline\<rparr>))"

definition motif_DieCallback :: "motif_button \<Rightarrow> motif_button" where
  "motif_DieCallback p = p\<lparr>mb_core := (mb_core p)\<lparr>exited := True\<rparr>\<rparr>"

definition motif_main :: "start_env \<Rightarrow> bool \<Rightarrow> string option \<Rightarrow> ivy \<Rightarrow> motif_button res" where
  "motif_main e env ivybus s =
     bindR (bind_button (IvyInit (Some ''IvyMotif'') (Some ''IvyMotif connected'') False True env s)) (\<lambda>s.
     bindR (IvyStart e ivybus s) (\<lambda>s. Inr \<lparr>mb_core = s, tosend = Literal ''foo'', mb_out = []\<rparr>))"

section \<open>The test of unbinding\<close>

text \<open>\<open>ub_ptr\<close> is the variable of \<open>main\<close> whose address the callback gets; its binding is its own.\<close>

record test_unbind =
  ub_core :: ivy
  ub_ptr :: nat
  ub_out :: string

definition unbind_Callback :: "nat \<Rightarrow> test_unbind \<Rightarrow> test_unbind res" where
  "unbind_Callback app p =
     bindR (IvyGetApplicationName app (ub_core p)) (\<lambda>name.
     bindR (IvyUnbindMsg (ub_ptr p) (ub_core p)) (\<lambda>s.
       Inr (p\<lparr>ub_core := s, ub_out := ub_out p @ name @ '' sent unbind message, unbinding to ^ub'' @ newline\<rparr>)))"

definition unbind_setup :: "bool \<Rightarrow> ivy \<Rightarrow> test_unbind res" where
  "unbind_setup env s =
     bindR (IvyBindMsg True ''^ub'' (IvyInit (Some ''TestUnbind'') (Some ''TestUnbind Ready'') False False env s))
       (\<lambda>(i, s). Inr \<lparr>ub_core = s, ub_ptr = i, ub_out = ''bound to ^ub'' @ newline\<rparr>)"

definition unbind_main :: "start_env \<Rightarrow> bool \<Rightarrow> ivy \<Rightarrow> test_unbind res" where
  "unbind_main e env s =
     bindR (unbind_setup env s) (\<lambda>p. bindR (IvyStart e None (ub_core p)) (\<lambda>s. Inr (p\<lparr>ub_core := s\<rparr>)))"

section \<open>What they do\<close>

text \<open>
  A text without a percent sign is sent as it is; any application can set the text of the
  button to one that is not, and the next click reads arguments that were not passed.
\<close>
theorem button_text_is_a_format:
  assumes "setText [t] p = Inr q"
  shows "CHR ''%'' \<notin> set t \<Longrightarrow> sendText rx q = bindR (IvySendMsg rx (Some t) t (gb_core p)) (\<lambda>(_, s). Inr (q\<lparr>gb_core := s\<rparr>))"
    and "t = u @ ''%s'' \<Longrightarrow> CHR ''%'' \<notin> set u \<Longrightarrow> sendText rx q = Inl BadFormat"
proof -
  have q: "q = p\<lparr>gb_label := t\<rparr>" using assms by (simp add: setText_def)
  show "CHR ''%'' \<notin> set t \<Longrightarrow> sendText rx q = bindR (IvySendMsg rx (Some t) t (gb_core p)) (\<lambda>(_, s). Inr (q\<lparr>gb_core := s\<rparr>))"
    by (cases "IvySendMsg rx (Some t) t (gb_core p)") (auto simp: q sendText_def send_text_def format_alone_plain)
  have "format_alone (u @ ''%s'') = Inl BadFormat" if "CHR ''%'' \<notin> set u" using that by (induction u) auto
  then show "t = u @ ''%s'' \<Longrightarrow> CHR ''%'' \<notin> set u \<Longrightarrow> sendText rx q = Inl BadFormat"
    by (simp add: q sendText_def send_text_def)
qed

text \<open>
  The callback of the test withdraws the binding it was called for: every connected application is told,
  and the binding is gone, the others stay.
\<close>
theorem callback_unbinds_itself:
  assumes "IvyGetApplicationName app (ub_core p) = Inr name" and "m \<in> set (msg_recv (ub_core p))" and "ub_ptr p = mr_ptr m"
    and "mr_ptr m \<noteq> 0" and "distinct (map mr_ptr (msg_recv (ub_core p)))"
    and "all_reachable (length (message_line DelRegexp (mr_id m) [])) (ub_core p)"
  shows "\<exists>q. unbind_Callback app p = Inr q \<and> msg_recv (ub_core q) = filter (\<lambda>x. x \<noteq> m) (msg_recv (ub_core p)) \<and>
    (\<forall>x \<in> set (allClients (ub_core p)). stream (c_client x) (ub_core q) =
       stream (c_client x) (ub_core p) @ message_line DelRegexp (mr_id m) []) \<and>
    ub_out q = ub_out p @ name @ '' sent unbind message, unbinding to ^ub'' @ newline"
proof -
  have "find (\<lambda>x. mr_ptr x = ub_ptr p) (msg_recv (ub_core p)) = Some m"
    using find_ptr [OF assms(5,2)] assms(3) by simp
  with unbind_sends [of "ub_ptr p" "ub_core p" m 0] assms(3,4,6) obtain t where
    t: "IvyUnbindMsg (ub_ptr p) (ub_core p) = Inr t"
      "sends (ub_core p) (to_everyone (ub_core p) (message_line DelRegexp (mr_id m) [])) t"
      "msg_recv t = filter (\<lambda>x. mr_ptr x \<noteq> ub_ptr p) (msg_recv (ub_core p))" by auto
  have "filter (\<lambda>x. mr_ptr x \<noteq> ub_ptr p) (msg_recv (ub_core p)) = filter (\<lambda>x. x \<noteq> m) (msg_recv (ub_core p))"
    using assms(2,3,5) by (intro filter_cong refl) (auto simp: distinct_map dest: inj_onD)
  then show ?thesis using t assms(1) by (auto simp: unbind_Callback_def sends_def to_everyone_def)
qed

end
