(* ===== verification/IvyFifoTest.thy ===== *)
theory IvyFifoTest
  imports IvyProbe
begin

text \<open>
  The test at the end of \<open>ivyfifo.c\<close> (\<open>TEST_UNITAIRE\<close>): what its \<open>main\<close> prints, on the model of the FIFO.
\<close>

section \<open>The test\<close>

text \<open>The buffer and what was printed; \<open>toRead\<close> has 8 bytes and \<open>toWrite\<close> has 16.\<close>

definition toRead :: string where
  "toRead = map (\<lambda>i. char_of (i mod 10 + 48)) [0..<8 :: nat]"

definition fifo_state_text :: "nat \<Rightarrow> nat \<Rightarrow> string" where
  "fifo_state_text sz len = ''fifo size='' @ show_nat sz @ '', length='' @ show_nat len"

definition fifo_read_line :: "string \<Rightarrow> nat \<Rightarrow> nat \<Rightarrow> string" where
  "fifo_read_line d sz len =
     ''DBG> ndRead='' @ show_nat (length d) @ '', '' @ fifo_state_text sz len @ '', buffer='' @ c_string d @ newline"

definition test_write :: "IvyFifoBuffer \<times> string \<Rightarrow> (IvyFifoBuffer \<times> string) option" where
  "test_write = (\<lambda>(ifb, o'). map_option (\<lambda>ifb.
     (ifb, o' @ ''DBG> '' @ fifo_state_text (IvyFifoSize ifb) (IvyFifoLength ifb) @ newline)) (IvyFifoWrite ifb toRead))"

definition test_read :: "nat \<Rightarrow> IvyFifoBuffer \<times> string \<Rightarrow> (IvyFifoBuffer \<times> string) option" where
  "test_read n = (\<lambda>(ifb, o'). Option.bind (IvyFifoRead ifb n) (\<lambda>(nbRead, d, ifb).
     if nbRead \<ge> 16 then None
     else Some (ifb, o' @ fifo_read_line d (IvyFifoSize ifb) (IvyFifoLength ifb))))"

text \<open>The second block of \<open>main\<close>: the first one is under a condition that is false.\<close>

definition fifo_test_main :: "string option" where
  "fifo_test_main = map_option snd (foldl Option.bind (Some (IvyFifoInit, []))
     [test_write, test_read 4, test_write, test_read 8, test_read 8, test_read 8, test_read 4,
      test_write, test_read 8, test_read 8, test_read 8])"

section \<open>What it prints\<close>

lemma read_loop_full:
  assumes "fifo_read_loop f n d = Some y"
  shows "\<not> f_full f \<longrightarrow> \<not> f_full (snd y)"
proof (rule fifo_read_loop.raw_induct [OF _ assms])
  fix loop f n d y
  assume ih: "\<And>f n d y. loop f n d = Some y \<Longrightarrow> \<not> f_full f \<longrightarrow> \<not> f_full (snd y)"
    and body: "(let len = min (u32 (int (f_end f) - f_rptr f)) n
      in Option.bind (fifo_peek f (f_rptr f) len) (\<lambda>e.
           let f' = IvyFifoDrain f (s32 (int len)); n = n - len
           in if n > 0 then loop f' n (d @ e) else Some (d @ e, f'))) = Some y"
  then show "\<not> f_full f \<longrightarrow> \<not> f_full (snd y)"
    by (auto simp: Let_def drain_full bind_eq_Some_conv split: if_splits dest!: ih)
qed

text \<open>The buffer is the queue \<open>q\<close> and has not grown.\<close>

definition fifo_holds :: "string \<Rightarrow> IvyFifoBuffer \<Rightarrow> bool" where
  "fifo_holds q f \<longleftrightarrow> fifo_inv f \<and> \<not> f_full f \<and> f_end f = IVY_FIFO_ALLOC_SIZE \<and> fifo_abs f = q"

lemma test_write_ok:
  assumes "fifo_holds q f" and "length q + 8 < IVY_FIFO_ALLOC_SIZE"
  shows "\<exists>g. test_write (f, o') = Some (g, o' @ ''DBG> '' @ fifo_state_text IVY_FIFO_ALLOC_SIZE (length q + 8) @ newline) \<and>
    fifo_holds (q @ toRead) g"
proof -
  have f: "fifo_inv f" "\<not> f_full f" "f_end f = IVY_FIFO_ALLOC_SIZE" "fifo_abs f = q" "fifo_len f = length q"
    using assms(1) by (auto simp: fifo_holds_def simp flip: length_fifo_abs)
  have len: "length toRead = 8" by (simp add: toRead_def)
  have "length toRead < IvyFifoAvail f" using assms(2) f len by (simp add: IvyFifoAvail_eq)
  then have w: "IvyFifoWrite f toRead = fifo_write_loop f toRead" using f(2) by (simp add: IvyFifoWrite_def)
  have "fifo_len f + length toRead < f_end f" using assms(2) by (simp add: f len)
  from fifo_write_loop_correct [OF f(1) this] obtain g where
    g: "IvyFifoWrite f toRead = Some g" "fifo_inv g" "\<not> f_full g" "fifo_abs g = q @ toRead" "f_end g = IVY_FIFO_ALLOC_SIZE"
    using w f(2-4) by auto
  moreover have "fifo_len g = length q + 8" using g(4) len by (simp flip: length_fifo_abs)
  ultimately show ?thesis
    using g by (simp add: test_write_def fifo_holds_def IvyFifoSize_eq IvyFifoLength_eq)
qed

lemma test_read_ok:
  assumes "fifo_holds q f" and "n < 16"
  shows "\<exists>g. test_read n (f, o') = Some (g, o' @ fifo_read_line (take n q) IVY_FIFO_ALLOC_SIZE (length q - n)) \<and> fifo_holds (drop n q) g"
proof -
  have f: "fifo_inv f" "\<not> f_full f" "f_end f = IVY_FIFO_ALLOC_SIZE" "fifo_abs f = q" "fifo_len f = length q"
    using assms(1) by (auto simp: fifo_holds_def simp flip: length_fifo_abs)
  let ?n = "min n (length q)"
  have n: "take ?n q = take n q" "drop ?n q = drop n q" by (simp_all add: min_def)
  from fifo_read_loop_correct [OF f(1), of ?n "[]"] f n obtain g where
    l: "fifo_read_loop f ?n [] = Some (take n q, g)" and g: "fifo_inv g" "fifo_abs g = drop n q" "f_end g = IVY_FIFO_ALLOC_SIZE"
    by auto
  have r: "IvyFifoRead f n = Some (?n, take n q, g)"
    using l by (simp add: IvyFifoRead_def IvyFifoGenericRead_def Let_def IvyFifoLength_eq [OF f(1)] f(5))
  have e: "\<not> f_full g" using read_loop_full [OF l] f(2) by simp
  moreover have "fifo_len g = length q - n" using g(2) by (simp flip: length_fifo_abs)
  ultimately show ?thesis
    using r g e assms(2) by (simp add: test_read_def fifo_holds_def IvyFifoSize_eq IvyFifoLength_eq)
qed

lemma test_start: "fifo_holds [] IvyFifoInit"
  using fifo_init by (simp add: fifo_holds_def IvyFifoNew_def) (simp add: IvyFifoInit_def)

text \<open>
  The test of the FIFO prints the bytes in the order they were written, and nothing is read
  from an empty buffer.
\<close>
theorem fifo_test_prints:
  "fifo_test_main = Some (
     ''DBG> '' @ fifo_state_text 262144 8 @ newline @
     fifo_read_line ''0123'' 262144 4 @
     ''DBG> '' @ fifo_state_text 262144 12 @ newline @
     fifo_read_line ''45670123'' 262144 4 @
     fifo_read_line ''4567'' 262144 0 @
     fifo_read_line [] 262144 0 @
     fifo_read_line [] 262144 0 @
     ''DBG> '' @ fifo_state_text 262144 8 @ newline @
     fifo_read_line ''01234567'' 262144 0 @
     fifo_read_line [] 262144 0 @
     fifo_read_line [] 262144 0)"
proof -
  have t: "toRead = ''01234567''" by code_simp
  let ?A = "IVY_FIFO_ALLOC_SIZE"
  have s: "Suc (Suc (Suc (Suc 0))) = 4" by simp
  have A: "?A = 262144" by (simp add: fifo_size_defs)
  note w = test_write_ok [unfolded A t] and r = test_read_ok [unfolded A]
  obtain f1 o1 where 1: "test_write (IvyFifoInit, []) = Some (f1, o1)" "fifo_holds ''01234567'' f1"
    "o1 = ''DBG> '' @ fifo_state_text 262144 8 @ newline" using w [OF test_start, of "[]"] by auto
  obtain f2 o2 where 2: "test_read 4 (f1, o1) = Some (f2, o2)" "fifo_holds ''4567'' f2" "o2 = o1 @ fifo_read_line ''0123'' 262144 4"
    using r [OF 1(2), of 4 o1] by (auto simp: s)
  obtain f3 o3 where 3: "test_write (f2, o2) = Some (f3, o3)" "fifo_holds ''456701234567'' f3"
    "o3 = o2 @ ''DBG> '' @ fifo_state_text 262144 12 @ newline" using w [OF 2(2), of o2] by auto
  obtain f4 o4 where 4: "test_read 8 (f3, o3) = Some (f4, o4)" "fifo_holds ''4567'' f4" "o4 = o3 @ fifo_read_line ''45670123'' 262144 4"
    using r [OF 3(2), of 8 o3] by (auto simp: s)
  obtain f5 o5 where 5: "test_read 8 (f4, o4) = Some (f5, o5)" "fifo_holds [] f5" "o5 = o4 @ fifo_read_line ''4567'' 262144 0"
    using r [OF 4(2), of 8 o4] by auto
  have empty: "\<exists>g. test_read n (f, x) = Some (g, x @ fifo_read_line [] 262144 0) \<and> fifo_holds [] g" if "fifo_holds [] f" "n < 16" for f n x
    using r [OF that, of x] by simp
  obtain f6 o6 where 6: "test_read 8 (f5, o5) = Some (f6, o6)" "fifo_holds [] f6" "o6 = o5 @ fifo_read_line [] 262144 0"
    using empty [OF 5(2), of 8 o5] by auto
  obtain f7 o7 where 7: "test_read 4 (f6, o6) = Some (f7, o7)" "fifo_holds [] f7" "o7 = o6 @ fifo_read_line [] 262144 0"
    using empty [OF 6(2), of 4 o6] by auto
  obtain f8 o8 where 8: "test_write (f7, o7) = Some (f8, o8)" "fifo_holds ''01234567'' f8"
    "o8 = o7 @ ''DBG> '' @ fifo_state_text 262144 8 @ newline" using w [OF 7(2), of o7] by auto
  obtain f9 o9 where 9: "test_read 8 (f8, o8) = Some (f9, o9)" "fifo_holds [] f9" "o9 = o8 @ fifo_read_line ''01234567'' 262144 0"
    using r [OF 8(2), of 8 o8] by auto
  obtain f10 o10 where 10: "test_read 8 (f9, o9) = Some (f10, o10)" "fifo_holds [] f10" "o10 = o9 @ fifo_read_line [] 262144 0"
    using empty [OF 9(2), of 8 o9] by auto
  obtain f11 o11 where 11: "test_read 8 (f10, o10) = Some (f11, o11)" "o11 = o10 @ fifo_read_line [] 262144 0"
    using empty [OF 10(2), of 8 o10] by auto
  have "fifo_test_main = Some o11"
    by (simp add: fifo_test_main_def 1(1) 2(1) 3(1) 4(1) 5(1) 6(1) 7(1) 8(1) 9(1) 10(1) 11(1))
  then show ?thesis by (simp only: 1(3) 2(3) 3(3) 4(3) 5(3) 6(3) 7(3) 8(3) 9(3) 10(3) 11(2) append.assoc)
qed

end
