(* ===== verification/IvyGetopt.thy ===== *)
theory IvyGetopt imports IvyPrelude begin

text \<open>
  \<open>tools/getopt.c\<close>, the scanner of the command line the tools are linked with where the C library
  has none. Its static position and the globals \<open>optind\<close> and \<open>optarg\<close> are one record; a read outside
  the arguments is undefined. The lemmas: it never reads there, the loop of the programs over it ends,
  and it reads the options of a well-formed command line in order.
\<close>

section \<open>The scanner\<close>

record getopt_state =
  optind :: nat
  optarg :: "string option"
  GetOptionPosition :: nat

definition getopt_start :: getopt_state where
  "getopt_start = \<lparr>optind = 1, optarg = None, GetOptionPosition = 1\<rparr>"

text \<open>A \<open>char\<close> is signed; \<open>EOF\<close> is \<open>-1\<close>.\<close>

definition char_int :: "char \<Rightarrow> int" where
  "char_int c = (if of_char c < (128 :: nat) then int (of_char c) else int (of_char c) - 256)"

definition EOF :: int where "EOF = - 1"

text \<open>\<open>argv[i][j]\<close>: \<open>None\<close> is the zero that ends an argument; \<open>argv[argc]\<close> is the null pointer.\<close>

definition arg_char :: "string list \<Rightarrow> nat \<Rightarrow> nat \<Rightarrow> char option res" where
  "arg_char argv i j =
     (if i \<ge> length argv then Inl (if i = length argv then NullDeref else OutOfBounds)
      else if j > length (argv ! i) then Inl OutOfBounds
      else Inr (if j = length (argv ! i) then None else Some (argv ! i ! j)))"

text \<open>The end of the options: no argument left, an operand, a single \<open>-\<close>, or \<open>--\<close>.\<close>

definition no_option :: "string list \<Rightarrow> nat \<Rightarrow> bool" where
  "no_option argv i \<longleftrightarrow> i \<ge> length argv \<or> take 1 (argv ! i) \<noteq> ''-'' \<or> length (argv ! i) < 2 \<or> argv ! i = ''--''"

text \<open>The next character of the argument, or the next argument.\<close>

definition next_option :: "string list \<Rightarrow> getopt_state \<Rightarrow> getopt_state res" where
  "next_option argv s =
     bindR (arg_char argv (optind s) (GetOptionPosition s + 1)) (\<lambda>x. Inr (
       if x = None then s\<lparr>optind := optind s + 1, GetOptionPosition := 1\<rparr>
       else s\<lparr>GetOptionPosition := GetOptionPosition s + 1\<rparr>))"

text \<open>The parameter of an option: the rest of its argument, or the next argument.\<close>

definition option_parameter :: "string list \<Rightarrow> char \<Rightarrow> getopt_state \<Rightarrow> (int \<times> getopt_state) res" where
  "option_parameter argv c s =
     bindR (arg_char argv (optind s) (GetOptionPosition s + 1)) (\<lambda>x.
       if x \<noteq> None
       then Inr (char_int c, s\<lparr>optarg := Some (drop (GetOptionPosition s + 1) (argv ! optind s)),
                               optind := optind s + 1, GetOptionPosition := 1\<rparr>)
       else if optind s + 1 \<ge> length argv
       then Inr (char_int CHR ''?'', s\<lparr>optind := optind s + 1, optarg := None, GetOptionPosition := 1\<rparr>)
       else Inr (char_int c, s\<lparr>optarg := Some (argv ! (optind s + 1)), optind := optind s + 2,
                               GetOptionPosition := 1\<rparr>))"

text \<open>\<open>strchr\<close>: the string from the character on, empty when it is not there.\<close>

definition strchr :: "string \<Rightarrow> char \<Rightarrow> string" where
  "strchr s c = dropWhile (\<lambda>x. x \<noteq> c) s"

text \<open>\<open>strchr\<close> finds a final zero, and \<open>getopt\<close> would look behind it.\<close>

definition getopt :: "string list \<Rightarrow> string \<Rightarrow> getopt_state \<Rightarrow> (int \<times> getopt_state) res" where
  "getopt argv optstring s =
     (if GetOptionPosition s = 1 \<and> no_option argv (optind s) then Inr (EOF, s)
      else bindR (arg_char argv (optind s) (GetOptionPosition s)) (\<lambda>cur_option.
        case cur_option of None \<Rightarrow> Inl OutOfBounds
        | Some c \<Rightarrow>
          let cp = strchr optstring c
          in if c = CHR '':'' \<or> cp = []
             then bindR (next_option argv s) (\<lambda>s. Inr (char_int CHR ''?'', s))
             else let s = s\<lparr>optarg := None\<rparr>
                  in if take 1 (tl cp) = '':'' then option_parameter argv c s
                     else bindR (next_option argv s) (\<lambda>s. Inr (char_int c, s))))"

text \<open>What is left to scan; every option that is returned takes some of it.\<close>

definition unscanned :: "string list \<Rightarrow> getopt_state \<Rightarrow> nat" where
  "unscanned argv s = sum_list (map (\<lambda>a. length a + 2) (drop (optind s) argv)) - GetOptionPosition s"

lemma arg_char_Inr: "arg_char argv i j = Inr x \<Longrightarrow> i < length argv \<and> j \<le> length (argv ! i) \<and> (x = None \<longleftrightarrow> j = length (argv ! i))"
  by (auto simp: arg_char_def split: if_splits)

lemma unscanned_Suc:
  assumes "i < length argv" and "p \<le> length (argv ! i)"
  shows "sum_list (map (\<lambda>a. length a + 2) (drop (Suc i) argv)) + 2 \<le> sum_list (map (\<lambda>a. length a + 2) (drop i argv)) - p"
  using assms Cons_nth_drop_Suc [OF assms(1), symmetric] by simp

lemma unscanned_mono: "sum_list (map (\<lambda>a. length a + 2) (drop (Suc (Suc i)) argv)) \<le> sum_list (map (\<lambda>a. length a + (2::nat)) (drop (Suc i) argv))"
  by (cases "Suc i < length argv") (simp_all add: Cons_nth_drop_Suc [symmetric])

lemma next_option_decreases:
  assumes "next_option argv s = Inr t" and "GetOptionPosition s \<le> length (argv ! optind s)"
  shows "unscanned argv t < unscanned argv s"
proof -
  obtain x where x: "arg_char argv (optind s) (GetOptionPosition s + 1) = Inr x"
    "t = (if x = None then s\<lparr>optind := optind s + 1, GetOptionPosition := 1\<rparr>
       else s\<lparr>GetOptionPosition := GetOptionPosition s + 1\<rparr>)"
    using assms(1) by (auto simp: next_option_def bindR_eq_Inr)
  from arg_char_Inr [OF x(1)] have i: "optind s < length argv" by simp
  from unscanned_Suc [OF i assms(2)] x(2) show ?thesis by (auto simp: unscanned_def)
qed

lemma option_parameter_decreases:
  assumes "option_parameter argv c s = Inr (r, t)" and "GetOptionPosition s \<le> length (argv ! optind s)"
  shows "unscanned argv t < unscanned argv s"
proof -
  obtain x where x: "arg_char argv (optind s) (GetOptionPosition s + 1) = Inr x"
    using assms(1) by (auto simp: option_parameter_def bindR_eq_Inr)
  from arg_char_Inr [OF x(1)] have i: "optind s < length argv" by simp
  from unscanned_Suc [OF i assms(2)] unscanned_mono [of "optind s" argv] assms(1) x(1) show ?thesis
    by (auto simp: unscanned_def option_parameter_def split: if_splits)
qed

lemma getopt_decreases:
  assumes "getopt argv optstring s = Inr (r, t)" and "r \<noteq> EOF"
  shows "unscanned argv t < unscanned argv s"
proof -
  obtain c where c: "arg_char argv (optind s) (GetOptionPosition s) = Inr (Some c)"
    using assms by (auto simp: getopt_def bindR_eq_Inr split: if_splits option.splits)
  from arg_char_Inr [OF c] have p: "GetOptionPosition s \<le> length (argv ! optind s)" by simp
  consider "next_option argv s = Inr t"
  | "next_option argv (s\<lparr>optarg := None\<rparr>) = Inr t"
  | "option_parameter argv c (s\<lparr>optarg := None\<rparr>) = Inr (r, t)"
    using assms c by (auto simp: getopt_def bindR_eq_Inr Let_def split: if_splits)
  then show ?thesis
    using next_option_decreases [of argv s t] next_option_decreases [of argv "s\<lparr>optarg := None\<rparr>" t]
      option_parameter_decreases [of argv c "s\<lparr>optarg := None\<rparr>" r t] p
    by cases (auto simp: unscanned_def)
qed

text \<open>The loop of the programs, \<open>while ((c = getopt (...)) != EOF)\<close>: the options with their \<open>optarg\<close>.\<close>

function getopt_loop :: "string list \<Rightarrow> string \<Rightarrow> getopt_state \<Rightarrow> ((int \<times> string option) list \<times> getopt_state) res" where
  "getopt_loop argv optstring s =
     (case getopt argv optstring s of Inl e \<Rightarrow> Inl e
      | Inr (c, s) \<Rightarrow> if c = EOF then Inr ([], s)
                      else bindR (getopt_loop argv optstring s) (\<lambda>(os, t). Inr ((c, optarg s) # os, t)))"
  by pat_completeness auto
termination
  by (relation "measure (\<lambda>(argv, _, s). unscanned argv s)") (auto intro: getopt_decreases)

declare getopt_loop.simps [simp del]

section \<open>No argument is read outside its bounds\<close>

text \<open>Between two options the scanner is at the start of an argument or inside one.\<close>

definition scanner_ok :: "string list \<Rightarrow> getopt_state \<Rightarrow> bool" where
  "scanner_ok argv s \<longleftrightarrow> GetOptionPosition s = 1 \<or>
     optind s < length argv \<and> GetOptionPosition s < length (argv ! optind s)"

lemma scanner_at:
  assumes "scanner_ok argv s" and "\<not> (GetOptionPosition s = 1 \<and> no_option argv (optind s))"
  shows "optind s < length argv" "GetOptionPosition s < length (argv ! optind s)"
  using assms by (auto simp: scanner_ok_def no_option_def)

lemma next_option_ok:
  assumes "optind s < length argv" and "GetOptionPosition s < length (argv ! optind s)"
  shows "next_option argv s =
    Inr (if GetOptionPosition s + 1 = length (argv ! optind s)
         then s\<lparr>optind := optind s + 1, GetOptionPosition := 1\<rparr> else s\<lparr>GetOptionPosition := GetOptionPosition s + 1\<rparr>)"
  using assms by (simp add: next_option_def arg_char_def)

lemma getopt_ok:
  assumes "scanner_ok argv s"
  shows "\<exists>c t. getopt argv optstring s = Inr (c, t) \<and> scanner_ok argv t"
proof (cases "GetOptionPosition s = 1 \<and> no_option argv (optind s)")
  case True
  then show ?thesis using assms by (simp add: getopt_def)
next
  case False
  note at = scanner_at [OF assms False]
  let ?c = "argv ! optind s ! GetOptionPosition s"
  have cur: "arg_char argv (optind s) (GetOptionPosition s) = Inr (Some ?c)" using at by (simp add: arg_char_def)
  have next_ok: "\<exists>u. next_option argv t = Inr u \<and> scanner_ok argv u" if "t = s \<or> t = s\<lparr>optarg := None\<rparr>" for t
    using at that next_option_ok [of s argv] next_option_ok [of "s\<lparr>optarg := None\<rparr>" argv]
    by (auto simp: scanner_ok_def)
  have parameter_ok: "\<exists>r u. option_parameter argv ?c (s\<lparr>optarg := None\<rparr>) = Inr (r, u) \<and> scanner_ok argv u"
    using at by (simp add: option_parameter_def arg_char_def scanner_ok_def)
  show ?thesis
    using next_ok [of s] next_ok [of "s\<lparr>optarg := None\<rparr>"] parameter_ok False cur
    by (auto simp: getopt_def Let_def)
qed

lemma getopt_loop_ok: "scanner_ok argv s \<Longrightarrow> \<exists>os t. getopt_loop argv optstring s = Inr (os, t) \<and> scanner_ok argv t"
proof (induction argv optstring s rule: getopt_loop.induct)
  case (1 argv optstring s)
  from getopt_ok [OF 1(2)] obtain c t where t: "getopt argv optstring s = Inr (c, t)" "scanner_ok argv t" by blast
  show ?case
  proof (cases "c = EOF")
    case True
    then show ?thesis using t by (subst getopt_loop.simps) simp
  next
    case False
    from 1(1) [OF t(1) refl False t(2)] obtain os u where
      "getopt_loop argv optstring t = Inr (os, u)" "scanner_ok argv u" by blast
    then show ?thesis using t False by (subst getopt_loop.simps) auto
  qed
qed

section \<open>Arguments made of options\<close>

text \<open>
  Options without a parameter can be put together in one argument; the last one may have a parameter,
  in the same argument or in the next one.
\<close>

datatype opt_word = Flags string | Glued string char string | Separate string char string

fun word_args :: "opt_word \<Rightarrow> string list" where
  "word_args (Flags cs) = [CHR ''-'' # cs]"
| "word_args (Glued cs c a) = [CHR ''-'' # cs @ c # a]"
| "word_args (Separate cs c a) = [CHR ''-'' # cs @ [c], a]"

definition flag_options :: "string \<Rightarrow> (int \<times> string option) list" where
  "flag_options = map (\<lambda>c. (char_int c, None))"

fun word_options :: "opt_word \<Rightarrow> (int \<times> string option) list" where
  "word_options (Flags cs) = flag_options cs"
| "word_options (Glued cs c a) = flag_options cs @ [(char_int c, Some a)]"
| "word_options (Separate cs c a) = flag_options cs @ [(char_int c, Some a)]"

definition is_option :: "string \<Rightarrow> bool \<Rightarrow> char \<Rightarrow> bool" where
  "is_option optstring parameter c \<longleftrightarrow> c \<noteq> CHR '':'' \<and> c \<noteq> CHR ''-'' \<and> char_int c \<noteq> EOF \<and> strchr optstring c \<noteq> [] \<and>
     (take 1 (tl (strchr optstring c)) = '':'' \<longleftrightarrow> parameter)"

fun word_ok :: "string \<Rightarrow> opt_word \<Rightarrow> bool" where
  "word_ok os (Flags cs) \<longleftrightarrow> cs \<noteq> [] \<and> list_all (is_option os False) cs"
| "word_ok os (Glued cs c a) \<longleftrightarrow> a \<noteq> [] \<and> list_all (is_option os False) cs \<and> is_option os True c"
| "word_ok os (Separate cs c a) \<longleftrightarrow> list_all (is_option os False) cs \<and> is_option os True c"

definition prepend :: "'a list \<Rightarrow> ('a list \<times> 's) res \<Rightarrow> ('a list \<times> 's) res" where
  "prepend xs r = bindR r (\<lambda>(ys, s). Inr (xs @ ys, s))"

lemma prepend_simps [simp]: "prepend [] r = r" "prepend xs (prepend ys r) = prepend (xs @ ys) r"
  "prepend xs (Inr (ys, s)) = Inr (xs @ ys, s)"
  by (cases r; auto simp: prepend_def)+

lemma getopt_loop_step:
  "getopt argv os s = Inr (c, t) \<Longrightarrow> c \<noteq> EOF \<Longrightarrow> getopt_loop argv os s = prepend [(c, optarg t)] (getopt_loop argv os t)"
  by (subst getopt_loop.simps) (simp add: prepend_def)

abbreviation scan_at :: "nat \<Rightarrow> nat \<Rightarrow> string option \<Rightarrow> getopt_state" where
  "scan_at i p oa \<equiv> \<lparr>optind = i, optarg = oa, GetOptionPosition = p\<rparr>"

lemma option_argument: "i < length argv \<Longrightarrow> argv ! i = CHR ''-'' # c # w \<Longrightarrow> c \<noteq> CHR ''-'' \<Longrightarrow> \<not> no_option argv i"
  by (simp add: no_option_def)

lemma getopt_flag:
  assumes "i < length argv" and "\<not> no_option argv i" and "argv ! i = pre @ c # post" and "is_option os False c"
  shows "getopt argv os (scan_at i (length pre) oa) =
    Inr (char_int c, if post = [] then scan_at (Suc i) 1 None else scan_at i (Suc (length pre)) None)"
  using assms next_option_ok [of "scan_at i (length pre) None" argv]
  by (simp add: getopt_def arg_char_def is_option_def Let_def)

lemma getopt_glued:
  assumes "i < length argv" and "\<not> no_option argv i" and "argv ! i = pre @ c # a" and "a \<noteq> []" and "is_option os True c"
  shows "getopt argv os (scan_at i (length pre) oa) = Inr (char_int c, scan_at (Suc i) 1 (Some a))"
  using assms by (simp add: getopt_def arg_char_def is_option_def Let_def option_parameter_def)

lemma getopt_separate:
  assumes "Suc i < length argv" and "\<not> no_option argv i" and "argv ! i = pre @ [c]" and "is_option os True c"
  shows "getopt argv os (scan_at i (length pre) oa) = Inr (char_int c, scan_at (i + 2) 1 (Some (argv ! Suc i)))"
  using assms by (simp add: getopt_def arg_char_def is_option_def Let_def option_parameter_def)

lemma scan_flags:
  assumes "i < length argv" and "\<not> no_option argv i" and "list_all (is_option os False) cs" and "argv ! i = pre @ cs @ post"
    and "cs \<noteq> []"
  shows "getopt_loop argv os (scan_at i (length pre) oa) =
    prepend (flag_options cs) (getopt_loop argv os
      (if post = [] then scan_at (Suc i) 1 None else scan_at i (length pre + length cs) None))"
  using assms(3-)
proof (induction cs arbitrary: pre oa)
  case (Cons c cs)
  have c: "is_option os False c" "char_int c \<noteq> EOF" using Cons.prems(1) by (simp_all add: is_option_def)
  have step: "getopt_loop argv os (scan_at i (length pre) oa) = prepend [(char_int c, None)] (getopt_loop argv os
      (if cs @ post = [] then scan_at (Suc i) 1 None else scan_at i (Suc (length pre)) None))"
    using getopt_loop_step [OF getopt_flag [OF assms(1,2), of pre c "cs @ post" os oa] c(2)] Cons.prems(2) c(1) by simp
  show ?case
  proof (cases "cs = []")
    case True
    then show ?thesis using step by (simp add: flag_options_def)
  next
    case False
    have "getopt_loop argv os (scan_at i (length (pre @ [c])) None) =
      prepend (flag_options cs) (getopt_loop argv os
        (if post = [] then scan_at (Suc i) 1 None else scan_at i (length (pre @ [c]) + length cs) None))"
      by (rule Cons.IH) (use Cons.prems False in simp_all)
    then show ?thesis using step False by (simp add: flag_options_def)
  qed
qed simp

lemma scan_word:
  assumes "word_ok os w" and "argv = us @ word_args w @ vs"
  shows "\<exists>oa'. getopt_loop argv os (scan_at (length us) 1 oa) =
    prepend (word_options w) (getopt_loop argv os (scan_at (length us + length (word_args w)) 1 oa'))"
proof (cases w)
  case (Flags cs)
  then have i: "length us < length argv" "argv ! length us = ''-'' @ cs @ []" using assms(2) by simp_all
  have cs: "cs \<noteq> []" "list_all (is_option os False) cs" using assms(1) Flags by simp_all
  then have "\<not> no_option argv (length us)"
    using option_argument [OF i(1), of "hd cs" "tl cs"] i(2) by (cases cs) (auto simp: is_option_def)
  from scan_flags [OF i(1) this cs(2) i(2) cs(1), of oa] show ?thesis using Flags by auto
next
  case (Glued cs c a)
  then have i: "length us < length argv" "argv ! length us = ''-'' @ cs @ c # a" using assms(2) by simp_all
  have cs: "a \<noteq> []" "list_all (is_option os False) cs" "is_option os True c" using assms(1) Glued by simp_all
  then have n: "\<not> no_option argv (length us)"
    using option_argument [OF i(1), of "hd (cs @ [c])" "tl (cs @ c # a)"] i(2) by (cases cs) (auto simp: is_option_def)
  have last: "getopt_loop argv os (scan_at (length us) (length (''-'' @ cs)) oa') =
      prepend [(char_int c, Some a)] (getopt_loop argv os (scan_at (Suc (length us)) 1 (Some a)))" for oa'
    using getopt_loop_step [OF getopt_glued [OF i(1) n, of "''-'' @ cs" c a os]] i(2) cs by (simp add: is_option_def)
  show ?thesis
  proof (cases "cs = []")
    case True
    then show ?thesis using last [of oa] Glued by (auto simp: flag_options_def)
  next
    case False
    from scan_flags [OF i(1) n cs(2) i(2) False, of oa] last [of None] show ?thesis using Glued by auto
  qed
next
  case (Separate cs c a)
  then have i: "Suc (length us) < length argv" "argv ! length us = ''-'' @ cs @ [c]" "argv ! Suc (length us) = a"
    using assms(2) by (simp_all add: nth_append)
  then have j: "length us < length argv" by simp
  have cs: "list_all (is_option os False) cs" "is_option os True c" using assms(1) Separate by simp_all
  then have n: "\<not> no_option argv (length us)"
    using option_argument [OF j, of "hd (cs @ [c])" "tl (cs @ [c])"] i(2) by (cases cs) (auto simp: is_option_def)
  have last: "getopt_loop argv os (scan_at (length us) (length (''-'' @ cs)) oa') =
      prepend [(char_int c, Some a)] (getopt_loop argv os (scan_at (length us + 2) 1 (Some a)))" for oa'
    using getopt_loop_step [OF getopt_separate [OF i(1) n, of "''-'' @ cs" c os]] i(2,3) cs by (simp add: is_option_def)
  show ?thesis
  proof (cases "cs = []")
    case True
    then show ?thesis using last [of oa] Separate by (auto simp: flag_options_def)
  next
    case False
    from scan_flags [OF j n cs(1) i(2) False, of oa] last [of None] show ?thesis using Separate by auto
  qed
qed

lemma scan_words:
  assumes "list_all (word_ok os) ws" and "argv = us @ concat (map word_args ws) @ rest"
    and "no_option argv (length us + length (concat (map word_args ws)))"
  shows "\<exists>oa'. getopt_loop argv os (scan_at (length us) 1 oa) =
    Inr (concat (map word_options ws), scan_at (length us + length (concat (map word_args ws))) 1 oa')"
  using assms
proof (induction ws arbitrary: us oa)
  case Nil
  then have "getopt argv os (scan_at (length us) 1 oa) = Inr (EOF, scan_at (length us) 1 oa)"
    by (simp add: getopt_def)
  then show ?case by (subst getopt_loop.simps) simp
next
  case (Cons w ws)
  obtain oa' where w: "getopt_loop argv os (scan_at (length us) 1 oa) =
    prepend (word_options w) (getopt_loop argv os (scan_at (length us + length (word_args w)) 1 oa'))"
    using scan_word [of os w argv us "concat (map word_args ws) @ rest" oa] Cons.prems(1,2) by auto
  have "\<exists>oa''. getopt_loop argv os (scan_at (length (us @ word_args w)) 1 oa') =
    Inr (concat (map word_options ws), scan_at (length (us @ word_args w) + length (concat (map word_args ws))) 1 oa'')"
    by (rule Cons.IH) (use Cons.prems in \<open>simp_all add: add.assoc\<close>)
  then show ?case using w by (auto simp: add.assoc)
qed

section \<open>Properties\<close>

text \<open>
  Whatever the arguments and the options, the loop over \<open>getopt\<close> ends and reads nothing outside the
  arguments.
\<close>
theorem getopt_is_defined: "\<exists>os t. getopt_loop argv optstring getopt_start = Inr (os, t)"
  using getopt_loop_ok [of argv getopt_start optstring] by (auto simp: scanner_ok_def getopt_start_def)

text \<open>
  C40: the options of a command line are read in order. Whatever way they are put together in
  arguments, the loop over \<open>getopt\<close> returns each with its parameter and leaves \<open>optind\<close> on the first
  argument that is none.
\<close>
theorem options_are_read:
  assumes "list_all (word_ok optstring) ws"
    and "rest = [] \<or> take 1 (hd rest) \<noteq> ''-'' \<or> hd rest = ''-'' \<or> hd rest = ''--''"
  shows "\<exists>t. getopt_loop (argv0 # concat (map word_args ws) @ rest) optstring getopt_start =
      Inr (concat (map word_options ws), t) \<and>
    drop (optind t) (argv0 # concat (map word_args ws) @ rest) = rest"
proof -
  let ?argv = "[argv0] @ concat (map word_args ws) @ rest"
  have "no_option ?argv (length [argv0] + length (concat (map word_args ws)))"
    using assms(2) by (cases rest) (auto simp: no_option_def nth_append)
  from scan_words [OF assms(1) refl this, of None] show ?thesis by (auto simp: getopt_start_def)
qed

theorem options_are_read_witness:
  "\<exists>t. getopt_loop [''ivyprobe'', ''-sb'', ''10:2010'', ''-nme'', ''-v'', ''^a'', ''-v''] ''vn:d:b:w:t:sf:c:'' getopt_start =
     Inr ([(115, None), (98, Some ''10:2010''), (110, Some ''me''), (118, None)], t) \<and>
    drop (optind t) [''ivyprobe'', ''-sb'', ''10:2010'', ''-nme'', ''-v'', ''^a'', ''-v''] = [''^a'', ''-v'']"
proof -
  let ?ws = "[Separate ''s'' CHR ''b'' ''10:2010'', Glued [] CHR ''n'' ''me'', Flags ''v'']"
  have "list_all (word_ok ''vn:d:b:w:t:sf:c:'') ?ws"
    by (simp add: is_option_def strchr_def char_int_def EOF_def)
  moreover have "concat (map word_options ?ws) = [(115, None), (98, Some ''10:2010''), (110, Some ''me''), (118, None)]"
    by (simp add: flag_options_def char_int_def)
  ultimately show ?thesis using options_are_read [of "''vn:d:b:w:t:sf:c:''" ?ws "[''^a'', ''-v'']" "''ivyprobe''"]
    by (simp del: word_options.simps)
qed

end
