(* ===== verification/Spec2Isabelle.thy ===== *)
theory Spec2Isabelle
  imports IvyCache IvyPubSub IvyReady IvyTable IvyToolkit IvyProbe IvyTcl IvyUpdates IvyPerf IvyExamples IvyFifoTest IvyGetopt
begin

text \<open>
  Ivy-C is the C library of the Ivy software bus. An application subscribes to regular
  expressions; every other application of the bus keeps the subscriptions of its peers, matches
  each message it sends against them, and sends the captured groups to the peers that match.
  Applications find each other by broadcasting a line on UDP, then talk over one TCP connection
  per pair, in lines \<open>type id\<close>, \<open>ARG_START\<close>, text.

  THE PARTS AND THE THEORIES (sources under \<open>src/src\<close>)

  \<^item> \<open>IvyPrelude\<close>, \<open>Posix\<close>, \<open>CText\<close>: undefined behaviour as \<open>Inl\<close> of a value of \<open>ub\<close>, fixed-width
    arithmetic with the wrap-around written out, blocks of bytes; what \<open>send\<close> may answer; the
    text routines of the C library (\<open>printf\<close> and \<open>sscanf\<close> of integers, \<open>strstr\<close>, \<open>strrchr\<close>).
  \<^item> \<open>IvyList\<close> (\<open>list.h\<close>): the list macros on an explicit heap, refined to list operations, and
    the traversal with a saved successor, which fails when the body frees the saved node.
  \<^item> \<open>IvyFifo\<close> (\<open>ivyfifo.c\<close>): the circular buffer of a congested client, refined to a byte list;
    the interface \<open>byte_queue\<close> is interpreted on it.
  \<^item> \<open>IvyBuffer\<close> (\<open>ivybuffer.c\<close>): the growing buffer of \<open>make_message\<close>.
  \<^item> \<open>IvyLoop\<close> (\<open>ivyloop.c\<close>): channels, the two descriptor sets, deferred deletion, dispatch, the
    main loop over the answers of \<open>select\<close>. Its interfaces are \<open>loop_client\<close> (handlers that leave
    the table alone) and \<open>handler_contract\<close> (what every handler keeps, the loop keeps).
  \<^item> \<open>IvyTimer\<close> (\<open>timer.c\<close>): timers, the timeout of \<open>select\<close>, the scan; interface \<open>timer_client\<close>.
  \<^item> \<open>IvyBind\<close> (\<open>ivybind.c\<close>): bindings over a regular expression engine that is a parameter
    (\<open>regex_engine\<close>), and the filter of subscriptions.
  \<^item> \<open>IvyInterval\<close> (\<open>intervalRegexp.c\<close> and \<open>substituteInterval\<close>): patterns for integer intervals.
  \<^item> \<open>IvySocket\<close> (\<open>ivysocket.c\<close>): clients, servers, emission through the kernel or the FIFO,
    reception in lines. What \<open>accept\<close>, \<open>connect\<close>, \<open>recvfrom\<close> and \<open>send\<close> answer are scripts in the
    state. The interface \<open>line_client\<close> is the interpretation function of a client.
  \<^item> \<open>IvyDict\<close> and \<open>IvyCore\<close> (\<open>ivy.c\<close>): the peers and the dictionary of their subscriptions, the
    sending of messages, \<open>Receive\<close> with one definition per kind of message, the handshake, the
    calls of the application, the handlers given to the loop. Callbacks are recorded in \<open>events\<close>.
    The dictionary implements the interface \<open>subscription_table\<close>.
  \<^item> \<open>IvyStart\<close> (the end of \<open>ivy.c\<close>): the bus address list, the announcement, \<open>IvyStart\<close>.
  \<^item> \<open>IvyHash\<close> (\<open>uthash.h\<close>): the hash table under the dictionary, as handles in memory: the insertion
    list, the chains of the buckets, the Jenkins hash on 32-bit words, the doubling of the buckets.
    The interface \<open>key_table\<close> is interpreted on it.
  \<^item> \<open>IvyTable\<close>: the operations of the dictionary (\<open>ivy.c\<close>) run on that table, with the blocks of the
    entries allocated and freed, and the loops that delete the entry they stand on.
  \<^item> \<open>IvyCache\<close> (the OpenMP build of \<open>ivy.c\<close>): the array of entries \<open>IvySendMsg\<close> divides among its
    threads.
  \<^item> \<open>IvyApp\<close> (\<open>ivy.c\<close>): the host of an application, the default callbacks, \<open>IvyTerminate\<close>.
  \<^item> \<open>IvyToolkit\<close> (\<open>ivyxtloop.c\<close>, \<open>ivyglibloop.c\<close>, \<open>ivyglutloop.c\<close>, the channels of \<open>ivytcl.c\<close>): the
    channel modules the library is built with instead of \<open>ivyloop.c\<close>. The toolkits are arguments.
  \<^item> \<open>IvyTcl\<close> (\<open>ivytcl.c\<close>): the commands of the Tcl package, its tables of subscriptions and the
    blocks in which it builds scripts. The interpreter is an argument.
  \<^item> \<open>IvyProbe\<close>, \<open>IvyTestready\<close>, \<open>IvyGetopt\<close> (\<open>ivyprobe.c\<close>, \<open>ivytestready.c\<close>, \<open>getopt.c\<close> under
    \<open>src/tools\<close>): the command line program over the calls of the library with its commands, callbacks
    and options, the test of the ready message, and the scanner of command lines.
  \<^item> \<open>IvyThroughput\<close>, \<open>IvyPerf\<close> (\<open>ivythroughput.cpp\<close>, \<open>ivyperf.c\<close> under \<open>src/tools\<close>): the emitter and the
    receivers of the throughput, memory leak and disconnection tests; the measure of round trips, with
    \<open>double\<close> as real numbers that are rounded after each operation by an argument.
  \<^item> \<open>IvyExamples\<close>, \<open>IvyFifoTest\<close> (\<open>src/examples\<close>, the end of \<open>ivyfifo.c\<close>): the two buttons, the test of
    unbinding, and the test of the FIFO.

  WHAT THE LEMMAS SHOW

  \<^item> \<open>IvyProtocol\<close>: reception. What is interpreted is exactly the lines of the stream, in order, however
    it was cut (\<open>interpreted\<close> in \<open>IvySocket\<close>: calls of the interpretation function, and nothing else but
    reception between them); \<open>Receive\<close> inverts the format of what is sent; the arguments reach the callback.
  \<^item> \<open>IvyDelivery\<close>: \<open>IvySendMsg\<close> from the dictionary to the streams of the peers, and a message
    from one application to another.
  \<^item> \<open>IvyBus\<close>: two applications. What one of them publishes becomes the callbacks of the other, and
    what it announces on a new connection becomes the subscriptions the other one keeps for it.
  \<^item> \<open>IvyPubSub\<close>: from the bindings of one application to the calls of its callbacks: the announcement,
    its reading, a message, and its reading.
  \<^item> \<open>IvyMeeting\<close>: two applications that do not know each other. The line one of them broadcasts is
    heard by the other, which connects to the announced port; both send their bindings, and once each
    has read what the other sent, each knows the name, the port and the bindings of the other.
  \<^item> \<open>IvyUpdates\<close>: a peer that follows any sequence of subscriptions and withdrawals, and the memory
    leak test from both ends.
  \<^item> \<open>IvyExchange\<close>: one line from one application to the other: direct messages, a ping and its pong,
    and \<open>Die\<close>, after which the other one has taken leave of everybody.
  \<^item> \<open>IvyHash\<close>: the invariant \<open>holds\<close> relates the memory to a list of keys; adding, deleting and
    doubling keep it, and finding answers what the dictionary of \<open>IvyDict\<close> answers. \<open>IvyTable\<close>: any
    sequence of operations on the table leaves what the operations of \<open>IvyDict\<close> leave in their list, and
    no freed block is read.
  \<^item> \<open>IvyCache\<close>: the cache lists the table, and when it does not.
  \<^item> \<open>IvyInvariant\<close>: the invariant \<open>core_inv\<close> of peers, sockets and dictionary, kept by every step
    of the protocol, every handler and every call of the application, hence in every reachable
    state (\<open>reachable\<close>: turns of the loop and calls in any order).
  \<^item> \<open>IvySubscriptions\<close>: \<open>subs\<close> abstracts the dictionary to a set of pattern, socket, id; the
    messages of the protocol are set operations on it.
  \<^item> \<open>IvySession\<close>: what the handshake, a binding and a malformed line send. \<open>IvyReady\<close>: the counter of
    a peer over any sequence of its lines, and the ready message, which is sent once.
  \<^item> \<open>IvyRun\<close>: the loop and the timers on the state of the core: what was closed is freed, where no
    peer has two patterns under one id, and the timers fire and are rearmed or dropped.
  \<^item> \<open>IvyStart\<close>: the parser of the bus, the announcement as a round trip.
  \<^item> \<open>IvyToolkit\<close>: the watches of a channel from its addition, through any number of congestions, to its
    removal, which forgets the watch for writing of a congested one; what freeing a client at once does to the code that
    runs on it. \<open>IvyTcl\<close>: binding and unbinding, the sizes of the blocks for scripts.
  \<^item> \<open>IvyProbe\<close>: what a typed line, \<open>.dieall-yes-i-am-sure\<close> and a file of patterns do on the bus.
    \<open>IvyTestready\<close>: what the two sides listen to and answer. \<open>IvyGetopt\<close>: the options of a command
    line are read in order, and nothing outside it. \<open>IvyThroughput\<close>: what a sequence and a cycle of the
    leak test send, and when the emitter starts. \<open>IvyPerf\<close>: the filter lets its own patterns through, and
    the measures are those of all round trips, with exact arithmetic. \<open>IvyExamples\<close>: the text of a button
    is a format; the test of unbinding withdraws its own binding.
  \<^item> The component theories prove the FIFO, buffer, timer, filter and interval properties.

  Several properties state what the code does where it goes wrong: unchecked arrays, a \<open>send\<close> that
  answers -1 while the FIFO is emptied (the socket congests again), dangling nodes after \<open>IvyChangeMsg\<close> or an exceptional condition, the
  unsigned loops of the interval patterns.

  BOUNDS AND FUEL

  No fuel is used. \<open>send\<close> and \<open>select\<close> answer from finite scripts, and block or take everything
  when a script ends. \<open>IvyFifoSendSocket\<close> and the list traversals are \<open>partial_function\<close>s, shown
  to return; the loops of \<open>nextMax\<close> end because each turn moves towards the end of an array of
  32 bytes. Messages are below the FIFO limit of 32 MiB and sizes below \<open>2 ^ 31\<close>. Shifting a set
  bit into the sign bit of an \<open>int\<close> (\<open>0xff << 24\<close>) is read as the 32 bits the compilers produce.

  NOT MODELLED

  The contents of PCRE, of Tcl and of the toolkits, which are arguments; the WIN32 and GNU regex
  branches and the traces; the threads of the OpenMP build. The macros of \<open>uthash.h\<close> the library does
  not use (other hash functions, sorting, selecting, the Bloom filter, the checks of its debug build).
  Process numbers, signals and waiting in \<open>ivythroughput.cpp\<close>, the windows of the examples, and the
  programs in other languages under \<open>src/examples\<close>.
  \<open>substituteInterval\<close> replaces the block of its static buffer without updating the recorded size;
  the model passes text and does not follow that size. Allocation does not fail, and joining a
  multicast group in \<open>IvyStart\<close> does not either. Callbacks do not call
  the library back, except the scripts of the Tcl binding. \<open>Receive\<close> works on the list of entries; \<open>IvyTable\<close>
  shows that the table holds it after each operation. No IEEE arithmetic.

  WHAT IS LEFT

  The bound on the chains of the buckets; an invariant of the tables of the Tcl binding; the whole
  life of two applications as one statement: \<open>IvyMeeting\<close>, \<open>IvyPubSub\<close>, \<open>IvyUpdates\<close> and \<open>IvyExchange\<close>
  show its parts, each from the states the one before it may leave.
\<close>

end
